(* ===== verification/Prelude.thy ===== *)
theory Prelude
  imports Main "HOL-Library.Word" "HOL-Library.Monad_Syntax" "HOL-Library.Multiset"
begin

text \<open>
  Shared vocabulary of the development.
  \<^item> The C integer types \<open>u8\<close> .. \<open>u64\<close> of \<^verbatim>\<open>include/types.h\<close> as words; all arithmetic on them
    wraps as in C.
  \<^item> Byte buffers (\<open>u8 *\<close>) as lists of bytes. A read or write outside the buffer is undefined
    behaviour in C; here it is \<open>None\<close>, so every theorem that says \<open>\<dots> = Some \<dots>\<close> is also a
    memory-safety statement.
  \<^item> The casts \<open>(u64 *)mem\<close> and \<open>(u32 *)mem\<close> of a little-endian machine: \<open>load_word nb m k\<close> is
    \<open>((uN *)m)[k]\<close> with \<open>nb\<close> bytes per word.
  \<^item> The pointer walk \<open>while (i--) { *p = f(*p); p++; }\<close> as \<open>words_upd\<close>.
  \<^item> C's \<open>qsort\<close> as an interface (locale \<open>c_qsort\<close>): the order of equal elements is unspecified, so
    the clients take the sorting routine as an argument and rely on the interface only.
  \<^item> \<open>wp m Q\<close>: the program \<open>m\<close> returns and its result satisfies \<open>Q\<close>, with one rule for each way of composing programs.
\<close>

unbundle bit_operations_syntax

named_theorems mem_simps \<open>reads and writes of byte buffers in split form\<close>

type_synonym u8 = "8 word"
type_synonym u16 = "16 word"
type_synonym u32 = "32 word"
type_synonym u64 = "64 word"
type_synonym mem = "u8 list"

text \<open>The largest input the fuzzer handles (\<open>config.h\<close>).\<close>

definition MAX_FILE :: nat where "MAX_FILE = 1024 * 1024"

text \<open>How a run of the target ended (\<open>forkserver.h\<close>).\<close>

datatype fault = FSRV_RUN_OK | FSRV_RUN_TMOUT | FSRV_RUN_CRASH | FSRV_RUN_ERROR | FSRV_RUN_NOINST | FSRV_RUN_NOBITS

section \<open>Byte access\<close>

definition load8 :: "'a list \<Rightarrow> nat \<Rightarrow> 'a option" where
  "load8 m i = (if i < length m then Some (m ! i) else None)"

definition store8 :: "'a list \<Rightarrow> nat \<Rightarrow> 'a \<Rightarrow> 'a list option" where
  "store8 m i v = (if i < length m then Some (m[i := v]) else None)"

lemma load8_Some [simp]: "i < length m \<Longrightarrow> load8 m i = Some (m ! i)"
  by (simp add: load8_def)

lemma store8_Some [simp]: "i < length m \<Longrightarrow> store8 m i v = Some (m[i := v])"
  by (simp add: store8_def)

lemma load8_append [mem_simps]: "load8 (xs @ x # ys) (length xs) = Some x"
  by (simp add: load8_def)

lemma store8_append [mem_simps]: "store8 (xs @ x # ys) (length xs) v = Some (xs @ v # ys)"
  by (simp add: store8_def list_update_append)

section \<open>Little-endian words\<close>

definition le_word :: "u8 list \<Rightarrow> 'w::len word" where
  "le_word bs = foldr (\<lambda>b w. push_bit 8 w OR ucast b) bs 0"

definition le_bytes :: "nat \<Rightarrow> 'w::len word \<Rightarrow> u8 list" where
  "le_bytes nb w = map (\<lambda>i. ucast (drop_bit (8 * i) w)) [0..<nb]"

lemma length_le_bytes [simp]: "length (le_bytes nb w) = nb"
  by (simp add: le_bytes_def)

lemma le_word_Nil [simp]: "le_word [] = 0"
  by (simp add: le_word_def)

lemma le_word_Cons: "le_word (b # bs) = push_bit 8 (le_word bs) OR ucast b"
  by (simp add: le_word_def)

lemma bit_le_word:
  "bit (le_word bs :: 'w::len word) i
     \<longleftrightarrow> i < LENGTH('w) \<and> i < 8 * length bs \<and> bit (bs ! (i div 8)) (i mod 8)"
proof (induction bs arbitrary: i)
  case Nil
  then show ?case by simp
next
  case (Cons b bs)
  show ?case
  proof (cases "i < 8")
    case True
    then show ?thesis
      by (auto simp: le_word_Cons bit_simps Cons)
  next
    case False
    then have "i div 8 = Suc ((i - 8) div 8)" and "(i - 8) mod 8 = i mod 8"
      by (simp_all add: le_div_geq le_mod_geq)
    with False show ?thesis
      by (auto simp: le_word_Cons bit_simps Cons dest: bit_imp_le_length)
  qed
qed

lemma nth_le_bytes: "k < nb \<Longrightarrow> le_bytes nb w ! k = ucast (drop_bit (8 * k) w)"
  by (simp add: le_bytes_def)

lemma bit_nth_le_bytes:
  fixes w :: "'w::len word"
  shows "k < nb \<Longrightarrow> bit (le_bytes nb w ! k) i \<longleftrightarrow> i < 8 \<and> bit w (8 * k + i)"
  by (auto simp: nth_le_bytes bit_simps dest: bit_imp_le_length)

lemma le_bytes_le_word [simp]:
  assumes "LENGTH('w::len) = 8 * nb" and "length bs = nb"
  shows "le_bytes nb (le_word bs :: 'w word) = bs"
proof (rule nth_equalityI)
  show "length (le_bytes nb (le_word bs :: 'w word)) = length bs"
    using assms by simp
next
  fix k assume "k < length (le_bytes nb (le_word bs :: 'w word))"
  then have k: "k < nb" by simp
  show "le_bytes nb (le_word bs :: 'w word) ! k = bs ! k"
  proof (rule bit_word_eqI)
    fix i assume "i < LENGTH(8)"
    with k assms show "bit (le_bytes nb (le_word bs :: 'w word) ! k) i = bit (bs ! k) i"
      by (simp add: bit_nth_le_bytes bit_le_word)
  qed
qed

lemma le_word_le_bytes [simp]:
  fixes w :: "'w::len word"
  assumes "LENGTH('w) = 8 * nb"
  shows "le_word (le_bytes nb w) = w"
proof (rule bit_word_eqI)
  fix i assume i: "i < LENGTH('w)"
  then have "i div 8 < nb" using assms by (simp add: less_mult_imp_div_less mult.commute)
  with i assms show "bit (le_word (le_bytes nb w) :: 'w word) i = bit w i"
    by (simp add: bit_le_word bit_nth_le_bytes)
qed

lemma le_word_inject:
  assumes "LENGTH('w::len) = 8 * nb" and "length xs = nb" and "length ys = nb"
  shows "(le_word xs :: 'w word) = le_word ys \<longleftrightarrow> xs = ys"
  using le_bytes_le_word [OF assms(1,2)] le_bytes_le_word [OF assms(1,3)] by metis

lemma le_word_map2_and:
  assumes "length xs = length ys"
  shows "(le_word xs AND le_word ys :: 'w::len word) = le_word (map2 (AND) xs ys)"
  using assms by (intro bit_word_eqI) (auto simp: bit_le_word bit_simps less_mult_imp_div_less mult.commute)

lemma le_word_map2_and_not:
  assumes "length xs = length ys"
  shows "(le_word xs AND NOT (le_word ys) :: 'w::len word) = le_word (map2 (\<lambda>x y. x AND NOT y) xs ys)"
  using assms by (intro bit_word_eqI) (auto simp: bit_le_word bit_simps less_mult_imp_div_less mult.commute)

lemma le_word_eq_0_iff:
  assumes "LENGTH('w::len) = 8 * nb" and "length bs = nb"
  shows "(le_word bs :: 'w word) = 0 \<longleftrightarrow> (\<forall>b\<in>set bs. b = 0)"
proof
  assume z: "(le_word bs :: 'w word) = 0"
  have "bs = le_bytes nb (le_word bs :: 'w word)"
    using assms by simp
  then have "bs = le_bytes nb (0 :: 'w word)"
    unfolding z .
  then show "\<forall>b\<in>set bs. b = 0"
    by (auto simp: le_bytes_def)
next
  assume "\<forall>b\<in>set bs. b = 0"
  then show "(le_word bs :: 'w word) = 0"
    by (induction bs) (auto simp: le_word_Cons)
qed

section \<open>Word access to byte buffers\<close>

definition load_word :: "nat \<Rightarrow> mem \<Rightarrow> nat \<Rightarrow> 'w::len word option" where
  "load_word nb m k =
     (if nb * k + nb \<le> length m then Some (le_word (take nb (drop (nb * k) m))) else None)"

definition store_word :: "nat \<Rightarrow> mem \<Rightarrow> nat \<Rightarrow> 'w::len word \<Rightarrow> mem option" where
  "store_word nb m k w =
     (if nb * k + nb \<le> length m
      then Some (take (nb * k) m @ le_bytes nb w @ drop (nb * k + nb) m) else None)"

lemma load_word_append [mem_simps]:
  "length pre = nb * k \<Longrightarrow> length bs = nb \<Longrightarrow> load_word nb (pre @ bs @ rest) k = Some (le_word bs)"
  by (simp add: load_word_def)

lemma store_word_append [mem_simps]:
  "length pre = nb * k \<Longrightarrow> length bs = nb \<Longrightarrow>
     store_word nb (pre @ bs @ rest) k w = Some (pre @ le_bytes nb w @ rest)"
  by (simp add: store_word_def)

text \<open>The loop \<open>while (i--) { *p = f(*p); p++; }\<close> over a buffer seen as words of \<open>nb\<close> bytes.\<close>

fun words_upd :: "nat \<Rightarrow> ('w::len word \<Rightarrow> 'w word) \<Rightarrow> mem \<Rightarrow> nat \<Rightarrow> nat \<Rightarrow> mem option" where
  "words_upd nb f m p 0 = Some m"
| "words_upd nb f m p (Suc i) = do {
     w \<leftarrow> load_word nb m p;
     m' \<leftarrow> store_word nb m p (f w);
     words_upd nb f m' (Suc p) i }"

lemma words_upd_bytewise:
  assumes "LENGTH('w::len) = 8 * nb"
    and f: "\<And>bs. length bs = nb \<Longrightarrow> f (le_word bs :: 'w word) = le_word (map g bs)"
    and "length pre = nb * p" and "length body = nb * i"
  shows "words_upd nb f (pre @ body @ rest) p i = Some (pre @ map g body @ rest)"
  using assms(3,4)
proof (induction i arbitrary: p pre body)
  case 0
  then show ?case by simp
next
  case (Suc i)
  define b1 where "b1 = take nb body"
  define b2 where "b2 = drop nb body"
  have body: "body = b1 @ b2" and len: "length b1 = nb" "length b2 = nb * i"
    using Suc.prems by (simp_all add: b1_def b2_def)
  have "words_upd nb f ((pre @ map g b1) @ b2 @ rest) (Suc p) i
          = Some ((pre @ map g b1) @ map g b2 @ rest)"
    by (rule Suc.IH) (use len Suc.prems in simp_all)
  then show ?case
    using Suc.prems len assms(1) by (simp add: body mem_simps f)
qed

lemma words_upd_prefix:
  assumes "LENGTH('w::len) = 8 * nb"
    and "\<And>bs. length bs = nb \<Longrightarrow> f (le_word bs :: 'w word) = le_word (map g bs)"
    and "nb * i \<le> length m"
  shows "words_upd nb f m 0 i = Some (map g (take (nb * i) m) @ drop (nb * i) m)"
  using words_upd_bytewise [OF assms(1,2), where pre = "[]" and p = 0
      and body = "take (nb * i) m" and rest = "drop (nb * i) m" and i = i] assms(3)
  by simp

section \<open>Generic lemmas\<close>

lemma fold_fun_upd_in:
  assumes "\<forall>x\<in>set xs. k x = y \<longrightarrow> v x = c" and "t y = c \<or> (\<exists>x\<in>set xs. k x = y)"
  shows "fold (\<lambda>x t. t(k x := v x)) xs t y = c"
  using assms by (induction xs arbitrary: t) auto

lemma fold_fold_product:
  "fold (\<lambda>a. fold (f a) ys) xs t = fold (\<lambda>(a, b). f a b) (List.product xs ys) t"
  by (induction xs arbitrary: t) (simp_all add: fold_map comp_def)

lemma u8_and_255 [simp]: "(b :: u8) AND 255 = b"
proof -
  have "(255 :: u8) = - 1" by simp
  then show ?thesis by (simp only: and.right_neutral)
qed

lemma max_u8_simps [simp]: "max 0 (x::u8) = x" "max x (0::u8) = x"
  by (simp_all add: max_def)

lemma and_not_id: 
  assumes "v AND c = 0" shows "v AND NOT c = (v :: 'a::len word)"
proof (rule bit_word_eqI)
  fix n assume "n < LENGTH('a)"
  moreover have "\<not> bit (v AND c) n" unfolding assms by simp
  ultimately show "bit (v AND NOT c) n = bit v n" by (auto simp: bit_simps)
qed

lemma those_map_Some: "(\<And>x. x \<in> set xs \<Longrightarrow> f x = Some (g x)) \<Longrightarrow> those (map f xs) = Some (map g xs)"
  by (induction xs) auto

lemma sum_list_of_bool: "sum_list (map (\<lambda>x. of_bool (P x)) xs) = length (filter P xs)"
  by (induction xs) auto

lemma drop_bit_3_unat: "unat (drop_bit 3 (w :: u32)) = unat w div 8"
  by (subst unat_drop_bit_eq) (simp add: drop_bit_eq_div)

lemma drop_bit_2_unat: "unat (drop_bit 2 (w :: u32)) = unat w div 4"
  by (subst unat_drop_bit_eq) (simp add: drop_bit_eq_div)

lemma take_map_append: "k \<le> n \<Longrightarrow> n \<le> length xs \<Longrightarrow> take k (map f (take n xs) @ drop n xs) = map f (take k xs)"
  by (simp add: take_map min_def)

lemma count_list_update:
  "i < length xs \<Longrightarrow> count_list (xs[i := v]) x + of_bool (xs ! i = x) = count_list xs x + of_bool (v = x)"
proof (induction xs arbitrary: i)
  case (Cons y ys)
  then show ?case by (cases i) fastforce+
qed simp

lemma count_list_pos: "i < length xs \<Longrightarrow> 0 < count_list xs (xs ! i)"
  by (metis count_list_0_iff nth_mem neq0_conv)

section \<open>C's \<open>qsort\<close>\<close>

text \<open>The laws of \<open>qsort\<close> for a comparison function that orders the elements at hand by an integer key: the result is
  a permutation, ascending in the key. Nothing is said about the order of elements with equal keys.\<close>

locale c_qsort =
  fixes qsort :: "('a \<Rightarrow> 'a \<Rightarrow> int) \<Rightarrow> 'a list \<Rightarrow> 'a list"
  assumes qsort_mset:
      "(\<And>x y. x \<in> set xs \<Longrightarrow> y \<in> set xs \<Longrightarrow> sgn (cmp x y) = sgn (key x - key y :: int))
         \<Longrightarrow> mset (qsort cmp xs) = mset xs"
    and qsort_sorted:
      "(\<And>x y. x \<in> set xs \<Longrightarrow> y \<in> set xs \<Longrightarrow> sgn (cmp x y) = sgn (key x - key y :: int))
         \<Longrightarrow> sorted (map key (qsort cmp xs))"
begin

lemma qsort_set:
  assumes "\<And>x y. x \<in> set xs \<Longrightarrow> y \<in> set xs \<Longrightarrow> sgn (cmp x y) = sgn (key x - key y :: int)"
  shows "set (qsort cmp xs) = set xs"
  using mset_eq_setD [OF qsort_mset [of xs cmp key]] assms by blast

lemma qsort_length:
  assumes "\<And>x y. x \<in> set xs \<Longrightarrow> y \<in> set xs \<Longrightarrow> sgn (cmp x y) = sgn (key x - key y :: int)"
  shows "length (qsort cmp xs) = length xs"
  using mset_eq_length [OF qsort_mset [of xs cmp key]] assms by blast

lemma qsort_distinct:
  assumes "\<And>x y. x \<in> set xs \<Longrightarrow> y \<in> set xs \<Longrightarrow> sgn (cmp x y) = sgn (key x - key y :: int)"
  shows "distinct (map f (qsort cmp xs)) \<longleftrightarrow> distinct (map f xs)"
proof -
  have "mset (qsort cmp xs) = mset xs" using qsort_mset [of xs cmp key] assms by blast
  then have "mset (map f (qsort cmp xs)) = mset (map f xs)" by simp
  then show ?thesis by (rule mset_eq_imp_distinct_iff)
qed

end

text \<open>An implementation: insertion sort by the comparison function.\<close>

primrec insert_by :: "('a \<Rightarrow> 'a \<Rightarrow> int) \<Rightarrow> 'a \<Rightarrow> 'a list \<Rightarrow> 'a list" where
  "insert_by cmp x [] = [x]"
| "insert_by cmp x (y # ys) = (if cmp x y \<le> 0 then x # y # ys else y # insert_by cmp x ys)"

definition isort_by :: "('a \<Rightarrow> 'a \<Rightarrow> int) \<Rightarrow> 'a list \<Rightarrow> 'a list" where
  "isort_by cmp xs = foldr (insert_by cmp) xs []"

lemma mset_insert_by: "mset (insert_by cmp x ys) = add_mset x (mset ys)"
  by (induction ys) auto

lemma mset_isort_by: "mset (isort_by cmp xs) = mset xs"
  by (induction xs) (simp_all add: isort_by_def mset_insert_by)

lemma sorted_insert_by:
  assumes "\<And>x y. x \<in> S \<Longrightarrow> y \<in> S \<Longrightarrow> sgn (cmp x y) = sgn (key x - key y :: int)" and "x \<in> S" and "set ys \<subseteq> S"
    and "sorted (map key ys)"
  shows "sorted (map key (insert_by cmp x ys))"
  using assms(3,4)
proof (induction ys)
  case Nil
  then show ?case by simp
next
  case (Cons y ys)
  have le: "cmp x y \<le> 0 \<longleftrightarrow> key x \<le> key y"
    using assms(1) [OF assms(2), of y] Cons.prems(1) by (auto simp: sgn_if split: if_splits)
  have "set (insert_by cmp x ys) = insert x (set ys)"
    using arg_cong [OF mset_insert_by, of set_mset cmp x ys] by simp
  with Cons le show ?case by auto
qed

lemma sorted_isort_by:
  assumes "\<And>x y. x \<in> set xs \<Longrightarrow> y \<in> set xs \<Longrightarrow> sgn (cmp x y) = sgn (key x - key y :: int)"
  shows "sorted (map key (isort_by cmp xs))"
proof -
  have "set ys \<subseteq> set xs \<Longrightarrow> sorted (map key (isort_by cmp ys))" for ys
  proof (induction ys)
    case Nil
    then show ?case by (simp add: isort_by_def)
  next
    case (Cons y ys)
    have "set (isort_by cmp ys) = set ys"
      using arg_cong [OF mset_isort_by, of set_mset cmp ys] by simp
    with Cons sorted_insert_by [of "set xs" cmp key y "isort_by cmp ys", OF assms] show ?case
      by (simp add: isort_by_def)
  qed
  then show ?thesis by simp
qed

interpretation isort: c_qsort isort_by
  by unfold_locales (simp_all add: mset_isort_by sorted_isort_by)

text \<open>\<open>n\<close> bytes of a buffer.\<close>

definition read_block :: "mem \<Rightarrow> nat \<Rightarrow> nat \<Rightarrow> mem option" where
  "read_block m off n = (if off + n \<le> length m then Some (take n (drop off m)) else None)"

text \<open>\<open>memcpy(m + off, bs, \<dots>)\<close>\<close>

definition memcpy_at :: "mem \<Rightarrow> nat \<Rightarrow> mem \<Rightarrow> mem option" where
  "memcpy_at m off bs = (if off + length bs \<le> length m then Some (take off m @ bs @ drop (off + length bs) m) else None)"

definition upd_at :: "mem \<Rightarrow> nat \<Rightarrow> mem \<Rightarrow> mem" where
  "upd_at m off bs = take off m @ bs @ drop (off + length bs) m"

lemma length_upd_at [simp]: "off + length bs \<le> length m \<Longrightarrow> length (upd_at m off bs) = length m"
  by (simp add: upd_at_def)

lemma memcpy_at_upd: "off + length bs \<le> length m \<Longrightarrow> memcpy_at m off bs = Some (upd_at m off bs)"
  by (simp add: memcpy_at_def upd_at_def)

section \<open>Programs that return\<close>

definition wp :: "'a option \<Rightarrow> ('a \<Rightarrow> bool) \<Rightarrow> bool" where
  "wp r Q \<longleftrightarrow> (case r of None \<Rightarrow> False | Some x \<Rightarrow> Q x)"

lemma wp_Some [simp]: "wp (Some x) Q = Q x"
  by (simp add: wp_def)

lemma wp_bind [simp]: "wp (Option.bind r f) Q = wp r (\<lambda>x. wp (f x) Q)"
  by (cases r) (simp_all add: wp_def)

lemma wp_case_prod [simp]: "wp (case x of (a, b) \<Rightarrow> f a b) Q = (case x of (a, b) \<Rightarrow> wp (f a b) Q)"
  by (cases x) simp

lemma wp_map_option [simp]: "wp (map_option f r) Q = wp r (\<lambda>x. Q (f x))"
  by (cases r) (simp_all add: wp_def)

lemma wp_if: "(b \<Longrightarrow> wp r Q) \<Longrightarrow> (\<not> b \<Longrightarrow> wp t Q) \<Longrightarrow> wp (if b then r else t) Q"
  by simp

lemma wp_mono: "wp r Q \<Longrightarrow> (\<And>x. Q x \<Longrightarrow> R x) \<Longrightarrow> wp r R"
  by (cases r) (auto simp: wp_def)

lemma wp_iff: "wp r Q \<longleftrightarrow> (\<exists>x. r = Some x \<and> Q x)"
  by (cases r) (simp_all add: wp_def)

lemma wp_load8: "i < length m \<Longrightarrow> Q (m ! i) \<Longrightarrow> wp (load8 m i) Q"
  by simp

lemma wp_read_block: "off + n \<le> length m \<Longrightarrow> Q (take n (drop off m)) \<Longrightarrow> wp (read_block m off n) Q"
  by (simp add: read_block_def)

lemma wp_memcpy_at: "off + length bs \<le> length m \<Longrightarrow> Q (upd_at m off bs) \<Longrightarrow> wp (memcpy_at m off bs) Q"
  by (simp add: memcpy_at_upd)

end
