(* ===== verification/Base64.thy ===== *)
theory Base64
  imports Prelude
begin

text \<open>
  The base64 routines of the input-to-state stage (\<^verbatim>\<open>src/afl-fuzz-redqueen.c\<close>). An access outside a buffer or table is \<open>None\<close>.
\<close>

unbundle bit_operations_syntax

section \<open>Model\<close>

definition base64_encode_table :: "u8 list" where
  "base64_encode_table = map (\<lambda>c. word_of_nat (of_char c)) ''ABCDEFGHIJKLMNOPQRSTUVWXYZabcdefghijklmnopqrstuvwxyz0123456789+/''"

definition base64_decode_table :: "u8 list" where
  "base64_decode_table = [
    62, 0,  0,  0,  63, 52, 53, 54, 55, 56, 57, 58, 59, 60, 61, 0,
    0,  0,  0,  0,  0,  0,  0,  1,  2,  3,  4,  5,  6,  7,  8,  9,
    10, 11, 12, 13, 14, 15, 16, 17, 18, 19, 20, 21, 22, 23, 24, 25,
    0,  0,  0,  0,  0,  0,  26, 27, 28, 29, 30, 31, 32, 33, 34, 35,
    36, 37, 38, 39, 40, 41, 42, 43, 44, 45, 46, 47, 48, 49, 50, 51]"

definition is_base64_char :: "u8 \<Rightarrow> bool" where
  "is_base64_char c \<longleftrightarrow> 0x30 \<le> c \<and> c \<le> 0x39 \<or> 0x41 \<le> c \<and> c \<le> 0x5A \<or> 0x61 \<le> c \<and> c \<le> 0x7A \<or> c = 0x2B \<or> c = 0x2F \<or> c = 0x3D"

definition is_base64 :: "mem \<Rightarrow> bool option" where
  "is_base64 str = map_option (list_all is_base64_char) (read_block str 0 4)"

text \<open>\<open>base64_decode_table[c - 43]\<close>\<close>

definition decode_char :: "u8 \<Rightarrow> u32 option" where
  "decode_char c = (if c < 43 then None else map_option ucast (load8 base64_decode_table (unat (c - 43))))"

text \<open>\<open>v << 6 | d\<close>, where \<open>d\<close> is 0 for a padding character\<close>

definition shift6 :: "u32 \<Rightarrow> u32 \<Rightarrow> u32" where
  "shift6 v d = push_bit 6 v OR d"

definition decode_or_pad :: "u32 \<Rightarrow> u8 \<Rightarrow> u32 option" where
  "decode_or_pad v c = (if c = 0x3D then Some (shift6 v 0) else do { d \<leftarrow> decode_char c; Some (shift6 v d) })"

definition from_group :: "mem \<Rightarrow> nat \<Rightarrow> mem \<Rightarrow> nat \<Rightarrow> (nat \<times> mem) option" where
  "from_group src i dst j = do {
     c0 \<leftarrow> load8 src i; c1 \<leftarrow> load8 src (i + 1); c2 \<leftarrow> load8 src (i + 2); c3 \<leftarrow> load8 src (i + 3);
     v \<leftarrow> decode_char c0;
     d \<leftarrow> decode_char c1;
     v \<leftarrow> Some (shift6 v d);
     v \<leftarrow> decode_or_pad v c2;
     v \<leftarrow> decode_or_pad v c3;
     dst \<leftarrow> store8 dst j (ucast (drop_bit 16 v AND 0xFF));
     dst \<leftarrow> (if c2 \<noteq> 0x3D then store8 dst (j + 1) (ucast (drop_bit 8 v AND 0xFF)) else Some dst);
     dst \<leftarrow> (if c3 \<noteq> 0x3D then store8 dst (j + 2) (ucast (v AND 0xFF)) else Some dst);
     Some (1 + (if c2 \<noteq> 0x3D then 1 else 0) + (if c3 \<noteq> 0x3D then 1 else 0), dst) }"

text \<open>\<open>k\<close> groups are left.\<close>

fun from_loop :: "mem \<Rightarrow> nat \<Rightarrow> nat \<Rightarrow> nat \<Rightarrow> mem \<Rightarrow> nat \<Rightarrow> (nat \<times> mem) option" where
  "from_loop src 0 i j dst ret = Some (ret, dst)"
| "from_loop src (Suc k) i j dst ret = do {
     (n, dst) \<leftarrow> from_group src i dst j;
     from_loop src k (i + 4) (j + 3) dst (ret + n) }"

definition from_base64 :: "mem \<Rightarrow> mem \<Rightarrow> nat \<Rightarrow> (nat \<times> mem) option" where
  "from_base64 src dst dst_len = from_loop src (dst_len div 3) 0 0 dst 0"

definition encode_char :: "u32 \<Rightarrow> u8 option" where
  "encode_char v = load8 base64_encode_table (unat (v AND 0x3F))"

definition to_group :: "mem \<Rightarrow> nat \<Rightarrow> nat \<Rightarrow> nat \<Rightarrow> mem \<Rightarrow> nat \<Rightarrow> mem option" where
  "to_group src dst_len len i dst j = do {
     b \<leftarrow> load8 src i;
     v \<leftarrow> Some (ucast b :: u32);
     v \<leftarrow> (if i + 1 < len then do { b \<leftarrow> load8 src (i + 1); Some (push_bit 8 v OR ucast b) } else Some (push_bit 8 v));
     v \<leftarrow> (if i + 2 < len then do { b \<leftarrow> load8 src (i + 2); Some (push_bit 8 v OR ucast b) } else Some (push_bit 8 v));
     c \<leftarrow> encode_char (drop_bit 18 v);
     dst \<leftarrow> store8 dst j c;
     c \<leftarrow> encode_char (drop_bit 12 v);
     dst \<leftarrow> store8 dst (j + 1) c;
     c \<leftarrow> (if i + 1 < dst_len then encode_char (drop_bit 6 v) else Some 0x3D);
     dst \<leftarrow> store8 dst (j + 2) c;
     c \<leftarrow> (if i + 2 < dst_len then encode_char v else Some 0x3D);
     store8 dst (j + 3) c }"

function to_loop :: "mem \<Rightarrow> nat \<Rightarrow> nat \<Rightarrow> nat \<Rightarrow> nat \<Rightarrow> mem \<Rightarrow> mem option" where
  "to_loop src dst_len len i j dst =
     (if j < len then do { dst \<leftarrow> to_group src dst_len len i dst j; to_loop src dst_len len (i + 3) (j + 4) dst } else Some dst)"
  by auto
termination
  by (relation "measure (\<lambda>(_, _, len, _, j, _). len - j)") auto

declare to_loop.simps [simp del]

definition to_base64 :: "mem \<Rightarrow> mem \<Rightarrow> nat \<Rightarrow> (nat \<times> mem) option" where
  "to_base64 src dst dst_len = do {
     let len = dst_len div 3 * 4 + (if dst_len mod 3 \<noteq> 0 then 4 else 0);
     dst \<leftarrow> to_loop src dst_len len 0 0 dst;
     dst \<leftarrow> store8 dst len 0;
     Some (len, dst) }"

section \<open>One group\<close>

definition pack3 :: "u8 \<Rightarrow> u8 \<Rightarrow> u8 \<Rightarrow> u32" where
  "pack3 a b c = push_bit 8 (push_bit 8 (ucast a) OR ucast b) OR ucast c"

text \<open>The character of a number below 64.\<close>

definition enc :: "u32 \<Rightarrow> u8" where
  "enc v = base64_encode_table ! unat (v AND 0x3F)"

lemma length_tables [simp]: "length base64_encode_table = 64" "length base64_decode_table = 80"
  by (simp_all add: base64_encode_table_def base64_decode_table_def)

lemma and_63: "unat (v AND 0x3F :: u32) < 64"
proof -
  have "v AND 0x3F \<le> 0x3F" by (rule word_and_le1)
  then show ?thesis by (simp add: word_le_nat_alt)
qed

lemma encode_char [simp]: "encode_char v = Some (enc v)"
  using and_63 by (simp add: encode_char_def enc_def)

lemma table_inverse: "list_all (\<lambda>n. let c = base64_encode_table ! n in c \<noteq> 0x3D \<and> \<not> c < 43 \<and> unat (c - 43) < 80
    \<and> base64_decode_table ! unat (c - 43) = word_of_nat n) [0..<64]"
  by code_simp

lemma decode_enc [simp]: "decode_char (enc v) = Some (v AND 0x3F)" "enc v \<noteq> 0x3D"
proof -
  let ?n = "unat (v AND 0x3F)"
  have n: "base64_encode_table ! ?n \<noteq> 0x3D \<and> \<not> base64_encode_table ! ?n < 43 \<and> unat (base64_encode_table ! ?n - 43) < 80
      \<and> base64_decode_table ! unat (base64_encode_table ! ?n - 43) = word_of_nat ?n"
    using table_inverse and_63 [of v] unfolding list_all_iff Let_def by force
  have "(ucast (word_of_nat k :: u8) :: u32) = word_of_nat k" if "k < 64" for k
    using that by (simp add: word_unat_eq_iff unsigned_ucast_eq unsigned_of_nat take_bit_nat_eq_self)
  from this [OF and_63 [of v]] have "(ucast (word_of_nat ?n :: u8) :: u32) = v AND 0x3F" by simp
  then show "decode_char (enc v) = Some (v AND 0x3F)" using n by (simp add: decode_char_def enc_def)
  show "enc v \<noteq> 0x3D" using n by (simp add: enc_def)
qed

lemma masks: "(0x3F :: u32) = mask 6" "(0xFF :: u32) = mask 8"
  by (simp_all add: mask_eq_exp_minus_1)

lemma bit_byte: "bit (w :: u8) n \<Longrightarrow> n < 8"
  using bit_imp_le_length [of w n] by simp

lemma regroup:
  fixes a b c :: u8
  defines "v \<equiv> pack3 a b c"
  shows "push_bit 6 (push_bit 6 (push_bit 6 (drop_bit 18 v AND 0x3F) OR (drop_bit 12 v AND 0x3F)) OR (drop_bit 6 v AND 0x3F)) OR (v AND 0x3F) = v"
proof (rule bit_word_eqI)
  fix n
  assume "n < LENGTH(32)"
  have high: "\<not> bit v n" if "24 \<le> n" using that by (auto simp: v_def pack3_def bit_simps dest: bit_byte)
  consider "n < 6" | "6 \<le> n" "n < 12" | "12 \<le> n" "n < 18" | "18 \<le> n" "n < 24" | "24 \<le> n" by linarith
  then show "bit (push_bit 6 (push_bit 6 (push_bit 6 (drop_bit 18 v AND 0x3F) OR (drop_bit 12 v AND 0x3F)) OR (drop_bit 6 v AND 0x3F)) OR (v AND 0x3F)) n = bit v n"
    using \<open>n < LENGTH(32)\<close> high unfolding masks by cases (auto simp: bit_simps)
qed

text \<open>The leading bytes of a group that is not full.\<close>

lemma top_bits:
  fixes v :: u32
  defines "w \<equiv> push_bit 6 (push_bit 6 (drop_bit 18 v AND 0x3F) OR (drop_bit 12 v AND 0x3F))"
  shows "drop_bit 16 (push_bit 6 w) AND 0xFF = drop_bit 16 v AND 0xFF"
    and "drop_bit 16 (push_bit 6 (w OR (drop_bit 6 v AND 0x3F))) AND 0xFF = drop_bit 16 v AND 0xFF"
    and "drop_bit 8 (push_bit 6 (w OR (drop_bit 6 v AND 0x3F))) AND 0xFF = drop_bit 8 v AND 0xFF"
proof -
  show "drop_bit 16 (push_bit 6 w) AND 0xFF = drop_bit 16 v AND 0xFF"
  proof (rule bit_word_eqI)
    fix n :: nat
    consider "n < 2" | "2 \<le> n" "n < 8" | "8 \<le> n" by linarith
    then show "bit (drop_bit 16 (push_bit 6 w) AND 0xFF) n = bit (drop_bit 16 v AND 0xFF) n"
      unfolding w_def masks by cases (auto simp: bit_simps)
  qed
  show "drop_bit 16 (push_bit 6 (w OR (drop_bit 6 v AND 0x3F))) AND 0xFF = drop_bit 16 v AND 0xFF"
  proof (rule bit_word_eqI)
    fix n :: nat
    consider "n < 2" | "2 \<le> n" "n < 8" | "8 \<le> n" by linarith
    then show "bit (drop_bit 16 (push_bit 6 (w OR (drop_bit 6 v AND 0x3F))) AND 0xFF) n = bit (drop_bit 16 v AND 0xFF) n"
      unfolding w_def masks by cases (auto simp: bit_simps)
  qed
  show "drop_bit 8 (push_bit 6 (w OR (drop_bit 6 v AND 0x3F))) AND 0xFF = drop_bit 8 v AND 0xFF"
  proof (rule bit_word_eqI)
    fix n :: nat
    consider "n < 4" | "4 \<le> n" "n < 8" | "8 \<le> n" by linarith
    then show "bit (drop_bit 8 (push_bit 6 (w OR (drop_bit 6 v AND 0x3F))) AND 0xFF) n = bit (drop_bit 8 v AND 0xFF) n"
      unfolding w_def masks by cases (auto simp: bit_simps)
  qed
qed

lemma pack_bytes:
  fixes a b c :: u8
  shows "ucast (drop_bit 16 (pack3 a b c) AND 0xFF) = a" and "ucast (drop_bit 8 (pack3 a b c) AND 0xFF) = b" and "ucast (pack3 a b c AND 0xFF) = c"
  unfolding masks pack3_def by (rule bit_word_eqI; auto simp: bit_simps dest: bit_byte)+

text \<open>The four characters of group \<open>k\<close> of \<open>n\<close> bytes, with the bytes after the end where the group is not full.\<close>

definition group_val :: "mem \<Rightarrow> nat \<Rightarrow> u32" where
  "group_val src k = pack3 (src ! (3 * k)) (src ! (3 * k + 1)) (src ! (3 * k + 2))"

definition group_chars :: "mem \<Rightarrow> nat \<Rightarrow> nat \<Rightarrow> u8 list" where
  "group_chars src n k = [enc (drop_bit 18 (group_val src k)), enc (drop_bit 12 (group_val src k)),
     if 3 * k + 1 < n then enc (drop_bit 6 (group_val src k)) else 0x3D, if 3 * k + 2 < n then enc (group_val src k) else 0x3D]"

lemma to_group_spec:
  assumes "3 * k + 2 < len" and "3 * k + 2 < length src" and "4 * k + 3 < length dst"
  shows "to_group src n len (3 * k) dst (4 * k)
    = Some (dst[4 * k := group_chars src n k ! 0, 4 * k + 1 := group_chars src n k ! 1, 4 * k + 2 := group_chars src n k ! 2, 4 * k + 3 := group_chars src n k ! 3])"
  using assms by (simp add: to_group_def group_chars_def group_val_def pack3_def)

lemma wp_to_loop:
  assumes src: "3 * g \<le> length src" and dst: "4 * g \<le> length dst" and "k \<le> g"
  shows "wp (to_loop src n (4 * g) (3 * k) (4 * k) dst) (\<lambda>d. length d = length dst \<and> (\<forall>x<4 * k. d ! x = dst ! x)
     \<and> (\<forall>m q. k \<le> m \<and> m < g \<and> q < 4 \<longrightarrow> d ! (4 * m + q) = group_chars src n m ! q))"
  using assms
proof (induction "g - k" arbitrary: k dst)
  case 0
  then show ?case by (subst to_loop.simps) auto
next
  case (Suc r)
  let ?c = "group_chars src n k"
  let ?d = "dst[4 * k := ?c ! 0, 4 * k + 1 := ?c ! 1, 4 * k + 2 := ?c ! 2, 4 * k + 3 := ?c ! 3]"
  have k: "k < g" using Suc.hyps(2) by simp
  have grp: "to_group src n (4 * g) (3 * k) dst (4 * k) = Some ?d" using Suc.prems k by (intro to_group_spec) simp_all
  have IH: "wp (to_loop src n (4 * g) (3 * Suc k) (4 * Suc k) ?d) (\<lambda>d. length d = length ?d \<and> (\<forall>x<4 * Suc k. d ! x = ?d ! x)
     \<and> (\<forall>m q. Suc k \<le> m \<and> m < g \<and> q < 4 \<longrightarrow> d ! (4 * m + q) = group_chars src n m ! q))"
    using Suc.hyps Suc.prems k by (intro Suc.hyps(1)) simp_all
  have here: "?d ! (4 * k + q) = ?c ! q" if q: "q < 4" for q
  proof -
    consider "q = 0" | "q = 1" | "q = 2" | "q = 3" using q by linarith
    then show ?thesis using Suc.prems(2) k by cases (simp_all add: nth_list_update)
  qed
  have "wp (to_loop src n (4 * g) (3 * Suc k) (4 * Suc k) ?d) (\<lambda>d. length d = length dst \<and> (\<forall>x<4 * k. d ! x = dst ! x)
     \<and> (\<forall>m q. k \<le> m \<and> m < g \<and> q < 4 \<longrightarrow> d ! (4 * m + q) = group_chars src n m ! q))"
  proof (rule wp_mono [OF IH], intro conjI allI impI)
    fix d
    assume d: "length d = length ?d \<and> (\<forall>x<4 * Suc k. d ! x = ?d ! x) \<and> (\<forall>m q. Suc k \<le> m \<and> m < g \<and> q < 4 \<longrightarrow> d ! (4 * m + q) = group_chars src n m ! q)"
    then show "length d = length dst" by simp
    show "d ! x = dst ! x" if "x < 4 * k" for x using d that by simp
    show "d ! (4 * m + q) = group_chars src n m ! q" if "k \<le> m \<and> m < g \<and> q < 4" for m q
    proof (cases "m = k")
      case True
      then have "d ! (4 * m + q) = ?d ! (4 * k + q)" using d that by simp
      then show ?thesis using here that True by simp
    qed (use d that in simp)
  qed
  then show ?case using grp k by (subst to_loop.simps) (simp add: add.commute)
qed

lemma from_group_spec:
  assumes "4 * k + 3 < length s" and "3 * k < n" and "n \<le> length dst" and "\<forall>q<4. s ! (4 * k + q) = group_chars src n k ! q"
  shows "wp (from_group s (4 * k) dst (3 * k)) (\<lambda>(m, d). m = min 3 (n - 3 * k) \<and> length d = length dst
     \<and> (\<forall>x<length dst. d ! x = (if 3 * k \<le> x \<and> x < 3 * k + 3 \<and> x < n then src ! x else dst ! x)))"
proof -
  let ?v = "group_val src k"
  have s: "s ! (4 * k) = enc (drop_bit 18 ?v)" "s ! (4 * k + 1) = enc (drop_bit 12 ?v)" "s ! (4 * k + 2) = (if 3 * k + 1 < n then enc (drop_bit 6 ?v) else 0x3D)"
    "s ! (4 * k + 3) = (if 3 * k + 2 < n then enc ?v else 0x3D)"
    using assms(4) [rule_format, of 0] assms(4) [rule_format, of 1] assms(4) [rule_format, of 2] assms(4) [rule_format, of 3]
    by (simp_all add: group_chars_def)
  let ?w = "shift6 (drop_bit 18 ?v AND 0x3F) (drop_bit 12 ?v AND 0x3F)"
  have top: "drop_bit 16 (shift6 (shift6 ?w 0) 0) AND 0xFF = drop_bit 16 ?v AND 0xFF"
    "drop_bit 16 (shift6 (shift6 ?w (drop_bit 6 ?v AND 0x3F)) 0) AND 0xFF = drop_bit 16 ?v AND 0xFF"
    "drop_bit 8 (shift6 (shift6 ?w (drop_bit 6 ?v AND 0x3F)) 0) AND 0xFF = drop_bit 8 ?v AND 0xFF"
    unfolding shift6_def or.right_neutral by (rule top_bits)+
  have all: "shift6 (shift6 ?w (drop_bit 6 ?v AND 0x3F)) (?v AND 0x3F) = ?v" unfolding shift6_def group_val_def by (rule regroup)
  have b: "ucast (drop_bit 16 ?v AND 0xFF) = src ! (3 * k)" "ucast (drop_bit 8 ?v AND 0xFF) = src ! (3 * k + 1)" "ucast (?v AND 0xFF) = src ! (3 * k + 2)"
    unfolding group_val_def by (rule pack_bytes)+
  consider "n = 3 * k + 1" | "n = 3 * k + 2" | "3 * k + 3 \<le> n" using assms(2) by linarith
  then show ?thesis
  proof cases
    case 1
    then show ?thesis using assms(1,3) s top(1) b by (auto simp: from_group_def decode_or_pad_def nth_list_update less_Suc_eq)
  next
    case 2
    then show ?thesis using assms(1,3) s top(2,3) b by (auto simp: from_group_def decode_or_pad_def nth_list_update less_Suc_eq)
  next
    case 3
    then show ?thesis using assms(1,3) s all b by (auto simp: from_group_def decode_or_pad_def nth_list_update less_Suc_eq)
  qed
qed

lemma wp_from_loop:
  assumes "\<forall>m q. m < g \<and> q < 4 \<longrightarrow> s ! (4 * m + q) = group_chars src n m ! q" and "4 * g \<le> length s" and "n \<le> 3 * g" and "3 * g < n + 3"
    and "n \<le> length dst" and "k \<le> g"
  shows "wp (from_loop s (g - k) (4 * k) (3 * k) dst ret) (\<lambda>(r, d). r = ret + (n - 3 * k) \<and> length d = length dst
     \<and> (\<forall>x<length dst. d ! x = (if 3 * k \<le> x \<and> x < n then src ! x else dst ! x)))"
  using assms(5,6)
proof (induction "g - k" arbitrary: k dst ret)
  case 0
  then show ?case using assms(3) by auto
next
  case (Suc r)
  have k: "k < g" using Suc.hyps(2) by simp
  then have n: "3 * k < n" using assms(4) by linarith
  have r: "g - k = Suc (g - Suc k)" using k by simp
  have grp: "wp (from_group s (4 * k) dst (3 * k)) (\<lambda>(m, d). m = min 3 (n - 3 * k) \<and> length d = length dst
     \<and> (\<forall>x<length dst. d ! x = (if 3 * k \<le> x \<and> x < 3 * k + 3 \<and> x < n then src ! x else dst ! x)))"
    using assms(1,2) k n Suc.prems by (intro from_group_spec) simp_all
  show ?case unfolding r from_loop.simps wp_bind
  proof (rule wp_mono [OF grp], clarify)
    fix m d
    assume d: "length d = length dst" "\<forall>x<length dst. d ! x = (if 3 * k \<le> x \<and> x < 3 * k + 3 \<and> x < n then src ! x else dst ! x)"
    have "wp (from_loop s (g - Suc k) (4 * Suc k) (3 * Suc k) d (ret + min 3 (n - 3 * k))) (\<lambda>(r, d'). r = ret + min 3 (n - 3 * k) + (n - 3 * Suc k)
       \<and> length d' = length d \<and> (\<forall>x<length d. d' ! x = (if 3 * Suc k \<le> x \<and> x < n then src ! x else d ! x)))"
      using Suc.hyps Suc.prems d k by (intro Suc.hyps(1)) simp_all
    moreover have "4 * Suc k = 4 * k + 4" "3 * Suc k = 3 * k + 3" by simp_all
    ultimately have IH: "wp (from_loop s (g - Suc k) (4 * k + 4) (3 * k + 3) d (ret + min 3 (n - 3 * k)))
      (\<lambda>(r, d'). r = ret + min 3 (n - 3 * k) + (n - (3 * k + 3)) \<and> length d' = length d
       \<and> (\<forall>x<length d. d' ! x = (if 3 * k + 3 \<le> x \<and> x < n then src ! x else d ! x)))"
      by metis
    show "wp (from_loop s (g - Suc k) (4 * k + 4) (3 * k + 3) d (ret + min 3 (n - 3 * k))) (\<lambda>(r, d). r = ret + (n - 3 * k) \<and> length d = length dst
       \<and> (\<forall>x<length dst. d ! x = (if 3 * k \<le> x \<and> x < n then src ! x else dst ! x)))"
      by (rule wp_mono [OF IH]) (use d in \<open>auto simp: min_def\<close>)
  qed
qed

section \<open>Properties\<close>

text \<open>C33. Decoding what \<open>to_base64\<close> writes for \<open>n\<close> bytes gives these bytes back and returns their number, for every \<open>n\<close>, when the buffers
  hold whole groups (the input buffer too, since the encoder packs the bytes that follow the data into the last group) and the
  encoded text with its zero byte.\<close>

theorem base64_roundtrip:
  assumes "3 * ((n + 2) div 3) \<le> length src" and "4 * ((n + 2) div 3) < length enc_buf" and "3 * ((n + 2) div 3) \<le> length dst"
  shows "\<exists>s d. to_base64 src enc_buf n = Some (4 * ((n + 2) div 3), s) \<and> from_base64 s dst (3 * ((n + 2) div 3)) = Some (n, d)
     \<and> take n d = take n src"
proof -
  let ?g = "(n + 2) div 3"
  have len: "n div 3 * 4 + (if n mod 3 \<noteq> 0 then 4 else 0) = 4 * ?g" by (auto simp: div_Suc mod_Suc)
  obtain s where s: "to_loop src n (4 * ?g) 0 0 enc_buf = Some s" "length s = length enc_buf"
    "\<forall>m q. m < ?g \<and> q < 4 \<longrightarrow> s ! (4 * m + q) = group_chars src n m ! q"
    using wp_to_loop [of ?g src enc_buf 0 n] assms by (auto simp: wp_iff)
  let ?s = "s[4 * ?g := 0]"
  have e: "to_base64 src enc_buf n = Some (4 * ?g, ?s)" 
    unfolding to_base64_def len Let_def using s assms(2) by simp
  have bounds: "n \<le> 3 * ?g" "3 * ?g < n + 3" by linarith+
  have "\<forall>m q. m < ?g \<and> q < 4 \<longrightarrow> ?s ! (4 * m + q) = group_chars src n m ! q" using s(3) by (auto simp: nth_list_update)
  then obtain d where d: "from_loop ?s ?g 0 0 dst 0 = Some (n, d)" "length d = length dst" "\<forall>x<length dst. d ! x = (if x < n then src ! x else dst ! x)"
    using wp_from_loop [of ?g ?s src n dst 0 0] s(2) assms bounds by (auto simp: wp_iff)
  have "take n d = take n src" using d(2,3) assms(1,3) bounds by (intro nth_equalityI) auto
  then show ?thesis using e d(1) by (simp add: from_base64_def)
qed

text \<open>C34. When the number of bytes is not a multiple of three, \<open>to_base64\<close> reads up to two bytes after them: on a buffer that ends there
  the access is out of bounds, for every such number.\<close>

theorem to_base64_overread:
  assumes "n mod 3 \<noteq> 0" and "length src = n" and "4 * ((n + 2) div 3) < length dst"
  shows "to_base64 src dst n = None"
proof -
  let ?g = "(n + 2) div 3"
  have len: "n div 3 * 4 + (if n mod 3 \<noteq> 0 then 4 else 0) = 4 * ?g" by (auto simp: div_Suc mod_Suc)
  have "to_loop src n (4 * ?g) (3 * k) (4 * k) d = None" if "k < ?g" "length d = length dst" for k d
    using that
  proof (induction "?g - Suc k" arbitrary: k d)
    case 0
    then have "length src \<le> 3 * k + 2" "3 * k + 2 < 4 * ?g" using assms(1,2) by (auto, presburger)
    then have "to_group src n (4 * ?g) (3 * k) d (4 * k) = None"
      by (cases "load8 src (3 * k)"; cases "load8 src (3 * k + 1)") (simp_all add: to_group_def load8_def)
    then show ?case using 0 by (subst to_loop.simps) simp
  next
    case (Suc r)
    then have "3 * k + 2 < length src" using assms(2) by linarith
    moreover have "k < ?g" using Suc.hyps(2) by simp
    ultimately obtain d' where d': "to_group src n (4 * ?g) (3 * k) d (4 * k) = Some d'" "length d' = length dst"
      using to_group_spec [of k "4 * ?g" src d n] Suc.prems(2) assms(3) by simp
    have "to_loop src n (4 * ?g) (3 * Suc k) (4 * Suc k) d' = None"
      by (rule Suc.hyps(1)) (use Suc.hyps(2) d' in simp_all)
    then show ?case using d'(1) \<open>k < ?g\<close> by (subst to_loop.simps) (simp add: add.commute)
  qed
  from this [of 0 dst] show ?thesis unfolding to_base64_def len Let_def using assms(1) by (cases n) simp_all
qed

section \<open>Witnesses\<close>

theorem base64_roundtrip_witness:
  "\<exists>s d. to_base64 [77, 97, 0] (replicate 5 0) 2 = Some (4, s) \<and> from_base64 s [0, 0, 0] 3 = Some (2, d) \<and> take 2 d = [77, 97]"
  using base64_roundtrip [of 2 "[77, 97, 0]" "replicate 5 0" "[0, 0, 0]"] by simp

theorem to_base64_overread_witness: "to_base64 [77] (replicate 5 0) 1 = None"
  using to_base64_overread [of 1 "[77]" "replicate 5 0"] by simp

text \<open>The padding bits come from the byte after the data: one byte, \<open>M\<close>, becomes \<open>Tf==\<close> instead of \<open>TQ==\<close>.\<close>

lemma to_base64_stale_bits: "to_base64 [0x4D, 0xFF, 0xFF] (replicate 5 0) 1 = Some (4, [0x54, 0x66, 0x3D, 0x3D, 0])"
  by code_simp

end
