(* ===== verification/Rand.thy ===== *)
theory Rand
  imports Prelude
begin

text \<open>
  The random number generator: \<open>rand_set_seed\<close>, \<open>rand_next\<close> of \<^verbatim>\<open>src/afl-performance.c\<close> (the 64-bit
  Romu generator and the 32-bit one) and the inline wrappers \<open>rand_below\<close>, \<open>rand_below_datalen\<close>,
  \<open>rand_get_seed\<close> and \<open>next_p2\<close> of \<^verbatim>\<open>include/afl-fuzz.h\<close>. The bytes \<open>/dev/urandom\<close> will deliver are
  part of the state (as 64-bit words); a short read is fatal (\<open>None\<close>), as is a rejection loop that never ends.
  The hash of the seed comes from the vendored xxHash header and is a parameter. The locale \<open>rng\<close> is what
  the clients of \<open>rand_below\<close> rely on.
\<close>

section \<open>State and generator\<close>

record afl_rand =
  rand_seed0 :: u64
  rand_seed1 :: u64
  rand_seed2 :: u64
  rand_cnt :: u32
  fixed_seed :: u8
  init_seed :: u64
  dev_urandom :: "u64 list"

definition rand_set_seed :: "(mem \<Rightarrow> u64) \<Rightarrow> 'a afl_rand_scheme \<Rightarrow> u64 \<Rightarrow> 'a afl_rand_scheme" where
  "rand_set_seed hash64 s seed =
     (let s0 = hash64 (le_bytes 8 seed);
          s1 = s0 XOR 0x1234567890abcdef;
          s2 = (s0 AND 0x1234567890abcdef) XOR (s1 OR 0xfedcba9876543210)
      in s\<lparr>init_seed := seed, rand_seed0 := s0, rand_seed1 := s1, rand_seed2 := s2\<rparr>)"

definition ROTL :: "'w::len word \<Rightarrow> nat \<Rightarrow> 'w word" where
  "ROTL d lrot = push_bit lrot d OR drop_bit (LENGTH('w) - lrot) d"

definition rand_next :: "'a afl_rand_scheme \<Rightarrow> u64 \<times> 'a afl_rand_scheme" where
  "rand_next s =
     (let xp = rand_seed0 s;
          s1 = s\<lparr>rand_seed0 := 15241094284759029579 * rand_seed1 s\<rparr>;
          s2 = s1\<lparr>rand_seed1 := rand_seed1 s1 - xp\<rparr>;
          s3 = s2\<lparr>rand_seed1 := ROTL (rand_seed1 s2) 27\<rparr>
      in (xp, s3))"

text \<open>The 32-bit generator, on its three seed words.\<close>

definition rand_next_32 :: "u32 \<times> u32 \<times> u32 \<Rightarrow> u32 \<times> (u32 \<times> u32 \<times> u32)" where
  "rand_next_32 seed =
     (case seed of (xp, yp, zp) \<Rightarrow>
        (xp, (3323815723 * zp, ROTL (yp - xp) 6, ROTL (zp - yp) 22)))"

section \<open>Bounded draws\<close>

definition RESEED_RNG :: u64 where
  "RESEED_RNG = 2500000"

definition rand_reseed :: "'a afl_rand_scheme \<Rightarrow> 'a afl_rand_scheme option" where
  "rand_reseed s =
     (let s' = s\<lparr>rand_cnt := rand_cnt s - 1\<rparr>
      in if rand_cnt s = 0 \<and> fixed_seed s = 0
         then (case dev_urandom s' of
                 a # b # c # rest \<Rightarrow>
                   Some (s'\<lparr>rand_seed0 := a, rand_seed1 := b, rand_seed2 := c, dev_urandom := rest,
                            rand_cnt := ucast (RESEED_RNG div 2 + b mod RESEED_RNG)\<rparr>)
               | _ \<Rightarrow> None)
         else Some s')"

text \<open>\<open>UINT64_MAX - (UINT64_MAX % limit)\<close>\<close>

definition rand_threshold :: "u32 \<Rightarrow> u64" where
  "rand_threshold limit = - 1 - (- 1) mod ucast limit"

partial_function (option) rand_unbiased ::
  "'a afl_rand_scheme \<Rightarrow> u32 \<Rightarrow> (u64 \<times> 'a afl_rand_scheme) option" where
  "rand_unbiased s limit =
     (case rand_next s of (r, s') \<Rightarrow>
        if r \<ge> rand_threshold limit then rand_unbiased s' limit else Some (r, s'))"

definition rand_below :: "'a afl_rand_scheme \<Rightarrow> u32 \<Rightarrow> (u32 \<times> 'a afl_rand_scheme) option" where
  "rand_below s limit =
     (if limit \<le> 1 then Some (0, s)
      else do {
        s1 \<leftarrow> rand_reseed s;
        (r, s2) \<leftarrow> rand_unbiased s1 limit;
        Some (ucast (r mod ucast limit), s2) })"

definition rand_below_datalen :: "'a afl_rand_scheme \<Rightarrow> u32 \<Rightarrow> (u32 \<times> 'a afl_rand_scheme) option" where
  "rand_below_datalen s limit =
     (if limit \<le> 1 then Some (0, s)
      else do {
        (c, s) \<leftarrow> rand_below s 3;
        if c = 2 then do {
          (a, s) \<leftarrow> rand_below s limit;
          (b, s) \<leftarrow> rand_below s (limit - 1);
          (d, s) \<leftarrow> rand_below s (limit - 1);
          Some ((a mod (1 + b)) mod (1 + d), s) }
        else if c = 1 then do {
          (a, s) \<leftarrow> rand_below s limit;
          (b, s) \<leftarrow> rand_below s (limit - 1);
          Some (a mod (1 + b), s) }
        else if c = 0 then rand_below s limit
        else Some (1, s) })"

definition rand_get_seed :: "'a afl_rand_scheme \<Rightarrow> u64" where
  "rand_get_seed s = (if fixed_seed s \<noteq> 0 then init_seed s else rand_seed0 s)"

partial_function (option) next_p2_loop :: "u64 \<Rightarrow> u64 \<Rightarrow> u64 option" where
  "next_p2_loop val ret = (if val > ret then next_p2_loop val (push_bit 1 ret) else Some ret)"

definition next_p2 :: "u64 \<Rightarrow> u64 option" where
  "next_p2 val = next_p2_loop val 1"

section \<open>The interface of a bounded draw\<close>

locale rng =
  fixes draw :: "'s \<Rightarrow> u32 \<Rightarrow> (u32 \<times> 's) option"
  assumes draw_less: "draw s limit = Some (r, s') \<Longrightarrow> 0 < limit \<Longrightarrow> r < limit"
begin

lemma draw_index: "draw s limit = Some (r, s') \<Longrightarrow> unat limit = length xs \<Longrightarrow> xs \<noteq> [] \<Longrightarrow> unat r < length xs"
  using draw_less [of s limit r s'] by (auto simp: word_less_nat_alt)

lemma draw_offset:
  "draw s limit = Some (r, s') \<Longrightarrow> 0 < limit \<Longrightarrow> unat base + unat limit < 2 ^ 32
     \<Longrightarrow> unat (base + r) < unat base + unat limit \<and> base \<le> base + r"
  using draw_less [of s limit r s'] by (auto simp: word_less_nat_alt word_le_nat_alt unat_word_ariths)

lemma draw_mod_less:
  assumes "draw s limit = Some (a, s1)" and "draw s2 (limit - 1) = Some (b, s3)" and "1 < limit"
  shows "a mod (1 + b) < limit"
proof -
  have "a < limit" using draw_less [OF assms(1)] assms(3) by unat_arith
  moreover have "a mod (1 + b) \<le> a" by (simp add: word_le_nat_alt unat_mod)
  ultimately show ?thesis by simp
qed

end

section \<open>Lemmas\<close>

text \<open>The state after \<open>n\<close> calls of \<open>rand_next\<close>, and the number the next call returns.\<close>

definition rand_after :: "nat \<Rightarrow> 'a afl_rand_scheme \<Rightarrow> 'a afl_rand_scheme" where
  "rand_after n = ((\<lambda>s. snd (rand_next s)) ^^ n)"

definition nth_draw :: "'a afl_rand_scheme \<Rightarrow> nat \<Rightarrow> u64" where
  "nth_draw s n = fst (rand_next (rand_after n s))"

definition first_accepted :: "'a afl_rand_scheme \<Rightarrow> u32 \<Rightarrow> nat \<Rightarrow> bool" where
  "first_accepted s limit n \<longleftrightarrow>
     nth_draw s n < rand_threshold limit \<and> list_all (\<lambda>i. rand_threshold limit \<le> nth_draw s i) [0..<n]"

lemma rand_after_simps [simp]:
  "rand_after 0 s = s" "rand_after (Suc n) s = rand_after n (snd (rand_next s))"
  by (simp_all add: rand_after_def funpow_Suc_right del: funpow.simps(2))

lemma nth_draw_simps [simp]:
  "nth_draw s 0 = fst (rand_next s)" "nth_draw s (Suc n) = nth_draw (snd (rand_next s)) n"
  by (simp_all add: nth_draw_def)

lemma first_accepted_0: "first_accepted s limit 0 \<longleftrightarrow> fst (rand_next s) < rand_threshold limit"
  by (simp add: first_accepted_def)

lemma first_accepted_Suc:
  "first_accepted s limit (Suc n)
     \<longleftrightarrow> rand_threshold limit \<le> fst (rand_next s) \<and> first_accepted (snd (rand_next s)) limit n"
  by (auto simp: first_accepted_def upt_conv_Cons map_Suc_upt [symmetric] list.pred_map o_def
      simp del: upt.simps)

lemma first_accepted_unique:
  "first_accepted s limit m \<Longrightarrow> first_accepted s limit n \<Longrightarrow> m = n"
  unfolding first_accepted_def list_all_iff
  by (metis atLeastLessThan_upt atLeast0LessThan lessThan_iff leD linorder_neqE_nat)

lemma rand_unbiased_complete:
  "first_accepted s limit n
     \<Longrightarrow> rand_unbiased s limit = Some (nth_draw s n, rand_after (Suc n) s)"
proof (induction n arbitrary: s)
  case 0
  then show ?case
    by (simp add: first_accepted_0 rand_unbiased.simps [of s] case_prod_beta not_le [symmetric])
next
  case (Suc n)
  then show ?case
    by (simp add: first_accepted_Suc rand_unbiased.simps [of s] case_prod_beta)
qed

lemma rand_unbiased_sound:
  assumes "rand_unbiased s limit = Some x"
  shows "\<exists>n. first_accepted s limit n \<and> x = (nth_draw s n, rand_after (Suc n) s)"
proof (rule rand_unbiased.raw_induct
    [where P = "\<lambda>s limit x. \<exists>n. first_accepted s limit n \<and> x = (nth_draw s n, rand_after (Suc n) s)", OF _ assms])
  fix f and s :: "'a afl_rand_scheme" and limit x
  assume IH: "\<And>s limit x. f s limit = Some x
      \<Longrightarrow> \<exists>n. first_accepted s limit n \<and> x = (nth_draw s n, rand_after (Suc n) s)"
    and *: "(case rand_next s of (r, s') \<Rightarrow> if rand_threshold limit \<le> r then f s' limit else Some (r, s')) = Some x"
  show "\<exists>n. first_accepted s limit n \<and> x = (nth_draw s n, rand_after (Suc n) s)"
  proof (cases "rand_threshold limit \<le> fst (rand_next s)")
    case True
    then have "f (snd (rand_next s)) limit = Some x" using * by (simp add: case_prod_beta)
    from IH [OF this] obtain n where "first_accepted (snd (rand_next s)) limit n"
      and "x = (nth_draw (snd (rand_next s)) n, rand_after (Suc n) (snd (rand_next s)))" by blast
    with True show ?thesis by (intro exI [of _ "Suc n"]) (simp add: first_accepted_Suc)
  next
    case False
    with * show ?thesis by (intro exI [of _ 0]) (simp add: case_prod_beta first_accepted_0)
  qed
qed

lemma rand_below_less:
  assumes "rand_below s limit = Some (r, s')" and "0 < limit"
  shows "r < limit"
proof (cases "limit \<le> 1")
  case True
  then show ?thesis using assms by (simp add: rand_below_def)
next
  case False
  then obtain x :: u64 where x: "r = ucast (x mod ucast limit)"
    using assms(1) by (auto simp: rand_below_def split: Option.bind_splits prod.splits)
  have l: "unat limit < 2 ^ 32" using unsigned_less [of limit, where ?'a = nat] by simp
  then have "unat (ucast limit :: u64) = unat limit"
    by (simp add: unsigned_ucast_eq take_bit_nat_eq_self)
  then have "unat (x mod ucast limit) < unat limit"
    using assms(2) by (simp add: unat_mod word_less_nat_alt)
  with l show ?thesis
    by (simp add: x word_less_nat_alt unsigned_ucast_eq take_bit_nat_eq_self)
qed

interpretation afl_rng: rng "rand_below :: 'a afl_rand_scheme \<Rightarrow> _"
  by unfold_locales (rule rand_below_less)

type_synonym 'r drawing = "'r \<Rightarrow> u32 \<Rightarrow> (u32 \<times> 'r) option"

text \<open>The \<open>k\<close>-th draw from state \<open>r\<close>; a fair generator draws every number below the limit at some time.\<close>

fun draws :: "'r drawing \<Rightarrow> u32 \<Rightarrow> nat \<Rightarrow> 'r \<Rightarrow> (u32 \<times> 'r) option" where
  "draws draw limit 0 r = draw r limit"
| "draws draw limit (Suc k) r = do { (_, r') \<leftarrow> draw r limit; draws draw limit k r' }"

definition fair_draw :: "'r drawing \<Rightarrow> bool" where
  "fair_draw draw \<longleftrightarrow> (\<forall>r limit t. t < limit \<longrightarrow> (\<exists>k r'. draws draw limit k r = Some (t, r')))"

text \<open>A generator that counts.\<close>

definition counting :: "nat drawing" where
  "counting r limit = Some (word_of_nat (r mod unat limit), Suc r)"

lemma draws_counting: "draws counting limit k r = Some (word_of_nat ((r + k) mod unat limit), Suc (r + k))"
  by (induction k arbitrary: r) (simp_all add: counting_def)

lemma unat_mod_less:
  assumes "0 < (limit :: u32)"
  shows "unat (word_of_nat (n mod unat limit) :: u32) = n mod unat limit"
proof -
  have "0 < unat limit" using assms by (simp add: word_less_nat_alt)
  then have "n mod unat limit < unat limit" by simp
  then show ?thesis using unsigned_less [of limit, where ?'a = nat] by (simp add: unsigned_of_nat take_bit_nat_eq_self)
qed

lemma counting_rng: "rng counting"
proof
  fix s s' :: nat and limit r :: u32
  assume "counting s limit = Some (r, s')" "0 < limit"
  then show "r < limit" using unat_mod_less [of limit s] by (auto simp: counting_def word_less_nat_alt)
qed

text \<open>So does the generator of the fuzzer itself.\<close>

lemma rand_below_rng: "rng (rand_below :: afl_rand drawing)"
  by (rule afl_rng.rng_axioms)

lemma counting_fair: "fair_draw counting"
  unfolding fair_draw_def
proof (intro allI impI)
  fix r :: nat and limit t :: u32
  assume t: "t < limit"
  then have "0 < unat limit" by (simp add: word_less_nat_alt)
  then obtain m where m: "unat limit = Suc m" by (cases "unat limit") auto
  have "(r + (unat t + r * m)) mod unat limit = (unat t + r * unat limit) mod unat limit"
    unfolding m by (simp add: algebra_simps)
  also have "\<dots> = unat t" using t by (simp add: word_less_nat_alt)
  finally have "draws counting limit (unat t + r * m) r = Some (t, Suc (r + (unat t + r * m)))"
    by (simp add: draws_counting)
  then show "\<exists>k r'. draws counting limit k r = Some (t, r')" by blast
qed

section \<open>Counting, rotation and the successor of a seed\<close>

lemma card_residues:
  fixes l a q :: nat
  assumes "a < l"
  shows "card {n. n < q * l \<and> n mod l = a} = q"
proof -
  have "{n. n < q * l \<and> n mod l = a} = (\<lambda>k. k * l + a) ` {..<q}" (is "?A = ?B")
  proof
    show "?A \<subseteq> ?B"
    proof
      fix n assume "n \<in> ?A"
      then have "n = (n div l) * l + a" and "n div l < q"
        using div_mult_mod_eq [of n l] by (auto simp: less_mult_imp_div_less)
      then show "n \<in> ?B" by blast
    qed
    show "?B \<subseteq> ?A"
    proof
      fix n assume "n \<in> ?B"
      then obtain k where k: "n = k * l + a" "k < q" by blast
      then have "n < (k + 1) * l" using assms by simp
      also have "\<dots> \<le> q * l" using k by (intro mult_right_mono) auto
      finally show "n \<in> ?A" using k assms by simp
    qed
  qed
  moreover have "inj_on (\<lambda>k. k * l + a) {..<q}"
    using assms by (auto simp: inj_on_def)
  ultimately show ?thesis by (simp add: card_image)
qed

lemma card_words: "card {w :: 'w::len word. P (unat w)} = card {n. n < 2 ^ LENGTH('w) \<and> P n}"
proof -
  have "unat ` {w :: 'w word. P (unat w)} = {n. n < 2 ^ LENGTH('w) \<and> P n}"
  proof
    show "{n. n < 2 ^ LENGTH('w) \<and> P n} \<subseteq> unat ` {w :: 'w word. P (unat w)}"
    proof
      fix n assume "n \<in> {n. n < 2 ^ LENGTH('w) \<and> P n}"
      then have "n = unat (word_of_nat n :: 'w word)" and "P n"
        by (simp_all add: unsigned_of_nat take_bit_nat_eq_self)
      then show "n \<in> unat ` {w :: 'w word. P (unat w)}" by (metis (mono_tags) imageI mem_Collect_eq)
    qed
  qed (auto intro: unsigned_less)
  moreover have "inj_on unat {w :: 'w word. P (unat w)}"
    by (rule inj_onI) (simp add: unsigned_word_eqI)
  ultimately show ?thesis by (metis card_image)
qed

lemma unat_ucast_u32_u64 [simp]: "unat (ucast (x :: u32) :: u64) = unat x"
  using unsigned_less [of x, where ?'a = nat] by (simp add: unsigned_ucast_eq take_bit_nat_eq_self)

lemma unat_rand_threshold: "unat (rand_threshold limit) = (2 ^ 64 - 1) div unat limit * unat limit"
proof -
  have m: "unat (- 1 :: u64) = 2 ^ 64 - 1"
    by (simp add: unsigned_minus_1_eq_mask mask_eq_exp_minus_1)
  have "unat (- 1 mod ucast limit :: u64) = (2 ^ 64 - 1) mod unat limit"
    by (simp only: unat_mod m unat_ucast_u32_u64)
  moreover have "(- 1 mod ucast limit :: u64) \<le> - 1" by simp
  ultimately have "unat (rand_threshold limit) = (2 ^ 64 - 1) - (2 ^ 64 - 1) mod unat limit"
    unfolding rand_threshold_def by (simp only: unat_sub m)
  then show ?thesis by (simp only: minus_mod_eq_div_mult)
qed

lemma ROTL_inverse: "k \<le> LENGTH('w::len) \<Longrightarrow> ROTL (ROTL d k) (LENGTH('w) - k) = (d :: 'w word)"
  by (intro bit_word_eqI) (auto simp: ROTL_def bit_simps dest: bit_imp_le_length)

lemma ROTL_inject: "k \<le> LENGTH('w::len) \<Longrightarrow> ROTL d k = ROTL e k \<longleftrightarrow> d = (e :: 'w word)"
  using ROTL_inverse [of k d] ROTL_inverse [of k e] by metis

lemma romu_mult_inject:
  "(15241094284759029579 * x = 15241094284759029579 * y) \<longleftrightarrow> x = (y :: u64)"
  "(3323815723 * a = 3323815723 * b) \<longleftrightarrow> a = (b :: u32)"
proof -
  have "4888251478366616163 * 15241094284759029579 = (1 :: u64)" by transfer simp
  then have "4888251478366616163 * (15241094284759029579 * z) = z" for z :: u64
    by (simp only: mult.assoc [symmetric] mult_1)
  then show "(15241094284759029579 * x = 15241094284759029579 * y) \<longleftrightarrow> x = y" by metis
  have "862068611 * 3323815723 = (1 :: u32)" by transfer simp
  then have "862068611 * (3323815723 * z) = z" for z :: u32
    by (simp only: mult.assoc [symmetric] mult_1)
  then show "(3323815723 * a = 3323815723 * b) \<longleftrightarrow> a = b" by metis
qed

lemma rand_below_first:
  "1 < limit \<Longrightarrow> rand_reseed s = Some s1 \<Longrightarrow> fst (rand_next s1) < rand_threshold limit
     \<Longrightarrow> rand_below s limit = Some (ucast (fst (rand_next s1) mod ucast limit), snd (rand_next s1))"
  using rand_unbiased_complete [of s1 limit 0]
  by (cases "limit \<le> 1") (auto simp: rand_below_def first_accepted_0 case_prod_beta)

text \<open>A state whose next draws are 99 and 27.\<close>

definition rand_example :: afl_rand where
  "rand_example = \<lparr>rand_seed0 = 99, rand_seed1 = 2855581399931775089, rand_seed2 = 0, rand_cnt = 5, fixed_seed = 0,
     init_seed = 0, dev_urandom = []\<rparr>"

section \<open>Properties\<close>

text \<open>C7. \<open>rand_below\<close> returns 0 for a limit of 0 or 1, without a draw and without touching the state. For any other limit it
  returns exactly when the seed counter can be renewed and some draw of the generator is then below the rejection threshold; the
  result is the first such draw reduced modulo the limit, and the generator has advanced past that draw and no further. Whenever
  it returns for a limit other than 0, the result is below the limit.\<close>

theorem rand_below_correct:
  "(rand_below s limit = Some (r, s') \<longleftrightarrow>
      (if limit \<le> 1 then r = 0 \<and> s' = s
       else \<exists>s1 n. rand_reseed s = Some s1 \<and> first_accepted s1 limit n \<and> r = ucast (nth_draw s1 n mod ucast limit)
              \<and> s' = rand_after (Suc n) s1))
   \<and> (rand_below s limit = Some (r, s') \<longrightarrow> limit \<noteq> 0 \<longrightarrow> r < limit)"
proof -
  have "rand_below s limit = Some (r, s') \<longleftrightarrow> (\<exists>s1 n. rand_reseed s = Some s1 \<and> first_accepted s1 limit n
      \<and> r = ucast (nth_draw s1 n mod ucast limit) \<and> s' = rand_after (Suc n) s1)" if "\<not> limit \<le> 1"
  proof -
    have "rand_below s limit = Some (r, s') \<longleftrightarrow>
        (\<exists>s1 x. rand_reseed s = Some s1 \<and> rand_unbiased s1 limit = Some (x, s') \<and> r = ucast (x mod ucast limit))"
      using that by (auto simp: rand_below_def split: Option.bind_splits)
    then show ?thesis using rand_unbiased_sound [of _ limit] rand_unbiased_complete [of _ limit] by blast
  qed
  moreover have "limit \<le> 1 \<Longrightarrow> rand_below s limit = Some (0, s)" by (simp add: rand_below_def)
  ultimately show ?thesis using rand_below_less [of s limit r s'] by (auto simp: word_neq_0_conv)
qed

theorem rand_below_witness:
  "first_accepted (rand_example\<lparr>rand_cnt := 4\<rparr>) 7 0
   \<and> rand_below rand_example 7 = Some (1, rand_after (Suc 0) (rand_example\<lparr>rand_cnt := 4\<rparr>))"
proof -
  have r: "rand_reseed rand_example = Some (rand_example\<lparr>rand_cnt := 4\<rparr>)"
    by (simp add: rand_reseed_def rand_example_def)
  have n: "first_accepted (rand_example\<lparr>rand_cnt := 4\<rparr>) 7 0"
    by (simp add: first_accepted_0 rand_next_def rand_threshold_def rand_example_def)
  have "(1 :: u32) = ucast (nth_draw (rand_example\<lparr>rand_cnt := 4\<rparr>) 0 mod ucast (7 :: u32))"
    by (simp add: rand_next_def rand_example_def)
  with n r show ?thesis
    using rand_below_correct [of rand_example 7 1 "rand_after (Suc 0) (rand_example\<lparr>rand_cnt := 4\<rparr>)"]
    by (auto simp: word_le_nat_alt)
qed

text \<open>The rejection removes the modulo bias: among the draws that are not rejected every residue below
  the limit is produced by the same number of 64-bit values.\<close>

theorem rand_below_unbiased:
  assumes "a < limit"
  shows "card {x :: u64. x < rand_threshold limit \<and> ucast (x mod ucast limit) = a} = (2 ^ 64 - 1) div unat limit"
proof -
  let ?l = "unat limit" and ?q = "(2 ^ 64 - 1) div unat limit :: nat"
  have l: "?l < 2 ^ 32" using unsigned_less [of limit, where ?'a = nat] by simp
  have a: "unat a < ?l" using assms by (simp add: word_less_nat_alt)
  have "ucast (x mod ucast limit) = a \<longleftrightarrow> unat x mod ?l = unat a" for x :: u64
  proof -
    have "unat (x mod ucast limit) < 2 ^ 32" using a l by (simp add: unat_mod order.strict_trans [of _ ?l])
    then have "unat (ucast (x mod ucast limit) :: u32) = unat x mod ?l"
      by (simp add: unsigned_ucast_eq take_bit_nat_eq_self unat_mod)
    then show ?thesis by (metis unsigned_word_eqI)
  qed
  then have "{x :: u64. x < rand_threshold limit \<and> ucast (x mod ucast limit) = a}
      = {x :: u64. unat x < ?q * ?l \<and> unat x mod ?l = unat a}"
    by (auto simp: word_less_nat_alt unat_rand_threshold)
  then have "card {x :: u64. x < rand_threshold limit \<and> ucast (x mod ucast limit) = a}
      = card {n. n < 2 ^ LENGTH(64) \<and> n < ?q * ?l \<and> n mod ?l = unat a}"
    using card_words [of "\<lambda>n. n < ?q * ?l \<and> n mod ?l = unat a", where ?'w = 64] by simp
  also have "{n. n < 2 ^ LENGTH(64) \<and> n < ?q * ?l \<and> n mod ?l = unat a} = {n. n < ?q * ?l \<and> n mod ?l = unat a}"
  proof -
    have "?q * ?l \<le> 2 ^ 64 - 1" by (rule div_times_less_eq_dividend)
    then have "n < 2 ^ LENGTH(64)" if "n < ?q * ?l" for n
      using less_le_trans [OF that] by (fastforce simp: less_Suc_eq_le [symmetric])
    then show ?thesis by blast
  qed
  finally show ?thesis using card_residues [OF a] by simp
qed

theorem rand_below_unbiased_witness:
  "card {x :: u64. x < rand_threshold 3 \<and> ucast (x mod ucast (3 :: u32)) = (2 :: u32)} = 6148914691236517205"
  using rand_below_unbiased [of 2 3] by simp

text \<open>No generator state is ever merged with another: one step of the 64-bit generator is injective on the
  whole state, and one step of the 32-bit generator on its three seed words, so a run never falls from
  one seed's orbit into another's.\<close>

theorem rand_next_injective:
  "inj (\<lambda>s :: 'a afl_rand_scheme. snd (rand_next s)) \<and> inj (\<lambda>seed. snd (rand_next_32 seed))"
proof
  show "inj (\<lambda>s :: 'a afl_rand_scheme. snd (rand_next s))"
  proof (rule injI)
    fix s t :: "'a afl_rand_scheme"
    assume eq: "snd (rand_next s) = snd (rand_next t)"
    have "rand_seed1 s = rand_seed1 t"
      using arg_cong [OF eq, of rand_seed0] by (simp add: rand_next_def Let_def romu_mult_inject)
    moreover from this have "rand_seed0 s = rand_seed0 t"
      using arg_cong [OF eq, of rand_seed1] by (simp add: rand_next_def Let_def ROTL_inject)
    ultimately show "s = t"
      using eq by (cases s; cases t) (simp add: rand_next_def Let_def)
  qed
  show "inj (\<lambda>seed. snd (rand_next_32 seed))"
    by (rule injI) (auto simp: rand_next_32_def ROTL_inject romu_mult_inject split: prod.splits)
qed

lemma mod_word_le: "a mod b \<le> (a :: 'w::len word)"
  by (simp add: word_le_nat_alt unat_mod)

text \<open>\<open>rand_below_datalen\<close> stays below its limit on each of its branches.\<close>

theorem rand_below_datalen_less:
  assumes "rand_below_datalen s limit = Some (r, s')" and "0 < limit"
  shows "r < limit"
proof (cases "limit \<le> 1")
  case True
  then show ?thesis using assms by (simp add: rand_below_datalen_def)
next
  case False
  then have l: "1 < limit" by simp
  obtain c s1 where c: "rand_below s 3 = Some (c, s1)"
    using assms(1) False by (auto simp: rand_below_datalen_def split: Option.bind_splits)
  have "c < 3" using rand_below_less [OF c] by simp
  then have c3: "c = 0 \<or> c = 1 \<or> c = 2" by unat_arith
  from assms(1) False c3 c obtain a s2 where a: "rand_below s1 limit = Some (a, s2)" and "r \<le> a"
    by (auto simp: rand_below_datalen_def mod_word_le order.trans [OF mod_word_le mod_word_le]
        split: Option.bind_splits if_splits)
  then show ?thesis using rand_below_less [OF a assms(2)] by simp
qed

theorem rand_below_datalen_witness:
  "(case rand_below_datalen rand_example 10 of Some (r, _) \<Rightarrow> r = 7 \<and> r < 10 | None \<Rightarrow> False)"
proof -
  have 1: "rand_below rand_example 3 = Some (0, snd (rand_next (rand_example\<lparr>rand_cnt := 4\<rparr>)))" (is "_ = Some (_, ?s)")
    by (subst rand_below_first [where ?s1.0 = "rand_example\<lparr>rand_cnt := 4\<rparr>"])
       (simp_all add: rand_reseed_def rand_example_def rand_next_def rand_threshold_def)
  have 2: "rand_below ?s 10 = Some (7, snd (rand_next (?s\<lparr>rand_cnt := 3\<rparr>)))"
    by (subst rand_below_first [where ?s1.0 = "?s\<lparr>rand_cnt := 3\<rparr>"])
       (simp_all add: rand_reseed_def rand_example_def rand_next_def rand_threshold_def)
  have "rand_below_datalen rand_example 10 = Some (7, snd (rand_next (?s\<lparr>rand_cnt := 3\<rparr>)))"
    using 1 2 by (simp add: rand_below_datalen_def word_le_nat_alt)
  with rand_below_datalen_less [OF this] show ?thesis by simp
qed

lemma next_p2_loop_step: "unat ret < unat val \<Longrightarrow> next_p2_loop val ret = next_p2_loop val (2 * ret)"
  by (subst next_p2_loop.simps) (simp add: word_less_nat_alt push_bit_eq_mult mult.commute)

lemma next_p2_loop_stop: "unat val \<le> unat ret \<Longrightarrow> next_p2_loop val ret = Some ret"
  by (subst next_p2_loop.simps) (simp add: word_less_nat_alt)

lemma unat_pow2_u64 [simp]: "k < 64 \<Longrightarrow> unat (2 ^ k :: u64) = 2 ^ k"
proof -
  assume k: "k < 64"
  have "(2 ^ k :: u64) = word_of_nat (2 ^ k)" by simp
  with k show ?thesis by (simp only: unsigned_of_nat) (simp add: take_bit_nat_eq_self)
qed

lemma pow2_u64_shift:
  "ret = 0 \<or> (\<exists>k<64. ret = 2 ^ k) \<Longrightarrow> push_bit 1 ret = 0 \<or> (\<exists>k<64. push_bit 1 ret = (2 ^ k :: u64))"
proof (elim disjE exE conjE)
  fix k :: nat assume k: "k < 64" "ret = (2 ^ k :: u64)"
  show ?thesis
  proof (cases "k = 63")
    case True
    have "push_bit 1 (2 ^ 63 :: u64) = 0" by simp
    with k True show ?thesis by blast
  next
    case False
    with k have "Suc k < 64" "push_bit 1 ret = 2 ^ Suc k" by (simp_all add: push_bit_eq_mult)
    then show ?thesis by blast
  qed
qed simp

lemma next_p2_loop_result:
  assumes "unat val \<le> 2 ^ 63" and "k \<le> 63" and "k = 0 \<or> 2 ^ (k - 1) < unat val"
  shows "\<exists>j\<le>63. next_p2_loop val (2 ^ k) = Some (2 ^ j)
             \<and> unat val \<le> 2 ^ j \<and> (j = 0 \<or> 2 ^ (j - 1) < unat val)"
  using assms(2,3)
proof (induction "63 - k" arbitrary: k)
  case 0
  then have "k = 63" by simp
  with 0 assms(1) show ?case
    by (intro exI [of _ 63]) (simp add: next_p2_loop_stop unat_pow2_u64)
next
  case (Suc d)
  show ?case
  proof (cases "unat val \<le> 2 ^ k")
    case True
    with Suc.prems show ?thesis by (intro exI [of _ k]) (simp add: next_p2_loop_stop unat_pow2_u64)
  next
    case False
    then have "next_p2_loop val (2 ^ k) = next_p2_loop val (2 ^ Suc k)"
      using Suc.prems Suc.hyps(2) by (simp add: next_p2_loop_step unat_pow2_u64)
    moreover have "d = 63 - Suc k" "Suc k \<le> 63" using Suc.hyps(2) by simp_all
    ultimately show ?thesis using Suc.hyps(1) [of "Suc k"] False by simp
  qed
qed

lemma next_p2_loop_diverges:
  assumes "next_p2_loop val ret = Some x" and "ret = 0 \<or> (\<exists>k<64. ret = 2 ^ k)"
  shows "unat val \<le> 2 ^ 63"
proof -
  have "(ret = 0 \<or> (\<exists>k<64. ret = 2 ^ k)) \<longrightarrow> unat val \<le> 2 ^ 63"
  proof (rule next_p2_loop.raw_induct
      [where P = "\<lambda>val ret x. (ret = 0 \<or> (\<exists>k<64. ret = 2 ^ k)) \<longrightarrow> unat val \<le> 2 ^ 63", OF _ assms(1)])
    fix f and val ret :: u64 and x
    assume IH: "\<And>val ret x. f val ret = Some x \<Longrightarrow> (ret = 0 \<or> (\<exists>k<64. ret = 2 ^ k)) \<longrightarrow> unat val \<le> 2 ^ 63"
      and *: "(if ret < val then f val (push_bit 1 ret) else Some ret) = Some x"
    show "(ret = 0 \<or> (\<exists>k<64. ret = 2 ^ k)) \<longrightarrow> unat val \<le> 2 ^ 63"
    proof
      assume r: "ret = 0 \<or> (\<exists>k<64. ret = 2 ^ k)"
      show "unat val \<le> 2 ^ 63"
      proof (cases "ret < val")
        case True
        moreover have "push_bit 1 ret = 0 \<or> (\<exists>k<64. push_bit 1 ret = 2 ^ k)"
          using r by (rule pow2_u64_shift)
        moreover have "f val (push_bit 1 ret) = Some x" using * True by presburger
        ultimately show ?thesis using IH by blast
      next
        case False
        then have "unat val \<le> unat ret" by (simp add: word_less_nat_alt)
        also have "\<dots> \<le> 2 ^ 63"
          using r power_increasing [of _ 63 "2 :: nat"] by (auto simp del: power_increasing_iff)
        finally show ?thesis .
      qed
    qed
  qed
  then show ?thesis using assms(2) by blast
qed

text \<open>\<open>next_p2\<close> returns the least power of two that is not below its argument for every argument up to
  \<open>2 ^ 63\<close>; above it the loop does not end.\<close>

theorem next_p2_correct:
  "if unat val \<le> 2 ^ 63
   then \<exists>j\<le>63. next_p2 val = Some (2 ^ j) \<and> unat val \<le> 2 ^ j \<and> (\<forall>i. unat val \<le> 2 ^ i \<longleftrightarrow> j \<le> i)
   else next_p2 val = None"
proof (cases "unat val \<le> 2 ^ 63")
  case True
  with next_p2_loop_result [of val 0] obtain j where j: "j \<le> 63" "next_p2_loop val 1 = Some (2 ^ j)"
      "unat val \<le> 2 ^ j" "j = 0 \<or> 2 ^ (j - 1) < unat val" by auto
  have "unat val \<le> 2 ^ i \<longleftrightarrow> j \<le> i" for i
  proof
    assume v: "unat val \<le> 2 ^ i"
    show "j \<le> i"
    proof (rule ccontr)
      assume "\<not> j \<le> i"
      then have "(2 :: nat) ^ i \<le> 2 ^ (j - 1)" and "j \<noteq> 0" by (auto intro: power_increasing)
      with v j(4) show False by linarith
    qed
  next
    assume "j \<le> i"
    then have "(2 :: nat) ^ j \<le> 2 ^ i" by (intro power_increasing) auto
    with j(3) show "unat val \<le> 2 ^ i" by linarith
  qed
  with True j show ?thesis by (auto simp: next_p2_def)
next
  case False
  then have "next_p2 val = None"
    using next_p2_loop_diverges [of val "2 ^ 0"] by (cases "next_p2 val") (force simp: next_p2_def)+
  with False show ?thesis by simp
qed

end
