(* ===== verification/Colorize.thy ===== *)
theory Colorize
  imports Rand
begin

text \<open>
  Colorization, the first step of the input-to-state stage (\<^verbatim>\<open>src/afl-fuzz-redqueen.c\<close>): as many bytes of the input as possible are
  replaced without a change of the execution path, and the replaced positions become the list of tainted positions. The
  doubly linked list of ranges is a list and a pointer into it is an index. Sizes and positions are natural numbers; an input has
  at most \<open>MAX_FILE\<close> bytes.
\<close>

section \<open>Ranges\<close>

record range =
  rg_start :: nat
  rg_end :: nat
  rg_ok :: nat

definition range_size :: "range \<Rightarrow> nat" where
  "range_size r = 1 + rg_end r - rg_start r"

definition add_range :: "range list \<Rightarrow> nat \<Rightarrow> nat \<Rightarrow> range list" where
  "add_range ranges a b = \<lparr>rg_start = a, rg_end = b, rg_ok = 0\<rparr> # ranges"

fun pop_loop :: "range list \<Rightarrow> nat \<Rightarrow> nat \<Rightarrow> nat option \<Rightarrow> nat option" where
  "pop_loop [] i max_size rmax = rmax"
| "pop_loop (r # rs) i max_size rmax =
     (if rg_ok r = 0 \<and> range_size r \<ge> max_size then pop_loop rs (Suc i) (range_size r) (Some i)
      else pop_loop rs (Suc i) max_size rmax)"

definition pop_biggest_range :: "range list \<Rightarrow> nat option" where
  "pop_biggest_range ranges = pop_loop ranges 0 0 None"

section \<open>Replacing bytes\<close>

text \<open>\<open>do c = ...; while (c == buf[i])\<close>\<close>

partial_function (option) until_other :: "('r \<Rightarrow> (u8 \<times> 'r) option) \<Rightarrow> u8 \<Rightarrow> 'r \<Rightarrow> (u8 \<times> 'r) option" where
  "until_other pick b r = do {
     (c, r) \<leftarrow> pick r;
     if c = b then until_other pick b r else Some (c, r) }"

declare until_other.simps [code]

fun replace_bytes :: "(u8 \<Rightarrow> 'r \<Rightarrow> (u8 \<times> 'r) option) \<Rightarrow> mem \<Rightarrow> 'r \<Rightarrow> (mem \<times> 'r) option" where
  "replace_bytes pick [] r = Some ([], r)"
| "replace_bytes pick (b # bs) r = do {
     (c, r) \<leftarrow> until_other (pick b) b r;
     (cs, r) \<leftarrow> replace_bytes pick bs r;
     Some (c # cs, r) }"

definition random_replace :: "'r drawing \<Rightarrow> mem \<Rightarrow> 'r \<Rightarrow> (mem \<times> 'r) option" where
  "random_replace draw = replace_bytes (\<lambda>b r. do { (x, r) \<leftarrow> draw r 256; Some (ucast x, r) })"

text \<open>\<open>c = low + rand_below(afl, 1 + high - low)\<close>\<close>

definition draw_between :: "'r drawing \<Rightarrow> u8 \<Rightarrow> u8 \<Rightarrow> 'r \<Rightarrow> (u8 \<times> 'r) option" where
  "draw_between draw low high r = do { (x, r) \<leftarrow> draw r (ucast (1 + high - low)); Some (low + ucast x, r) }"

definition type_choice :: "'r drawing \<Rightarrow> u8 \<Rightarrow> 'r \<Rightarrow> (u8 \<times> 'r) option" where
  "type_choice draw b =
     (if 0x41 \<le> b \<and> b \<le> 0x46 then draw_between draw 0x41 0x46
      else if 0x61 \<le> b \<and> b \<le> 0x66 then draw_between draw 0x61 0x66
      else if b = 0x30 then (\<lambda>r. Some (0x31, r))
      else if b = 0x31 then (\<lambda>r. Some (0x30, r))
      else if 0x32 \<le> b \<and> b \<le> 0x39 then draw_between draw 0x32 0x39
      else if 0x47 \<le> b \<and> b \<le> 0x5A then draw_between draw 0x47 0x5A
      else if 0x67 \<le> b \<and> b \<le> 0x7A then draw_between draw 0x67 0x7A
      else if 0x21 \<le> b \<and> b \<le> 0x2A then draw_between draw 0x21 0x2A
      else if 0x2C \<le> b \<and> b \<le> 0x2E then draw_between draw 0x2C 0x2E
      else if 0x3A \<le> b \<and> b \<le> 0x40 then draw_between draw 0x3A 0x40
      else if 0x5B \<le> b \<and> b \<le> 0x60 then draw_between draw 0x5B 0x60
      else if 0x7B \<le> b \<and> b \<le> 0x7E then draw_between draw 0x7B 0x7E
      else if b = 0x2B then (\<lambda>r. Some (0x2F, r))
      else if b = 0x2F then (\<lambda>r. Some (0x2B, r))
      else if b = 0x20 then (\<lambda>r. Some (0x09, r))
      else if b = 0x09 then (\<lambda>r. Some (0x20, r))
      else if b = 0x0D then (\<lambda>r. Some (0x0A, r))
      else if b = 0x0A then (\<lambda>r. Some (0x0D, r))
      else if b = 0 then (\<lambda>r. Some (1, r))
      else if b = 1 then (\<lambda>r. Some (0, r))
      else if b = 0xFF then (\<lambda>r. Some (0, r))
      else if b < 32 then (\<lambda>r. Some (b XOR 0x1F, r))
      else (\<lambda>r. Some (b XOR 0x7F, r)))"

definition type_replace :: "'r drawing \<Rightarrow> mem \<Rightarrow> 'r \<Rightarrow> (mem \<times> 'r) option" where
  "type_replace draw = replace_bytes (type_choice draw)"

section \<open>Colorization\<close>

text \<open>\<open>co_exec\<close> is \<open>get_exec_checksum\<close>: whether the entry is abandoned, and the checksum; \<open>co_time\<close> is \<open>get_cur_time_us\<close>, \<open>co_draw\<close> is
  \<open>rand_below\<close>, and \<open>co_active\<close> reads \<open>active_items\<close>, which the runs may change. The other fields are settings.\<close>

record 'e col_ops =
  co_exec :: "mem \<Rightarrow> 'e \<Rightarrow> bool \<times> u64 \<times> 'e"
  co_time :: "'e \<Rightarrow> u64 \<times> 'e"
  co_draw :: "'e drawing"
  co_active :: "'e \<Rightarrow> nat"
  co_random :: bool
  co_fixed_seed :: bool
  co_exec_us :: u64
  co_lvl :: nat

record 'e color =
  cl_buf :: mem
  cl_ranges :: "range list"
  cl_stage_cur :: nat
  cl_env :: 'e

definition CMPLOG_POSITIONS_MAX :: nat where "CMPLOG_POSITIONS_MAX = 12 * 1024"
definition CMPLOG_CORPUS_PERCENT :: nat where "CMPLOG_CORPUS_PERCENT = 5"

text \<open>The halves of a range that was rejected.\<close>

definition split_range :: "range \<Rightarrow> range list \<Rightarrow> range list" where
  "split_range r rs = (let s = range_size r in
     if s > 1 then add_range (add_range rs (rg_start r) (rg_start r + s div 2 - 1)) (rg_start r + s div 2) (rg_end r) else rs)"

text \<open>The body of the loop for the range number \<open>i\<close>; the first component of the result tells that the entry is abandoned.\<close>

definition color_step :: "'e col_ops \<Rightarrow> mem \<Rightarrow> mem \<Rightarrow> u64 \<Rightarrow> nat \<Rightarrow> 'e color \<Rightarrow> (bool \<times> 'e color) option" where
  "color_step ops backup changed exec_cksum i c = do {
     r \<leftarrow> load8 (cl_ranges c) i;
     let s = range_size r;
     new \<leftarrow> read_block changed (rg_start r) s;
     buf \<leftarrow> memcpy_at (cl_buf c) (rg_start r) new;
     let (start_us, e) = co_time ops (cl_env c);
     let (abandon, cksum, e) = co_exec ops buf e;
     if abandon then Some (True, c\<lparr>cl_buf := buf, cl_env := e\<rparr>)
     else do {
       let (stop_us, e) = co_time ops e;
       if cksum \<noteq> exec_cksum \<or> stop_us - start_us > 3 * co_exec_us ops \<and> \<not> co_fixed_seed ops then do {
         old \<leftarrow> read_block backup (rg_start r) s;
         buf \<leftarrow> memcpy_at buf (rg_start r) old;
         Some (False, c\<lparr>cl_buf := buf, cl_ranges := split_range r (take i (cl_ranges c) @ drop (Suc i) (cl_ranges c)),
           cl_stage_cur := cl_stage_cur c + 1, cl_env := e\<rparr>) }
       else Some (False, c\<lparr>cl_buf := buf, cl_ranges := (cl_ranges c)[i := r\<lparr>rg_ok := 1\<rparr>],
           cl_stage_cur := cl_stage_cur c + 1, cl_env := e\<rparr>) } }"

partial_function (option) color_loop :: "'e col_ops \<Rightarrow> mem \<Rightarrow> mem \<Rightarrow> u64 \<Rightarrow> nat \<Rightarrow> 'e color \<Rightarrow> (bool \<times> 'e color) option" where
  "color_loop ops backup changed exec_cksum stage_max c =
     (case pop_biggest_range (cl_ranges c) of
        None \<Rightarrow> Some (False, c)
      | Some i \<Rightarrow>
          if cl_stage_cur c < stage_max then do {
            (abandon, c) \<leftarrow> color_step ops backup changed exec_cksum i c;
            if abandon then Some (True, c) else color_loop ops backup changed exec_cksum stage_max c }
          else Some (False, c))"

declare color_loop.simps [code]

text \<open>The search for the next range of the list of tainted positions, whose head is \<open>taint\<close>: \<open>Inl i\<close> is a range next to the head,
  \<open>Inr (Some i)\<close> the first one in the input.\<close>

fun scan_ranges :: "(nat \<times> nat) list \<Rightarrow> range list \<Rightarrow> nat \<Rightarrow> nat \<Rightarrow> nat option \<Rightarrow> nat + nat option" where
  "scan_ranges taint [] i pos r = Inr r"
| "scan_ranges taint (g # rs) i pos r =
     (if rg_ok g = 1 \<and> rg_start g < pos then
        (if taint \<noteq> [] \<and> fst (hd taint) + snd (hd taint) = rg_start g then Inl i
         else scan_ranges taint rs (Suc i) (rg_start g) (Some i))
      else scan_ranges taint rs (Suc i) pos r)"

partial_function (option) collect_taints :: "range list \<Rightarrow> (nat \<times> nat) list \<Rightarrow> nat \<Rightarrow> ((nat \<times> nat) list \<times> nat) option" where
  "collect_taints ranges taint positions =
     (case scan_ranges taint ranges 0 (2 ^ 32 - 1) None of
        Inl i \<Rightarrow> do {
          r \<leftarrow> load8 ranges i;
          collect_taints (ranges[i := r\<lparr>rg_ok := 2\<rparr>]) ((fst (hd taint), snd (hd taint) + range_size r) # tl taint) (positions + range_size r) }
      | Inr (Some i) \<Rightarrow> do {
          r \<leftarrow> load8 ranges i;
          collect_taints (ranges[i := r\<lparr>rg_ok := 2\<rparr>]) ((rg_start r, range_size r) # taint) (positions + range_size r) }
      | Inr None \<Rightarrow> Some (taint, positions))"

declare collect_taints.simps [code]

definition unsatisfactory :: "'e col_ops \<Rightarrow> nat \<Rightarrow> nat \<Rightarrow> nat \<Rightarrow> 'e \<Rightarrow> bool" where
  "unsatisfactory ops len positions success e \<longleftrightarrow> success \<noteq> 0 \<and> co_lvl ops < 3 \<and> positions > CMPLOG_POSITIONS_MAX \<and> len div positions = 1
     \<and> co_active ops e div success > CMPLOG_CORPUS_PERCENT"

record 'e colored =
  cd_buf :: mem
  cd_taints :: "(nat \<times> nat) list"
  cd_success :: nat
  cd_stage_cur :: nat
  cd_env :: 'e

text \<open>\<open>Inl\<close> is the return value 1, with the contents of the buffer at that time.\<close>

definition colorization :: "'e col_ops \<Rightarrow> mem \<Rightarrow> (nat \<times> nat) list \<Rightarrow> nat \<Rightarrow> 'e \<Rightarrow> (mem + 'e colored) option" where
  "colorization ops buf taints success e = do {
     let len = length buf;
     let ranges = add_range [] 0 (len - 1);
     let (abandon, exec_cksum, e) = co_exec ops buf e;
     if abandon then Some (Inl buf)
     else do {
       let backup = buf;
       (changed, e) \<leftarrow> (if co_random ops then random_replace (co_draw ops) buf e else type_replace (co_draw ops) buf e);
       (abandon, c) \<leftarrow> color_loop ops backup changed exec_cksum (2 * len) \<lparr>cl_buf = buf, cl_ranges = ranges, cl_stage_cur = 0, cl_env = e\<rparr>;
       if abandon then Some (Inl (cl_buf c))
       else do {
         (taint, positions) \<leftarrow> collect_taints (cl_ranges c) [] 0;
         let (taints, success) = (if taint = [] then (taints, success)
            else if unsatisfactory ops len positions success (cl_env c) then ([], success) else (taint, success + 1));
         Some (Inr \<lparr>cd_buf = cl_buf c, cd_taints = taints, cd_success = success, cd_stage_cur = cl_stage_cur c, cd_env = cl_env c\<rparr>) } } }"

section \<open>Ranges of an input\<close>

definition cells :: "range \<Rightarrow> nat set" where
  "cells r = {rg_start r..rg_end r}"

definition disjoint :: "range list \<Rightarrow> bool" where
  "disjoint = sorted_wrt (\<lambda>a b. cells a \<inter> cells b = {})"

definition ranges_in :: "nat \<Rightarrow> range list \<Rightarrow> bool" where
  "ranges_in len rs \<longleftrightarrow> (\<forall>r\<in>set rs. rg_start r \<le> rg_end r \<and> rg_end r < len) \<and> disjoint rs"

text \<open>The positions of the accepted ranges, and the number of runs the others can still take.\<close>

definition ok_cells :: "range list \<Rightarrow> nat set" where
  "ok_cells rs = (\<Union>r\<in>{r \<in> set rs. rg_ok r \<noteq> 0}. cells r)"

definition todo :: "range list \<Rightarrow> nat" where
  "todo rs = (\<Sum>r\<leftarrow>rs. if rg_ok r = 0 then 2 * range_size r - 1 else 0)"

lemma cells_ok [simp]: "cells (r\<lparr>rg_ok := k\<rparr>) = cells r" "range_size (r\<lparr>rg_ok := k\<rparr>) = range_size r"
  by (simp_all add: cells_def range_size_def)

lemma pop_loop_None: "pop_loop rs i m r = None \<longleftrightarrow> r = None \<and> (\<forall>x\<in>set rs. rg_ok x = 0 \<longrightarrow> range_size x < m)"
  by (induction rs i m r rule: pop_loop.induct) auto

lemma pop_loop_Some:
  "pop_loop rs i m r = Some k \<Longrightarrow> r = Some k \<and> (\<forall>x\<in>set rs. rg_ok x = 0 \<longrightarrow> range_size x < m)
     \<or> i \<le> k \<and> k < i + length rs \<and> rg_ok (rs ! (k - i)) = 0 \<and> m \<le> range_size (rs ! (k - i))
       \<and> (\<forall>x\<in>set rs. rg_ok x = 0 \<longrightarrow> range_size x \<le> range_size (rs ! (k - i)))"
proof (induction rs i m r rule: pop_loop.induct)
  case (2 r rs i m rmax)
  have nth: "(r # rs) ! (k - i) = rs ! (k - Suc i)" if "Suc i \<le> k" using that by (simp add: nth_Cons' Suc_diff_le)
  show ?case
  proof (cases "rg_ok r = 0 \<and> range_size r \<ge> m")
    case True
    then have "pop_loop rs (Suc i) (range_size r) (Some i) = Some k" using 2(3) by simp
    then show ?thesis using 2(1) [OF True] nth True by (auto simp: nth_Cons')
  next
    case False
    then have "pop_loop rs (Suc i) m rmax = Some k" using 2(3) by auto
    then show ?thesis using 2(2) [OF False] nth False by (auto simp: nth_Cons')
  qed
qed simp

lemma pop_None: "pop_biggest_range rs = None \<longleftrightarrow> (\<forall>r\<in>set rs. rg_ok r \<noteq> 0)"
  by (auto simp: pop_biggest_range_def pop_loop_None)

lemma pop_Some:
  assumes "pop_biggest_range rs = Some i"
  shows "i < length rs" "rg_ok (rs ! i) = 0" "\<forall>r\<in>set rs. rg_ok r = 0 \<longrightarrow> range_size r \<le> range_size (rs ! i)"
  using pop_loop_Some [of rs 0 0 None i] assms by (auto simp: pop_biggest_range_def)

lemma cells_split:
  assumes "rg_start r \<le> rg_end r"
  shows "(\<Union>x\<in>set (split_range r rs). cells x) = (\<Union>x\<in>set rs. cells x) \<union> (if range_size r > 1 then cells r else {})"
proof -
  have "{rg_start r..rg_start r + range_size r div 2 - 1} \<union> {rg_start r + range_size r div 2..rg_end r} = cells r" if "range_size r > 1"
    using assms that by (auto simp: cells_def range_size_def)
  then show ?thesis by (auto simp: split_range_def add_range_def Let_def cells_def)
qed


lemma ranges_in_middle:
  "ranges_in len (xs @ r # ys) \<longleftrightarrow> rg_start r \<le> rg_end r \<and> rg_end r < len \<and> ranges_in len (xs @ ys) \<and> (\<forall>x\<in>set xs \<union> set ys. cells r \<inter> cells x = {})"
  unfolding ranges_in_def disjoint_def sorted_wrt_append by (simp add: ball_Un Int_commute) blast

lemma ranges_in_split:
  assumes "ranges_in len rs" and "rg_start r \<le> rg_end r" and "rg_end r < len" and "\<forall>x\<in>set rs. cells r \<inter> cells x = {}"
  shows "ranges_in len (split_range r rs)"
proof (cases "range_size r > 1")
  case True
  define h where "h = range_size r div 2"
  let ?a = "\<lparr>rg_start = rg_start r, rg_end = rg_start r + h - 1, rg_ok = 0\<rparr>" and ?b = "\<lparr>rg_start = rg_start r + h, rg_end = rg_end r, rg_ok = 0\<rparr>"
  have h: "1 \<le> h" "rg_start r + h \<le> rg_end r" "rg_start r \<le> rg_start r + h - 1" "rg_start r + h - 1 < len"
    using True assms(2,3) by (auto simp: range_size_def h_def)
  then have "cells ?a \<subseteq> cells r" "cells ?b \<subseteq> cells r" "cells ?b \<inter> cells ?a = {}" by (auto simp: cells_def)
  moreover have "cells ?a \<inter> cells x = {}" "cells ?b \<inter> cells x = {}" if "x \<in> set rs" for x using assms(4) that calculation by blast+
  moreover have "split_range r rs = ?b # ?a # rs" using True by (simp add: split_range_def add_range_def h_def Let_def)
  ultimately show ?thesis using assms(1-3) h by (simp add: ranges_in_def disjoint_def)
qed (use assms in \<open>simp add: split_range_def\<close>)

lemma ok_cells_simps: "ok_cells (xs @ r # ys) = (if rg_ok r \<noteq> 0 then cells r else {}) \<union> ok_cells (xs @ ys)"
  "ok_cells (split_range r rs) = ok_cells rs"
  by (auto simp: ok_cells_def split_range_def add_range_def Let_def)

lemma todo_simps: "todo (xs @ r # ys) = (if rg_ok r = 0 then 2 * range_size r - 1 else 0) + todo (xs @ ys)"
  "rg_start r \<le> rg_end r \<Longrightarrow> todo (split_range r rs) = todo rs + 2 * range_size r - 2"
  by (auto simp: todo_def split_range_def add_range_def Let_def range_size_def)

lemma ok_split: "\<forall>x\<in>set rs. rg_ok x \<le> 1 \<Longrightarrow> \<forall>x\<in>set (split_range r rs). rg_ok x \<le> 1"
  by (simp add: split_range_def add_range_def Let_def)

lemma todo_zero: "\<forall>r\<in>set rs. rg_ok r \<noteq> 0 \<Longrightarrow> todo rs = 0"
  by (induction rs) (auto simp: todo_def)

section \<open>The loop\<close>

lemma nth_upd_at:
  "i < length m \<Longrightarrow> off + length bs \<le> length m \<Longrightarrow> upd_at m off bs ! i = (if off \<le> i \<and> i < off + length bs then bs ! (i - off) else m ! i)"
  by (auto simp: upd_at_def nth_append)

definition color_inv :: "mem \<Rightarrow> mem \<Rightarrow> 'e color \<Rightarrow> bool" where
  "color_inv backup changed c \<longleftrightarrow> length (cl_buf c) = length backup \<and> ranges_in (length backup) (cl_ranges c)
     \<and> (\<forall>r\<in>set (cl_ranges c). rg_ok r \<le> 1)
     \<and> (\<forall>i<length backup. cl_buf c ! i = (if i \<in> ok_cells (cl_ranges c) then changed ! i else backup ! i))
     \<and> cl_stage_cur c + todo (cl_ranges c) < 2 * length backup"

text \<open>Some run on \<open>b\<close> had the checksum \<open>ck\<close>.\<close>

definition same_path :: "'e col_ops \<Rightarrow> u64 \<Rightarrow> mem \<Rightarrow> bool" where
  "same_path ops ck b \<longleftrightarrow> (\<exists>e. fst (snd (co_exec ops b e)) = ck)"

definition abandons :: "'e col_ops \<Rightarrow> bool" where
  "abandons ops \<longleftrightarrow> (\<exists>b e. fst (co_exec ops b e))"

text \<open>The result of a step or of the loop.\<close>

definition color_result :: "'e col_ops \<Rightarrow> ('e color \<Rightarrow> bool) \<Rightarrow> bool \<times> 'e color \<Rightarrow> bool" where
  "color_result ops P x \<longleftrightarrow> (if fst x then abandons ops else P (snd x))"

definition color_done :: "'e col_ops \<Rightarrow> mem \<Rightarrow> mem \<Rightarrow> u64 \<Rightarrow> 'e color \<Rightarrow> bool" where
  "color_done ops backup changed ck c \<longleftrightarrow> color_inv backup changed c \<and> same_path ops ck (cl_buf c) \<and> (\<forall>r\<in>set (cl_ranges c). rg_ok r \<noteq> 0)"

lemma wp_color_step:
  assumes inv: "color_inv backup changed c" and len: "length changed = length backup" and i: "i < length (cl_ranges c)" "rg_ok (cl_ranges c ! i) = 0"
    and path: "same_path ops ck (cl_buf c)"
  shows "wp (color_step ops backup changed ck i c) (color_result ops
     (\<lambda>c'. color_inv backup changed c' \<and> same_path ops ck (cl_buf c') \<and> cl_stage_cur c' = cl_stage_cur c + 1))"
proof -
  define r xs ys where defs: "r = cl_ranges c ! i" "xs = take i (cl_ranges c)" "ys = drop (Suc i) (cl_ranges c)"
  have rs: "cl_ranges c = xs @ r # ys" using i(1) by (simp add: defs id_take_nth_drop)
  have upd: "(cl_ranges c)[i := r\<lparr>rg_ok := 1\<rparr>] = xs @ r\<lparr>rg_ok := 1\<rparr> # ys" using i(1) by (simp add: defs upd_conv_take_nth_drop)
  have ok: "rg_ok r = 0" using i(2) by (simp add: defs)
  let ?n = "length backup" and ?a = "rg_start r" and ?s = "range_size r"
  have inv': "length (cl_buf c) = ?n" "ranges_in ?n (xs @ r # ys)" "\<forall>j<?n. cl_buf c ! j = (if j \<in> ok_cells (xs @ ys) then changed ! j else backup ! j)"
    "cl_stage_cur c + (2 * ?s - 1 + todo (xs @ ys)) < 2 * ?n" "\<forall>x\<in>set (xs @ ys). rg_ok x \<le> 1"
    using inv ok by (simp_all add: color_inv_def rs ok_cells_simps todo_simps)
  have r: "?a \<le> rg_end r" "rg_end r < ?n" "ranges_in ?n (xs @ ys)" "\<forall>x\<in>set (xs @ ys). cells r \<inter> cells x = {}"
    using inv'(2) by (auto simp: ranges_in_middle)
  have s: "?a + ?s \<le> ?n" "1 \<le> ?s" "j \<in> cells r \<longleftrightarrow> ?a \<le> j \<and> j < ?a + ?s" for j using r(1,2) by (auto simp: range_size_def cells_def)
  define new old where no: "new = take ?s (drop ?a changed)" "old = take ?s (drop ?a backup)"
  have l: "length new = ?s" "length old = ?s" using s(1) len by (simp_all add: no)
  let ?b = "upd_at (cl_buf c) ?a new"
  have b: "length ?b = ?n" "\<forall>j<?n. ?b ! j = (if j \<in> cells r \<union> ok_cells (xs @ ys) then changed ! j else backup ! j)"
    using s inv'(1,3) len l by (auto simp: nth_upd_at no(1))
  have out: "j \<notin> ok_cells (xs @ ys)" if "j \<in> cells r" for j using r(4) that by (fastforce simp: ok_cells_def)
  have undo: "upd_at ?b ?a old = cl_buf c"
    using s inv'(1,3) b l out by (intro nth_equalityI) (auto simp: nth_upd_at no(2))
  have mem: "read_block changed ?a ?s = Some new" "read_block backup ?a ?s = Some old" "memcpy_at (cl_buf c) ?a new = Some ?b"
    "memcpy_at ?b ?a old = Some (cl_buf c)"
    using s(1) len l inv'(1) b(1) undo by (simp_all add: read_block_def no memcpy_at_upd)
  obtain t1 e1 where t1: "co_time ops (cl_env c) = (t1, e1)" by fastforce
  obtain ab ck' e2 where ex: "co_exec ops ?b e1 = (ab, ck', e2)" by (cases "co_exec ops ?b e1") auto
  obtain t2 e3 where t2: "co_time ops e2 = (t2, e3)" by fastforce
  have reject: "color_inv backup changed (c\<lparr>cl_ranges := split_range r (xs @ ys), cl_stage_cur := cl_stage_cur c + 1, cl_env := e3\<rparr>)"
    using inv' r ranges_in_split [OF r(3,1,2,4)] s(2) ok_split [OF inv'(5)] by (simp add: color_inv_def ok_cells_simps todo_simps)
  have accept: "color_inv backup changed (c\<lparr>cl_buf := ?b, cl_ranges := xs @ r\<lparr>rg_ok := 1\<rparr> # ys, cl_stage_cur := cl_stage_cur c + 1, cl_env := e3\<rparr>)"
    using inv' b s(2) unfolding color_inv_def by (auto simp: ok_cells_simps todo_simps ranges_in_middle)
  have p: "same_path ops ck ?b" if "ck' = ck" unfolding same_path_def using ex that by (intro exI [of _ e1]) simp
  have ab: "abandons ops" if ab unfolding abandons_def using ex that by (intro exI [of _ ?b] exI [of _ e1]) simp
  have ld: "load8 (cl_ranges c) i = Some r" using i(1) by (simp add: defs)
  show ?thesis using mem t1 ex t2 path p ab reject [unfolded defs(2,3)] accept [folded upd] unfolding color_step_def ld by (auto simp: Let_def color_result_def)
qed

lemma wp_color_loop:
  assumes "color_inv backup changed c" and len: "length changed = length backup" and "same_path ops ck (cl_buf c)"
  shows "wp (color_loop ops backup changed ck (2 * length backup) c) (color_result ops (color_done ops backup changed ck))"
  using assms(1,3)
proof (induction "2 * length backup - cl_stage_cur c" arbitrary: c rule: less_induct)
  case less
  let ?Q = "color_result ops (color_done ops backup changed ck)"
  show ?case
  proof (cases "pop_biggest_range (cl_ranges c)")
    case None
    then have "color_done ops backup changed ck c" using less.prems by (simp add: pop_None color_done_def)
    then show ?thesis using None by (subst color_loop.simps) (simp add: color_result_def)
  next
    case (Some i)
    have cur: "cl_stage_cur c < 2 * length backup" using less.prems(1) by (simp add: color_inv_def)
    have "wp (color_step ops backup changed ck i c) (\<lambda>(abandon, c'). wp (if abandon then Some (True, c')
       else color_loop ops backup changed ck (2 * length backup) c') ?Q)"
      by (rule wp_mono [OF wp_color_step [OF less.prems(1) len pop_Some(1,2) [OF Some] less.prems(2)]])
         (use less.hyps cur in \<open>auto simp: color_result_def intro: diff_less_mono2\<close>)
    then show ?thesis using Some cur by (subst color_loop.simps) (simp add: split_def)
  qed
qed

section \<open>The tainted positions\<close>

definition taint_cells :: "(nat \<times> nat) list \<Rightarrow> nat set" where
  "taint_cells ts = (\<Union>(p, n)\<in>set ts. {p..<p + n})"

text \<open>In decreasing order, and no two of them touch.\<close>

definition taints_ok :: "(nat \<times> nat) list \<Rightarrow> bool" where
  "taints_ok ts \<longleftrightarrow> sorted_wrt (\<lambda>(p, n) (p', n'). p' + n' < p) ts \<and> (\<forall>(p, n)\<in>set ts. 0 < n)"

definition done_cells :: "range list \<Rightarrow> nat set" where
  "done_cells rs = (\<Union>r\<in>{r \<in> set rs. rg_ok r = 2}. cells r)"

definition taint_inv :: "nat \<Rightarrow> range list \<Rightarrow> (nat \<times> nat) list \<Rightarrow> nat \<Rightarrow> bool" where
  "taint_inv len rs ts n \<longleftrightarrow> ranges_in len rs \<and> (\<forall>r\<in>set rs. rg_ok r \<in> {1, 2}) \<and> taint_cells ts = done_cells rs \<and> taints_ok ts
     \<and> (ts \<noteq> [] \<longrightarrow> (\<forall>r\<in>set rs. rg_ok r = 1 \<longrightarrow> fst (hd ts) + snd (hd ts) \<le> rg_start r)) \<and> n = sum_list (map snd ts)"

lemma scan_Inl: "scan_ranges ts rs i pos b = Inl k \<Longrightarrow> i \<le> k \<and> k < i + length rs \<and> rg_ok (rs ! (k - i)) = 1 \<and> ts \<noteq> []
    \<and> fst (hd ts) + snd (hd ts) = rg_start (rs ! (k - i))"
proof (induction ts rs i pos b rule: scan_ranges.induct)
  case (2 ts g rs i pos b)
  have nth: "(g # rs) ! (k - i) = rs ! (k - Suc i)" if "Suc i \<le> k" using that by (simp add: nth_Cons' Suc_diff_le)
  show ?case using 2 nth by (fastforce split: if_splits)
qed simp

lemma scan_None: "scan_ranges ts rs i pos b = Inr None \<Longrightarrow> b = None \<and> (\<forall>r\<in>set rs. rg_ok r = 1 \<longrightarrow> pos \<le> rg_start r)"
  by (induction ts rs i pos b rule: scan_ranges.induct) (auto split: if_splits)

lemma scan_Some: "scan_ranges ts rs i pos b = Inr (Some k) \<Longrightarrow> b = Some k \<and> (\<forall>r\<in>set rs. rg_ok r = 1 \<longrightarrow> pos \<le> rg_start r)
    \<or> i \<le> k \<and> k < i + length rs \<and> rg_ok (rs ! (k - i)) = 1 \<and> rg_start (rs ! (k - i)) < pos
      \<and> (ts = [] \<or> fst (hd ts) + snd (hd ts) \<noteq> rg_start (rs ! (k - i)))
      \<and> (\<forall>r\<in>set rs. rg_ok r = 1 \<longrightarrow> rg_start (rs ! (k - i)) \<le> rg_start r)"
proof (induction ts rs i pos b rule: scan_ranges.induct)
  case (2 ts g rs i pos b)
  have nth: "(g # rs) ! (k - i) = rs ! (k - Suc i)" if "Suc i \<le> k" using that by (simp add: nth_Cons' Suc_diff_le)
  show ?case
  proof (cases "rg_ok g = 1 \<and> rg_start g < pos")
    case True
    then have a: "\<not> (ts \<noteq> [] \<and> fst (hd ts) + snd (hd ts) = rg_start g)" "scan_ranges ts rs (Suc i) (rg_start g) (Some i) = Inr (Some k)"
      using 2(3) by (auto split: if_splits)
    show ?thesis using 2(1) [OF True a] nth True a(1) by (auto simp: nth_Cons')
  next
    case False
    then have "scan_ranges ts rs (Suc i) pos b = Inr (Some k)" using 2(3) by auto
    then show ?thesis using 2(2) [OF False] nth False by (auto simp: nth_Cons')
  qed
qed simp

text \<open>Marking a range as done; the others start after it if they do not start before it.\<close>

lemma later_range:
  assumes "ranges_in len (xs @ r # ys)" and "x \<in> set (xs @ ys)" and "rg_start r \<le> rg_start x"
  shows "rg_start r + range_size r \<le> rg_start x"
proof -
  have "cells r \<inter> cells x = {}" "rg_start x \<le> rg_end x" "rg_start r \<le> rg_end r"
    using assms(1,2) unfolding ranges_in_middle by (auto simp: ranges_in_def)
  moreover have "rg_start x \<in> cells x" using calculation(2) by (simp add: cells_def)
  ultimately have "rg_start x \<notin> cells r" by blast
  then show ?thesis using assms(3) \<open>rg_start r \<le> rg_end r\<close> by (auto simp: cells_def range_size_def)
qed

lemma cells_size: "rg_start r \<le> rg_end r \<Longrightarrow> cells r = {rg_start r..<rg_start r + range_size r} \<and> 0 < range_size r"
  by (auto simp: cells_def range_size_def)

lemma done_cells_middle: "done_cells (xs @ r # ys) = (if rg_ok r = 2 then cells r else {}) \<union> done_cells (xs @ ys)"
  by (auto simp: done_cells_def)

lemma taint_inv_step:
  assumes inv: "taint_inv len (xs @ r # ys) ts n" and r: "rg_ok r = 1" "\<forall>x\<in>set (xs @ ys). rg_ok x = 1 \<longrightarrow> rg_start r \<le> rg_start x"
    and ts': "if ts \<noteq> [] \<and> fst (hd ts) + snd (hd ts) = rg_start r then ts' = (fst (hd ts), snd (hd ts) + range_size r) # tl ts
       else ts' = (rg_start r, range_size r) # ts"
  shows "taint_inv len (xs @ r\<lparr>rg_ok := 2\<rparr> # ys) ts' (n + range_size r)"
proof -
  have rin: "ranges_in len (xs @ r # ys)" and ok: "\<forall>x\<in>set (xs @ ys). rg_ok x \<in> {1, 2}" and tc: "taint_cells ts = done_cells (xs @ ys)"
    and to: "taints_ok ts" and n: "n = sum_list (map snd ts)"
    using inv r(1) by (auto simp: taint_inv_def done_cells_middle)
  have hd: "fst (hd ts) + snd (hd ts) \<le> rg_start r" if "ts \<noteq> []" using inv r(1) that by (simp add: taint_inv_def)
  have se: "rg_start r \<le> rg_end r" using rin by (simp add: ranges_in_middle)
  note cs = cells_size [OF se]
  have later: "\<forall>x\<in>set (xs @ ys). rg_ok x = 1 \<longrightarrow> rg_start r + range_size r \<le> rg_start x" using later_range [OF rin] r(2) by blast
  have rin': "ranges_in len (xs @ r\<lparr>rg_ok := 2\<rparr> # ys)" using rin by (simp add: ranges_in_middle)
  have *: "taint_cells ts' = cells r \<union> taint_cells ts \<and> taints_ok ts' \<and> fst (hd ts') + snd (hd ts') = rg_start r + range_size r
      \<and> sum_list (map snd ts') = sum_list (map snd ts) + range_size r \<and> ts' \<noteq> []"
  proof (cases "ts \<noteq> [] \<and> fst (hd ts) + snd (hd ts) = rg_start r")
    case True
    then obtain p m us where ts: "ts = (p, m) # us" by (cases ts) auto
    then have "ts' = (p, m + range_size r) # us" "p + m = rg_start r" using ts' True by simp_all
    then show ?thesis using ts to cs by (auto simp: taint_cells_def taints_ok_def)
  next
    case False
    then have t: "ts' = (rg_start r, range_size r) # ts" using ts' by auto
    have lt: "fst (hd ts) + snd (hd ts) < rg_start r" if "ts \<noteq> []" using False hd [OF that] that by auto
    have "\<forall>(p, m)\<in>set ts. p + m < rg_start r"
    proof (cases ts)
      case (Cons a us)
      then show ?thesis using to lt by (auto simp: taints_ok_def)
    qed simp
    then show ?thesis using t to cs by (auto simp: taint_cells_def taints_ok_def)
  qed
  show ?thesis unfolding taint_inv_def
    using rin' ok tc * later n by (auto simp: done_cells_middle)
qed

lemma wp_collect:
  assumes "taint_inv len rs ts n" and "len < 2 ^ 32"
  shows "wp (collect_taints rs ts n) (\<lambda>(ts', n'). taint_cells ts' = ok_cells rs \<and> taints_ok ts' \<and> n' = sum_list (map snd ts'))"
  using assms(1)
proof (induction "length (filter (\<lambda>r. rg_ok r = 1) rs)" arbitrary: rs ts n rule: less_induct)
  case less
  have start: "rg_start r < 2 ^ 32 - 1" if "r \<in> set rs" for r
    using less.prems that assms(2) by (auto simp: taint_inv_def ranges_in_def)
  let ?Q = "\<lambda>(ts', n'). taint_cells ts' = ok_cells rs \<and> taints_ok ts' \<and> n' = sum_list (map snd ts')"
  have step: "wp (do { r \<leftarrow> load8 rs i; collect_taints (rs[i := r\<lparr>rg_ok := 2\<rparr>]) (f r) (n + range_size r) }) ?Q"
    if i: "i < length rs" "rg_ok (rs ! i) = 1" "\<forall>x\<in>set rs. rg_ok x = 1 \<longrightarrow> rg_start (rs ! i) \<le> rg_start x"
      and f: "if ts \<noteq> [] \<and> fst (hd ts) + snd (hd ts) = rg_start (rs ! i) then f (rs ! i) = (fst (hd ts), snd (hd ts) + range_size (rs ! i)) # tl ts
       else f (rs ! i) = (rg_start (rs ! i), range_size (rs ! i)) # ts" for i f
  proof -
    define r xs ys where defs: "r = rs ! i" "xs = take i rs" "ys = drop (Suc i) rs"
    have rs: "rs = xs @ r # ys" "rs[i := r\<lparr>rg_ok := 2\<rparr>] = xs @ r\<lparr>rg_ok := 2\<rparr> # ys"
      using i(1) by (simp_all add: defs id_take_nth_drop upd_conv_take_nth_drop)
    have r: "rg_ok r = 1" "\<forall>x\<in>set (xs @ ys). rg_ok x = 1 \<longrightarrow> rg_start r \<le> rg_start x" 
    proof -
      show "rg_ok r = 1" using i(2) by (simp add: defs(1))
      have "set (xs @ ys) \<subseteq> set rs" by (auto simp: defs dest: in_set_takeD in_set_dropD)
      then show "\<forall>x\<in>set (xs @ ys). rg_ok x = 1 \<longrightarrow> rg_start r \<le> rg_start x" using i(3) unfolding defs(1) by blast
    qed
    have inv: "taint_inv len (xs @ r\<lparr>rg_ok := 2\<rparr> # ys) (f r) (n + range_size r)"
      by (rule taint_inv_step [OF less.prems [unfolded rs(1)] r f [folded defs(1)]])
    have ok: "ok_cells (xs @ r\<lparr>rg_ok := 2\<rparr> # ys) = ok_cells rs" using r(1) by (subst rs(1)) (simp add: ok_cells_simps)
    have "length (filter (\<lambda>r. rg_ok r = 1) (xs @ r\<lparr>rg_ok := 2\<rparr> # ys)) < length (filter (\<lambda>r. rg_ok r = 1) rs)"
      using r(1) unfolding rs(1) by simp
    from less.hyps [OF this inv] have "wp (collect_taints (rs[i := r\<lparr>rg_ok := 2\<rparr>]) (f r) (n + range_size r)) ?Q"
      unfolding ok rs(2) .
    moreover have "load8 rs i = Some r" using i(1) by (simp add: defs(1))
    ultimately show ?thesis by simp
  qed
  show ?case
  proof (cases "scan_ranges ts rs 0 (2 ^ 32 - 1) None")
    case (Inl i)
    have i: "i < length rs" "rg_ok (rs ! i) = 1" "ts \<noteq> []" "fst (hd ts) + snd (hd ts) = rg_start (rs ! i)" using scan_Inl [OF Inl] by simp_all
    then have "\<forall>x\<in>set rs. rg_ok x = 1 \<longrightarrow> rg_start (rs ! i) \<le> rg_start x" using less.prems by (simp add: taint_inv_def)
    then show ?thesis using step [OF i(1,2), of "\<lambda>r. (fst (hd ts), snd (hd ts) + range_size r) # tl ts"] i Inl by (subst collect_taints.simps) simp
  next
    case (Inr b)
    show ?thesis
    proof (cases b)
      case None
      then have "\<forall>r\<in>set rs. rg_ok r \<noteq> 1" using scan_None [of ts rs] Inr start by (metis not_less)
      then have "ok_cells rs = done_cells rs" using less.prems by (auto simp: ok_cells_def done_cells_def taint_inv_def)
      then show ?thesis using less.prems Inr None by (subst collect_taints.simps) (simp add: taint_inv_def)
    next
      case (Some i)
      have i: "i < length rs" "rg_ok (rs ! i) = 1" "ts = [] \<or> fst (hd ts) + snd (hd ts) \<noteq> rg_start (rs ! i)"
        "\<forall>x\<in>set rs. rg_ok x = 1 \<longrightarrow> rg_start (rs ! i) \<le> rg_start x" using scan_Some [OF Inr [unfolded Some]] by auto
      have "wp (do { r \<leftarrow> load8 rs i; collect_taints (rs[i := r\<lparr>rg_ok := 2\<rparr>]) ((rg_start r, range_size r) # ts) (n + range_size r) }) ?Q"
        by (rule step [OF i(1,2,4)]) (use i(3) in auto)
      then show ?thesis using Inr Some by (subst collect_taints.simps) simp
    qed
  qed
qed


section \<open>Replacing bytes\<close>

lemma until_other_draw:
  assumes draw: "rng draw" "0 < n" and "draws draw n k r = Some (t, r')" and t: "f t \<noteq> b"
  shows "wp (until_other (\<lambda>r. do { (x, r) \<leftarrow> draw r n; Some (f x, r) }) b r) (\<lambda>(c, r). c \<noteq> b \<and> (\<exists>x<n. c = f x))"
  using assms(3)
proof (induction k arbitrary: r)
  case 0
  then have "t < n" using rng.draw_less [OF draw(1)] draw(2) by simp
  then show ?case using 0 t by (subst until_other.simps) auto
next
  case (Suc k)
  then obtain t1 r1 where d: "draw r n = Some (t1, r1)" "draws draw n k r1 = Some (t, r')" by (auto split: bind_splits)
  have "t1 < n" using rng.draw_less [OF draw(1) d(1) draw(2)] .
  then show ?case using Suc.IH [OF d(2)] d(1) by (subst until_other.simps) auto
qed

lemma until_other_now: "pick r = Some (c, r') \<Longrightarrow> c \<noteq> b \<Longrightarrow> wp (until_other pick b r) (\<lambda>(c', r). c' = c)"
  by (subst until_other.simps) simp

text \<open>A class of bytes with more than one element.\<close>

lemma until_between:
  assumes draw: "rng draw" "fair_draw draw" and "low < high" and "low \<noteq> 0"
  shows "wp (until_other (draw_between draw low high) b r) (\<lambda>(c, r). c \<noteq> b \<and> low \<le> c \<and> c \<le> high)"
proof -
  let ?n = "ucast (1 + high - low) :: u32"
  have lh: "unat low < unat high" "unat high < 256" "0 < unat low"
    using assms(3,4) unsigned_less [of high, where ?'a = nat] by (simp_all add: word_less_nat_alt unat_gt_0)
  have "unat (1 + (high - low)) = 1 + (unat high - unat low)"
    using lh unat_sub [of low high] by (simp add: unat_word_ariths word_le_nat_alt)
  then have n: "unat ?n = 1 + (unat high - unat low)" using lh by (simp add: add_diff_eq unsigned_ucast_eq take_bit_nat_eq_self)
  have f: "unat (low + ucast x) = unat low + unat x" if "x < ?n" for x :: u32
  proof -
    have "unat x < 256" "unat low + unat x < 256" using that n lh by (simp_all add: word_less_nat_alt)
    then show ?thesis by (simp add: unat_word_ariths unsigned_ucast_eq take_bit_nat_eq_self)
  qed
  define t :: u32 where "t = (if b = low then 1 else 0)"
  have t: "t < ?n" using n lh by (simp add: t_def word_less_nat_alt)
  have "low + ucast t \<noteq> b" by (simp add: t_def)
  moreover obtain k r' where "draws draw ?n k r = Some (t, r')" using draw(2) t unfolding fair_draw_def by blast
  ultimately have "wp (until_other (draw_between draw low high) b r) (\<lambda>(c, r). c \<noteq> b \<and> (\<exists>x<?n. c = low + ucast x))"
    using until_other_draw [OF draw(1), of ?n k r t r' "\<lambda>x. low + ucast x" b] t
    unfolding draw_between_def by (simp add: word_less_nat_alt)
  then show ?thesis by (rule wp_mono) (use f n lh in \<open>auto simp: word_le_nat_alt word_less_nat_alt\<close>)
qed

lemma until_if:
  "(c \<Longrightarrow> wp (until_other p b r) Q) \<Longrightarrow> (\<not> c \<Longrightarrow> wp (until_other q b r) Q) \<Longrightarrow> wp (until_other (if c then p else q) b r) Q"
  by simp

lemma until_const: "c \<noteq> b \<Longrightarrow> wp (until_other (\<lambda>r. Some (c, r)) b r) (\<lambda>(c, r). c \<noteq> b)"
  by (subst until_other.simps) simp

lemma xor_other: "k \<noteq> 0 \<Longrightarrow> b XOR k \<noteq> (b :: u8)"
  by (metis xor.assoc xor.left_neutral xor_self_eq)

lemma type_choice_ends:
  assumes "rng draw" and "fair_draw draw"
  shows "wp (until_other (type_choice draw b) b r) (\<lambda>(c, r). c \<noteq> b)"
proof -
  have *: "wp (until_other (draw_between draw low high) b r) (\<lambda>(c, r). c \<noteq> b)" if "low < high" "low \<noteq> 0" for low high
    by (rule wp_mono [OF until_between [OF assms that]]) auto
  show ?thesis unfolding type_choice_def
    by (intro until_if * until_const xor_other) simp_all
qed

lemma random_choice_ends:
  assumes "rng draw" and "fair_draw draw"
  shows "wp (until_other (\<lambda>r. do { (x, r) \<leftarrow> draw r 256; Some (ucast x, r) }) b r) (\<lambda>(c, r). c \<noteq> b)"
proof -
  define t :: u32 where "t = (if b = 0 then 1 else 0)"
  have t: "t < 256" "ucast t \<noteq> b" by (simp_all add: t_def)
  obtain k r' where "draws draw 256 k r = Some (t, r')" using assms(2) t unfolding fair_draw_def by blast
  from until_other_draw [where f = ucast, OF assms(1) _ this t(2)] show ?thesis by (rule wp_mono) auto
qed

lemma wp_replace_bytes:
  assumes "\<And>b r. wp (until_other (pick b) b r) (\<lambda>(c, r). c \<noteq> b)"
  shows "wp (replace_bytes pick bs r) (\<lambda>(cs, r). list_all2 (\<noteq>) cs bs)"
proof (induction bs arbitrary: r)
  case (Cons b bs)
  show ?case unfolding replace_bytes.simps wp_bind
    by (rule wp_mono [OF assms]) (auto intro!: wp_mono [OF Cons])
qed simp

text \<open>Both functions return and change every byte.\<close>

lemma wp_replace:
  assumes "rng draw" and "fair_draw draw"
  shows "wp (random_replace draw bs r) (\<lambda>(cs, r). list_all2 (\<noteq>) cs bs)" "wp (type_replace draw bs r) (\<lambda>(cs, r). list_all2 (\<noteq>) cs bs)"
  unfolding random_replace_def type_replace_def
  by (rule wp_replace_bytes, rule random_choice_ends [OF assms]) (rule wp_replace_bytes, rule type_choice_ends [OF assms])

section \<open>Colorization\<close>

text \<open>The buffer \<open>b\<close> differs from the input \<open>buf\<close> just at the positions of \<open>ts\<close>.\<close>

definition differs_at :: "mem \<Rightarrow> mem \<Rightarrow> nat set \<Rightarrow> bool" where
  "differs_at buf b ps \<longleftrightarrow> length b = length buf \<and> {i. i < length buf \<and> b ! i \<noteq> buf ! i} = ps"

definition colored_ok :: "'e col_ops \<Rightarrow> mem \<Rightarrow> u64 \<Rightarrow> (nat \<times> nat) list \<Rightarrow> nat \<Rightarrow> 'e colored \<Rightarrow> bool" where
  "colored_ok ops buf ck taints success c \<longleftrightarrow> same_path ops ck (cd_buf c) \<and> cd_stage_cur c < 2 * length buf \<and>
     (\<exists>ts. taints_ok ts \<and> differs_at buf (cd_buf c) (taint_cells ts)
       \<and> (cd_taints c, cd_success c) = (if ts = [] then (taints, success)
          else if unsatisfactory ops (length buf) (sum_list (map snd ts)) success (cd_env c) then ([], success) else (ts, success + 1)))"

lemma wp_colorization:
  assumes draw: "rng (co_draw ops)" "fair_draw (co_draw ops)" and len: "buf \<noteq> []" "length buf \<le> MAX_FILE"
    and ck: "co_exec ops buf e = (False, ck, e')"
  shows "wp (colorization ops buf taints success e) (\<lambda>x. case x of Inl b \<Rightarrow> abandons ops | Inr c \<Rightarrow> colored_ok ops buf ck taints success c)"
proof -
  have start: "color_inv buf changed \<lparr>cl_buf = buf, cl_ranges = add_range [] 0 (length buf - 1), cl_stage_cur = 0, cl_env = e\<rparr>" for changed e
    using len(1) by (cases buf) (simp_all add: color_inv_def add_range_def ranges_in_def disjoint_def ok_cells_def todo_def range_size_def)
  have path: "same_path ops ck buf" using ck by (auto simp: same_path_def intro!: exI [of _ e])
  have loop: "wp (color_loop ops buf changed ck (2 * length buf) \<lparr>cl_buf = buf, cl_ranges = add_range [] 0 (length buf - 1), cl_stage_cur = 0, cl_env = e\<rparr>)
     (color_result ops (color_done ops buf changed ck))"
    if "length changed = length buf" for changed e
    by (rule wp_color_loop [OF start that]) (simp add: path)
  have rep: "wp (if co_random ops then random_replace (co_draw ops) buf e' else type_replace (co_draw ops) buf e') (\<lambda>(cs, r). list_all2 (\<noteq>) cs buf)"
    using wp_replace [OF draw, of buf e'] by simp
  have fin: "wp (do {
         (taint, positions) \<leftarrow> collect_taints (cl_ranges c) [] 0;
         let (taints, success) = (if taint = [] then (taints, success)
            else if unsatisfactory ops (length buf) positions success (cl_env c) then ([], success) else (taint, success + 1));
         Some (Inr \<lparr>cd_buf = cl_buf c, cd_taints = taints, cd_success = success, cd_stage_cur = cl_stage_cur c, cd_env = cl_env c\<rparr>) })
      (\<lambda>x. case x of Inl b \<Rightarrow> abandons ops | Inr c \<Rightarrow> colored_ok ops buf ck taints success c)"
    if c: "color_inv buf changed c" "same_path ops ck (cl_buf c)" "\<forall>r\<in>set (cl_ranges c). rg_ok r \<noteq> 0" "list_all2 (\<noteq>) changed buf" for changed c
  proof -
    have ok: "\<forall>r\<in>set (cl_ranges c). rg_ok r = 1" using c(1,3) by (fastforce simp: color_inv_def)
    then have inv: "taint_inv (length buf) (cl_ranges c) [] 0"
      using c(1) by (auto simp: taint_inv_def color_inv_def taint_cells_def done_cells_def taints_ok_def)
    have sub: "ok_cells (cl_ranges c) \<subseteq> {..<length buf}"
      using c(1) by (fastforce simp: color_inv_def ok_cells_def ranges_in_def cells_def)
    have "{i. i < length buf \<and> cl_buf c ! i \<noteq> buf ! i} = ok_cells (cl_ranges c)"
      using c(1,4) sub by (auto simp: color_inv_def list_all2_conv_all_nth split: if_splits)
    then have diff: "differs_at buf (cl_buf c) (ok_cells (cl_ranges c))" using c(1) by (simp add: differs_at_def color_inv_def)
    have cur: "cl_stage_cur c < 2 * length buf" using c(1) by (simp add: color_inv_def)
    have "length buf < 2 ^ 32" using len(2) by (simp add: MAX_FILE_def)
    from wp_collect [OF inv this] obtain ts n where ts: "collect_taints (cl_ranges c) [] 0 = Some (ts, n)" "taint_cells ts = ok_cells (cl_ranges c)"
      "taints_ok ts" "n = sum_list (map snd ts)" by (auto simp: wp_iff)
    let ?t = "if ts = [] then (taints, success) else if unsatisfactory ops (length buf) n success (cl_env c) then ([], success) else (ts, success + 1)"
    have "colored_ok ops buf ck taints success \<lparr>cd_buf = cl_buf c, cd_taints = fst ?t, cd_success = snd ?t, cd_stage_cur = cl_stage_cur c, cd_env = cl_env c\<rparr>"
      unfolding colored_ok_def using ts c(2) cur diff by (intro conjI exI [of _ ts]) simp_all
    then show ?thesis using ts(1) by (auto simp: Let_def split_def split: if_splits)
  qed
  show ?thesis unfolding colorization_def Let_def ck prod.case if_False wp_bind
    apply (rule wp_mono [OF rep], clarify, unfold wp_bind)
    subgoal premises p for changed e2
      apply (rule wp_mono [OF loop])
      subgoal using p by (simp add: list_all2_lengthD)
      subgoal for x by (cases x) (auto intro!: wp_if fin [OF _ _ _ p, unfolded Let_def] simp: color_result_def color_done_def simp del: wp_bind)
      done
    done
qed

section \<open>Property\<close>

text \<open>C30. Colorization of a non-empty input of at most \<open>MAX_FILE\<close> bytes returns after fewer than two runs per
  byte, whatever paths the target takes, provided that no run asks to abandon the entry and the generator is fair: the limit on the
  number of runs never cuts the search short. The buffer it leaves has the length of the input, and a run on it can give the
  checksum that the run on the original input gave. The positions where it differs from the input are exactly those of a sorted list
  of maximal ranges; this is the list of tainted positions it returns, unless it is empty (then nothing changes) or dropped as
  unsatisfactory (then the list is empty).\<close>

theorem colorization_correct:
  assumes "rng (co_draw ops)" and "fair_draw (co_draw ops)" and "buf \<noteq> []" and "length buf \<le> MAX_FILE" and "\<not> abandons ops"
  shows "\<exists>c ts. colorization ops buf taints success e = Some (Inr c) \<and> same_path ops (fst (snd (co_exec ops buf e))) (cd_buf c)
     \<and> cd_stage_cur c < 2 * length buf \<and> taints_ok ts \<and> length (cd_buf c) = length buf
     \<and> {i. i < length buf \<and> cd_buf c ! i \<noteq> buf ! i} = taint_cells ts
     \<and> (cd_taints c, cd_success c) = (if ts = [] then (taints, success)
          else if unsatisfactory ops (length buf) (sum_list (map snd ts)) success (cd_env c) then ([], success) else (ts, success + 1))"
proof -
  obtain ck e' where ck: "co_exec ops buf e = (False, ck, e')"
    using assms(5) by (cases "co_exec ops buf e") (auto simp: abandons_def, metis fst_conv)
  obtain c where c: "colorization ops buf taints success e = Some (Inr c)" "colored_ok ops buf ck taints success c"
  proof -
    obtain x where x: "colorization ops buf taints success e = Some x" "case x of Inl b \<Rightarrow> abandons ops | Inr c \<Rightarrow> colored_ok ops buf ck taints success c"
      using wp_colorization [OF assms(1-4) ck, of taints success] by (auto simp: wp_iff)
    with assms(5) that show ?thesis by (cases x) auto
  qed
  from c(2) obtain ts where "taints_ok ts" "differs_at buf (cd_buf c) (taint_cells ts)"
    "(cd_taints c, cd_success c) = (if ts = [] then (taints, success)
       else if unsatisfactory ops (length buf) (sum_list (map snd ts)) success (cd_env c) then ([], success) else (ts, success + 1))"
    unfolding colored_ok_def by blast
  then show ?thesis using c ck by (intro exI [of _ c] exI [of _ ts]) (simp add: colored_ok_def differs_at_def)
qed

text \<open>A target whose path depends on whether the first byte is 7.\<close>

definition color_example :: "nat col_ops" where
  "color_example = \<lparr>co_exec = (\<lambda>b e. (False, if hd b = 7 then 0 else 1, e)), co_time = (\<lambda>e. (0, e)), co_draw = counting, co_active = (\<lambda>e. 1),
     co_random = True, co_fixed_seed = False, co_exec_us = 100, co_lvl = 2\<rparr>"

theorem colorization_witness:
  "\<exists>c. colorization color_example [7, 2, 3] [] 0 0 = Some (Inr c) \<and> hd (cd_buf c) = 7 \<and> length (cd_buf c) = 3"
proof -
  have "\<not> abandons color_example" "rng (co_draw color_example)" "fair_draw (co_draw color_example)"
    by (simp_all add: abandons_def color_example_def counting_rng counting_fair)
  moreover have "hd b = 7" if "same_path color_example (fst (snd (co_exec color_example [7, 2, 3] 0))) b" for b
    using that by (auto simp: same_path_def color_example_def split: if_splits)
  ultimately show ?thesis using colorization_correct [of color_example "[7, 2, 3]" "[]" 0 0] by (fastforce simp: MAX_FILE_def)
qed

end
