(* ===== verification/Hashmap.thy ===== *)
theory Hashmap
  imports Prelude
begin

text \<open>
  The comparison-log hash table of \<^verbatim>\<open>src/hashmap.c\<close>: a table of \<open>TABLE_SIZE\<close> chains of 64-bit keys,
  kept in the global \<open>_hashmap\<close> (\<open>NULL\<close> until the first reset). A chain is the list of its keys from the
  head node on. Dereferencing the table while \<open>_hashmap\<close> is \<open>NULL\<close> has no result. The locale
  \<open>bag_store\<close> is the interface the table offers: a bag of keys; the model is an instance of it.
\<close>

section \<open>The table and its operations\<close>

type_synonym hashmap = "u64 list list option"

definition TABLE_SIZE :: nat where
  "TABLE_SIZE = 10007"

definition hashmap_reset :: "hashmap \<Rightarrow> hashmap" where
  "hashmap_reset h =
     (case h of
        None \<Rightarrow> Some (replicate TABLE_SIZE [])
      | Some table \<Rightarrow> Some (map (\<lambda>_. []) (take TABLE_SIZE table)))"

definition hash :: "u64 \<Rightarrow> nat" where
  "hash key = unat key mod TABLE_SIZE"

text \<open>\<open>while (node) { if (node->key == key) return true; node = node->next; }\<close>\<close>

fun chain_search :: "u64 list \<Rightarrow> u64 \<Rightarrow> bool" where
  "chain_search [] key = False"
| "chain_search (k # node) key = (if k = key then True else chain_search node key)"

definition chain_push :: "u64 list list \<Rightarrow> nat \<Rightarrow> u64 \<Rightarrow> u64 list list option" where
  "chain_push table index key = do { node \<leftarrow> load8 table index; store8 table index (key # node) }"

definition TYPE_MASK :: u64 where
  "TYPE_MASK = 0xf8ffffffffffffff"

definition hashmap_tag :: "u8 \<Rightarrow> u64 \<Rightarrow> u64" where
  "hashmap_tag type key = (key AND TYPE_MASK) + push_bit 56 (ucast type)"

definition hashmap_search_and_add :: "hashmap \<Rightarrow> u8 \<Rightarrow> u64 \<Rightarrow> (bool \<times> hashmap) option" where
  "hashmap_search_and_add h type key =
     (if type \<ge> 8 then Some (False, h)
      else do {
        let val = hashmap_tag type key;
        table \<leftarrow> h;
        node \<leftarrow> load8 table (hash val);
        if chain_search node val then Some (True, h)
        else do { table' \<leftarrow> chain_push table (hash val) val; Some (False, Some table') } })"

text \<open>\<open>memcpy(((char *)key_t) + (7 - type), key, type + 1)\<close> with \<open>key_t = 0\<close>: the destination is the
  absolute address \<open>7 - type\<close>, not the variable. \<open>mapped\<close> says which absolute addresses may be written.\<close>

definition hashmap_search_and_add_ptr ::
  "(nat \<Rightarrow> bool) \<Rightarrow> hashmap \<Rightarrow> u8 \<Rightarrow> mem \<Rightarrow> (bool \<times> hashmap) option" where
  "hashmap_search_and_add_ptr mapped h type key =
     (if type \<ge> 8 then Some (False, h)
      else if unat type + 1 \<le> length key \<and> (\<forall>a\<in>{7 - unat type..7}. mapped a)
      then hashmap_search_and_add h type 0
      else None)"

definition hashmap_insert :: "hashmap \<Rightarrow> u64 \<Rightarrow> hashmap option" where
  "hashmap_insert h key = do {
     table \<leftarrow> h;
     table' \<leftarrow> chain_push table (hash key) key;
     Some (Some table') }"

definition hashmap_search :: "hashmap \<Rightarrow> u64 \<Rightarrow> bool option" where
  "hashmap_search h key = do {
     table \<leftarrow> h;
     node \<leftarrow> load8 table (hash key);
     Some (chain_search node key) }"

text \<open>Unlink the first node with the key.\<close>

fun chain_delete :: "u64 list \<Rightarrow> u64 \<Rightarrow> u64 list" where
  "chain_delete [] key = []"
| "chain_delete (k # node) key = (if k = key then node else k # chain_delete node key)"

definition hashmap_delete :: "hashmap \<Rightarrow> u64 \<Rightarrow> hashmap option" where
  "hashmap_delete h key = do {
     table \<leftarrow> h;
     node \<leftarrow> load8 table (hash key);
     table' \<leftarrow> store8 table (hash key) (chain_delete node key);
     Some (Some table') }"

text \<open>A run of \<open>hashmap_search_and_add\<close> requests, with the answers.\<close>

fun hashmap_run :: "hashmap \<Rightarrow> (u8 \<times> u64) list \<Rightarrow> (bool list \<times> hashmap) option" where
  "hashmap_run h [] = Some ([], h)"
| "hashmap_run h ((type, key) # rs) = do {
     (b, h') \<leftarrow> hashmap_search_and_add h type key;
     (bs, h'') \<leftarrow> hashmap_run h' rs;
     Some (b # bs, h'') }"

section \<open>The interface: a bag of keys\<close>

locale bag_store =
  fixes invar :: "'h \<Rightarrow> bool"
    and bag :: "'h \<Rightarrow> 'k multiset"
    and reset :: "'h \<Rightarrow> 'h"
    and ins :: "'h \<Rightarrow> 'k \<Rightarrow> 'h option"
    and srch :: "'h \<Rightarrow> 'k \<Rightarrow> bool option"
    and del :: "'h \<Rightarrow> 'k \<Rightarrow> 'h option"
  assumes ins_law: "invar h \<Longrightarrow> \<exists>h'. ins h k = Some h' \<and> invar h' \<and> bag h' = add_mset k (bag h)"
    and srch_law: "invar h \<Longrightarrow> srch h k = Some (k \<in># bag h)"
    and del_law: "invar h \<Longrightarrow> \<exists>h'. del h k = Some h' \<and> invar h' \<and> bag h' = bag h - {#k#}"
    and reset_law: "invar h \<Longrightarrow> invar (reset h) \<and> bag (reset h) = {#}"
begin

lemma search_after_insert:
  assumes "invar h" shows "\<exists>h'. ins h k = Some h' \<and> srch h' j = Some (j = k \<or> j \<in># bag h)"
  using ins_law [OF assms, of k] srch_law by fastforce

lemma insert_then_delete:
  assumes "invar h" and "ins h k = Some h'"
  shows "\<exists>h''. del h' k = Some h'' \<and> bag h'' = bag h"
  using ins_law [OF assms(1), of k] assms(2) del_law [of h' k] by fastforce

lemma delete_unique:
  assumes "invar h" and "count (bag h) k \<le> 1" and "del h k = Some h'"
  shows "srch h' k = Some False"
proof -
  have "invar h'" and b: "bag h' = bag h - {#k#}" using del_law [OF assms(1), of k] assms(3) by auto
  moreover have "k \<notin># bag h'" using assms(2) by (simp add: b not_in_iff)
  ultimately show ?thesis using srch_law by simp
qed

lemma search_after_reset: "invar h \<Longrightarrow> srch (reset h) k = Some False"
  using reset_law srch_law by fastforce

end

section \<open>The model implements the interface\<close>

fun hm_invar :: "hashmap \<Rightarrow> bool" where
  "hm_invar None = False"
| "hm_invar (Some table) = (length table = TABLE_SIZE \<and> (\<forall>i<TABLE_SIZE. \<forall>k\<in>set (table ! i). hash k = i))"

fun hm_bag :: "hashmap \<Rightarrow> u64 multiset" where
  "hm_bag None = {#}"
| "hm_bag (Some table) = mset (concat table)"

lemma hash_less [simp]: "hash k < TABLE_SIZE"
  by (simp add: hash_def TABLE_SIZE_def)

lemma chain_search_iff [simp]: "chain_search c k \<longleftrightarrow> k \<in> set c"
  by (induction c) auto

lemma chain_delete_mset [simp]: "mset (chain_delete c k) = mset c - {#k#}"
  by (induction c) (auto simp: diff_single_trivial)

lemma set_chain_delete: "set (chain_delete c k) \<subseteq> set c"
  by (induction c) auto

lemma mset_cancel_one: "(M :: 'a multiset) + add_mset k C = T + C \<Longrightarrow> M = T - {#k#}"
proof -
  assume "M + add_mset k C = T + C"
  then have "add_mset k M + C = T + C" by simp
  then have "T = add_mset k M" by (simp only: add_right_cancel)
  then show ?thesis by simp
qed

lemma mset_concat_update:
  "i < length t \<Longrightarrow> mset (concat (t[i := c])) + mset (t ! i) = mset (concat t) + mset c"
proof -
  assume "i < length t"
  then obtain xs y ys where "t = xs @ y # ys" "length xs = i"
    using id_take_nth_drop [of i t] by (metis length_take min.absorb4)
  then show ?thesis by (auto simp: list_update_append nth_append)
qed

lemma mem_concat_bucket:
  assumes "hm_invar (Some t)"
  shows "k \<in> set (concat t) \<longleftrightarrow> k \<in> set (t ! hash k)"
proof
  assume "k \<in> set (concat t)"
  then obtain c where "c \<in> set t" "k \<in> set c" by auto
  then obtain i where "i < length t" "k \<in> set (t ! i)" by (auto simp: in_set_conv_nth [of c])
  with assms show "k \<in> set (t ! hash k)" by auto
next
  assume "k \<in> set (t ! hash k)"
  moreover have "t ! hash k \<in> set t" using assms by (intro nth_mem) simp
  ultimately show "k \<in> set (concat t)" by auto
qed

lemma hm_invar_update:
  "hm_invar (Some t) \<Longrightarrow> \<forall>k\<in>set c. hash k = i \<Longrightarrow> i < TABLE_SIZE \<Longrightarrow> hm_invar (Some (t[i := c]))"
  by (auto simp: nth_list_update)

lemma hashmap_insert_law:
  assumes "hm_invar h"
  shows "\<exists>h'. hashmap_insert h k = Some h' \<and> hm_invar h' \<and> hm_bag h' = add_mset k (hm_bag h)"
proof (cases h)
  case (Some t)
  have l: "hash k < length t" using assms Some by simp
  have "hashmap_insert h k = Some (Some (t[hash k := k # t ! hash k]))"
    using l by (simp add: hashmap_insert_def chain_push_def Some)
  moreover have "hm_invar (Some (t[hash k := k # t ! hash k]))"
    by (rule hm_invar_update) (use assms Some in auto)
  moreover have "mset (concat (t[hash k := k # t ! hash k])) = add_mset k (mset (concat t))"
    using mset_concat_update [OF l, of "k # t ! hash k"] by simp
  ultimately show ?thesis unfolding Some hm_bag.simps by (intro exI conjI) (assumption | simp only: hm_bag.simps)+
qed (use assms in simp)

lemma hashmap_search_law:
  assumes "hm_invar h"
  shows "hashmap_search h k = Some (k \<in># hm_bag h)"
proof (cases h)
  case (Some t)
  have "hash k < length t" using assms Some by simp
  then have "hashmap_search h k = Some (k \<in> set (t ! hash k))"
    by (simp add: hashmap_search_def Some)
  also have "\<dots> = Some (k \<in># hm_bag h)"
    using mem_concat_bucket [of t k] assms Some by (simp only: hm_bag.simps set_mset_mset)
  finally show ?thesis .
qed (use assms in simp)

lemma hashmap_delete_law:
  assumes "hm_invar h"
  shows "\<exists>h'. hashmap_delete h k = Some h' \<and> hm_invar h' \<and> hm_bag h' = hm_bag h - {#k#}"
proof (cases h)
  case (Some t)
  let ?c = "chain_delete (t ! hash k) k"
  have l: "hash k < length t" using assms Some by simp
  have "hashmap_delete h k = Some (Some (t[hash k := ?c]))"
    using l by (simp add: hashmap_delete_def Some)
  moreover have "hm_invar (Some (t[hash k := ?c]))"
    by (rule hm_invar_update) (use assms Some set_chain_delete in fastforce)+
  moreover have "mset (concat (t[hash k := ?c])) = mset (concat t) - {#k#}"
  proof (cases "k \<in> set (t ! hash k)")
    case True
    then have "mset (t ! hash k) = add_mset k (mset ?c)" by simp
    with mset_concat_update [OF l, of ?c]
    have "mset (concat (t[hash k := ?c])) + add_mset k (mset ?c) = mset (concat t) + mset ?c" by (simp only:)
    then show ?thesis by (rule mset_cancel_one)
  next
    case False
    then have "k \<notin># mset (concat t)" using assms Some mem_concat_bucket by simp
    moreover have "mset ?c = mset (t ! hash k)" using False by (simp add: diff_single_trivial)
    ultimately show ?thesis using mset_concat_update [OF l, of ?c] by (simp add: diff_single_trivial)
  qed
  ultimately show ?thesis unfolding Some hm_bag.simps by (intro exI conjI) (assumption | simp only: hm_bag.simps)+
qed (use assms in simp)

lemma hashmap_reset_law: "hm_invar (hashmap_reset h) \<and> hm_bag (hashmap_reset h) = {#}" if "h = None \<or> hm_invar h"
  using that by (cases h) (auto simp: hashmap_reset_def concat_eq_Nil_conv)

interpretation hm: bag_store hm_invar hm_bag hashmap_reset hashmap_insert hashmap_search hashmap_delete
  by unfold_locales (auto intro: hashmap_insert_law hashmap_delete_law simp: hashmap_search_law hashmap_reset_law)

section \<open>Tagged keys\<close>

lemma type_bits: "(t :: u8) < 8 \<Longrightarrow> bit t i \<Longrightarrow> i < 3"
proof (rule ccontr)
  assume "t < 8" and b: "bit t i" and "\<not> i < 3"
  then have "unat t < 2 ^ 3" by (simp add: word_less_nat_alt)
  then have "take_bit 3 (unat t) = unat t" by (simp add: take_bit_nat_eq_self)
  moreover have "bit (unat t) i" using b by (simp add: bit_unsigned_iff)
  ultimately show False using \<open>\<not> i < 3\<close> by (metis bit_take_bit_iff)
qed

lemma bit_tag_mask: "bit TYPE_MASK i \<longleftrightarrow> i < 64 \<and> \<not> (56 \<le> i \<and> i < 59)"
proof -
  have "TYPE_MASK = NOT (push_bit 56 (2 ^ 3 - 1))" by (simp add: TYPE_MASK_def)
  then have m: "TYPE_MASK = NOT (push_bit 56 (mask 3))" by (simp only: mask_eq_exp_minus_1)
  have "bit (NOT (push_bit 56 (mask 3)) :: u64) i \<longleftrightarrow> i < LENGTH(64) \<and> \<not> (56 \<le> i \<and> bit (mask 3 :: u64) (i - 56))"
    by (simp only: bit_not_iff bit_push_bit_iff possible_bit_word) auto
  also have "\<dots> \<longleftrightarrow> i < 64 \<and> \<not> (56 \<le> i \<and> i < 59)" by (auto simp: bit_mask_iff)
  finally show ?thesis unfolding m .
qed

lemma bit_hashmap_tag:
  assumes "t < 8"
  shows "bit (hashmap_tag t k) i \<longleftrightarrow> (if 56 \<le> i \<and> i < 59 then bit t (i - 56) else bit k i)"
proof -
  have "hashmap_tag t k = (k AND TYPE_MASK) OR push_bit 56 (ucast t)"
    unfolding hashmap_tag_def
    by (rule disjunctive_add) (use type_bits [OF assms] in \<open>force simp: bit_simps bit_tag_mask\<close>)
  then show ?thesis
    using type_bits [OF assms, of "i - 56"] by (auto simp: bit_simps bit_tag_mask dest: bit_imp_le_length)
qed

lemma hashmap_tag_eq_iff:
  assumes "t < 8" and "t' < 8"
  shows "hashmap_tag t k = hashmap_tag t' k'
    \<longleftrightarrow> t = t' \<and> k AND TYPE_MASK = k' AND TYPE_MASK"
proof
  assume eq: "hashmap_tag t k = hashmap_tag t' k'"
  have e: "(if 56 \<le> i \<and> i < 59 then bit t (i - 56) else bit k i)
      = (if 56 \<le> i \<and> i < 59 then bit t' (i - 56) else bit k' i)" for i
    using bit_hashmap_tag [OF assms(1), of k i] bit_hashmap_tag [OF assms(2), of k' i] eq by simp
  have "t = t'"
  proof (rule bit_word_eqI)
    fix i show "bit t i = bit t' i"
      using e [of "i + 56"] type_bits [OF assms(1), of i] type_bits [OF assms(2), of i] by (cases "i < 3") auto
  qed
  moreover have "k AND TYPE_MASK = k' AND TYPE_MASK"
  proof (rule bit_word_eqI)
    fix i show "bit (k AND TYPE_MASK) i = bit (k' AND TYPE_MASK) i"
      using e [of i] by (auto simp: bit_and_iff bit_tag_mask)
  qed
  ultimately show "t = t' \<and> k AND TYPE_MASK = k' AND TYPE_MASK" ..
qed (simp add: hashmap_tag_def)

lemma hashmap_search_and_add_law:
  assumes "hm_invar h" and "t < 8"
  shows "\<exists>h'. hashmap_search_and_add h t k = Some (hashmap_tag t k \<in># hm_bag h, h') \<and> hm_invar h'
     \<and> set_mset (hm_bag h') = insert (hashmap_tag t k) (set_mset (hm_bag h))"
proof -
  let ?v = "hashmap_tag t k"
  obtain tab where h: "h = Some tab" using assms(1) by (cases h) auto
  have l: "hash ?v < length tab" using assms(1) h by simp
  have "chain_search (tab ! hash ?v) ?v \<longleftrightarrow> ?v \<in># hm_bag h"
    using mem_concat_bucket [of tab ?v] assms(1) h by (simp only: chain_search_iff hm_bag.simps set_mset_mset)
  then have "hashmap_search_and_add h t k
      = (if ?v \<in># hm_bag h then Some (True, h) else map_option (Pair False) (hashmap_insert h ?v))"
    using assms(2) l unfolding h
    by (simp add: hashmap_search_and_add_def hashmap_insert_def chain_push_def Let_def not_le [symmetric])
  moreover obtain h' where "hashmap_insert h ?v = Some h'" "hm_invar h'" "hm_bag h' = add_mset ?v (hm_bag h)"
    using hashmap_insert_law [OF assms(1)] by blast
  ultimately show ?thesis
    by (cases "?v \<in># hm_bag h") (use assms(1) in \<open>auto simp del: hm_invar.simps hm_bag.simps\<close>)
qed

lemma hashmap_run_law:
  assumes "hm_invar h" and "\<forall>(t, k)\<in>set rs. t < 8"
  shows "\<exists>bs h'. hashmap_run h rs = Some (bs, h') \<and> length bs = length rs \<and>
     (\<forall>i<length rs. bs ! i \<longleftrightarrow> case_prod hashmap_tag (rs ! i) \<in># hm_bag h
        \<or> (\<exists>j<i. case_prod hashmap_tag (rs ! j) = case_prod hashmap_tag (rs ! i)))"
  using assms
proof (induction rs arbitrary: h)
  case Nil
  then show ?case by simp
next
  case (Cons r rs)
  obtain t k where r: "r = (t, k)" by (cases r)
  with Cons.prems have "t < 8" by simp
  from hashmap_search_and_add_law [OF Cons.prems(1) this, of k] obtain h1 where
    h1: "hashmap_search_and_add h t k = Some (hashmap_tag t k \<in># hm_bag h, h1)" "hm_invar h1"
      "set_mset (hm_bag h1) = insert (hashmap_tag t k) (set_mset (hm_bag h))" by blast
  from Cons.IH [OF h1(2)] Cons.prems(2) obtain bs h' where
    run: "hashmap_run h1 rs = Some (bs, h')" "length bs = length rs"
    and bs: "\<forall>i<length rs. bs ! i \<longleftrightarrow> case_prod hashmap_tag (rs ! i) \<in># hm_bag h1
        \<or> (\<exists>j<i. case_prod hashmap_tag (rs ! j) = case_prod hashmap_tag (rs ! i))" by auto
  let ?bs = "(hashmap_tag t k \<in># hm_bag h) # bs"
  have "hashmap_run h (r # rs) = Some (?bs, h')"
    using h1(1) run(1) by (simp add: r)
  moreover have "?bs ! i \<longleftrightarrow> case_prod hashmap_tag ((r # rs) ! i) \<in># hm_bag h
        \<or> (\<exists>j<i. case_prod hashmap_tag ((r # rs) ! j) = case_prod hashmap_tag ((r # rs) ! i))"
    if "i < length (r # rs)" for i
    using that bs h1(3) by (cases i) (auto simp: r less_Suc_eq_0_disj)
  ultimately show ?case using run(2) by (intro exI [of _ ?bs] exI [of _ h']) simp
qed

section \<open>Properties\<close>

text \<open>C6. A sequence of \<open>hashmap_search_and_add\<close> calls after a reset never faults and answers "seen before"
  exactly for the requests whose type and key (without the three bits the type overwrites) occurred
  earlier in the sequence: the chained table implements a set of tagged keys.\<close>

theorem hashmap_run_correct:
  assumes "h = None \<or> hm_invar h" and "\<forall>(t, k)\<in>set rs. t < 8"
  shows "\<exists>bs h'. hashmap_run (hashmap_reset h) rs = Some (bs, h') \<and> length bs = length rs \<and>
     (\<forall>i<length rs. bs ! i \<longleftrightarrow> (\<exists>j<i. fst (rs ! j) = fst (rs ! i)
        \<and> snd (rs ! j) AND TYPE_MASK = snd (rs ! i) AND TYPE_MASK))"
proof -
  have lt: "fst (rs ! i) < 8" if "i < length rs" for i
    using assms(2) nth_mem [OF that] by (auto simp: split_beta)
  obtain bs h' where "hashmap_run (hashmap_reset h) rs = Some (bs, h')" "length bs = length rs"
    and bs: "\<forall>i<length rs. bs ! i \<longleftrightarrow> (\<exists>j<i. case_prod hashmap_tag (rs ! j) = case_prod hashmap_tag (rs ! i))"
    using hashmap_run_law [of "hashmap_reset h" rs] hashmap_reset_law [OF assms(1)] assms(2) by auto
  moreover have "bs ! i \<longleftrightarrow> (\<exists>j<i. fst (rs ! j) = fst (rs ! i)
        \<and> snd (rs ! j) AND TYPE_MASK = snd (rs ! i) AND TYPE_MASK)" if "i < length rs" for i
  proof -
    have "case_prod hashmap_tag (rs ! j) = case_prod hashmap_tag (rs ! i) \<longleftrightarrow> fst (rs ! j) = fst (rs ! i)
        \<and> snd (rs ! j) AND TYPE_MASK = snd (rs ! i) AND TYPE_MASK" if "j < i" for j
      unfolding split_beta by (rule hashmap_tag_eq_iff) (use lt that \<open>i < length rs\<close> in auto)
    then show ?thesis using bs that by blast
  qed
  ultimately show ?thesis by blast
qed

theorem hashmap_run_correct_witness:
  "\<exists>bs h'. hashmap_run (hashmap_reset None) [(3, 7), (2, 7), (3, 7)] = Some (bs, h') \<and> bs ! 2"
  using hashmap_run_correct [of None "[(3, 7), (2, 7), (3, 7)]"] by fastforce

text \<open>Insert, search and delete behave as a bag: after an insert the key is found, deleting it again
  restores the previous contents, and deleting a key that occurs at most once makes it disappear.\<close>

theorem hashmap_insert_delete:
  assumes "hm_invar h"
  shows "\<exists>h1 h2. hashmap_insert h k = Some h1 \<and> hashmap_search h1 k = Some True
     \<and> hashmap_delete h1 k = Some h2 \<and> hm_invar h2 \<and> hm_bag h2 = hm_bag h
     \<and> (\<forall>h3. count (hm_bag h) k \<le> 1 \<longrightarrow> hashmap_delete h k = Some h3 \<longrightarrow> hashmap_search h3 k = Some False)"
proof -
  obtain h1 where 1: "hashmap_insert h k = Some h1" "hm_invar h1" "hm_bag h1 = add_mset k (hm_bag h)"
    using hm.ins_law [OF assms] by blast
  obtain h2 where 2: "hashmap_delete h1 k = Some h2" "hm_invar h2" "hm_bag h2 = hm_bag h"
    using hm.del_law [OF 1(2), of k] 1(3) by fastforce
  have "hashmap_search h1 k = Some True" using hm.srch_law [OF 1(2), of k] 1(3) by simp
  with 1 2 hm.delete_unique [OF assms] show ?thesis by blast
qed

theorem hashmap_insert_delete_witness:
  "\<exists>h1 h2. hashmap_insert (hashmap_reset None) 5 = Some h1 \<and> hashmap_search h1 5 = Some True
     \<and> hashmap_delete h1 5 = Some h2 \<and> hm_bag h2 = {#}"
proof -
  have r: "hm_invar (hashmap_reset None)" "hm_bag (hashmap_reset None) = {#}"
    using hashmap_reset_law [of None] by simp_all
  from hashmap_insert_delete [OF r(1), of 5] show ?thesis unfolding r(2) by blast
qed

text \<open>\<open>hashmap_search_and_add_ptr\<close> never looks at the bytes it is given: it writes to the absolute
  addresses \<open>7 - type .. 7\<close> (a fault unless these are mapped) and then always looks up key 0.\<close>

theorem hashmap_search_and_add_ptr_ignores_key:
  assumes "t < 8" and "unat t + 1 \<le> length key" and "unat t + 1 \<le> length key'"
  shows "hashmap_search_and_add_ptr mapped h t key = hashmap_search_and_add_ptr mapped h t key'
       \<and> (\<not> mapped 7 \<longrightarrow> hashmap_search_and_add_ptr mapped h t key = None)"
  using assms by (auto simp: hashmap_search_and_add_ptr_def)

theorem hashmap_search_and_add_ptr_witness:
  "hashmap_search_and_add_ptr (\<lambda>_. False) None 1 [1, 2] = hashmap_search_and_add_ptr (\<lambda>_. False) None 1 [3, 4]"
  using hashmap_search_and_add_ptr_ignores_key [of 1 "[1, 2]" "[3, 4]"] by simp

end
