(* ===== verification/Sha1.thy ===== *)
theory Sha1
  imports Prelude
begin

text \<open>
  The SHA-1 and HMAC-SHA-1 routines of \<^verbatim>\<open>src/afl-performance.c\<close> (used to name saved inputs under
  \<open>AFL_SHA1_FILENAMES\<close>), in their little-endian build. The 16-word block buffer is written byte by byte through
  the cast \<open>(uint8_t *)s->buffer\<close> at index \<open>bufferOffset ^ 3\<close> and read word by word with a rolling message
  schedule. The theorems compare it with the FIPS 180 definition: padding, the 80-word schedule, and one
  compression per 64-byte block.
\<close>

section \<open>The streaming implementation\<close>

record sha1nfo =
  sha1_buffer :: "u32 list"
  sha1_state :: "u32 list"
  byteCount :: u32
  bufferOffset :: u8
  keyBuffer :: mem
  innerHash :: mem

definition HASH_LENGTH :: nat where "HASH_LENGTH = 20"
definition BLOCK_LENGTH :: nat where "BLOCK_LENGTH = 64"

definition SHA1_K0 :: u32 where "SHA1_K0 = 0x5a827999"
definition SHA1_K20 :: u32 where "SHA1_K20 = 0x6ed9eba1"
definition SHA1_K40 :: u32 where "SHA1_K40 = 0x8f1bbcdc"
definition SHA1_K60 :: u32 where "SHA1_K60 = 0xca62c1d6"

definition sha1_init :: "sha1nfo \<Rightarrow> sha1nfo" where
  "sha1_init s = s\<lparr>sha1_state := [0x67452301, 0xefcdab89, 0x98badcfe, 0x10325476, 0xc3d2e1f0],
                   byteCount := 0, bufferOffset := 0\<rparr>"

definition sha1_rol32 :: "u32 \<Rightarrow> nat \<Rightarrow> u32" where
  "sha1_rol32 number bits = push_bit bits number OR drop_bit (32 - bits) number"

text \<open>One iteration of the loop of \<open>sha1_hashBlock\<close> on the buffer and the five working variables.\<close>

fun sha1_round ::
  "nat \<Rightarrow> u32 list \<times> u32 \<times> u32 \<times> u32 \<times> u32 \<times> u32 \<Rightarrow> u32 list \<times> u32 \<times> u32 \<times> u32 \<times> u32 \<times> u32" where
  "sha1_round i (buf, a, b, c, d, e) =
     (let buf = (if i \<ge> 16
                 then buf[i AND 15 := sha1_rol32 (buf ! ((i + 13) AND 15) XOR buf ! ((i + 8) AND 15)
                                                   XOR buf ! ((i + 2) AND 15) XOR buf ! (i AND 15)) 1]
                 else buf);
          t = (if i < 20 then (d XOR (b AND (c XOR d))) + SHA1_K0
               else if i < 40 then (b XOR c XOR d) + SHA1_K20
               else if i < 60 then ((b AND c) OR (d AND (b OR c))) + SHA1_K40
               else (b XOR c XOR d) + SHA1_K60);
          t = t + (sha1_rol32 a 5 + e + buf ! (i AND 15))
      in (buf, t, a, sha1_rol32 b 30, c, d))"

definition sha1_hashBlock :: "sha1nfo \<Rightarrow> sha1nfo" where
  "sha1_hashBlock s =
     (let st = sha1_state s
      in case fold sha1_round [0..<80] (sha1_buffer s, st ! 0, st ! 1, st ! 2, st ! 3, st ! 4) of
           (buf, a, b, c, d, e) \<Rightarrow>
             s\<lparr>sha1_buffer := buf,
               sha1_state := [st ! 0 + a, st ! 1 + b, st ! 2 + c, st ! 3 + d, st ! 4 + e]\<rparr>)"

text \<open>\<open>((uint8_t *)buf)[k] = data\<close> on an array of little-endian 32-bit words.\<close>

definition store_byte_u32 :: "u32 list \<Rightarrow> nat \<Rightarrow> u8 \<Rightarrow> u32 list option" where
  "store_byte_u32 buf k data =
     (let w = k div 4; sh = 8 * (k mod 4)
      in if w < length buf
         then Some (buf[w := (buf ! w AND NOT (push_bit sh 0xff)) OR push_bit sh (ucast data)])
         else None)"

definition sha1_addUncounted :: "sha1nfo \<Rightarrow> u8 \<Rightarrow> sha1nfo option" where
  "sha1_addUncounted s data = do {
     buf \<leftarrow> store_byte_u32 (sha1_buffer s) (unat (bufferOffset s XOR 3)) data;
     let s = s\<lparr>sha1_buffer := buf, bufferOffset := bufferOffset s + 1\<rparr>;
     Some (if bufferOffset s = word_of_nat BLOCK_LENGTH
           then (sha1_hashBlock s)\<lparr>bufferOffset := 0\<rparr> else s) }"

definition sha1_writebyte :: "sha1nfo \<Rightarrow> u8 \<Rightarrow> sha1nfo option" where
  "sha1_writebyte s data = sha1_addUncounted (s\<lparr>byteCount := byteCount s + 1\<rparr>) data"

fun sha1_write :: "sha1nfo \<Rightarrow> u8 list \<Rightarrow> sha1nfo option" where
  "sha1_write s [] = Some s"
| "sha1_write s (x # data) = do { s \<leftarrow> sha1_writebyte s x; sha1_write s data }"

text \<open>The loop \<open>while (s->bufferOffset != 56)\<close> of \<open>sha1_pad\<close>.\<close>

partial_function (option) sha1_pad_loop :: "sha1nfo \<Rightarrow> sha1nfo option" where
  "sha1_pad_loop s =
     (if bufferOffset s \<noteq> 56
      then do { s \<leftarrow> sha1_addUncounted s 0; sha1_pad_loop s } else Some s)"

definition sha1_pad :: "sha1nfo \<Rightarrow> sha1nfo option" where
  "sha1_pad s = do {
     s \<leftarrow> sha1_addUncounted s 0x80;
     s \<leftarrow> sha1_pad_loop s;
     s \<leftarrow> sha1_addUncounted s 0;
     s \<leftarrow> sha1_addUncounted s 0;
     s \<leftarrow> sha1_addUncounted s 0;
     s \<leftarrow> sha1_addUncounted s (ucast (drop_bit 29 (byteCount s)));
     s \<leftarrow> sha1_addUncounted s (ucast (drop_bit 21 (byteCount s)));
     s \<leftarrow> sha1_addUncounted s (ucast (drop_bit 13 (byteCount s)));
     s \<leftarrow> sha1_addUncounted s (ucast (drop_bit 5 (byteCount s)));
     sha1_addUncounted s (ucast (push_bit 3 (byteCount s))) }"

definition sha1_swap32 :: "u32 \<Rightarrow> u32" where
  "sha1_swap32 w =
     ((push_bit 24 w AND 0xff000000) OR (push_bit 8 w AND 0x00ff0000)
      OR (drop_bit 8 w AND 0x0000ff00) OR (drop_bit 24 w AND 0x000000ff))"

text \<open>The result pointer \<open>(uint8_t *)s->state\<close> is returned as the bytes it points to.\<close>

definition sha1_result :: "sha1nfo \<Rightarrow> (mem \<times> sha1nfo) option" where
  "sha1_result s = do {
     s \<leftarrow> sha1_pad s;
     let s = s\<lparr>sha1_state := map sha1_swap32 (sha1_state s)\<rparr>;
     Some (concat (map (le_bytes 4) (sha1_state s)), s) }"

definition HMAC_IPAD :: u8 where "HMAC_IPAD = 0x36"
definition HMAC_OPAD :: u8 where "HMAC_OPAD = 0x5c"

text \<open>The key is the list of its \<open>keyLength\<close> bytes.\<close>

definition sha1_initHmac :: "sha1nfo \<Rightarrow> u8 list \<Rightarrow> sha1nfo option" where
  "sha1_initHmac s key = do {
     let s = s\<lparr>keyBuffer := replicate BLOCK_LENGTH 0\<rparr>;
     s \<leftarrow> (if length key > BLOCK_LENGTH
           then do {
             s \<leftarrow> sha1_write (sha1_init s) key;
             (digest, s) \<leftarrow> sha1_result s;
             Some (s\<lparr>keyBuffer := take HASH_LENGTH digest @ drop HASH_LENGTH (keyBuffer s)\<rparr>) }
           else Some (s\<lparr>keyBuffer := key @ drop (length key) (keyBuffer s)\<rparr>));
     let s = sha1_init s;
     sha1_write s (map (\<lambda>k. k XOR HMAC_IPAD) (keyBuffer s)) }"

definition sha1_resultHmac :: "sha1nfo \<Rightarrow> (mem \<times> sha1nfo) option" where
  "sha1_resultHmac s = do {
     (digest, s) \<leftarrow> sha1_result s;
     let s = sha1_init (s\<lparr>innerHash := take HASH_LENGTH digest\<rparr>);
     s \<leftarrow> sha1_write s (map (\<lambda>k. k XOR HMAC_OPAD) (keyBuffer s));
     s \<leftarrow> sha1_write s (innerHash s);
     sha1_result s }"

text \<open>\<open>sha1\<close> and \<open>sha1_hex\<close> work on an uninitialised stack structure, here the argument \<open>s0\<close>.\<close>

definition sha1 :: "sha1nfo \<Rightarrow> u8 list \<Rightarrow> mem option" where
  "sha1 s0 data = do {
     s \<leftarrow> sha1_write (sha1_init s0) data;
     (digest, s) \<leftarrow> sha1_result s;
     Some (take HASH_LENGTH digest) }"

definition hex_digit :: "nat \<Rightarrow> char" where
  "hex_digit n = ''0123456789abcdef'' ! n"

text \<open>\<open>sprintf(\<dots>, "%02x", b)\<close>\<close>

definition print_02x :: "u8 \<Rightarrow> string" where
  "print_02x b = [hex_digit (unat b div 16), hex_digit (unat b mod 16)]"

definition sha1_hex :: "sha1nfo \<Rightarrow> u8 list \<Rightarrow> string option" where
  "sha1_hex s0 data = map_option (\<lambda>digest. concat (map print_02x digest)) (sha1 s0 data)"

text \<open>\<open>sha1_hex_for_file\<close>: the file is its content; failing to open it or a short read is fatal (\<open>None\<close>).\<close>

definition sha1_hex_for_file :: "sha1nfo \<Rightarrow> (string \<Rightarrow> mem option) \<Rightarrow> string \<Rightarrow> u32 \<Rightarrow> string option" where
  "sha1_hex_for_file s0 fs fname len = do {
     content \<leftarrow> fs fname;
     let read_len = min (unat len) MAX_FILE;
     if length content < read_len then None
     else sha1_hex s0 (take read_len content) }"

section \<open>The FIPS 180 definition\<close>

definition be_word :: "u8 list \<Rightarrow> u32" where
  "be_word bs = foldl (\<lambda>w b. push_bit 8 w OR ucast b) 0 bs"

definition be_bytes :: "nat \<Rightarrow> 'w::len word \<Rightarrow> u8 list" where
  "be_bytes nb w = rev (le_bytes nb w)"

definition block_word :: "u8 list \<Rightarrow> nat \<Rightarrow> u32" where
  "block_word blk t = be_word (take 4 (drop (4 * t) blk))"

fun sha1_W :: "(nat \<Rightarrow> u32) \<Rightarrow> nat \<Rightarrow> u32" where
  "sha1_W M t =
     (if t < 16 then M t
      else sha1_rol32 (sha1_W M (t - 3) XOR sha1_W M (t - 8) XOR sha1_W M (t - 14) XOR sha1_W M (t - 16)) 1)"

declare sha1_W.simps [simp del]

definition sha1_f :: "nat \<Rightarrow> u32 \<Rightarrow> u32 \<Rightarrow> u32 \<Rightarrow> u32" where
  "sha1_f t x y z =
     (if t < 20 then (x AND y) XOR (NOT x AND z)
      else if t < 40 then x XOR y XOR z
      else if t < 60 then (x AND y) XOR (x AND z) XOR (y AND z)
      else x XOR y XOR z)"

definition sha1_K :: "nat \<Rightarrow> u32" where
  "sha1_K t = (if t < 20 then SHA1_K0 else if t < 40 then SHA1_K20 else if t < 60 then SHA1_K40 else SHA1_K60)"

fun fips_round :: "(nat \<Rightarrow> u32) \<Rightarrow> nat \<Rightarrow> u32 \<times> u32 \<times> u32 \<times> u32 \<times> u32 \<Rightarrow> u32 \<times> u32 \<times> u32 \<times> u32 \<times> u32" where
  "fips_round M t (a, b, c, d, e) =
     (sha1_rol32 a 5 + sha1_f t b c d + e + sha1_K t + sha1_W M t, a, sha1_rol32 b 30, c, d)"

definition fips_compress :: "u32 list \<Rightarrow> (nat \<Rightarrow> u32) \<Rightarrow> u32 list" where
  "fips_compress H M =
     (case fold (fips_round M) [0..<80] (H ! 0, H ! 1, H ! 2, H ! 3, H ! 4) of
        (a, b, c, d, e) \<Rightarrow> [H ! 0 + a, H ! 1 + b, H ! 2 + c, H ! 3 + d, H ! 4 + e])"

text \<open>All complete blocks of a message are compressed, and the incomplete rest is kept.\<close>

function fips_blocks :: "u32 list \<Rightarrow> u8 list \<Rightarrow> u32 list \<times> u8 list" where
  "fips_blocks H m =
     (if length m < 64 then (H, m) else fips_blocks (fips_compress H (block_word (take 64 m))) (drop 64 m))"
  by pat_completeness auto
termination
  by (relation "measure (\<lambda>(H, m). length m)") auto

declare fips_blocks.simps [simp del]

definition fips_pad :: "u8 list \<Rightarrow> u8 list" where
  "fips_pad m =
     m @ [0x80] @ replicate ((55 + 64 - length m mod 64) mod 64) 0
       @ be_bytes 8 (word_of_nat (8 * length m) :: u64)"

definition fips_H0 :: "u32 list" where
  "fips_H0 = [0x67452301, 0xefcdab89, 0x98badcfe, 0x10325476, 0xc3d2e1f0]"

definition fips_sha1 :: "u8 list \<Rightarrow> u8 list" where
  "fips_sha1 m = concat (map (be_bytes 4) (fst (fips_blocks fips_H0 (fips_pad m))))"

text \<open>HMAC of RFC 2104 over SHA-1.\<close>

definition hmac_key :: "u8 list \<Rightarrow> u8 list" where
  "hmac_key key =
     (let k = (if length key > 64 then fips_sha1 key else key) in k @ replicate (64 - length k) 0)"

definition hmac_sha1 :: "u8 list \<Rightarrow> u8 list \<Rightarrow> u8 list" where
  "hmac_sha1 key m =
     fips_sha1 (map (\<lambda>k. k XOR 0x5c) (hmac_key key) @ fips_sha1 (map (\<lambda>k. k XOR 0x36) (hmac_key key) @ m))"

section \<open>One block\<close>

lemma and_15_mod: "n AND 15 = n mod (16 :: nat)"
proof -
  have "n AND 15 = take_bit 4 n" by (simp add: take_bit_eq_mask mask_eq_exp_minus_1)
  then show ?thesis by (simp add: take_bit_eq_mod)
qed

definition sched_inv :: "(nat \<Rightarrow> u32) \<Rightarrow> nat \<Rightarrow> u32 list \<Rightarrow> bool" where
  "sched_inv M n buf \<longleftrightarrow> length buf = 16 \<and> (\<forall>t. n \<le> t + 16 \<longrightarrow> t < max n 16 \<longrightarrow> buf ! (t mod 16) = sha1_W M t)"

lemma sched_inv_nth: "sched_inv M n buf \<Longrightarrow> n \<le> t + 16 \<Longrightarrow> t < max n 16 \<Longrightarrow> k = t mod 16 \<Longrightarrow> buf ! k = sha1_W M t"
  by (simp add: sched_inv_def)

lemma ch_eq: "d XOR (b AND (c XOR d)) = (b AND c) XOR (NOT b AND d :: u32)"
  by (intro bit_word_eqI) (auto simp: bit_simps)

lemma maj_eq: "(b AND c) OR (d AND (b OR c)) = (b AND c) XOR (b AND d) XOR (c AND d :: u32)"
  by (intro bit_word_eqI) (auto simp: bit_simps)

lemma sha1_round_step:
  assumes inv: "sched_inv M i buf"
  shows "\<exists>buf'. sha1_round i (buf, st) = (buf', fips_round M i st) \<and> sched_inv M (Suc i) buf'"
proof -
  define buf' where "buf' = (if i \<ge> 16 then buf[i mod 16 := sha1_W M i] else buf)"
  have W: "sha1_rol32 (buf ! ((i + 13) mod 16) XOR buf ! ((i + 8) mod 16) XOR buf ! ((i + 2) mod 16) XOR buf ! (i mod 16)) 1
      = sha1_W M i" if "i \<ge> 16"
  proof -
    have prev: "buf ! ((i + j) mod 16) = sha1_W M (i - (16 - j))" if "j < 16" for j
    proof (rule sched_inv_nth [OF inv])
      have "i + j = i - (16 - j) + 16" using \<open>i \<ge> 16\<close> that by simp
      from arg_cong [OF this, of "\<lambda>n. n mod 16"]
      show "(i + j) mod 16 = (i - (16 - j)) mod 16" by (simp only: mod_add_self2)
    qed (use \<open>i \<ge> 16\<close> that in simp_all)
    from prev [of 13] prev [of 8] prev [of 2] prev [of 0]
    have "buf ! ((i + 13) mod 16) = sha1_W M (i - 3)" "buf ! ((i + 8) mod 16) = sha1_W M (i - 8)"
      "buf ! ((i + 2) mod 16) = sha1_W M (i - 14)" "buf ! (i mod 16) = sha1_W M (i - 16)"
      by simp_all
    then show ?thesis using that by (simp add: sha1_W.simps [of M i])
  qed
  have len: "length buf = 16" using inv by (simp add: sched_inv_def)
  have inv': "sched_inv M (Suc i) buf'"
    unfolding sched_inv_def
  proof (intro conjI allI impI)
    show "length buf' = 16" using len by (simp add: buf'_def)
    fix t assume t: "Suc i \<le> t + 16" "t < max (Suc i) 16"
    show "buf' ! (t mod 16) = sha1_W M t"
    proof (cases "t = i \<and> i \<ge> 16")
      case True
      then show ?thesis using len by (simp add: buf'_def)
    next
      case False
      have "t mod 16 \<noteq> i mod 16" if "i \<ge> 16"
      proof
        assume "t mod 16 = i mod 16"
        moreover have less: "t < i" "i - t < 16" using t that False by auto
        ultimately have "16 dvd i - t" using mod_eq_dvd_iff_nat [of t i 16] by simp
        with less show False by (auto dest: dvd_imp_le)
      qed
      moreover have "buf ! (t mod 16) = sha1_W M t" using t False by (intro sched_inv_nth [OF inv]) auto
      ultimately show ?thesis using len by (cases "i \<ge> 16") (auto simp: buf'_def nth_list_update)
    qed
  qed
  have at_i: "buf' ! (i mod 16) = sha1_W M i"
    using inv' by (simp add: sched_inv_def)
  obtain a b c d e where st: "st = (a, b, c, d, e)" by (cases st)
  have "(if i \<ge> 16 then buf[i mod 16 := sha1_rol32 (buf ! ((i + 13) mod 16) XOR buf ! ((i + 8) mod 16)
           XOR buf ! ((i + 2) mod 16) XOR buf ! (i mod 16)) 1] else buf) = buf'"
    using W by (simp add: buf'_def)
  then have "sha1_round i (buf, st) = (buf', fips_round M i st)"
    unfolding st sha1_round.simps fips_round.simps and_15_mod Let_def
    by (simp only: at_i ch_eq maj_eq) (simp add: sha1_f_def sha1_K_def ac_simps)
  with inv' show ?thesis by blast
qed

lemma sha1_rounds:
  assumes "sched_inv M 0 buf"
  shows "\<exists>buf'. fold sha1_round [0..<n] (buf, st) = (buf', fold (fips_round M) [0..<n] st) \<and> sched_inv M n buf'"
proof (induction n)
  case 0
  then show ?case using assms by simp
next
  case (Suc n)
  then obtain buf' where "fold sha1_round [0..<n] (buf, st) = (buf', fold (fips_round M) [0..<n] st)"
    and "sched_inv M n buf'" by blast
  with sha1_round_step [of M n buf' "fold (fips_round M) [0..<n] st"] show ?case by auto
qed

lemma sha1_hashBlock_correct:
  assumes "length (sha1_buffer s) = 16"
  shows "\<exists>buf'. length buf' = 16 \<and>
      sha1_hashBlock s = s\<lparr>sha1_buffer := buf', sha1_state := fips_compress (sha1_state s) (\<lambda>t. sha1_buffer s ! t)\<rparr>"
proof -
  let ?M = "\<lambda>t. sha1_buffer s ! t" and ?st = "sha1_state s"
  have "sched_inv ?M 0 (sha1_buffer s)"
    using assms by (simp add: sched_inv_def sha1_W.simps)
  from sha1_rounds [OF this, of 80 "(?st ! 0, ?st ! 1, ?st ! 2, ?st ! 3, ?st ! 4)"] obtain buf' where
    f: "fold sha1_round [0..<80] (sha1_buffer s, ?st ! 0, ?st ! 1, ?st ! 2, ?st ! 3, ?st ! 4)
      = (buf', fold (fips_round ?M) [0..<80] (?st ! 0, ?st ! 1, ?st ! 2, ?st ! 3, ?st ! 4))"
    and "sched_inv ?M 80 buf'" by blast
  then show ?thesis
    unfolding sha1_hashBlock_def fips_compress_def Let_def f
    by (intro exI [of _ buf']) (auto simp: sched_inv_def split: prod.splits)
qed


lemma fips_round_cong:
  assumes "\<And>t. t < 16 \<Longrightarrow> M t = M' t"
  shows "fips_round M = fips_round M'"
proof -
  have "sha1_W M t = sha1_W M' t" for t
  proof (induction t rule: less_induct)
    case (less t)
    then show ?case using assms by (simp add: sha1_W.simps [of _ t])
  qed
  then show ?thesis by (auto simp: fun_eq_iff)
qed

lemma fips_compress_cong: "(\<And>t. t < 16 \<Longrightarrow> M t = M' t) \<Longrightarrow> fips_compress H M = fips_compress H M'"
  unfolding fips_compress_def by (subst fips_round_cong [of M M']) simp_all

section \<open>Bytes into blocks\<close>

definition buf_byte :: "u32 list \<Rightarrow> nat \<Rightarrow> u8" where
  "buf_byte buf j = ucast (drop_bit (8 * (3 - j mod 4)) (buf ! (j div 4)))"

lemma set_byte_read:
  fixes w :: u32 and d :: u8
  assumes "i < 4" and "i' < 4"
  shows "ucast (drop_bit (8 * i') ((w AND NOT (push_bit (8 * i) 0xff)) OR push_bit (8 * i) (ucast d)))
       = (if i = i' then d else (ucast (drop_bit (8 * i') w) :: u8))"
proof -
  have m: "(0xff :: u32) = mask 8" by (simp add: mask_eq_exp_minus_1)
  show ?thesis
  proof (rule bit_word_eqI)
    fix n assume "n < LENGTH(8)"
    then have n: "n < 8" by simp
    have le: "8 * i' + n < 32" using n assms by simp
    show "bit (ucast (drop_bit (8 * i') ((w AND NOT (push_bit (8 * i) 0xff)) OR push_bit (8 * i) (ucast d))) :: u8) n
        = bit (if i = i' then d else (ucast (drop_bit (8 * i') w) :: u8)) n"
    proof (cases "i = i'")
      case True
      then show ?thesis using n le unfolding m by (auto simp: bit_simps)
    next
      case False
      then have "8 * i \<le> 8 * i' + n \<Longrightarrow> \<not> 8 * i' + n - 8 * i < 8" using n by presburger
      then show ?thesis using n le False unfolding m by (auto simp: bit_simps dest: bit_imp_le_length)
    qed
  qed
qed

lemma xor_3_index: "j < 64 \<Longrightarrow> unat (word_of_nat j XOR 3 :: u8) = 4 * (j div 4) + (3 - j mod 4)"
proof -
  have "list_all (\<lambda>j. unat (word_of_nat j XOR 3 :: u8) = 4 * (j div 4) + (3 - j mod 4)) [0..<64]"
    by code_simp
  then show "j < 64 \<Longrightarrow> ?thesis" by (simp add: list_all_iff)
qed

lemma store_byte_u32_read:
  assumes "length buf = 16" and "j < 64"
  shows "\<exists>buf'. store_byte_u32 buf (4 * (j div 4) + (3 - j mod 4)) d = Some buf' \<and> length buf' = 16
            \<and> buf_byte buf' j = d \<and> (\<forall>i<j. buf_byte buf' i = buf_byte buf i)"
proof -
  let ?k = "4 * (j div 4) + (3 - j mod 4)"
  have k: "(4 * a + b) div 4 = a" "(4 * a + b) mod 4 = b" if "b < 4" for a b :: nat
    using that by simp_all
  have jd: "j div 4 < 16" using assms(2) by simp
  define buf' where "buf' = buf[j div 4 := (buf ! (j div 4) AND NOT (push_bit (8 * (3 - j mod 4)) 0xff))
                              OR push_bit (8 * (3 - j mod 4)) (ucast d)]"
  have "store_byte_u32 buf ?k d = Some buf'"
    using assms jd by (simp add: store_byte_u32_def k Let_def buf'_def del: add_diff_assoc)
  moreover have "length buf' = 16" using assms by (simp add: buf'_def)
  moreover have "buf_byte buf' j = d"
    unfolding buf_byte_def buf'_def using assms jd by (simp only: nth_list_update_eq set_byte_read) simp
  moreover have "buf_byte buf' i = buf_byte buf i" if "i < j" for i
  proof (cases "i div 4 = j div 4")
    case True
    then have "i mod 4 < j mod 4" using that div_mult_mod_eq [of i 4] div_mult_mod_eq [of j 4] by linarith
    moreover have "j mod 4 < 4" by simp
    ultimately have "3 - j mod 4 \<noteq> 3 - i mod 4" by linarith
    then show ?thesis
      unfolding buf_byte_def buf'_def using assms jd True by (simp only: nth_list_update_eq set_byte_read) simp
  next
    case False
    then show ?thesis by (simp add: buf_byte_def buf'_def)
  qed
  ultimately show ?thesis by blast
qed


lemma be_word_bytes:
  "be_word [ucast (drop_bit 24 w), ucast (drop_bit 16 w), ucast (drop_bit 8 w), ucast w] = (w :: u32)"
proof (rule bit_word_eqI)
  fix n assume "n < LENGTH(32)"
  then have "n < 8 \<or> 8 \<le> n \<and> n < 16 \<or> 16 \<le> n \<and> n < 24 \<or> 24 \<le> n \<and> n < 32" by auto
  then show "bit (be_word [ucast (drop_bit 24 w), ucast (drop_bit 16 w), ucast (drop_bit 8 w), ucast w]) n = bit w n"
    by (elim disjE) (auto simp: be_word_def bit_simps)
qed

lemma take_4_drop:
  assumes "4 * t + 4 \<le> length m"
  shows "take 4 (drop (4 * t) m) = [m ! (4 * t), m ! (4 * t + 1), m ! (4 * t + 2), m ! (4 * t + 3)]"
  using assms by (intro nth_equalityI) (auto simp: less_Suc_eq eval_nat_numeral)

lemma block_word_buffer:
  assumes "length m = 64" and "\<forall>j<64. buf_byte buf j = m ! j" and "t < 16"
  shows "block_word m t = buf ! t"
proof -
  have m: "m ! (4 * t + i) = ucast (drop_bit (8 * (3 - i)) (buf ! t))" if "i < 4" for i
    using assms(2) [rule_format, of "4 * t + i"] assms(3) that by (simp add: buf_byte_def)
  then show ?thesis
    using assms(1,3) m [of 0] m [of 1] m [of 2] m [of 3]
    by (simp add: block_word_def take_4_drop be_word_bytes)
qed

lemma fips_blocks_short: "length m < 64 \<Longrightarrow> fips_blocks H m = (H, m)"
  by (simp add: fips_blocks.simps)

lemma fips_blocks_full:
  "length m = 64 \<Longrightarrow> fips_blocks H (m @ n) = fips_blocks (fips_compress H (block_word m)) n"
  by (simp add: fips_blocks.simps [of H "m @ n"])

lemma fips_blocks_append:
  "fips_blocks H (m @ n) = fips_blocks (fst (fips_blocks H m)) (snd (fips_blocks H m) @ n)"
proof (induction H m rule: fips_blocks.induct)
  case (1 H m)
  show ?case
  proof (cases "length m < 64")
    case True
    then show ?thesis by (simp add: fips_blocks_short)
  next
    case False
    then have "fips_blocks H (m @ n) = fips_blocks (fips_compress H (block_word (take 64 m))) (drop 64 m @ n)"
      using fips_blocks_full [of "take 64 m" H "drop 64 m @ n"] by (simp flip: append_assoc)
    moreover have "fips_blocks H m = fips_blocks (fips_compress H (block_word (take 64 m))) (drop 64 m)"
      using False by (simp add: fips_blocks.simps [of H m])
    ultimately show ?thesis using 1 False by simp
  qed
qed

lemma length_fips_rest: "length (snd (fips_blocks H m)) = length m mod 64"
proof (induction H m rule: fips_blocks.induct)
  case (1 H m)
  then show ?case by (cases "length m < 64") (simp_all add: fips_blocks.simps [of H m] le_mod_geq)
qed

lemma length_fips_state: "length H = 5 \<Longrightarrow> length (fst (fips_blocks H m)) = 5"
proof (induction H m rule: fips_blocks.induct)
  case (1 H m)
  then show ?case
    by (cases "length m < 64") (auto simp: fips_blocks.simps [of H m] fips_compress_def split: prod.splits)
qed

text \<open>The context has absorbed the bytes \<open>m\<close>: the complete blocks are compressed into the state and the rest is in
  the buffer.\<close>

definition sha1_fed :: "sha1nfo \<Rightarrow> u8 list \<Rightarrow> bool" where
  "sha1_fed s m \<longleftrightarrow>
     length (sha1_buffer s) = 16 \<and> sha1_state s = fst (fips_blocks fips_H0 m)
     \<and> bufferOffset s = word_of_nat (length m mod 64)
     \<and> (\<forall>j < length m mod 64. buf_byte (sha1_buffer s) j = snd (fips_blocks fips_H0 m) ! j)"

definition sha1_aux :: "sha1nfo \<Rightarrow> u32 \<times> mem \<times> mem" where
  "sha1_aux s = (byteCount s, keyBuffer s, innerHash s)"

lemma sha1_fed_init: "length (sha1_buffer s) = 16 \<Longrightarrow> sha1_fed (sha1_init s) []"
  by (simp add: sha1_fed_def sha1_init_def fips_blocks_short fips_H0_def)

lemma sha1_add_fed:
  assumes "sha1_fed s m"
  shows "\<exists>s'. sha1_addUncounted s d = Some s' \<and> sha1_fed s' (m @ [d]) \<and> sha1_aux s' = sha1_aux s"
proof -
  let ?r = "length m mod 64" and ?H = "fst (fips_blocks fips_H0 m)" and ?pend = "snd (fips_blocks fips_H0 m)"
  have r: "?r < 64" by simp
  have fed: "length (sha1_buffer s) = 16" "sha1_state s = ?H" "bufferOffset s = word_of_nat ?r"
      "\<forall>j < ?r. buf_byte (sha1_buffer s) j = ?pend ! j"
    using assms by (simp_all add: sha1_fed_def)
  from store_byte_u32_read [OF fed(1) r, of d] xor_3_index [OF r] obtain buf where
    buf: "store_byte_u32 (sha1_buffer s) (unat (bufferOffset s XOR 3)) d = Some buf" "length buf = 16"
      "buf_byte buf ?r = d" "\<forall>i<?r. buf_byte buf i = buf_byte (sha1_buffer s) i"
    unfolding fed(3) by auto
  have bytes: "\<forall>j < Suc ?r. buf_byte buf j = (?pend @ [d]) ! j"
    using buf(3,4) fed(4) by (auto simp: less_Suc_eq nth_append length_fips_rest)
  have off: "bufferOffset s + 1 = word_of_nat (Suc ?r)" using fed(3) by simp
  have full: "bufferOffset s + 1 = word_of_nat BLOCK_LENGTH \<longleftrightarrow> ?r = 63"
    unfolding off BLOCK_LENGTH_def word_of_nat_eq_iff using r by (simp add: take_bit_nat_eq_self)
  show ?thesis
  proof (cases "?r = 63")
    case False
    then have "length (m @ [d]) mod 64 = Suc ?r" using r by (simp add: mod_Suc)
    moreover have "fips_blocks fips_H0 (m @ [d]) = (?H, ?pend @ [d])"
      using False r by (subst fips_blocks_append) (simp add: fips_blocks_short length_fips_rest)
    ultimately show ?thesis
      using buf(1,2) bytes fed full False off
      by (simp add: sha1_addUncounted_def Let_def sha1_fed_def sha1_aux_def)
  next
    case True
    let ?s = "s\<lparr>sha1_buffer := buf, bufferOffset := bufferOffset s + 1\<rparr>"
    from sha1_hashBlock_correct [of ?s] buf(2) obtain buf' where buf': "length buf' = 16"
      and hb: "sha1_hashBlock ?s = ?s\<lparr>sha1_buffer := buf', sha1_state := fips_compress ?H (\<lambda>t. buf ! t)\<rparr>"
      using fed(2) by auto
    have "fips_compress ?H (block_word (?pend @ [d])) = fips_compress ?H (\<lambda>t. buf ! t)"
      using bytes True by (intro fips_compress_cong block_word_buffer) (simp_all add: length_fips_rest)
    then have "fips_blocks fips_H0 (m @ [d]) = (fips_compress ?H (\<lambda>t. buf ! t), [])"
      using True fips_blocks_full [of "?pend @ [d]" ?H "[]"]
      by (subst fips_blocks_append) (simp add: fips_blocks_short length_fips_rest)
    moreover have "length (m @ [d]) mod 64 = 0" using True by (simp add: mod_Suc)
    ultimately show ?thesis
      using buf(1) full True hb buf'
      by (simp add: sha1_addUncounted_def Let_def sha1_fed_def sha1_aux_def)
  qed
qed


lemma sha1_write_fed:
  "sha1_fed s m \<Longrightarrow> \<exists>s'. sha1_write s data = Some s' \<and> sha1_fed s' (m @ data)
     \<and> byteCount s' = byteCount s + word_of_nat (length data)
     \<and> keyBuffer s' = keyBuffer s \<and> innerHash s' = innerHash s"
proof (induction data arbitrary: s m)
  case Nil
  then show ?case by simp
next
  case (Cons x data)
  have "sha1_fed (s\<lparr>byteCount := byteCount s + 1\<rparr>) m"
    using Cons.prems by (simp add: sha1_fed_def)
  from sha1_add_fed [OF this, of x] obtain s1 where s1: "sha1_writebyte s x = Some s1" "sha1_fed s1 (m @ [x])"
      "byteCount s1 = byteCount s + 1" "keyBuffer s1 = keyBuffer s" "innerHash s1 = innerHash s"
    by (auto simp: sha1_writebyte_def sha1_aux_def)
  from Cons.IH [OF s1(2)] obtain s2 where "sha1_write s1 data = Some s2" "sha1_fed s2 ((m @ [x]) @ data)"
      "byteCount s2 = byteCount s1 + word_of_nat (length data)" "keyBuffer s2 = keyBuffer s1"
      "innerHash s2 = innerHash s1" by blast
  with s1 show ?case by (intro exI [of _ s2]) simp
qed

text \<open>Bytes added without counting, as \<open>sha1_pad\<close> does.\<close>

fun add_all :: "sha1nfo \<Rightarrow> u8 list \<Rightarrow> sha1nfo option" where
  "add_all s [] = Some s"
| "add_all s (x # xs) = do { s \<leftarrow> sha1_addUncounted s x; add_all s xs }"

lemma sha1_add_all_fed:
  "sha1_fed s m \<Longrightarrow> \<exists>s'. add_all s xs = Some s' \<and> sha1_fed s' (m @ xs) \<and> sha1_aux s' = sha1_aux s"
proof (induction xs arbitrary: s m)
  case Nil
  then show ?case by simp
next
  case (Cons x xs)
  from sha1_add_fed [OF Cons.prems, of x] obtain s1 where
    s1: "sha1_addUncounted s x = Some s1" "sha1_fed s1 (m @ [x])" "sha1_aux s1 = sha1_aux s" by blast
  from Cons.IH [OF s1(2)] s1 show ?case by simp
qed

lemma sha1_fed_offset: "sha1_fed s m \<Longrightarrow> bufferOffset s = 56 \<longleftrightarrow> length m mod 64 = 56"
proof -
  assume "sha1_fed s m"
  then have "bufferOffset s = 56 \<longleftrightarrow> word_of_nat (length m mod 64) = (word_of_nat 56 :: u8)"
    by (simp add: sha1_fed_def)
  also have "\<dots> \<longleftrightarrow> length m mod 64 = 56"
    unfolding word_of_nat_eq_iff by (simp add: take_bit_nat_eq_self)
  finally show ?thesis .
qed

lemma sha1_pad_loop_fed:
  assumes "sha1_fed s m" and "k < 64" and "(length m + k) mod 64 = 56"
  shows "\<exists>s'. sha1_pad_loop s = Some s' \<and> sha1_fed s' (m @ replicate k 0) \<and> sha1_aux s' = sha1_aux s"
  using assms
proof (induction k arbitrary: s m)
  case 0
  then show ?case using sha1_fed_offset [OF 0(1)] by (subst sha1_pad_loop.simps) simp
next
  case (Suc k)
  have "length m mod 64 \<noteq> 56"
  proof
    assume "length m mod 64 = 56"
    then have "(length m + Suc k) mod 64 = (56 + Suc k) mod 64" by (metis mod_add_left_eq)
    with Suc.prems show False by (simp add: mod_if split: if_splits)
  qed
  moreover from sha1_add_fed [OF Suc.prems(1), of 0] obtain s1 where
    s1: "sha1_addUncounted s 0 = Some s1" "sha1_fed s1 (m @ [0])" "sha1_aux s1 = sha1_aux s" by blast
  moreover have "(length (m @ [0]) + k) mod 64 = 56" using Suc.prems by simp
  with Suc.IH [OF s1(2)] Suc.prems obtain s2 where "sha1_pad_loop s1 = Some s2"
      "sha1_fed s2 ((m @ [0]) @ replicate k 0)" "sha1_aux s2 = sha1_aux s1" by auto
  ultimately show ?case
    using sha1_fed_offset [OF Suc.prems(1)] by (subst sha1_pad_loop.simps) simp
qed

lemma be_bytes_8:
  "be_bytes 8 w = [ucast (drop_bit 56 w), ucast (drop_bit 48 w), ucast (drop_bit 40 w), ucast (drop_bit 32 w),
                   ucast (drop_bit 24 w), ucast (drop_bit 16 w), ucast (drop_bit 8 w), ucast w]"
  by (simp add: be_bytes_def le_bytes_def upt_rec)

lemma shift_bytes:
  fixes c :: u32
  defines "w \<equiv> push_bit 3 (ucast c) :: u64"
  shows "ucast (drop_bit 56 w) = (0 :: u8)" "ucast (drop_bit 48 w) = (0 :: u8)" "ucast (drop_bit 40 w) = (0 :: u8)"
    "ucast (drop_bit 32 w) = (ucast (drop_bit 29 c) :: u8)" "ucast (drop_bit 24 w) = (ucast (drop_bit 21 c) :: u8)"
    "ucast (drop_bit 16 w) = (ucast (drop_bit 13 c) :: u8)" "ucast (drop_bit 8 w) = (ucast (drop_bit 5 c) :: u8)"
    "ucast w = (ucast (push_bit 3 c) :: u8)"
  unfolding w_def by (rule bit_word_eqI, auto simp: bit_simps dest: bit_imp_le_length)+

lemma length_bytes:
  assumes "n < 2 ^ 32"
  shows "be_bytes 8 (word_of_nat (8 * n) :: u64) =
    (let c = word_of_nat n :: u32 in
     [0, 0, 0, ucast (drop_bit 29 c), ucast (drop_bit 21 c), ucast (drop_bit 13 c), ucast (drop_bit 5 c),
      ucast (push_bit 3 c)])"
proof -
  have "ucast (word_of_nat n :: u32) = (word_of_nat n :: u64)"
    using assms by (intro unsigned_word_eqI [where ?'a = nat]) (simp add: unsigned_ucast_eq unsigned_of_nat take_bit_nat_eq_self)
  then have "(word_of_nat (8 * n) :: u64) = push_bit 3 (ucast (word_of_nat n :: u32))"
    by (simp add: push_bit_eq_mult)
  then show ?thesis by (simp only: be_bytes_8 shift_bytes Let_def)
qed

lemma sha1_add_count: "sha1_addUncounted s x = Some s' \<Longrightarrow> byteCount s' = byteCount s"
  by (auto simp: sha1_addUncounted_def Let_def sha1_hashBlock_def split: Option.bind_splits prod.splits)

lemma add_all_step:
  "byteCount s = c \<Longrightarrow> x' = x \<Longrightarrow> (\<And>s'. byteCount s' = c \<Longrightarrow> f s' = add_all s' xs)
     \<Longrightarrow> Option.bind (sha1_addUncounted s x') f = add_all s (x # xs)"
  by (auto dest: sha1_add_count split: Option.bind_splits)

lemma add_all_last: "x' = x \<Longrightarrow> sha1_addUncounted s x' = add_all s [x]"
  by simp

lemma sha1_pad_fed:
  assumes "sha1_fed s m" and "byteCount s = word_of_nat (length m)" and "length m < 2 ^ 32"
  shows "\<exists>s'. sha1_pad s = Some s' \<and> sha1_fed s' (fips_pad m) \<and> sha1_aux s' = sha1_aux s"
proof -
  let ?k = "(55 + 64 - length m mod 64) mod 64"
  from sha1_add_fed [OF assms(1), of "0x80"] obtain s1 where
    s1: "sha1_addUncounted s 0x80 = Some s1" "sha1_fed s1 (m @ [0x80])" "sha1_aux s1 = sha1_aux s" by blast
  define r where "r = length m mod 64"
  have "r + (119 - r) = 119" using mod_less_divisor [of 64 "length m"] by (simp add: r_def)
  then have "(length m + (119 - r)) mod 64 = 119 mod 64"
    by (metis mod_add_left_eq r_def)
  then have "(length m + (119 - r) mod 64) mod 64 = 55" by (simp add: mod_add_right_eq)
  then have "(length (m @ [0x80]) + ?k) mod 64 = 56" by (simp add: r_def mod_Suc)
  with sha1_pad_loop_fed [OF s1(2), of ?k] obtain s2 where
    s2: "sha1_pad_loop s1 = Some s2" "sha1_fed s2 ((m @ [0x80]) @ replicate ?k 0)" "sha1_aux s2 = sha1_aux s1" by auto
  let ?c = "word_of_nat (length m) :: u32"
  let ?tail = "[0, 0, 0, ucast (drop_bit 29 ?c), ucast (drop_bit 21 ?c), ucast (drop_bit 13 ?c),
                ucast (drop_bit 5 ?c), ucast (push_bit 3 ?c)] :: u8 list"
  have c: "byteCount s2 = ?c" using s1(3) s2(3) assms(2) by (simp add: sha1_aux_def)
  have "sha1_pad s = add_all s2 ?tail"
    unfolding sha1_pad_def s1(1) s2(1) Option.bind.bind_lunit
    by (intro add_all_step [where c = ?c] add_all_last) (simp_all add: c)
  moreover have "fips_pad m = (m @ [0x80] @ replicate ?k 0) @ ?tail"
    using length_bytes [OF assms(3)] by (simp add: fips_pad_def Let_def)
  ultimately show ?thesis using sha1_add_all_fed [OF s2(2), of ?tail] s1(3) s2(3) by simp
qed


lemma le_bytes_swap32: "le_bytes 4 (sha1_swap32 w) = be_bytes 4 w"
proof -
  have l: "le_bytes 4 (v :: u32) = [ucast v, ucast (drop_bit 8 v), ucast (drop_bit 16 v), ucast (drop_bit 24 v)]" for v
    by (simp add: le_bytes_def upt_rec)
  have m: "(0xff000000 :: u32) = push_bit 24 (mask 8)" "(0x00ff0000 :: u32) = push_bit 16 (mask 8)"
     "(0x0000ff00 :: u32) = push_bit 8 (mask 8)" "(0x000000ff :: u32) = mask 8"
    by (simp_all add: mask_eq_exp_minus_1)
  have b: "ucast (sha1_swap32 w) = (ucast (drop_bit 24 w) :: u8)"
     "ucast (drop_bit 8 (sha1_swap32 w)) = (ucast (drop_bit 16 w) :: u8)"
     "ucast (drop_bit 16 (sha1_swap32 w)) = (ucast (drop_bit 8 w) :: u8)"
     "ucast (drop_bit 24 (sha1_swap32 w)) = (ucast w :: u8)"
    unfolding sha1_swap32_def m by (rule bit_word_eqI, auto simp: bit_simps)+
  show ?thesis by (simp add: be_bytes_def l b)
qed

lemma length_fips_sha1: "length (fips_sha1 m) = 20"
  using length_fips_state [of fips_H0 "fips_pad m"]
  by (simp add: fips_sha1_def fips_H0_def be_bytes_def length_concat sum_list_triv o_def)

lemma sha1_result_fed:
  assumes "sha1_fed s m" and "byteCount s = word_of_nat (length m)" and "length m < 2 ^ 32"
  shows "\<exists>s'. sha1_result s = Some (fips_sha1 m, s') \<and> length (sha1_buffer s') = 16
           \<and> keyBuffer s' = keyBuffer s \<and> innerHash s' = innerHash s"
proof -
  from sha1_pad_fed [OF assms] obtain s' where
    s': "sha1_pad s = Some s'" "sha1_fed s' (fips_pad m)" "sha1_aux s' = sha1_aux s" by blast
  then show ?thesis
    by (simp add: sha1_result_def sha1_fed_def fips_sha1_def sha1_aux_def le_bytes_swap32 o_def)
qed

lemma sha1_of_init:
  assumes "length (sha1_buffer s) = 16" and "length m < 2 ^ 32"
  shows "\<exists>s1 s2. sha1_write (sha1_init s) m = Some s1 \<and> sha1_result s1 = Some (fips_sha1 m, s2)
           \<and> sha1_fed s1 m \<and> byteCount s1 = word_of_nat (length m) \<and> length (sha1_buffer s2) = 16
           \<and> keyBuffer s1 = keyBuffer s \<and> keyBuffer s2 = keyBuffer s \<and> innerHash s2 = innerHash s"
proof -
  from sha1_write_fed [OF sha1_fed_init [OF assms(1)], of m] obtain s1 where
    s1: "sha1_write (sha1_init s) m = Some s1" "sha1_fed s1 m" "byteCount s1 = word_of_nat (length m)"
      "keyBuffer s1 = keyBuffer s" "innerHash s1 = innerHash s"
    by (auto simp: sha1_init_def)
  with sha1_result_fed [OF s1(2,3) assms(2)] show ?thesis by auto
qed

lemma length_hmac_key: "length (hmac_key key) = 64"
  by (simp add: hmac_key_def Let_def length_fips_sha1)

lemma sha1_initHmac_fed:
  assumes "length (sha1_buffer s0) = 16" and "length key < 2 ^ 31"
  shows "\<exists>s1. sha1_initHmac s0 key = Some s1 \<and> sha1_fed s1 (map (\<lambda>k. k XOR 0x36) (hmac_key key))
           \<and> byteCount s1 = 64 \<and> keyBuffer s1 = hmac_key key"
proof -
  let ?s = "s0\<lparr>keyBuffer := replicate BLOCK_LENGTH 0\<rparr>"
  have start: "\<exists>s1. sha1_write (sha1_init s) (map (\<lambda>k. k XOR HMAC_IPAD) (keyBuffer (sha1_init s))) = Some s1
      \<and> sha1_fed s1 (map (\<lambda>k. k XOR 0x36) (hmac_key key)) \<and> byteCount s1 = 64 \<and> keyBuffer s1 = hmac_key key"
    if "length (sha1_buffer s) = 16" "keyBuffer s = hmac_key key" for s
    using sha1_write_fed [OF sha1_fed_init [OF that(1)], of "map (\<lambda>k. k XOR 0x36) (hmac_key key)"] that(2)
    by (auto simp: sha1_init_def HMAC_IPAD_def length_hmac_key)
  show ?thesis
  proof (cases "length key > 64")
    case True
    have "length (sha1_buffer ?s) = 16" "length key < 2 ^ 32" using assms by simp_all
    from sha1_of_init [OF this] obtain s1 s2 where s12: "sha1_write (sha1_init ?s) key = Some s1"
        "sha1_result s1 = Some (fips_sha1 key, s2)" "length (sha1_buffer s2) = 16" "keyBuffer s2 = keyBuffer ?s" by blast
    let ?s2 = "s2\<lparr>keyBuffer := take HASH_LENGTH (fips_sha1 key) @ drop HASH_LENGTH (keyBuffer s2)\<rparr>"
    have "keyBuffer ?s2 = hmac_key key"
      using s12(4) True by (simp add: hmac_key_def length_fips_sha1 HASH_LENGTH_def BLOCK_LENGTH_def)
    with start [of ?s2] s12 True show ?thesis
      by (simp add: sha1_initHmac_def BLOCK_LENGTH_def Let_def)
  next
    case False
    let ?s2 = "s0\<lparr>keyBuffer := key @ drop (length key) (replicate BLOCK_LENGTH 0)\<rparr>"
    have "keyBuffer ?s2 = hmac_key key"
      using False by (simp add: hmac_key_def BLOCK_LENGTH_def)
    with start [of ?s2] assms False show ?thesis
      by (simp add: sha1_initHmac_def BLOCK_LENGTH_def Let_def)
  qed
qed

lemma sha1_resultHmac_fed:
  assumes "sha1_fed s m" and "byteCount s = word_of_nat (length m)" and "length m < 2 ^ 32"
    and "length (keyBuffer s) = 64"
  shows "\<exists>s'. sha1_resultHmac s = Some (fips_sha1 (map (\<lambda>k. k XOR 0x5c) (keyBuffer s) @ fips_sha1 m), s')"
proof -
  let ?o = "map (\<lambda>k. k XOR 0x5c) (keyBuffer s)"
  from sha1_result_fed [OF assms(1-3)] obtain s1 where
    s1: "sha1_result s = Some (fips_sha1 m, s1)" "length (sha1_buffer s1) = 16" "keyBuffer s1 = keyBuffer s" by blast
  let ?s1 = "sha1_init (s1\<lparr>innerHash := fips_sha1 m\<rparr>)"
  have "length (sha1_buffer (s1\<lparr>innerHash := fips_sha1 m\<rparr>)) = 16" using s1(2) by simp
  from sha1_write_fed [OF sha1_fed_init [OF this], of ?o] obtain s2 where
    s2: "sha1_write ?s1 ?o = Some s2" "sha1_fed s2 ?o" "byteCount s2 = 64" "innerHash s2 = fips_sha1 m"
    using assms(4) by (auto simp: sha1_init_def)
  from sha1_write_fed [OF s2(2), of "fips_sha1 m"] obtain s3 where
    s3: "sha1_write s2 (fips_sha1 m) = Some s3" "sha1_fed s3 (?o @ fips_sha1 m)" "byteCount s3 = 84"
    using s2(3) by (auto simp: length_fips_sha1)
  have "byteCount s3 = word_of_nat (length (?o @ fips_sha1 m))" "length (?o @ fips_sha1 m) < 2 ^ 32"
    using s3(3) assms(4) by (simp_all add: length_fips_sha1)
  from sha1_result_fed [OF s3(2) this] obtain s4 where "sha1_result s3 = Some (fips_sha1 (?o @ fips_sha1 m), s4)" by blast
  moreover have "keyBuffer ?s1 = keyBuffer s" using s1(3) by (simp add: sha1_init_def)
  ultimately show ?thesis
    using s1(1) s2(1,4) s3(1) length_fips_sha1 [of m]
    by (simp add: sha1_resultHmac_def HASH_LENGTH_def HMAC_OPAD_def Let_def)
qed

section \<open>Properties\<close>

text \<open>C8. For every message shorter than 2^32 bytes and whatever the uninitialised context held, \<open>sha1\<close> never leaves
  its buffer, its padding loop ends, and the digest is the FIPS 180 digest of the message: 20 bytes, printed by
  \<open>sha1_hex\<close> as 40 characters.\<close>

theorem sha1_correct:
  assumes "length (sha1_buffer s0) = 16" and "length data < 2 ^ 32"
  shows "sha1 s0 data = Some (fips_sha1 data) \<and> length (fips_sha1 data) = 20
         \<and> sha1_hex s0 data = Some (concat (map print_02x (fips_sha1 data)))
         \<and> length (concat (map print_02x (fips_sha1 data))) = 40"
proof -
  have "sha1 s0 data = Some (fips_sha1 data)"
    using sha1_of_init [OF assms] length_fips_sha1 [of data] by (auto simp: sha1_def HASH_LENGTH_def)
  then show ?thesis
    using length_fips_sha1 [of data]
    by (simp add: sha1_hex_def print_02x_def length_concat sum_list_triv o_def)
qed

theorem sha1_correct_witness:
  "sha1 \<lparr>sha1_buffer = replicate 16 7, sha1_state = [], byteCount = 9, bufferOffset = 200, keyBuffer = [], innerHash = []\<rparr>
     [0x61, 0x62, 0x63] = Some (fips_sha1 [0x61, 0x62, 0x63])"
  using sha1_correct [of "\<lparr>sha1_buffer = replicate 16 7, sha1_state = [], byteCount = 9, bufferOffset = 200,
    keyBuffer = [], innerHash = []\<rparr>" "[0x61, 0x62, 0x63]"] by simp

text \<open>Writing a message between \<open>sha1_initHmac\<close> and \<open>sha1_resultHmac\<close> yields the RFC 2104 HMAC of
  the message under the key, for keys shorter and longer than a block.\<close>

theorem sha1_hmac_correct:
  assumes "length (sha1_buffer s0) = 16" and "length data + 64 < 2 ^ 32" and "length key < 2 ^ 31"
  shows "\<exists>s1 s2 s3. sha1_initHmac s0 key = Some s1 \<and> sha1_write s1 data = Some s2
           \<and> sha1_resultHmac s2 = Some (hmac_sha1 key data, s3)"
proof -
  from sha1_initHmac_fed [OF assms(1,3)] obtain s1 where
    s1: "sha1_initHmac s0 key = Some s1" "sha1_fed s1 (map (\<lambda>k. k XOR 0x36) (hmac_key key))"
      "byteCount s1 = 64" "keyBuffer s1 = hmac_key key" by blast
  from sha1_write_fed [OF s1(2), of data] obtain s2 where
    s2: "sha1_write s1 data = Some s2" "sha1_fed s2 (map (\<lambda>k. k XOR 0x36) (hmac_key key) @ data)"
      "byteCount s2 = 64 + word_of_nat (length data)" "keyBuffer s2 = hmac_key key"
    using s1 by auto
  from sha1_resultHmac_fed [OF s2(2)] s2 assms(2) show ?thesis
    using s1(1) by (auto simp: length_hmac_key hmac_sha1_def)
qed

theorem sha1_hmac_witness:
  "\<exists>s1 s2 s3. sha1_initHmac \<lparr>sha1_buffer = replicate 16 7, sha1_state = [], byteCount = 9, bufferOffset = 200,
        keyBuffer = [], innerHash = []\<rparr> [1, 2, 3] = Some s1
     \<and> sha1_write s1 [0x61, 0x62] = Some s2 \<and> sha1_resultHmac s2 = Some (hmac_sha1 [1, 2, 3] [0x61, 0x62], s3)"
  by (rule sha1_hmac_correct) simp_all

end
