(* ===== verification/Extras.thy ===== *)
theory Extras
  imports Prelude
begin

text \<open>
  The dictionaries (\<^verbatim>\<open>src/afl-fuzz-extras.c\<close>): the parser of dictionary lines, the user dictionary
  \<open>extras\<close> (sorted by length, without duplicates) and the automatic dictionary \<open>a_extras\<close> (the most used
  tokens first, its top part sorted by length). A C string is the list of its bytes before the terminating zero and a
  pointer into it is the list of the bytes from there on. \<open>qsort\<close> is an argument with the laws of \<open>c_qsort\<close>;
  the file system is an argument. Token lengths are natural numbers, use counts are \<open>u32\<close>.
\<close>

section \<open>Character classes and integer tables\<close>

definition isspace :: "u8 \<Rightarrow> bool" where
  "isspace c \<longleftrightarrow> c = 32 \<or> 9 \<le> c \<and> c \<le> 13"

definition isdigit :: "u8 \<Rightarrow> bool" where
  "isdigit c \<longleftrightarrow> 48 \<le> c \<and> c \<le> 57"

definition isalnum :: "u8 \<Rightarrow> bool" where
  "isalnum c \<longleftrightarrow> isdigit c \<or> 65 \<le> c \<and> c \<le> 90 \<or> 97 \<le> c \<and> c \<le> 122"

definition isxdigit :: "u8 \<Rightarrow> bool" where
  "isxdigit c \<longleftrightarrow> isdigit c \<or> 65 \<le> c \<and> c \<le> 70 \<or> 97 \<le> c \<and> c \<le> 102"

definition tolower :: "u8 \<Rightarrow> u8" where
  "tolower c = (if 65 \<le> c \<and> c \<le> 90 then c + 32 else c)"

text \<open>\<open>strchr(hexdigits, tolower(c)) - hexdigits\<close> for a hexadecimal digit\<close>

definition hexval :: "u8 \<Rightarrow> u8" where
  "hexval c = (if isdigit c then c - 48 else tolower c - 97 + 10)"

definition interesting_8 :: "int list" where
  "interesting_8 = [-128, -1, 0, 1, 16, 32, 64, 100, 127]"

definition interesting_16 :: "int list" where
  "interesting_16 = interesting_8 @ [-32768, -129, 128, 255, 256, 512, 1000, 1024, 4096, 32767]"

definition interesting_32 :: "int list" where
  "interesting_32 = interesting_16 @ [-2147483648, -100663046, -32769, 32768, 65535, 65536, 100663045,
                                      2139095040, 2147483647]"

definition SWAP16 :: "u16 \<Rightarrow> u16" where
  "SWAP16 x = push_bit 8 x OR drop_bit 8 x"

definition SWAP32 :: "u32 \<Rightarrow> u32" where
  "SWAP32 x = push_bit 24 x OR drop_bit 24 x OR (push_bit 8 x AND 0x00FF0000) OR (drop_bit 8 x AND 0x0000FF00)"

section \<open>Dictionary lines\<close>

datatype line =
    Skipped
  | Malformed
  | Empty_keyword
  | Above_level
  | Overflow
  | Token mem

definition MAX_DICT_FILE :: nat where "MAX_DICT_FILE = 128"

text \<open>\<open>atoi\<close>: leading white space, an optional sign, digits.\<close>

definition atoi_digits :: "u8 list \<Rightarrow> int" where
  "atoi_digits s = foldl (\<lambda>n c. 10 * n + (uint c - 48)) 0 (takeWhile isdigit s)"

definition atoi :: "u8 list \<Rightarrow> int" where
  "atoi s = (case dropWhile isspace s of
               [] \<Rightarrow> 0
             | c # cs \<Rightarrow> if c = 45 then - atoi_digits cs else if c = 43 then atoi_digits cs else atoi_digits (c # cs))"

text \<open>The loop that copies the text between the quotes to the buffer of \<open>rptr - lptr\<close> bytes; a write behind its end
  is \<open>None\<close>. The result is the buffer and \<open>klen\<close>.\<close>

fun copy_token :: "u8 list \<Rightarrow> mem \<Rightarrow> nat \<Rightarrow> (mem \<times> nat) option" where
  "copy_token [] w klen = Some (w, klen)"
| "copy_token (c # cs) w klen =
     (if 1 \<le> c \<and> c \<le> 31 \<or> 128 \<le> c then copy_token cs w klen
      else if c = 92
      then (case cs of
              [] \<Rightarrow> Some (w, klen)
            | d # ds \<Rightarrow>
                if d = 92 \<or> d = 34
                then do { w \<leftarrow> store8 w klen d; copy_token ds w (Suc klen) }
                else (case ds of
                        a # b # es \<Rightarrow>
                          if d = 120 \<and> isxdigit a \<and> isxdigit b
                          then do { w \<leftarrow> store8 w klen (push_bit 4 (hexval a) OR hexval b); copy_token es w (Suc klen) }
                          else copy_token cs w klen
                      | _ \<Rightarrow> copy_token cs w klen))
      else do { w \<leftarrow> store8 w klen c; copy_token cs w (Suc klen) })"

definition trim :: "u8 list \<Rightarrow> u8 list" where
  "trim s = rev (dropWhile isspace (rev (dropWhile isspace s)))"

text \<open>\<open>@number\<close> after the label, then \<open>[number]\<close>\<close>

definition skip_level :: "int \<Rightarrow> u8 list \<Rightarrow> u8 list option" where
  "skip_level dict_level s =
     (case s of
        [] \<Rightarrow> Some s
      | c # cs \<Rightarrow> if c = 64 then (if atoi cs > dict_level then None else Some (dropWhile isdigit cs)) else Some s)"

definition skip_index :: "u8 list \<Rightarrow> u8 list" where
  "skip_index s =
     (case s of
        [] \<Rightarrow> s
      | c # cs \<Rightarrow> if c = 91 then (case dropWhile isdigit cs of d # ds \<Rightarrow> if d = 93 then ds else d # ds | [] \<Rightarrow> []) else s)"

definition parse_keyword :: "u8 list \<Rightarrow> line" where
  "parse_keyword s =
     (case dropWhile (\<lambda>c. isspace c \<or> c = 61) s of
        [] \<Rightarrow> Malformed
      | c # cs \<Rightarrow>
          if c \<noteq> 34 then Malformed
          else if cs = [] then Empty_keyword
          else (case copy_token cs (replicate (length cs) 0) 0 of
                  None \<Rightarrow> Overflow
                | Some (w, klen) \<Rightarrow> Token (take klen w)))"

definition parse_line :: "int \<Rightarrow> u8 list \<Rightarrow> line" where
  "parse_line dict_level s =
     (let s = trim s
      in if s = [] \<or> hd s = 35 then Skipped
         else if last s \<noteq> 34 then Malformed
         else (case skip_level dict_level (dropWhile (\<lambda>c. isalnum c \<or> c = 95) (butlast s)) of
                 None \<Rightarrow> Above_level
               | Some s \<Rightarrow> parse_keyword (skip_index s)))"

section \<open>The user dictionary\<close>

record extra_data =
  ex_data :: mem
  ex_len :: nat

record auto_extra_data =
  ae_data :: mem
  ae_len :: nat
  ae_hit_cnt :: u32

record afl_extras =
  extras :: "extra_data list"
  a_extras :: "auto_extra_data list"
  auto_changed :: bool

definition compare_auto_extras_len :: "auto_extra_data \<Rightarrow> auto_extra_data \<Rightarrow> int" where
  "compare_auto_extras_len a b = int (ae_len a) - int (ae_len b)"

definition compare_auto_extras_use_d :: "auto_extra_data \<Rightarrow> auto_extra_data \<Rightarrow> int" where
  "compare_auto_extras_use_d a b = sint (ae_hit_cnt b - ae_hit_cnt a)"

definition compare_extras_len :: "extra_data \<Rightarrow> extra_data \<Rightarrow> int" where
  "compare_extras_len a b = int (ex_len a) - int (ex_len b)"

definition mk_extra :: "mem \<Rightarrow> extra_data" where
  "mk_extra m = \<lparr>ex_data = m, ex_len = length m\<rparr>"

text \<open>\<open>load_extras_file\<close> on the lines \<open>fgets\<close> returns; the dictionary with the running minimum and maximum.\<close>

fun load_extras_file ::
  "int \<Rightarrow> u8 list list \<Rightarrow> extra_data list \<times> nat \<times> nat \<Rightarrow> (extra_data list \<times> nat \<times> nat) option" where
  "load_extras_file dict_level [] st = Some st"
| "load_extras_file dict_level (l # ls) (ex, min_len, max_len) =
     (case parse_line dict_level l of
        Overflow \<Rightarrow> None
      | Token t \<Rightarrow>
          if length t > MAX_DICT_FILE then load_extras_file dict_level ls (ex, min_len, max_len)
          else load_extras_file dict_level ls (ex @ [mk_extra t], min min_len (length t), max max_len (length t))
      | _ \<Rightarrow> load_extras_file dict_level ls (ex, min_len, max_len))"

type_synonym 'a qsort = "('a \<Rightarrow> 'a \<Rightarrow> int) \<Rightarrow> 'a list \<Rightarrow> 'a list"

definition extras_check_and_sort :: "extra_data qsort \<Rightarrow> extra_data list \<Rightarrow> extra_data list" where
  "extras_check_and_sort qs ex = (if ex = [] then ex else qs compare_extras_len ex)"

text \<open>A path names a directory (its regular and other entries), a file (its lines), or nothing.\<close>

datatype dict_entry = Regular mem | Other

datatype dict_path = Directory "dict_entry list" | File "u8 list list" | Missing

fun load_extras_dir :: "dict_entry list \<Rightarrow> extra_data list \<Rightarrow> extra_data list" where
  "load_extras_dir [] ex = ex"
| "load_extras_dir (Other # ds) ex = load_extras_dir ds ex"
| "load_extras_dir (Regular content # ds) ex =
     (if content = [] \<or> length content > MAX_DICT_FILE then load_extras_dir ds ex
      else load_extras_dir ds (ex @ [mk_extra content]))"

definition load_extras ::
  "extra_data qsort \<Rightarrow> (u8 list \<Rightarrow> dict_path) \<Rightarrow> u8 list \<Rightarrow> extra_data list \<Rightarrow> extra_data list option" where
  "load_extras qs fs dir ex =
     (let name = takeWhile (\<lambda>c. c \<noteq> 64) dir;
          has_level = (64 \<in> set dir);
          dict_level = (if has_level then atoi (tl (dropWhile (\<lambda>c. c \<noteq> 64) dir)) else 0)
      in case fs name of
           Missing \<Rightarrow> None
         | File ls \<Rightarrow>
             map_option (\<lambda>(ex, min_len, max_len). extras_check_and_sort qs ex)
               (load_extras_file dict_level ls (ex, MAX_DICT_FILE, 0))
         | Directory ds \<Rightarrow> if has_level then None else Some (extras_check_and_sort qs (load_extras_dir ds ex)))"

fun memcmp_nocase :: "mem \<Rightarrow> mem \<Rightarrow> nat \<Rightarrow> bool" where
  "memcmp_nocase m1 m2 0 = False"
| "memcmp_nocase m1 m2 (Suc len) =
     (if tolower (hd m1) XOR tolower (hd m2) \<noteq> 0 then True else memcmp_nocase (tl m1) (tl m2) len)"

definition add_extra_nocheck :: "mem \<Rightarrow> extra_data list \<Rightarrow> extra_data list" where
  "add_extra_nocheck m ex = ex @ [mk_extra m]"

text \<open>The bytes of a list at the positions selected by \<open>P\<close>.\<close>

definition pick :: "(nat \<Rightarrow> bool) \<Rightarrow> mem \<Rightarrow> mem" where
  "pick P m = map ((!) m) (filter P [0..<length m])"

definition count_zero :: "(nat \<Rightarrow> bool) \<Rightarrow> mem \<Rightarrow> nat" where
  "count_zero P m = length (filter (\<lambda>j. m ! j = 0) (filter P [0..<length m]))"

text \<open>The tokens \<open>deunicode_extras\<close> derives from one token.\<close>

definition deunicode :: "mem \<Rightarrow> mem list" where
  "deunicode m =
     (let n = length m; half = n div 2; quarter = half div 2;
          z1 = count_zero (\<lambda>j. j mod 4 = 2 \<or> j mod 4 = 0) m;
          z2 = count_zero (\<lambda>j. j mod 4 = 3 \<or> j mod 4 = 1) m;
          z3 = count_zero (\<lambda>j. j mod 4 = 2) m;
          z4 = count_zero (\<lambda>j. j mod 4 = 3) m
      in if n < 6 \<or> n > 64 \<or> n mod 2 \<noteq> 0 then []
         else if (z1 < half \<and> z2 < half) \<or> z1 + z2 = n then []
         else (if n mod 4 = 0 \<and> n \<ge> 12 \<and> (z3 = quarter \<or> z4 = quarter) \<and> z1 + z2 = quarter * 3
               then [if z4 < quarter then pick (\<lambda>j. j mod 4 = 3) m
                     else if z3 < quarter then pick (\<lambda>j. j mod 4 = 2) m
                     else if z2 < half then pick (\<lambda>j. j mod 4 = 1) m
                     else pick (\<lambda>j. j mod 4 = 0) m]
               else [])
              @ [if z1 < half then pick (\<lambda>j. j mod 2 = 0) m else pick (\<lambda>j. j mod 2 = 1) m])"

definition deunicode_extras :: "extra_data qsort \<Rightarrow> extra_data list \<Rightarrow> extra_data list" where
  "deunicode_extras qs ex =
     (if ex = [] then ex
      else qs compare_extras_len
             (foldl (\<lambda>acc e. foldl (\<lambda>acc t. add_extra_nocheck t acc) acc (deunicode (take (ex_len e) (ex_data e)))) ex ex))"

text \<open>The inner loop of \<open>dedup_extras\<close>, with its \<open>goto restart_dedup\<close>.\<close>

function dedup_inner :: "nat \<Rightarrow> nat \<Rightarrow> extra_data list \<Rightarrow> extra_data list" where
  "dedup_inner i j ex =
     (if j \<ge> length ex \<or> ex_len (ex ! i) \<noteq> ex_len (ex ! j) then ex
      else if take (ex_len (ex ! i)) (ex_data (ex ! i)) = take (ex_len (ex ! i)) (ex_data (ex ! j))
      then dedup_inner i j (take j ex @ drop (j + 1) ex)
      else dedup_inner i (j + 1) ex)"
  by pat_completeness auto
termination
  by (relation "measure (\<lambda>(i, j, ex). length ex - j)") auto

declare dedup_inner.simps [simp del]

lemma length_dedup_inner: "length (dedup_inner i j ex) \<le> length ex"
proof (induction i j ex rule: dedup_inner.induct)
  case (1 i j ex)
  then show ?case by (subst dedup_inner.simps) (auto intro: order_trans)
qed

function dedup_outer :: "nat \<Rightarrow> extra_data list \<Rightarrow> extra_data list" where
  "dedup_outer i ex = (if i < length ex - 1 then dedup_outer (i + 1) (dedup_inner i (i + 1) ex) else ex)"
  by pat_completeness auto
termination
proof (relation "measure (\<lambda>(i, ex). length ex - i)")
  fix i :: nat and ex :: "extra_data list"
  assume "i < length ex - 1"
  then show "((i + 1, dedup_inner i (i + 1) ex), (i, ex)) \<in> measure (\<lambda>(i, ex). length ex - i)"
    using length_dedup_inner [of i "i + 1" ex] by simp
qed simp

declare dedup_outer.simps [simp del]

definition dedup_extras :: "extra_data list \<Rightarrow> extra_data list" where
  "dedup_extras ex = (if length ex < 2 then ex else dedup_outer 0 ex)"

text \<open>The search of \<open>add_extra\<close>: it stops at a duplicate (true) or behind the tokens of the same length.\<close>

fun extra_known :: "mem \<Rightarrow> bool \<Rightarrow> extra_data list \<Rightarrow> bool" where
  "extra_known m found [] = False"
| "extra_known m found (e # es) =
     (if ex_len e = length m then (if take (length m) (ex_data e) = m then True else extra_known m True es)
      else if found then False else extra_known m found es)"

definition add_extra :: "extra_data qsort \<Rightarrow> mem \<Rightarrow> extra_data list \<Rightarrow> extra_data list" where
  "add_extra qs m ex =
     (if extra_known m False ex then ex
      else if length m > MAX_DICT_FILE then ex
      else qs compare_extras_len (add_extra_nocheck m ex))"

section \<open>The automatic dictionary\<close>

definition MIN_AUTO_EXTRA :: nat where "MIN_AUTO_EXTRA = 3"
definition MAX_AUTO_EXTRA :: nat where "MAX_AUTO_EXTRA = 32"
definition USE_AUTO_EXTRAS :: nat where "USE_AUTO_EXTRAS = 4096"
definition MAX_AUTO_EXTRAS :: nat where "MAX_AUTO_EXTRAS = USE_AUTO_EXTRAS * 8"

definition one_byte_run :: "mem \<Rightarrow> bool" where
  "one_byte_run m \<longleftrightarrow> m \<noteq> [] \<and> list_all (\<lambda>b. m ! 0 XOR b = 0) (tl m)"

text \<open>The comparisons with the built-in tables: the 16-bit one compares an unsigned with a signed value after C's
  promotion to \<open>int\<close>, the 32-bit one casts first.\<close>

definition builtin_16 :: "mem \<Rightarrow> bool" where
  "builtin_16 m = list_ex (\<lambda>v. uint (le_word m :: u16) = v \<or> le_word m = SWAP16 (word_of_int v)) interesting_16"

definition builtin_32 :: "mem \<Rightarrow> bool" where
  "builtin_32 m = list_ex (\<lambda>v. (le_word m :: u32) = word_of_int v \<or> le_word m = SWAP32 (word_of_int v)) interesting_32"

definition extras_match :: "extra_data list \<Rightarrow> mem \<Rightarrow> bool" where
  "extras_match ex m =
     list_ex (\<lambda>e. \<not> memcmp_nocase (ex_data e) m (length m))
       (takeWhile (\<lambda>e. ex_len e = length m) (dropWhile (\<lambda>e. ex_len e < length m) ex))"

definition auto_match :: "mem \<Rightarrow> auto_extra_data \<Rightarrow> bool" where
  "auto_match m a \<longleftrightarrow> ae_len a = length m \<and> \<not> memcmp_nocase (ae_data a) m (length m)"

fun bump_match :: "mem \<Rightarrow> auto_extra_data list \<Rightarrow> auto_extra_data list option" where
  "bump_match m [] = None"
| "bump_match m (a # as) =
     (if auto_match m a then Some (a\<lparr>ae_hit_cnt := ae_hit_cnt a + 1\<rparr> # as) else map_option ((#) a) (bump_match m as))"

definition sort_a_extras :: "auto_extra_data qsort \<Rightarrow> auto_extra_data list \<Rightarrow> auto_extra_data list" where
  "sort_a_extras qs as =
     (let as = qs compare_auto_extras_use_d as; k = min USE_AUTO_EXTRAS (length as)
      in qs compare_auto_extras_len (take k as) @ drop k as)"

definition mk_auto :: "mem \<Rightarrow> auto_extra_data \<Rightarrow> auto_extra_data" where
  "mk_auto m slot = slot\<lparr>ae_data := m @ drop (length m) (ae_data slot), ae_len := length m\<rparr>"

text \<open>A slot of the array that has not been used yet.\<close>

definition blank_auto :: auto_extra_data where
  "blank_auto = \<lparr>ae_data = replicate MAX_AUTO_EXTRA 0, ae_len = 0, ae_hit_cnt = 0\<rparr>"

text \<open>\<open>evict\<close> is the number that \<open>rand_below(afl, (MAX_AUTO_EXTRAS + 1) / 2)\<close> draws, which it reduces modulo its limit: the slot lies
  in the bottom half of the array.\<close>

definition evicted_slot :: "nat \<Rightarrow> nat" where
  "evicted_slot evict = MAX_AUTO_EXTRAS div 2 + evict mod ((MAX_AUTO_EXTRAS + 1) div 2)"

definition maybe_add_auto :: "auto_extra_data qsort \<Rightarrow> nat \<Rightarrow> mem \<Rightarrow> afl_extras \<Rightarrow> afl_extras" where
  "maybe_add_auto qs evict m s =
     (if one_byte_run m \<or> length m > MAX_AUTO_EXTRA then s
      else if length m = 2 \<and> builtin_16 m then s
      else if length m = 4 \<and> builtin_32 m then s
      else if extras_match (extras s) m then s
      else
        let s = s\<lparr>auto_changed := True\<rparr>;
            as = a_extras s;
            as = (case bump_match m as of
                    Some as' \<Rightarrow> as'
                  | None \<Rightarrow>
                      if length as < MAX_AUTO_EXTRAS then as @ [mk_auto m blank_auto]
                      else let i = evicted_slot evict
                           in as[i := (mk_auto m (as ! i))\<lparr>ae_hit_cnt := 0\<rparr>])
        in s\<lparr>a_extras := sort_a_extras qs as\<rparr>)"

text \<open>The files \<open>auto_000000\<close>, \<open>auto_000001\<close>, \<dots> under \<open>auto_extras\<close>, by number.\<close>

definition save_auto :: "afl_extras \<Rightarrow> (nat \<Rightarrow> mem option) \<Rightarrow> afl_extras \<times> (nat \<Rightarrow> mem option)" where
  "save_auto s fs =
     (if \<not> auto_changed s then (s, fs)
      else (s\<lparr>auto_changed := False\<rparr>,
            \<lambda>i. if i < min USE_AUTO_EXTRAS (length (a_extras s))
                then Some (take (ae_len (a_extras s ! i)) (ae_data (a_extras s ! i))) else fs i))"

text \<open>\<open>load_auto\<close> reads the files in order up to the first missing one; the result also says how many there were.\<close>

fun load_auto_from ::
  "auto_extra_data qsort \<Rightarrow> (nat \<Rightarrow> nat) \<Rightarrow> (nat \<Rightarrow> mem option) \<Rightarrow> nat list \<Rightarrow> afl_extras \<Rightarrow> nat \<Rightarrow> afl_extras \<times> nat" where
  "load_auto_from qs evict fs [] s n = (s, n)"
| "load_auto_from qs evict fs (i # is) s n =
     (case fs i of
        None \<Rightarrow> (s, n)
      | Some content \<Rightarrow>
          let t = take (MAX_AUTO_EXTRA + 1) content
          in load_auto_from qs evict fs is
               (if length t \<ge> MIN_AUTO_EXTRA \<and> length t \<le> MAX_AUTO_EXTRA then maybe_add_auto qs (evict i) t s else s)
               (Suc n))"

definition load_auto ::
  "auto_extra_data qsort \<Rightarrow> (nat \<Rightarrow> nat) \<Rightarrow> (nat \<Rightarrow> mem option) \<Rightarrow> afl_extras \<Rightarrow> afl_extras \<times> nat" where
  "load_auto qs evict fs s = load_auto_from qs evict fs [0..<USE_AUTO_EXTRAS] s 0"


section \<open>Parsing is safe and inverts escaping\<close>

text \<open>What the copying loop means, without the buffer.\<close>

fun unescape :: "u8 list \<Rightarrow> u8 list" where
  "unescape [] = []"
| "unescape (c # cs) =
     (if 1 \<le> c \<and> c \<le> 31 \<or> 128 \<le> c then unescape cs
      else if c = 92
      then (case cs of
              [] \<Rightarrow> []
            | d # ds \<Rightarrow>
                if d = 92 \<or> d = 34 then d # unescape ds
                else (case ds of
                        a # b # es \<Rightarrow>
                          if d = 120 \<and> isxdigit a \<and> isxdigit b then (push_bit 4 (hexval a) OR hexval b) # unescape es
                          else unescape cs
                      | _ \<Rightarrow> unescape cs))
      else c # unescape cs)"

definition copies :: "mem \<Rightarrow> nat \<Rightarrow> u8 list \<Rightarrow> (mem \<times> nat) option \<Rightarrow> bool" where
  "copies w klen t r \<longleftrightarrow> (\<exists>w'. r = Some (w', klen + length t) \<and> length w' = length w \<and> take (klen + length t) w' = take klen w @ t)"

lemma copies_put:
  assumes "klen < length w" and "copies (w[klen := v]) (Suc klen) t r"
  shows "copies w klen (v # t) r"
  using assms by (auto simp: copies_def take_Suc_conv_app_nth)

lemma copy_token_copies: "klen + length s \<le> length w \<Longrightarrow> copies w klen (unescape s) (copy_token s w klen)"
proof (induction "length s" arbitrary: s w klen rule: less_induct)
  case less
  show ?case
  proof (cases s)
    case Nil
    then show ?thesis by (simp add: copies_def)
  next
    case (Cons c cs)
    have room: "klen < length w" using less.prems Cons by simp
    have IH: "copies w' k (unescape t) (copy_token t w' k)" if "length t \<le> length cs" "k + length t \<le> length w'" for t w' k
      using less.hyps [of t k w'] that Cons by simp
    consider (skip) "1 \<le> c \<and> c \<le> 31 \<or> 128 \<le> c" | (plain) "\<not> (1 \<le> c \<and> c \<le> 31 \<or> 128 \<le> c)" "c \<noteq> 92"
      | (esc) "c = 92" by blast
    then show ?thesis
    proof cases
      case skip
      then show ?thesis using IH [of cs klen w] less.prems Cons by simp
    next
      case plain
      then show ?thesis using IH [of cs "Suc klen" "w[klen := c]"] room less.prems Cons
        by (auto intro: copies_put)
    next
      case esc
      show ?thesis
      proof (cases cs)
        case Nil
        then show ?thesis using Cons esc by (simp add: copies_def)
      next
        case (Cons d ds)
        note s = \<open>s = c # cs\<close> Cons esc
        consider (lit) "d = 92 \<or> d = 34"
          | (hex) a b es where "\<not> (d = 92 \<or> d = 34)" "ds = a # b # es" "d = 120" "isxdigit a" "isxdigit b"
          | (bad) "\<not> (d = 92 \<or> d = 34)" "\<not> (\<exists>a b es. ds = a # b # es \<and> d = 120 \<and> isxdigit a \<and> isxdigit b)" by blast
        then show ?thesis
        proof cases
          case lit
          then show ?thesis using IH [of ds "Suc klen" "w[klen := d]"] room less.prems s
            by (auto intro: copies_put)
        next
          case hex
          let ?v = "push_bit 4 (hexval a) OR hexval b"
          show ?thesis using hex IH [of es "Suc klen" "w[klen := ?v]"] room less.prems s
            by (auto intro: copies_put)
        next
          case bad
          then have "copy_token s w klen = copy_token cs w klen" "unescape s = unescape cs"
            unfolding s by (auto split: list.splits simp del: copy_token.simps(2) unescape.simps(2)
                simp: copy_token.simps(2) [of 92 "d # ds"] unescape.simps(2) [of 92 "d # ds"])
          then show ?thesis using IH [of cs klen w] less.prems s by simp
        qed
      qed
    qed
  qed
qed

lemma length_unescape: "length (unescape s) \<le> length s"
proof -
  have "copies (replicate (length s) 0) 0 (unescape s) (copy_token s (replicate (length s) 0) 0)"
    by (rule copy_token_copies) simp
  then obtain w where "length w = length s" "take (length (unescape s)) w = unescape s" by (auto simp: copies_def)
  then show ?thesis by (metis length_take min.cobounded1)
qed

lemma parse_keyword_unescape:
  "parse_keyword s = (case dropWhile (\<lambda>c. isspace c \<or> c = 61) s of
        [] \<Rightarrow> Malformed
      | c # cs \<Rightarrow> if c \<noteq> 34 then Malformed else if cs = [] then Empty_keyword else Token (unescape cs))"
proof -
  have "(case copy_token cs (replicate (length cs) 0) 0 of None \<Rightarrow> Overflow | Some (w, klen) \<Rightarrow> Token (take klen w))
      = Token (unescape cs)" for cs
    using copy_token_copies [of 0 cs "replicate (length cs) 0"] by (auto simp: copies_def)
  then show ?thesis by (simp only: parse_keyword_def)
qed

definition hexdig :: "u8 \<Rightarrow> u8" where
  "hexdig n = (if n < 10 then 48 + n else 87 + n)"

text \<open>The dictionary form of a token: every byte as \<open>\xNN\<close>.\<close>

definition escape_token :: "mem \<Rightarrow> u8 list" where
  "escape_token t = concat (map (\<lambda>b. [92, 120, hexdig (drop_bit 4 b), hexdig (b AND 15)]) t)"

lemma hexdig_nibble:
  assumes "unat n < 16"
  shows "isxdigit (hexdig n) \<and> hexval (hexdig n) = n"
proof -
  have "list_all (\<lambda>k. let n = word_of_nat k in isxdigit (hexdig n) \<and> hexval (hexdig n) = n) [0..<16]" by code_simp
  then have "let m = word_of_nat (unat n) in isxdigit (hexdig m) \<and> hexval (hexdig m) = m"
    unfolding list_all_iff by (rule bspec) (simp add: assms)
  then show ?thesis by simp
qed

lemma unescape_escape: "unescape (escape_token t) = t"
proof (induction t)
  case Nil
  then show ?case by (simp add: escape_token_def)
next
  case (Cons b t)
  have hi: "unat (drop_bit 4 b) < 16"
    using unsigned_less [of b, where ?'a = nat] by (subst unat_drop_bit_eq) (simp add: drop_bit_eq_div)
  have lo: "unat (b AND 15) < 16"
  proof -
    have "b AND 15 = take_bit 4 b" by (simp add: take_bit_eq_mask mask_eq_exp_minus_1)
    then show ?thesis by (simp only: unsigned_take_bit_eq) (simp add: take_bit_eq_mod)
  qed
  have "push_bit 4 (drop_bit 4 b) OR (b AND mask 4) = b"
    by (rule bit_word_eqI) (auto simp: bit_simps)
  then have "push_bit 4 (drop_bit 4 b) OR (b AND 15) = b" by (simp add: mask_eq_exp_minus_1)
  moreover have "escape_token (b # t) = [92, 120, hexdig (drop_bit 4 b), hexdig (b AND 15)] @ escape_token t"
    by (simp add: escape_token_def)
  ultimately show ?case using Cons hexdig_nibble [OF hi] hexdig_nibble [OF lo] by simp
qed


lemma escape_token_Nil: "escape_token t = [] \<longleftrightarrow> t = []"
  by (cases t) (simp_all add: escape_token_def)

lemma not_space_simps [simp]: "\<not> isspace 34" "\<not> isspace 61" "\<not> isspace 95" "\<not> isalnum 61" "\<not> isspace 35" "\<not> isalnum 35"
  by (simp_all add: isspace_def isalnum_def isdigit_def)

lemma isalnum_not_space: "isalnum c \<Longrightarrow> \<not> isspace c"
  by (auto simp: isspace_def isalnum_def isdigit_def word_le_nat_alt)

lemma trim_id: "s \<noteq> [] \<Longrightarrow> \<not> isspace (hd s) \<Longrightarrow> \<not> isspace (last s) \<Longrightarrow> trim s = s"
proof -
  assume "s \<noteq> []" "\<not> isspace (hd s)" "\<not> isspace (last s)"
  then have "dropWhile isspace s = s" "dropWhile isspace (rev s) = rev s"
    by (simp_all add: dropWhile_eq_self_iff hd_rev)
  then show ?thesis by (simp add: trim_def)
qed

lemma parse_escaped_line:
  assumes "list_all (\<lambda>c. isalnum c \<or> c = 95) label" and "t \<noteq> []"
  shows "parse_line lvl (label @ [61, 34] @ escape_token t @ [34]) = Token t"
proof -
  let ?s = "label @ [61, 34] @ escape_token t @ [34]"
  have hd: "\<not> isspace (hd ?s)" "hd ?s \<noteq> 35"
    using assms(1) by (cases label; auto dest: isalnum_not_space)+
  have "trim ?s = ?s" using hd by (intro trim_id) simp_all
  moreover have "butlast ?s = label @ [61, 34] @ escape_token t" by (simp add: butlast_append)
  moreover have "dropWhile (\<lambda>c. isalnum c \<or> c = 95) (label @ [61, 34] @ escape_token t) = [61, 34] @ escape_token t"
    using assms(1) by (simp add: dropWhile_append2 list_all_iff)
  ultimately show ?thesis
    using hd assms(2)
    by (simp add: parse_line_def Let_def skip_level_def skip_index_def parse_keyword_unescape escape_token_Nil
        unescape_escape)
qed

section \<open>Duplicates and order\<close>

definition extra_ok :: "extra_data \<Rightarrow> bool" where
  "extra_ok e \<longleftrightarrow> ex_len e = length (ex_data e)"

definition extras_inv :: "extra_data list \<Rightarrow> bool" where
  "extras_inv ex \<longleftrightarrow> sorted (map ex_len ex) \<and> distinct (map ex_data ex)
     \<and> (\<forall>e\<in>set ex. extra_ok e \<and> ex_len e \<le> MAX_DICT_FILE)"

lemma dedup_inner_filter:
  assumes "extra_ok x" and "\<forall>e\<in>set rest. extra_ok e" and "sorted (map ex_len (x # rest))"
  shows "dedup_inner (length pre) (length (pre @ x # mid)) (pre @ x # mid @ rest)
           = pre @ x # mid @ filter (\<lambda>e. ex_data e \<noteq> ex_data x) rest"
  using assms(2,3)
proof (induction rest arbitrary: mid)
  case Nil
  then show ?case by (simp add: dedup_inner.simps)
next
  case (Cons y rest)
  let ?ex = "pre @ x # mid @ y # rest" and ?i = "length pre" and ?j = "length (pre @ x # mid)"
  have at: "?ex ! ?i = x" "?ex ! ?j = y"
    by (simp_all add: nth_append)
  have sub: "sorted (map ex_len (x # rest))" "\<forall>e\<in>set rest. extra_ok e" using Cons.prems by auto
  show ?case
  proof (cases "ex_len x = ex_len y")
    case False
    then have "ex_len x < ex_len e" if "e \<in> set (y # rest)" for e
      using that Cons.prems(2) by fastforce
    then have "\<forall>e\<in>set (y # rest). ex_data e \<noteq> ex_data x"
      using Cons.prems(1) assms(1) unfolding extra_ok_def by (metis less_irrefl)
    then have "filter (\<lambda>e. ex_data e \<noteq> ex_data x) (y # rest) = y # rest" by (simp add: filter_id_conv)
    moreover have "dedup_inner ?i ?j ?ex = ?ex" using False at by (subst dedup_inner.simps) auto
    ultimately show ?thesis by simp
  next
    case True
    have len: "ex_len x = length (ex_data x)" "ex_len y = length (ex_data y)"
      using assms(1) Cons.prems(1) by (simp_all add: extra_ok_def)
    show ?thesis
    proof (cases "ex_data x = ex_data y")
      case True
      then have "dedup_inner ?i ?j ?ex = dedup_inner ?i ?j (pre @ x # mid @ rest)"
        using at len by (subst dedup_inner.simps) simp
      with Cons.IH [OF sub(2,1), of mid] True show ?thesis by simp
    next
      case False
      then have "dedup_inner ?i ?j ?ex = dedup_inner ?i (?j + 1) ?ex"
        using at len \<open>ex_len x = ex_len y\<close> by (subst dedup_inner.simps) simp
      with Cons.IH [OF sub(2,1), of "mid @ [y]"] False show ?thesis by simp
    qed
  qed
qed

text \<open>Keeping the first of each group of equal tokens.\<close>

fun first_tokens :: "extra_data list \<Rightarrow> extra_data list" where
  "first_tokens [] = []"
| "first_tokens (x # xs) = x # first_tokens (filter (\<lambda>e. ex_data e \<noteq> ex_data x) xs)"

lemma set_first_tokens: "set (first_tokens xs) \<subseteq> set xs"
  by (induction xs rule: first_tokens.induct) auto

lemma ex_data_first_tokens: "ex_data ` set (first_tokens xs) = ex_data ` set xs"
  by (induction xs rule: first_tokens.induct) auto

lemma distinct_first_tokens: "distinct (map ex_data (first_tokens xs))"
proof (induction xs rule: first_tokens.induct)
  case (2 x xs)
  have "ex_data x \<notin> ex_data ` set (first_tokens (filter (\<lambda>e. ex_data e \<noteq> ex_data x) xs))"
    unfolding ex_data_first_tokens by auto
  with 2 show ?case by simp
qed simp

lemma sorted_first_tokens: "sorted (map ex_len xs) \<Longrightarrow> sorted (map ex_len (first_tokens xs))"
proof (induction xs rule: first_tokens.induct)
  case (2 x xs)
  have "sorted (map ex_len (first_tokens (filter (\<lambda>e. ex_data e \<noteq> ex_data x) xs)))"
    using 2 by (simp add: sorted_filter)
  moreover have "\<forall>e \<in> set (first_tokens (filter (\<lambda>e. ex_data e \<noteq> ex_data x) xs)). ex_len x \<le> ex_len e"
    using 2(2) set_first_tokens [of "filter (\<lambda>e. ex_data e \<noteq> ex_data x) xs"] by auto
  ultimately show ?case by simp
qed simp

lemma dedup_outer_first:
  "\<forall>e\<in>set rest. extra_ok e \<Longrightarrow> sorted (map ex_len rest) \<Longrightarrow> dedup_outer (length pre) (pre @ rest) = pre @ first_tokens rest"
proof (induction "length rest" arbitrary: pre rest rule: less_induct)
  case less
  show ?case
  proof (cases rest)
    case Nil
    then show ?thesis by (subst dedup_outer.simps) auto
  next
    case (Cons x xs)
    show ?thesis
    proof (cases xs)
      case Nil
      then show ?thesis using Cons by (simp add: dedup_outer.simps)
    next
      case (Cons y ys)
      let ?f = "filter (\<lambda>e. ex_data e \<noteq> ex_data x) xs"
      have "dedup_outer (length pre) (pre @ rest) = dedup_outer (length pre + 1) (dedup_inner (length pre) (length pre + 1) (pre @ rest))"
        using \<open>rest = x # xs\<close> Cons by (subst dedup_outer.simps) simp
      also have "dedup_inner (length pre) (length pre + 1) (pre @ rest) = pre @ x # ?f"
        using dedup_inner_filter [of x xs pre "[]"] less.prems \<open>rest = x # xs\<close> by simp
      also have "dedup_outer (length pre + 1) (pre @ x # ?f) = (pre @ [x]) @ first_tokens ?f"
        using less.hyps [of ?f "pre @ [x]"] less.prems \<open>rest = x # xs\<close>
        by (simp add: sorted_filter le_imp_less_Suc)
      finally show ?thesis using \<open>rest = x # xs\<close> by simp
    qed
  qed
qed

lemma dedup_extras_first:
  assumes "\<forall>e\<in>set ex. extra_ok e" and "sorted (map ex_len ex)"
  shows "dedup_extras ex = first_tokens ex"
proof (cases "length ex < 2")
  case True
  then show ?thesis by (cases ex) (auto simp: dedup_extras_def)
next
  case False
  then show ?thesis using dedup_outer_first [OF assms, of "[]"] by (simp add: dedup_extras_def)
qed

lemma extra_known_sorted:
  assumes "sorted (map ex_len ex)" and "\<forall>e\<in>set ex. extra_ok e"
    and "found \<longrightarrow> (\<forall>e\<in>set ex. length m \<le> ex_len e)"
  shows "extra_known m found ex \<longleftrightarrow> m \<in> ex_data ` set ex"
  using assms
proof (induction m found ex rule: extra_known.induct)
  case (1 m found)
  then show ?case by simp
next
  case (2 m found e es)
  have ok: "ex_len e = length (ex_data e)" "\<forall>x\<in>set es. ex_len x = length (ex_data x)"
    using "2.prems"(2) by (simp_all add: extra_ok_def)
  show ?case
  proof (cases "ex_len e = length m")
    case True
    then show ?thesis using 2 ok by auto
  next
    case False
    show ?thesis
    proof (cases found)
      case True
      then have "length m < ex_len e" using "2.prems"(3) False by fastforce
      then have "\<forall>x\<in>set (e # es). length m < ex_len x" using "2.prems"(1) by fastforce
      then show ?thesis using True False ok by fastforce
    next
      case False
      then show ?thesis using 2 \<open>ex_len e \<noteq> length m\<close> ok by auto
    qed
  qed
qed


section \<open>Clients of \<open>qsort\<close>\<close>

locale extras_sort = c_qsort qs for qs :: "extra_data qsort"
begin

lemma extras_cmp: "sgn (compare_extras_len x y) = sgn (int (ex_len x) - int (ex_len y))"
  by (simp add: compare_extras_len_def)

lemma mset_sort_extras: "mset (qs compare_extras_len ex) = mset ex"
  by (rule qsort_mset) (rule extras_cmp)

lemma set_sort_extras: "set (qs compare_extras_len ex) = set ex"
  using mset_sort_extras by (rule mset_eq_setD)

lemma sorted_sort_extras: "sorted (map ex_len (qs compare_extras_len ex))"
  using qsort_sorted [of ex compare_extras_len "\<lambda>e. int (ex_len e)"] extras_cmp
  by (simp add: sorted_iff_nth_mono)

lemma distinct_sort_extras: "distinct (map ex_data (qs compare_extras_len ex)) \<longleftrightarrow> distinct (map ex_data ex)"
  by (rule qsort_distinct) (rule extras_cmp)

lemma extras_inv_sort:
  "distinct (map ex_data ex) \<Longrightarrow> \<forall>e\<in>set ex. extra_ok e \<and> ex_len e \<le> MAX_DICT_FILE \<Longrightarrow> extras_inv (qs compare_extras_len ex)"
  by (simp add: extras_inv_def sorted_sort_extras distinct_sort_extras set_sort_extras)

lemma add_extra_inv:
  assumes "extras_inv ex"
  shows "extras_inv (add_extra qs m ex)
    \<and> ex_data ` set (add_extra qs m ex) = (if length m \<le> MAX_DICT_FILE then insert m (ex_data ` set ex) else ex_data ` set ex)"
proof -
  have known: "extra_known m False ex \<longleftrightarrow> m \<in> ex_data ` set ex"
    using assms by (intro extra_known_sorted) (auto simp: extras_inv_def)
  show ?thesis
  proof (cases "m \<in> ex_data ` set ex")
    case True
    then show ?thesis using assms known by (auto simp: add_extra_def)
  next
    case False
    show ?thesis
    proof (cases "length m > MAX_DICT_FILE")
      case True
      then show ?thesis using False known assms by (simp add: add_extra_def)
    next
      case short: False
      have "add_extra qs m ex = qs compare_extras_len (ex @ [mk_extra m])"
        using False short known by (simp add: add_extra_def add_extra_nocheck_def)
      moreover have "extras_inv (qs compare_extras_len (ex @ [mk_extra m]))"
        using False short assms by (intro extras_inv_sort) (auto simp: extras_inv_def mk_extra_def extra_ok_def)
      ultimately show ?thesis using short by (auto simp: set_sort_extras mk_extra_def)
    qed
  qed
qed

end

interpretation isort_extras: extras_sort isort_by
  by unfold_locales

lemma sint_diff_u32:
  assumes "unat a < 2 ^ 31" and "unat b < 2 ^ 31"
  shows "sint (b - a :: u32) = int (unat b) - int (unat a)"
proof -
  have "b - a = word_of_int (int (unat b) - int (unat a))" by simp
  then have "sint (b - a) = signed_take_bit 31 (int (unat b) - int (unat a))"
    by (simp only: signed_of_int) simp
  moreover have "int (unat a) < int (2 ^ 31)" "int (unat b) < int (2 ^ 31)"
    using assms by (simp_all only: of_nat_less_iff)
  then have "- (2 ^ 31) \<le> int (unat b) - int (unat a)" "int (unat b) - int (unat a) < 2 ^ 31"
    by (simp_all only: of_nat_power of_nat_numeral)
  ultimately show ?thesis by (simp only: signed_take_bit_int_eq_self)
qed

definition auto_small :: "auto_extra_data list \<Rightarrow> bool" where
  "auto_small as \<longleftrightarrow> (\<forall>a\<in>set as. unat (ae_hit_cnt a) < 2 ^ 31)"

locale auto_sort = c_qsort qs for qs :: "auto_extra_data qsort"
begin

lemma use_cmp:
  assumes "auto_small as" and "x \<in> set as" and "y \<in> set as"
  shows "sgn (compare_auto_extras_use_d x y) = sgn (- int (unat (ae_hit_cnt x)) - - int (unat (ae_hit_cnt y)))"
  using assms by (simp add: compare_auto_extras_use_d_def sint_diff_u32 auto_small_def)

lemma len_cmp: "sgn (compare_auto_extras_len x y) = sgn (int (ae_len x) - int (ae_len y))"
  by (simp add: compare_auto_extras_len_def)

lemma sort_a_extras_mset:
  assumes "auto_small as"
  shows "mset (sort_a_extras qs as) = mset as"
proof -
  let ?u = "qs compare_auto_extras_use_d as" and ?k = "min USE_AUTO_EXTRAS (length (qs compare_auto_extras_use_d as))"
  have "mset (qs compare_auto_extras_len (take ?k ?u)) = mset (take ?k ?u)"
    by (rule qsort_mset) (rule len_cmp)
  then have "mset (sort_a_extras qs as) = mset (take ?k ?u @ drop ?k ?u)"
    by (simp add: sort_a_extras_def Let_def del: append_take_drop_id)
  also have "\<dots> = mset as"
    using qsort_mset [of as compare_auto_extras_use_d "\<lambda>a. - int (unat (ae_hit_cnt a))"] use_cmp [OF assms] by simp
  finally show ?thesis .
qed

lemma sort_a_extras_top:
  assumes "auto_small as"
  defines "k \<equiv> min USE_AUTO_EXTRAS (length as)"
  shows "sorted (map ae_len (take k (sort_a_extras qs as)))"
    and "\<forall>a\<in>set (take k (sort_a_extras qs as)). \<forall>b\<in>set (drop k (sort_a_extras qs as)). ae_hit_cnt b \<le> ae_hit_cnt a"
proof -
  let ?u = "qs compare_auto_extras_use_d as"
  have len: "length ?u = length as"
    by (rule qsort_length) (rule use_cmp [OF assms(1)])
  have lt: "length (qs compare_auto_extras_len (take k ?u)) = k"
    using qsort_length [of "take k ?u" compare_auto_extras_len "\<lambda>a. int (ae_len a)"] len_cmp len
    by (simp add: k_def)
  have s: "sort_a_extras qs as = qs compare_auto_extras_len (take k ?u) @ drop k ?u"
    by (simp add: sort_a_extras_def Let_def len k_def)
  have "sorted (map (\<lambda>a. int (ae_len a)) (qs compare_auto_extras_len (take k ?u)))"
    by (rule qsort_sorted) (rule len_cmp)
  then show "sorted (map ae_len (take k (sort_a_extras qs as)))"
    using lt by (simp add: s sorted_iff_nth_mono)
  have "sorted (map (\<lambda>a. - int (unat (ae_hit_cnt a))) ?u)"
    by (rule qsort_sorted) (rule use_cmp [OF assms(1)])
  then have "sorted (map (\<lambda>a. - int (unat (ae_hit_cnt a))) (take k ?u @ drop k ?u))" by simp
  then have "\<forall>a\<in>set (take k ?u). \<forall>b\<in>set (drop k ?u). ae_hit_cnt b \<le> ae_hit_cnt a"
    unfolding map_append sorted_append by (auto simp: word_le_def)
  moreover have "set (qs compare_auto_extras_len (take k ?u)) = set (take k ?u)"
    by (rule qsort_set) (rule len_cmp)
  ultimately show "\<forall>a\<in>set (take k (sort_a_extras qs as)). \<forall>b\<in>set (drop k (sort_a_extras qs as)). ae_hit_cnt b \<le> ae_hit_cnt a"
    using lt by (simp add: s)
qed

end

interpretation isort_auto: auto_sort isort_by
  by unfold_locales


section \<open>Adding an automatic token\<close>

lemma xor_eq_0_iff: "x XOR y = 0 \<longleftrightarrow> x = (y :: 'w::len word)"
proof
  assume "x XOR y = 0"
  then have "(x XOR y) XOR y = y" by simp
  then show "x = y" by (simp add: xor.assoc)
qed simp

lemma memcmp_nocase_iff:
  "n \<le> length a \<Longrightarrow> n \<le> length b \<Longrightarrow> memcmp_nocase a b n \<longleftrightarrow> map tolower (take n a) \<noteq> map tolower (take n b)"
proof (induction a b n rule: memcmp_nocase.induct)
  case (2 m1 m2 len)
  then show ?case by (cases m1; cases m2) (auto simp: xor_eq_0_iff)
qed simp

lemma takeWhile_dropWhile_sorted:
  fixes f :: "'b \<Rightarrow> nat"
  assumes "sorted (map f xs)"
  shows "set (takeWhile (\<lambda>x. f x = n) (dropWhile (\<lambda>x. f x < n) xs)) = {x \<in> set xs. f x = n}"
  using assms
proof (induction xs)
  case (Cons x xs)
  consider "f x < n" | "f x = n" | "n < f x" by linarith
  then show ?case
  proof cases
    case 2
    then have "dropWhile (\<lambda>x. f x < n) xs = xs" using Cons.prems by (cases xs) auto
    with 2 Cons show ?thesis by auto
  next
    case 3
    then have "{y \<in> set (x # xs). f y = n} = {}" using Cons.prems by fastforce
    with 3 show ?thesis by simp
  qed (use Cons in auto)
qed simp

lemma extras_match_iff:
  assumes "sorted (map ex_len ex)"
  shows "extras_match ex m \<longleftrightarrow> (\<exists>e\<in>set ex. ex_len e = length m \<and> \<not> memcmp_nocase (ex_data e) m (length m))"
  unfolding extras_match_def Bex_set [symmetric] takeWhile_dropWhile_sorted [OF assms] by blast

definition auto_inv :: "auto_extra_data list \<Rightarrow> bool" where
  "auto_inv as \<longleftrightarrow> length as \<le> MAX_AUTO_EXTRAS
     \<and> (\<forall>a\<in>set as. length (ae_data a) = MAX_AUTO_EXTRA \<and> ae_len a \<le> MAX_AUTO_EXTRA)"

lemma bump_match_Some:
  "bump_match m as = Some as' \<Longrightarrow>
     \<exists>i<length as. auto_match m (as ! i) \<and> as' = as[i := (as ! i)\<lparr>ae_hit_cnt := ae_hit_cnt (as ! i) + 1\<rparr>]"
proof (induction as arbitrary: as')
  case (Cons a as)
  show ?case
  proof (cases "auto_match m a")
    case True
    with Cons.prems show ?thesis by (intro exI [of _ 0]) auto
  next
    case False
    with Cons.prems obtain bs where "bump_match m as = Some bs" "as' = a # bs" by auto
    with Cons.IH obtain i where "i < length as" "auto_match m (as ! i)"
        "bs = as[i := (as ! i)\<lparr>ae_hit_cnt := ae_hit_cnt (as ! i) + 1\<rparr>]" by blast
    with \<open>as' = a # bs\<close> show ?thesis by (intro exI [of _ "Suc i"]) auto
  qed
qed simp

lemma bump_match_None: "bump_match m as = None \<Longrightarrow> \<forall>a\<in>set as. \<not> auto_match m a"
  by (induction as) (auto split: if_splits)

lemma auto_match_mk: "length m \<le> MAX_AUTO_EXTRA \<Longrightarrow> length (ae_data slot) = MAX_AUTO_EXTRA
    \<Longrightarrow> auto_match m (mk_auto m slot) \<and> length (ae_data (mk_auto m slot)) = MAX_AUTO_EXTRA"
  by (simp add: auto_match_def mk_auto_def memcmp_nocase_iff)

text \<open>The automatic dictionary before it is sorted again.\<close>

definition auto_next :: "nat \<Rightarrow> mem \<Rightarrow> auto_extra_data list \<Rightarrow> auto_extra_data list" where
  "auto_next evict m as =
     (case bump_match m as of
        Some as' \<Rightarrow> as'
      | None \<Rightarrow>
          if length as < MAX_AUTO_EXTRAS then as @ [mk_auto m blank_auto]
          else let i = evicted_slot evict in as[i := (mk_auto m (as ! i))\<lparr>ae_hit_cnt := 0\<rparr>])"

definition auto_rejected :: "mem \<Rightarrow> afl_extras \<Rightarrow> bool" where
  "auto_rejected m s \<longleftrightarrow> one_byte_run m \<or> length m > MAX_AUTO_EXTRA \<or> length m = 2 \<and> builtin_16 m
     \<or> length m = 4 \<and> builtin_32 m \<or> extras_match (extras s) m"

lemma maybe_add_auto_next:
  "maybe_add_auto qs evict m s =
     (if auto_rejected m s then s
      else s\<lparr>auto_changed := True, a_extras := sort_a_extras qs (auto_next evict m (a_extras s))\<rparr>)"
  by (auto simp: maybe_add_auto_def auto_rejected_def auto_next_def Let_def split: option.splits)

lemma evicted_slot_less: "evicted_slot evict < MAX_AUTO_EXTRAS"
  using mod_less_divisor [of "(MAX_AUTO_EXTRAS + 1) div 2" evict]
  by (simp add: evicted_slot_def MAX_AUTO_EXTRAS_def USE_AUTO_EXTRAS_def)

lemma auto_next_ok:
  assumes "auto_inv as" and "length m \<le> MAX_AUTO_EXTRA" and "\<forall>a\<in>set as. unat (ae_hit_cnt a) + 1 < 2 ^ 31"
  shows "auto_inv (auto_next evict m as)" and "\<exists>a\<in>set (auto_next evict m as). auto_match m a"
    and "auto_small (auto_next evict m as)"
    and "(\<exists>a\<in>set as. auto_match m a) \<Longrightarrow> length (auto_next evict m as) = length as"
proof -
  have blank: "length (ae_data blank_auto) = MAX_AUTO_EXTRA" "ae_hit_cnt (mk_auto m blank_auto) = 0"
    by (simp_all add: blank_auto_def mk_auto_def)
  have "auto_inv (auto_next evict m as) \<and> (\<exists>a\<in>set (auto_next evict m as). auto_match m a)
      \<and> auto_small (auto_next evict m as) \<and> ((\<exists>a\<in>set as. auto_match m a) \<longrightarrow> length (auto_next evict m as) = length as)"
  proof (cases "bump_match m as")
    case (Some as')
    from bump_match_Some [OF this] obtain i where i: "i < length as" "auto_match m (as ! i)"
        "as' = as[i := (as ! i)\<lparr>ae_hit_cnt := ae_hit_cnt (as ! i) + 1\<rparr>]" by blast
    let ?a = "(as ! i)\<lparr>ae_hit_cnt := ae_hit_cnt (as ! i) + 1\<rparr>"
    have "unat (ae_hit_cnt (as ! i)) + 1 < 2 ^ 31" using assms(3) i(1) by simp
    then have "unat (ae_hit_cnt ?a) < 2 ^ 31" by (simp add: unat_word_ariths)
    moreover have "auto_match m ?a" using i(2) by (simp add: auto_match_def)
    moreover have "?a \<in> set as'" using i by (simp add: set_update_memI)
    moreover have "set as' \<subseteq> insert ?a (set as)" using i(3) set_update_subset_insert by simp
    moreover have "length (ae_data ?a) = MAX_AUTO_EXTRA \<and> ae_len ?a \<le> MAX_AUTO_EXTRA"
      using assms(1) i(1) by (simp add: auto_inv_def)
    ultimately show ?thesis
      using Some assms(1,3) i(1,3) by (fastforce simp: auto_next_def auto_inv_def auto_small_def)
  next
    case None
    note new = bump_match_None [OF None]
    show ?thesis
    proof (cases "length as < MAX_AUTO_EXTRAS")
      case True
      then have "auto_next evict m as = as @ [mk_auto m blank_auto]" using None by (simp add: auto_next_def)
      moreover have "ae_len (mk_auto m blank_auto) \<le> MAX_AUTO_EXTRA" using assms(2) by (simp add: mk_auto_def)
      ultimately show ?thesis
        using True assms(1,3) auto_match_mk [OF assms(2) blank(1)] blank(2) new
        by (auto simp: auto_inv_def auto_small_def)
    next
      case False
      define i where "i = evicted_slot evict"
      have len: "length as = MAX_AUTO_EXTRAS" using False assms(1) by (simp add: auto_inv_def)
      have i: "i < length as" using evicted_slot_less [of evict] len by (simp add: i_def)
      let ?a = "(mk_auto m (as ! i))\<lparr>ae_hit_cnt := 0\<rparr>"
      have eq: "auto_next evict m as = as[i := ?a]" using None False by (simp add: auto_next_def Let_def i_def)
      have "length (ae_data (as ! i)) = MAX_AUTO_EXTRA" using assms(1) i by (simp add: auto_inv_def)
      from auto_match_mk [OF assms(2) this] have "auto_match m ?a" "length (ae_data ?a) = MAX_AUTO_EXTRA"
        by (simp_all add: auto_match_def)
      moreover have "ae_len ?a \<le> MAX_AUTO_EXTRA" using assms(2) by (simp add: mk_auto_def)
      moreover have "set (as[i := ?a]) \<subseteq> insert ?a (set as)" by (rule set_update_subset_insert)
      moreover have "?a \<in> set (as[i := ?a])" using i by (simp add: set_update_memI)
      ultimately show ?thesis
        using assms(1,3) new unfolding eq auto_inv_def auto_small_def by fastforce
    qed
  qed
  then show "auto_inv (auto_next evict m as)" and "\<exists>a\<in>set (auto_next evict m as). auto_match m a"
    and "auto_small (auto_next evict m as)"
    and "(\<exists>a\<in>set as. auto_match m a) \<Longrightarrow> length (auto_next evict m as) = length as" by blast+
qed


lemma mk_auto_token: "take (ae_len (mk_auto m slot)) (ae_data (mk_auto m slot)) = m"
  by (simp add: mk_auto_def)

lemma auto_next_slot:
  assumes "auto_inv as" and "length m \<le> MAX_AUTO_EXTRA"
  shows "if \<exists>a\<in>set as. auto_match m a
     then \<exists>i<length as. auto_match m (as ! i)
       \<and> mset (auto_next evict m as) = mset (as[i := (as ! i)\<lparr>ae_hit_cnt := ae_hit_cnt (as ! i) + 1\<rparr>])
     else \<exists>a. take (ae_len a) (ae_data a) = m \<and> ae_hit_cnt a = 0
       \<and> (if length as < MAX_AUTO_EXTRAS then mset (auto_next evict m as) = add_mset a (mset as)
          else \<exists>i. MAX_AUTO_EXTRAS div 2 \<le> i \<and> i < length as \<and> mset (auto_next evict m as) = mset (as[i := a]))"
proof (cases "bump_match m as")
  case (Some as')
  from bump_match_Some [OF this] obtain i where i: "i < length as" "auto_match m (as ! i)"
      "as' = as[i := (as ! i)\<lparr>ae_hit_cnt := ae_hit_cnt (as ! i) + 1\<rparr>]" by blast
  moreover have "\<exists>a\<in>set as. auto_match m a" using i(1,2) nth_mem by blast
  ultimately show ?thesis using Some by (auto simp: auto_next_def)
next
  case None
  have no: "\<not> (\<exists>a\<in>set as. auto_match m a)" using bump_match_None [OF None] by blast
  show ?thesis
  proof (cases "length as < MAX_AUTO_EXTRAS")
    case True
    then show ?thesis using no None mk_auto_token [of m blank_auto]
      by (auto simp: auto_next_def mk_auto_def blank_auto_def intro!: exI [of _ "mk_auto m blank_auto"])
  next
    case False
    let ?i = "evicted_slot evict"
    have "?i < length as" using False evicted_slot_less [of evict] by linarith
    moreover have "MAX_AUTO_EXTRAS div 2 \<le> ?i" by (simp add: evicted_slot_def)
    ultimately show ?thesis using no None False
      by (auto simp: auto_next_def mk_auto_def Let_def intro!: exI [of _ "(mk_auto m (as ! ?i))\<lparr>ae_hit_cnt := 0\<rparr>"] exI [of _ ?i])
  qed
qed

section \<open>Lengths along the line parser\<close>

lemma length_trim: "length (trim s) \<le> length s"
  using length_dropWhile_le [of isspace s] length_dropWhile_le [of isspace "rev (dropWhile isspace s)"]
  by (simp add: trim_def)

lemma parse_keyword_safe:
  "parse_keyword s \<noteq> Overflow \<and> (case parse_keyword s of Token t \<Rightarrow> length t \<le> length s | _ \<Rightarrow> True)"
proof (cases "dropWhile (\<lambda>c. isspace c \<or> c = 61) s")
  case (Cons c cs)
  have "length cs \<le> length s"
    using length_dropWhile_le [of "\<lambda>c. isspace c \<or> c = 61" s] Cons by simp
  with Cons length_unescape [of cs] show ?thesis by (simp add: parse_keyword_unescape)
next
  case Nil
  show ?thesis by (simp only: parse_keyword_unescape Nil) simp
qed

lemma length_skip_index: "length (skip_index s) \<le> length s"
proof (cases s)
  case (Cons c cs)
  have "length (case xs of d # ds \<Rightarrow> if d = 93 then ds else d # ds | [] \<Rightarrow> []) \<le> length xs" for xs :: "u8 list"
    by (cases xs) auto
  from order_trans [OF this length_dropWhile_le [of isdigit cs]] Cons show ?thesis
    by (simp add: skip_index_def)
qed (simp add: skip_index_def)

lemma length_skip_level: "skip_level d s = Some s' \<Longrightarrow> length s' \<le> length s"
  using length_dropWhile_le [of isdigit] by (auto simp: skip_level_def le_SucI split: list.splits if_splits)

section \<open>Properties\<close>

text \<open>The parser of dictionary lines never writes behind the buffer it allocates, and a token is never longer than
  the line it came from.\<close>

theorem parse_line_safe:
  "parse_line dict_level l \<noteq> Overflow \<and> (case parse_line dict_level l of Token t \<Rightarrow> length t \<le> length l | _ \<Rightarrow> True)"
proof (cases "trim l = [] \<or> hd (trim l) = 35 \<or> last (trim l) \<noteq> 34")
  case True
  then show ?thesis by (auto simp: parse_line_def Let_def)
next
  case False
  let ?b = "dropWhile (\<lambda>c. isalnum c \<or> c = 95) (butlast (trim l))"
  have b: "length ?b \<le> length l"
    using length_trim [of l] length_dropWhile_le [of "\<lambda>c. isalnum c \<or> c = 95" "butlast (trim l)"] by simp
  show ?thesis
  proof (cases "skip_level dict_level ?b")
    case None
    then show ?thesis using False by (simp add: parse_line_def Let_def)
  next
    case (Some s')
    then have eq: "parse_line dict_level l = parse_keyword (skip_index s')"
      using False by (simp add: parse_line_def Let_def)
    have "length (skip_index s') \<le> length l"
      using length_skip_index [of s'] length_skip_level [OF Some] b by linarith
    then show ?thesis using parse_keyword_safe [of "skip_index s'"] unfolding eq by (auto split: line.splits)
  qed
qed

text \<open>C11. Parsing inverts escaping: a line made of a label, \<open>=\<close> and a non-empty token with every byte written as
  \<open>\xNN\<close> between quotes yields exactly the token, whatever its bytes.\<close>

theorem parse_line_escaped:
  assumes "list_all (\<lambda>c. isalnum c \<or> c = 95) label" and "t \<noteq> []"
  shows "parse_line dict_level (label @ [61, 34] @ escape_token t @ [34]) = Token t"
  using assms by (rule parse_escaped_line)

theorem parse_line_escaped_witness:
  "parse_line 0 ([107, 95, 49] @ [61, 34] @ escape_token [0, 34, 255] @ [34]) = Token [0, 34, 255]"
  by (rule parse_line_escaped) (simp_all add: isalnum_def isdigit_def)

text \<open>\<open>dedup_extras\<close> on a dictionary sorted by length (which every loader leaves behind) terminates and leaves each
  token exactly once, in the same order of lengths.\<close>

theorem dedup_extras_correct:
  assumes "sorted (map ex_len ex)" and "\<forall>e\<in>set ex. extra_ok e"
  shows "distinct (map ex_data (dedup_extras ex)) \<and> sorted (map ex_len (dedup_extras ex))
         \<and> ex_data ` set (dedup_extras ex) = ex_data ` set ex \<and> set (dedup_extras ex) \<subseteq> set ex"
  using assms
  by (simp add: dedup_extras_first distinct_first_tokens sorted_first_tokens ex_data_first_tokens set_first_tokens)

theorem dedup_extras_witness:
  "let ex = map mk_extra [[1, 2], [3, 4], [1, 2], [5, 6, 7]]
   in distinct (map ex_data (dedup_extras ex)) \<and> ex_data ` set (dedup_extras ex) = {[1, 2], [3, 4], [5, 6, 7]}"
  using dedup_extras_correct [of "map mk_extra [[1, 2], [3, 4], [1, 2], [5, 6, 7]]"]
  by (simp add: mk_extra_def extra_ok_def insert_commute)

text \<open>C12. \<open>add_extra\<close> keeps the dictionary sorted by length and free of duplicates and over-long tokens, and
  adds the new token unless it is longer than \<open>MAX_DICT_FILE\<close>, in which case nothing changes.\<close>

theorem add_extra_correct:
  assumes "extras_sort qs" and "extras_inv ex"
  shows "extras_inv (add_extra qs m ex)
    \<and> ex_data ` set (add_extra qs m ex) = (if length m \<le> MAX_DICT_FILE then insert m (ex_data ` set ex) else ex_data ` set ex)"
  using assms by (rule extras_sort.add_extra_inv)

theorem add_extra_witness:
  "extras_inv (add_extra isort_by [9] [mk_extra [1, 2]])
   \<and> ex_data ` set (add_extra isort_by [9] [mk_extra [1, 2]]) = {[9], [1, 2]}"
proof -
  have "extras_inv [mk_extra [1, 2]]" by (simp add: extras_inv_def mk_extra_def extra_ok_def MAX_DICT_FILE_def)
  from add_extra_correct [OF isort_extras.extras_sort_axioms this, of "[9]"] show ?thesis
    by (simp add: MAX_DICT_FILE_def) (simp add: mk_extra_def)
qed

text \<open>C13. \<open>maybe_add_auto\<close> leaves the state alone when it rejects the token. Otherwise the user dictionary is
  unchanged and exactly one slot of the automatic dictionary changes (the slots are compared as a multiset, since they are sorted
  again): when a token there is equal to the new one up to case, one such token has its use count raised by one and the new spelling
  is dropped; else, when there is room, one slot with exactly the new bytes and a use count of 0 is added; else one slot of the
  bottom half is overwritten by the new bytes and its use count reset. The dictionary stays within its array and its tokens within
  their 32 bytes; the slots used for fuzzing are sorted by length, and every token kept outside them was used at most as often as
  every token in them. The use counts must be below \<open>2 ^ 31 - 1\<close>, since they are compared as signed
  differences.\<close>

theorem maybe_add_auto_correct:
  fixes m :: mem and evict :: nat
  assumes "auto_sort qs" and "auto_inv (a_extras s)" and "\<forall>a\<in>set (a_extras s). unat (ae_hit_cnt a) + 1 < 2 ^ 31"
  defines "s' \<equiv> maybe_add_auto qs evict m s" and "as \<equiv> a_extras s"
  shows "if auto_rejected m s then s' = s
         else auto_inv (a_extras s') \<and> auto_changed s' \<and> extras s' = extras s
              \<and> (if \<exists>a\<in>set as. auto_match m a
                 then \<exists>i<length as. auto_match m (as ! i)
                        \<and> mset (a_extras s') = mset (as[i := (as ! i)\<lparr>ae_hit_cnt := ae_hit_cnt (as ! i) + 1\<rparr>])
                 else \<exists>a. take (ae_len a) (ae_data a) = m \<and> ae_hit_cnt a = 0
                        \<and> (if length as < MAX_AUTO_EXTRAS then mset (a_extras s') = add_mset a (mset as)
                           else \<exists>i. MAX_AUTO_EXTRAS div 2 \<le> i \<and> i < length as \<and> mset (a_extras s') = mset (as[i := a])))
              \<and> (let k = min USE_AUTO_EXTRAS (length (a_extras s'))
                 in sorted (map ae_len (take k (a_extras s')))
                    \<and> (\<forall>a\<in>set (take k (a_extras s')). \<forall>b\<in>set (drop k (a_extras s')). ae_hit_cnt b \<le> ae_hit_cnt a))"
proof (cases "auto_rejected m s")
  case True
  then show ?thesis by (simp add: s'_def maybe_add_auto_next)
next
  case False
  then have m: "length m \<le> MAX_AUTO_EXTRA" by (simp add: auto_rejected_def)
  let ?n = "auto_next evict m (a_extras s)"
  note ok = auto_next_ok [OF assms(2) m assms(3), of evict]
  have a: "a_extras s' = sort_a_extras qs ?n" "auto_changed s'" "extras s' = extras s"
    using False by (simp_all add: s'_def maybe_add_auto_next)
  have ms: "mset (a_extras s') = mset ?n"
    unfolding a(1) using assms(1) ok(3) by (rule auto_sort.sort_a_extras_mset)
  have st: "set (a_extras s') = set ?n" using ms by (rule mset_eq_setD)
  have ln: "length (a_extras s') = length ?n" using ms by (rule mset_eq_length)
  note top = auto_sort.sort_a_extras_top [OF assms(1) ok(3), folded a(1), folded ln]
  have inv: "auto_inv (a_extras s')" using ok(1) by (simp add: auto_inv_def st ln)
  note slot = auto_next_slot [OF assms(2) m, of evict, folded ms as_def]
  show ?thesis
    unfolding Let_def if_not_P [OF False] by (intro conjI inv a(2,3) slot top)
qed

theorem maybe_add_auto_witness:
  "\<exists>a. take (ae_len a) (ae_data a) = [1, 2, 3]
      \<and> mset (a_extras (maybe_add_auto isort_by 0 [1, 2, 3] \<lparr>extras = [], a_extras = [], auto_changed = False\<rparr>)) = {#a#}"
  using maybe_add_auto_correct [OF isort_auto.auto_sort_axioms, of "\<lparr>extras = [], a_extras = [], auto_changed = False\<rparr>" "[1, 2, 3]" 0]
  by (auto simp: auto_inv_def auto_rejected_def one_byte_run_def extras_match_def MAX_AUTO_EXTRAS_def USE_AUTO_EXTRAS_def
      MAX_AUTO_EXTRA_def Let_def)

text \<open>The check against the built-in values is complete for 4-byte tokens. For 2-byte tokens, where an unsigned is
  compared with a signed 16-bit value, it misses exactly -128 (the other negative values are found through their
  byte-swapped form).\<close>

theorem builtin_checks:
  "list_all (\<lambda>v. builtin_32 (le_bytes 4 (word_of_int v :: u32))) interesting_32
   \<and> list_all (\<lambda>v. builtin_16 (le_bytes 2 (word_of_int v :: u16)) \<longleftrightarrow> v \<noteq> -128) interesting_16"
proof
  show "list_all (\<lambda>v. builtin_32 (le_bytes 4 (word_of_int v :: u32))) interesting_32"
    unfolding builtin_32_def list_all_iff by (auto simp: list_ex_iff)
  show "list_all (\<lambda>v. builtin_16 (le_bytes 2 (word_of_int v :: u16)) \<longleftrightarrow> v \<noteq> -128) interesting_16"
    by code_simp
qed

text \<open>A keyword of non-printable bytes only can pass the check for empty keywords and become a token of length 0.\<close>

lemma empty_token_accepted: "parse_line 0 [34, 1, 34] = Token []"
  by code_simp

end
