(* ===== verification/Stage.thy ===== *)
theory Stage
  imports Extras
begin

text \<open>
  The frame in which the deterministic part of \<open>fuzz_one_original\<close> (\<^verbatim>\<open>src/afl-fuzz-one.c\<close>) and
  \<open>skip_deterministic_stage\<close> (\<^verbatim>\<open>src/afl-fuzz-skipdet.c\<close>) run.
  \<^item> \<open>'g det\<close> is the part of \<open>afl_state_t\<close> and of the current queue entry these functions touch themselves,
    together with their local variables; its first field \<open>env\<close> is everything else (the queue, the maps, the
    clock, the random generator, the dictionaries).
  \<^item> \<open>'g stage_ops\<close> are the operations they call on everything else: \<open>common_fuzz_stuff\<close>,
    \<open>get_cur_time\<close>, the checksum of the trace, \<open>rand_below\<close>, \<open>maybe_add_auto\<close> and the counters and
    dictionaries they read.
  \<^item> A statement is a function from states to an exit and a state: it falls through (\<open>Next\<close>), jumps to
    \<open>custom_mutator_stage\<close> or to \<open>abandon_entry\<close>, touches memory outside a buffer (\<open>Fault\<close>), or
    never ends (\<open>Diverges\<close>). \<open>seq\<close>, \<open>for_each\<close>, \<open>while_do\<close>, \<open>cond\<close> and \<open>reading\<close> are C's
    sequencing, counted loop, \<open>while\<close> loop, conditional and local variable.
  \<^item> \<open>triple P c Q X\<close> is total correctness of such a statement: from \<open>P\<close> it neither faults nor diverges,
    \<open>Q\<close> holds where it falls through and \<open>X\<close> where it jumps to \<open>custom_mutator_stage\<close>. There is one
    rule per combinator.
\<close>

section \<open>State\<close>

datatype stage =
    STAGE_FLIP1 | STAGE_FLIP2 | STAGE_FLIP4 | STAGE_FLIP8 | STAGE_FLIP16 | STAGE_FLIP32
  | STAGE_ARITH8 | STAGE_ARITH16 | STAGE_ARITH32
  | STAGE_INTEREST8 | STAGE_INTEREST16 | STAGE_INTEREST32
  | STAGE_EXTRAS_UO | STAGE_EXTRAS_UI | STAGE_EXTRAS_AO | STAGE_EXTRAS_AI
  | STAGE_HAVOC | STAGE_SPLICE | STAGE_PYTHON | STAGE_CUSTOM_MUTATOR | STAGE_COLORIZATION
  | STAGE_ITS | STAGE_INF | STAGE_QUICK

datatype stage_val = STAGE_VAL_NONE | STAGE_VAL_LE | STAGE_VAL_BE

record 'g det =
  env :: 'g
  out_buf :: mem
  stage_cur :: u32
  stage_max :: u32
  stage_cur_byte :: u32
  stage_cur_val :: u32
  stage_val_type :: stage_val
  stage_finds :: "stage \<Rightarrow> u64"
  stage_cycles :: "stage \<Rightarrow> u64"
  orig_hit_cnt :: u64
  new_hit_cnt :: u64
  skip_eff_map :: "mem option"
  blocks_eff_select :: u32
  blocks_eff_total :: u32

text \<open>The calls on the rest of the state. \<open>common_fuzz_stuff\<close> returns whether it is time to bail out.\<close>

record 'g stage_ops =
  common_fuzz_stuff :: "mem \<Rightarrow> 'g \<Rightarrow> bool \<times> 'g"
  get_cur_time :: "'g \<Rightarrow> u64 \<times> 'g"
  trace_cksum :: "'g \<Rightarrow> u64"
  queued_items :: "'g \<Rightarrow> u32"
  saved_crashes :: "'g \<Rightarrow> u64"
  total_execs :: "'g \<Rightarrow> u64"
  rand_below_op :: "u32 \<Rightarrow> 'g \<Rightarrow> u32 \<times> 'g"
  maybe_add_auto_op :: "mem \<Rightarrow> 'g \<Rightarrow> 'g"
  user_extras :: "'g \<Rightarrow> extra_data list"
  auto_extras :: "'g \<Rightarrow> auto_extra_data list"

section \<open>Statements\<close>

datatype exit = Next | Custom_mutator_stage | Abandon_entry | Fault | Diverges

fun seq :: "('s \<Rightarrow> exit \<times> 's) list \<Rightarrow> 's \<Rightarrow> exit \<times> 's" where
  "seq [] s = (Next, s)"
| "seq (c # cs) s = (case c s of (e, s') \<Rightarrow> if e = Next then seq cs s' else (e, s'))"

fun for_each :: "('a \<Rightarrow> 's \<Rightarrow> exit \<times> 's) \<Rightarrow> 'a list \<Rightarrow> 's \<Rightarrow> exit \<times> 's" where
  "for_each c [] s = (Next, s)"
| "for_each c (x # xs) s = (case c x s of (e, s') \<Rightarrow> if e = Next then for_each c xs s' else (e, s'))"

definition cond :: "('s \<Rightarrow> bool) \<Rightarrow> ('s \<Rightarrow> exit \<times> 's) \<Rightarrow> ('s \<Rightarrow> exit \<times> 's) \<Rightarrow> 's \<Rightarrow> exit \<times> 's" where
  "cond b c d s = (if b s then c s else d s)"

definition upd :: "('s \<Rightarrow> 's) \<Rightarrow> 's \<Rightarrow> exit \<times> 's" where
  "upd f s = (Next, f s)"

definition guarded :: "('s \<Rightarrow> 's option) \<Rightarrow> 's \<Rightarrow> exit \<times> 's" where
  "guarded f s = (case f s of Some s' \<Rightarrow> (Next, s') | None \<Rightarrow> (Fault, s))"

definition reading :: "('s \<Rightarrow> 'a option) \<Rightarrow> ('a \<Rightarrow> 's \<Rightarrow> exit \<times> 's) \<Rightarrow> 's \<Rightarrow> exit \<times> 's" where
  "reading f c s = (case f s of Some x \<Rightarrow> c x s | None \<Rightarrow> (Fault, s))"

partial_function (option) while_loop :: "('s \<Rightarrow> bool) \<Rightarrow> ('s \<Rightarrow> exit \<times> 's) \<Rightarrow> 's \<Rightarrow> (exit \<times> 's) option" where
  "while_loop b c s =
     (if b s then (case c s of (e, s') \<Rightarrow> if e = Next then while_loop b c s' else Some (e, s')) else Some (Next, s))"

definition while_do :: "('s \<Rightarrow> bool) \<Rightarrow> ('s \<Rightarrow> exit \<times> 's) \<Rightarrow> 's \<Rightarrow> exit \<times> 's" where
  "while_do b c s = (case while_loop b c s of Some r \<Rightarrow> r | None \<Rightarrow> (Diverges, s))"

section \<open>Correctness of statements\<close>

definition exit_ok :: "('s \<Rightarrow> bool) \<Rightarrow> ('s \<Rightarrow> bool) \<Rightarrow> exit \<times> 's \<Rightarrow> bool" where
  "exit_ok Q X r \<longleftrightarrow> fst r \<noteq> Fault \<and> fst r \<noteq> Diverges \<and> (fst r = Next \<longrightarrow> Q (snd r)) \<and> (fst r = Custom_mutator_stage \<longrightarrow> X (snd r))"

definition triple :: "('s \<Rightarrow> bool) \<Rightarrow> ('s \<Rightarrow> exit \<times> 's) \<Rightarrow> ('s \<Rightarrow> bool) \<Rightarrow> ('s \<Rightarrow> bool) \<Rightarrow> bool" where
  "triple P c Q X \<longleftrightarrow> (\<forall>s. P s \<longrightarrow> exit_ok Q X (c s))"

lemma exit_ok_then:
  "exit_ok R X r \<Longrightarrow> (\<And>s. R s \<Longrightarrow> exit_ok Q X (k s))
     \<Longrightarrow> exit_ok Q X (case r of (e, s') \<Rightarrow> if e = Next then k s' else (e, s'))"
  by (cases r) (auto simp: exit_ok_def)

lemma triple_then:
  "triple P c R X \<Longrightarrow> triple R d Q X
     \<Longrightarrow> (\<And>s. f s = (case c s of (e, s') \<Rightarrow> if e = Next then d s' else (e, s'))) \<Longrightarrow> triple P f Q X"
  using exit_ok_then [of R X _ Q d] by (auto simp: triple_def)

lemma triple_conseq:
  "triple P' c Q' X \<Longrightarrow> (\<And>s. P s \<Longrightarrow> P' s) \<Longrightarrow> (\<And>s. Q' s \<Longrightarrow> Q s) \<Longrightarrow> triple P c Q X"
  unfolding triple_def exit_ok_def by blast

lemma triple_pre: "triple P' c Q X \<Longrightarrow> (\<And>s. P s \<Longrightarrow> P' s) \<Longrightarrow> triple P c Q X"
  by (erule triple_conseq)

lemma triple_seq_Nil: "(\<And>s. P s \<Longrightarrow> Q s) \<Longrightarrow> triple P (seq []) Q X"
  by (simp add: triple_def exit_ok_def)

lemma triple_seq_Cons: "triple P c R X \<Longrightarrow> triple R (seq cs) Q X \<Longrightarrow> triple P (seq (c # cs)) Q X"
  by (erule triple_then, assumption) simp

lemma triple_seq_all:
  assumes "\<And>c. c \<in> set cs \<Longrightarrow> triple P c P X"
  shows "triple P (seq cs) P X"
  using assms by (induction cs) (auto intro: triple_seq_Cons triple_seq_Nil)

lemma triple_for:
  assumes "\<And>x. x \<in> set xs \<Longrightarrow> triple P (c x) P X"
  shows "triple P (for_each c xs) P X"
  using assms
proof (induction xs)
  case Nil
  then show ?case by (simp add: triple_def exit_ok_def)
next
  case (Cons x xs)
  from Cons.prems [of x] have "triple P (c x) P X" by simp
  moreover have "triple P (for_each c xs) P X" by (rule Cons.IH) (simp add: Cons.prems)
  ultimately show ?case by (rule triple_then) simp
qed

lemma for_each_append:
  "for_each c (xs @ ys) s = (case for_each c xs s of (e, s') \<Rightarrow> if e = Next then for_each c ys s' else (e, s'))"
  by (induction xs arbitrary: s) (auto split: prod.splits)

lemma triple_for_index:
  assumes "\<And>i. i < n \<Longrightarrow> triple (P i) (c i) (P (Suc i)) X"
  shows "triple (P 0) (for_each c [0..<n]) (P n) X"
  using assms
proof (induction n)
  case 0
  then show ?case by (simp add: triple_def exit_ok_def)
next
  case (Suc n)
  then have "triple (P 0) (for_each c [0..<n]) (P n) X" by simp
  moreover from Suc.prems [of n] have "triple (P n) (c n) (P (Suc n)) X" by simp
  ultimately show ?case
    by (rule triple_then) (simp add: for_each_append split: prod.splits)
qed

lemma triple_cond:
  "triple (\<lambda>s. P s \<and> b s) c Q X \<Longrightarrow> triple (\<lambda>s. P s \<and> \<not> b s) d Q X \<Longrightarrow> triple P (cond b c d) Q X"
  by (simp add: triple_def cond_def)

lemma triple_upd: "(\<And>s. P s \<Longrightarrow> Q (f s)) \<Longrightarrow> triple P (upd f) Q X"
  by (simp add: triple_def exit_ok_def upd_def)

lemma triple_guarded: "(\<And>s. P s \<Longrightarrow> \<exists>s'. f s = Some s' \<and> Q s') \<Longrightarrow> triple P (guarded f) Q X"
  unfolding triple_def exit_ok_def guarded_def by fastforce

lemma triple_reading:
  "(\<And>s. P s \<Longrightarrow> \<exists>x. f s = Some x) \<Longrightarrow> (\<And>x. triple (\<lambda>s. P s \<and> f s = Some x) (c x) Q X) \<Longrightarrow> triple P (reading f c) Q X"
  unfolding triple_def reading_def by (fastforce split: option.splits)

lemma while_do_unfold:
  "exit_ok Q X (if b s then (case c s of (e, s') \<Rightarrow> if e = Next then while_do b c s' else (e, s')) else (Next, s))
     \<Longrightarrow> exit_ok Q X (while_do b c s)"
  unfolding while_do_def
  by (subst while_loop.simps) (auto simp: exit_ok_def split: prod.splits option.splits if_splits)

lemma triple_while:
  fixes m :: "'s \<Rightarrow> nat"
  assumes body: "\<And>k. triple (\<lambda>s. P s \<and> b s \<and> m s = k) c (\<lambda>s. P s \<and> m s < k) X"
    and finish: "\<And>s. P s \<Longrightarrow> \<not> b s \<Longrightarrow> Q s"
  shows "triple P (while_do b c) Q X"
proof -
  have "P s \<Longrightarrow> exit_ok Q X (while_do b c s)" for s
  proof (induction "m s" arbitrary: s rule: less_induct)
    case less
    show ?case
    proof (rule while_do_unfold, cases "b s")
      case True
      with body [of "m s"] less.prems have "exit_ok (\<lambda>s'. P s' \<and> m s' < m s) X (c s)"
        by (simp add: triple_def)
      then have "exit_ok Q X (case c s of (e, s') \<Rightarrow> if e = Next then while_do b c s' else (e, s'))"
        by (rule exit_ok_then) (use less.hyps in blast)
      with True show "exit_ok Q X (if b s then (case c s of (e, s') \<Rightarrow> if e = Next then while_do b c s' else (e, s'))
          else (Next, s))" by simp
    next
      case False
      with finish [OF less.prems] show "exit_ok Q X (if b s then (case c s of (e, s') \<Rightarrow> if e = Next
          then while_do b c s' else (e, s')) else (Next, s))" by (simp add: exit_ok_def)
    qed
  qed
  then show ?thesis by (simp add: triple_def)
qed

lemma triple_let: "(\<And>x. triple (\<lambda>s. P s \<and> f s = x) (c x) Q X) \<Longrightarrow> triple P (\<lambda>s. c (f s) s) Q X"
  by (simp add: triple_def)

lemma triple_Pure: "(\<And>s. P s \<Longrightarrow> exit_ok Q X (c s)) \<Longrightarrow> triple P c Q X"
  by (simp add: triple_def)

lemma triple_False: "(\<And>s. \<not> P s) \<Longrightarrow> triple P c Q X"
  by (simp add: triple_def)

lemma tripleD: "triple P c Q X \<Longrightarrow> P s \<Longrightarrow> exit_ok Q X (c s)"
  by (simp add: triple_def)

section \<open>Statements shared by the stages\<close>

definition bitmap_set :: "mem \<Rightarrow> nat \<Rightarrow> mem option" where
  "bitmap_set bmap index = do {
     b \<leftarrow> load8 bmap (index div 8);
     store8 bmap (index div 8) (b OR push_bit (index mod 8) 1) }"

definition bitmap_read :: "mem \<Rightarrow> nat \<Rightarrow> bool option" where
  "bitmap_read bmap index = do {
     b \<leftarrow> load8 bmap (index div 8);
     Some (drop_bit (index mod 8) b AND 1 \<noteq> 0) }"

text \<open>\<open>if (common_fuzz_stuff(afl, out_buf, len)) { goto abandon_entry; }\<close>\<close>

definition fuzz_stuff :: "'g stage_ops \<Rightarrow> nat \<Rightarrow> ('g, 'a) det_scheme \<Rightarrow> exit \<times> ('g, 'a) det_scheme" where
  "fuzz_stuff ops len s =
     (case common_fuzz_stuff ops (take len (out_buf s)) (env s) of
        (bail, g) \<Rightarrow> (if bail then Abandon_entry else Next, s\<lparr>env := g\<rparr>))"

definition MAX_EFF_TIMEOUT :: u64 where "MAX_EFF_TIMEOUT = 10 * 60 * 1000"
definition MAX_DET_TIMEOUT :: u64 where "MAX_DET_TIMEOUT = 15 * 60 * 1000"

definition is_det_timeout :: "'g stage_ops \<Rightarrow> u64 \<Rightarrow> bool \<Rightarrow> 'g \<Rightarrow> bool \<times> 'g" where
  "is_det_timeout ops cur_ms is_flip g =
     (case get_cur_time ops g of (now, g') \<Rightarrow>
        (if is_flip then now - cur_ms > MAX_EFF_TIMEOUT else now - cur_ms > MAX_DET_TIMEOUT, g'))"

text \<open>\<open>if (is_det_timeout(before_det_time, 0)) { goto custom_mutator_stage; }\<close>\<close>

definition check_timeout :: "'g stage_ops \<Rightarrow> u64 \<Rightarrow> bool \<Rightarrow> ('g, 'a) det_scheme \<Rightarrow> exit \<times> ('g, 'a) det_scheme" where
  "check_timeout ops before is_flip s =
     (case is_det_timeout ops before is_flip (env s) of
        (late, g) \<Rightarrow> (if late then Custom_mutator_stage else Next, s\<lparr>env := g\<rparr>))"

definition hit_cnt_now :: "'g stage_ops \<Rightarrow> 'g \<Rightarrow> u64" where
  "hit_cnt_now ops g = ucast (queued_items ops g) + saved_crashes ops g"

text \<open>The bookkeeping at the end of every stage.\<close>

definition stage_end :: "'g stage_ops \<Rightarrow> stage \<Rightarrow> ('g, 'a) det_scheme \<Rightarrow> exit \<times> ('g, 'a) det_scheme" where
  "stage_end ops st = upd (\<lambda>s.
     let new = hit_cnt_now ops (env s)
     in s\<lparr>new_hit_cnt := new,
          stage_finds := (stage_finds s)(st := stage_finds s st + (new - orig_hit_cnt s)),
          stage_cycles := (stage_cycles s)(st := stage_cycles s st + ucast (stage_max s))\<rparr>)"

text \<open>\<open>out_buf[k] = v\<close>\<close>

definition put_out :: "nat \<Rightarrow> u8 \<Rightarrow> ('g, 'a) det_scheme \<Rightarrow> exit \<times> ('g, 'a) det_scheme" where
  "put_out k v = guarded (\<lambda>s. map_option (\<lambda>b. s\<lparr>out_buf := b\<rparr>) (store8 (out_buf s) k v))"

text \<open>Whether byte \<open>i\<close> is selected by the effector map (a null map faults); the map has one bit per input byte.\<close>

definition eff_ok :: "nat \<Rightarrow> mem \<Rightarrow> bool" where
  "eff_ok len eff \<longleftrightarrow> (len + 7) div 8 \<le> length eff"

definition eff_read :: "('g, 'a) det_scheme \<Rightarrow> nat \<Rightarrow> bool option" where
  "eff_read s i = Option.bind (skip_eff_map s) (\<lambda>eff. bitmap_read eff i)"

lemma bitmap_read_Some: "index div 8 < length m \<Longrightarrow> \<exists>b. bitmap_read m index = Some b"
  by (simp add: bitmap_read_def)

lemma eff_ok_read: "eff_ok len eff \<Longrightarrow> i < len \<Longrightarrow> \<exists>b. bitmap_read eff i = Some b"
  by (rule bitmap_read_Some) (simp add: eff_ok_def less_le_trans [of "i div 8" "(len + 7) div 8"] div_less_iff_less_mult)

lemma triple_fuzz_stuff: "(\<And>s g. P s \<Longrightarrow> Q (s\<lparr>env := g\<rparr>)) \<Longrightarrow> triple P (fuzz_stuff ops len) Q X"
  unfolding triple_def fuzz_stuff_def exit_ok_def by (auto split: prod.splits if_splits)

lemma triple_check_timeout:
  "(\<And>s g. P s \<Longrightarrow> Q (s\<lparr>env := g\<rparr>)) \<Longrightarrow> (\<And>s g. P s \<Longrightarrow> X (s\<lparr>env := g\<rparr>)) \<Longrightarrow> triple P (check_timeout ops before fl) Q X"
  unfolding triple_def check_timeout_def exit_ok_def by (auto split: prod.splits if_splits)

text \<open>Reading back a bitmap after setting a bit.\<close>

lemma bitmap_read_bit: "index div 8 < length m \<Longrightarrow> bitmap_read m index = Some (bit (m ! (index div 8)) (index mod 8))"
  by (simp add: bitmap_read_def and_one_eq odd_iff_mod_2_eq_one [symmetric] bit_iff_odd_drop_bit)

lemma bitmap_set_read:
  assumes "i div 8 < length m" and "k div 8 < length m"
  shows "\<exists>m'. bitmap_set m i = Some m' \<and> length m' = length m
            \<and> bitmap_read m' k = Some (k = i \<or> bitmap_read m k = Some True)"
proof -
  define m' where "m' = m[i div 8 := m ! (i div 8) OR push_bit (i mod 8) 1]"
  have "bitmap_set m i = Some m'" using assms by (simp add: bitmap_set_def m'_def)
  moreover have "length m' = length m" by (simp add: m'_def)
  moreover have "bit (m' ! (k div 8)) (k mod 8) \<longleftrightarrow> k = i \<or> bit (m ! (k div 8)) (k mod 8)"
  proof (cases "k div 8 = i div 8")
    case True
    have "k mod 8 = i mod 8 \<longleftrightarrow> k = i" using True by (metis div_mult_mod_eq)
    moreover have "k mod 8 < 8" by simp
    ultimately show ?thesis using True assms by (auto simp: m'_def bit_simps)
  next
    case False
    then show ?thesis by (auto simp: m'_def)
  qed
  ultimately show ?thesis using assms by (auto simp: bitmap_read_bit)
qed

end
