(* ===== verification/Skipdet.thy ===== *)
theory Skipdet
  imports Stage
begin

text \<open>
  \<^verbatim>\<open>src/afl-fuzz-skipdet.c\<close>: which seeds and which of their bytes deserve deterministic fuzzing.
  \<open>should_det_fuzz\<close> picks the seeds whose trace has enough map bytes no deterministic run has covered yet;
  \<open>skip_deterministic_stage\<close> then infers, first by flipping whole blocks and then by replacing single bytes, an
  effector map with one bit per input byte. The local variables of the C function are fields of the state, the
  environment variables \<open>REPEAT_EFF\<close> and \<open>FUZZ_NEARBY\<close> are arguments. Lengths and offsets are below
  \<open>MAX_FILE\<close> in the program, so they are natural numbers here; counters that may wrap keep their width.
\<close>

record 'g skipdet = "'g det" +
  q_favored :: bool
  q_passed_det :: bool
  trace_mini :: "mem option"
  det_map_size :: nat
  continue_inf :: bool
  done_eff :: bool
  undet_bits :: u32
  quick_eff_bytes :: u32
  done_inf_map :: "mem option"
  undet_bits_threshold :: u32
  last_cov_undet :: u64
  virgin_det_bits :: "mem option"
  inf_skipped_bytes :: u32
  inf_execs_cost :: u64
  inf_time_cost :: u64
  inf_eff_map :: mem
  inf_pos :: nat
  cur_block_size :: nat
  inf_break :: bool
  eff_round_continue :: bool
  eff_round_done :: nat
  local_done_eff :: bool
  non_eff_bytes :: mem
  nearby_cksum :: u64
  before_skip_inf :: u32

section \<open>Choosing the seed\<close>

fun flip_from :: "mem \<Rightarrow> nat \<Rightarrow> nat list \<Rightarrow> mem option" where
  "flip_from input pos [] = Some input"
| "flip_from input pos (i # is) = do {
     b \<leftarrow> load8 input (pos + i);
     input \<leftarrow> store8 input (pos + i) (b XOR 0xFF);
     flip_from input pos is }"

definition flip_range :: "mem \<Rightarrow> nat \<Rightarrow> nat \<Rightarrow> mem option" where
  "flip_range input pos sz = flip_from input pos [0..<sz]"

fun count_new_det :: "mem \<Rightarrow> mem \<Rightarrow> nat list \<Rightarrow> nat option" where
  "count_new_det mini virgin [] = Some 0"
| "count_new_det mini virgin (i # is) = do {
     b \<leftarrow> load8 mini (i div 8);
     fresh \<leftarrow> (if b AND push_bit (i mod 8) 1 \<noteq> 0 then map_option (\<lambda>v. v = 0) (load8 virgin i) else Some False);
     n \<leftarrow> count_new_det mini virgin is;
     Some (if fresh then Suc n else n) }"

fun mark_det :: "mem \<Rightarrow> mem \<Rightarrow> nat list \<Rightarrow> mem option" where
  "mark_det mini virgin [] = Some virgin"
| "mark_det mini virgin (i # is) = do {
     b \<leftarrow> load8 mini (i div 8);
     fresh \<leftarrow> (if b AND push_bit (i mod 8) 1 \<noteq> 0 then map_option (\<lambda>v. v = 0) (load8 virgin i) else Some False);
     virgin \<leftarrow> (if fresh then store8 virgin i 1 else Some virgin);
     mark_det mini virgin is }"

definition THRESHOLD_DEC_TIME :: u64 where "THRESHOLD_DEC_TIME = 20 * 60 * 1000"

definition touch_last_cov :: "'g stage_ops \<Rightarrow> ('g, 'a) skipdet_scheme \<Rightarrow> ('g, 'a) skipdet_scheme" where
  "touch_last_cov ops s = (case get_cur_time ops (env s) of (now, g) \<Rightarrow> s\<lparr>env := g, last_cov_undet := now\<rparr>)"

text \<open>The products with \<open>0.75\<close> and \<open>0.05\<close> are truncated to \<open>u32\<close>.\<close>

definition lower_threshold :: "'g stage_ops \<Rightarrow> ('g, 'a) skipdet_scheme \<Rightarrow> ('g, 'a) skipdet_scheme" where
  "lower_threshold ops s =
     (case get_cur_time ops (env s) of (now, g) \<Rightarrow>
        let s = s\<lparr>env := g\<rparr>
        in if now - last_cov_undet s \<ge> THRESHOLD_DEC_TIME \<and> undet_bits_threshold s \<ge> 2
           then touch_last_cov ops
                  (s\<lparr>undet_bits_threshold := word_of_nat (unat (undet_bits_threshold s) * 3 div 4)\<rparr>)
           else s)"

definition det_clock :: "'g stage_ops \<Rightarrow> ('g, 'a) skipdet_scheme \<Rightarrow> ('g, 'a) skipdet_scheme" where
  "det_clock ops s = lower_threshold ops (if last_cov_undet s = 0 then touch_last_cov ops s else s)"

definition init_threshold :: "nat \<Rightarrow> ('g, 'a) skipdet_scheme \<Rightarrow> ('g, 'a) skipdet_scheme" where
  "init_threshold n s =
     (if undet_bits_threshold s = 0 then s\<lparr>undet_bits_threshold := word_of_nat (n div 20)\<rparr> else s)"

definition should_det_fuzz :: "'g stage_ops \<Rightarrow> ('g, 'a) skipdet_scheme \<Rightarrow> (bool \<times> ('g, 'a) skipdet_scheme) option" where
  "should_det_fuzz ops s0 =
     (let virgin = (case virgin_det_bits s0 of None \<Rightarrow> replicate (det_map_size s0) 0 | Some v \<Rightarrow> v);
          s = s0\<lparr>virgin_det_bits := Some virgin\<rparr>
      in if \<not> q_favored s \<or> q_passed_det s then Some (False, s)
         else case trace_mini s of
           None \<Rightarrow> Some (False, s)
         | Some mini \<Rightarrow> do {
             let s = det_clock ops s;
             n \<leftarrow> count_new_det mini virgin [0..<det_map_size s];
             let s = init_threshold n s;
             if word_of_nat n \<ge> undet_bits_threshold s
             then do {
               let s = (touch_last_cov ops s)\<lparr>undet_bits := word_of_nat n\<rparr>;
               virgin' \<leftarrow> mark_det mini virgin [0..<det_map_size s];
               Some (True, s\<lparr>virgin_det_bits := Some virgin'\<rparr>) }
             else Some (False, s) })"

section \<open>Block inference\<close>

definition MINIMAL_BLOCK_SIZE :: nat where "MINIMAL_BLOCK_SIZE = 64"

text \<open>\<open>memset(m + pos, v, n)\<close>\<close>

definition memset :: "'b list \<Rightarrow> nat \<Rightarrow> 'b \<Rightarrow> nat \<Rightarrow> 'b list option" where
  "memset m pos v n = (if pos + n \<le> length m then Some (take pos m @ replicate n v @ drop (pos + n) m) else None)"

definition flip_out :: "nat \<Rightarrow> nat \<Rightarrow> ('g, 'a) det_scheme \<Rightarrow> exit \<times> ('g, 'a) det_scheme" where
  "flip_out pos sz = guarded (\<lambda>s. map_option (\<lambda>b. s\<lparr>out_buf := b\<rparr>) (flip_range (out_buf s) pos sz))"

text \<open>The body of the inner loop, which grows the block while flipping it leaves the trace unchanged.\<close>

definition inf_try_block :: "'g stage_ops \<Rightarrow> nat \<Rightarrow> u64 \<Rightarrow> ('g, 'a) skipdet_scheme \<Rightarrow> exit \<times> ('g, 'a) skipdet_scheme" where
  "inf_try_block ops len base s =
     (let pos = inf_pos s; cur = cur_block_size s;
          flip_block_size = (if cur + pos < len then cur else len - 1 - pos)
      in seq [upd (\<lambda>s. s\<lparr>stage_cur := stage_cur s + 1\<rparr>),
              flip_out pos flip_block_size,
              fuzz_stuff ops len,
              flip_out pos flip_block_size,
              upd (\<lambda>s. if trace_cksum ops (env s) = base
                       then s\<lparr>cur_block_size := cur * 2, inf_break := (cur * 2 \<ge> len - 1 - pos)\<rparr>
                       else s\<lparr>inf_break := True\<rparr>)] s)"

definition inf_inner :: "'g stage_ops \<Rightarrow> nat \<Rightarrow> u64 \<Rightarrow> ('g, 'a) skipdet_scheme \<Rightarrow> exit \<times> ('g, 'a) skipdet_scheme" where
  "inf_inner ops len base =
     while_do (\<lambda>s. cur_block_size s < len div 8 \<and> \<not> inf_break s) (inf_try_block ops len base)"

definition inf_advance :: "nat \<Rightarrow> ('g, 'a) skipdet_scheme \<Rightarrow> ('g, 'a) skipdet_scheme option" where
  "inf_advance len s =
     (if cur_block_size s = MINIMAL_BLOCK_SIZE then Some (s\<lparr>inf_pos := inf_pos s + cur_block_size s\<rparr>)
      else do {
        let cur_skip_len = (if cur_block_size s div 2 + inf_pos s < len then cur_block_size s div 2
                            else len - inf_pos s - 1);
        m \<leftarrow> memset (inf_eff_map s) (inf_pos s) 0 cur_skip_len;
        Some (s\<lparr>inf_eff_map := m, inf_skipped_bytes := inf_skipped_bytes s + word_of_nat cur_skip_len,
                inf_pos := inf_pos s + cur_skip_len\<rparr>) })"

definition inf_loop :: "'g stage_ops \<Rightarrow> nat \<Rightarrow> u64 \<Rightarrow> ('g, 'a) skipdet_scheme \<Rightarrow> exit \<times> ('g, 'a) skipdet_scheme" where
  "inf_loop ops len base =
     while_do (\<lambda>s. inf_pos s < len - 1)
       (seq [upd (\<lambda>s. s\<lparr>cur_block_size := MINIMAL_BLOCK_SIZE, inf_break := False\<rparr>),
             inf_inner ops len base,
             guarded (inf_advance len)])"

definition skip_inference :: "'g stage_ops \<Rightarrow> mem \<Rightarrow> nat \<Rightarrow> ('g, 'a) skipdet_scheme \<Rightarrow> exit \<times> ('g, 'a) skipdet_scheme" where
  "skip_inference ops orig_buf len =
     seq [upd (\<lambda>s. s\<lparr>stage_cur := 0, orig_hit_cnt := hit_cnt_now ops (env s), inf_eff_map := replicate len 1\<rparr>),
          reading (\<lambda>s. read_block orig_buf 0 len) (\<lambda>buf s.
            case common_fuzz_stuff ops buf (env s) of (bail, g) \<Rightarrow> (if bail then Abandon_entry else Next, s\<lparr>env := g\<rparr>)),
          cond (\<lambda>s. MINIMAL_BLOCK_SIZE * 8 < len)
            (\<lambda>s. let base = trace_cksum ops (env s); execs = total_execs ops (env s);
                     (time, g) = get_cur_time ops (env s)
                 in seq [upd (\<lambda>s. s\<lparr>inf_pos := 0, cur_block_size := MINIMAL_BLOCK_SIZE\<rparr>),
                         inf_loop ops len base,
                         upd (\<lambda>s. case get_cur_time ops (env s) of (now, g) \<Rightarrow>
                                s\<lparr>inf_execs_cost := inf_execs_cost s + (total_execs ops (env s) - execs),
                                  inf_time_cost := inf_time_cost s + (now - time), env := g\<rparr>)]
                      (s\<lparr>env := g\<rparr>))
            (upd (\<lambda>s. s\<lparr>inf_eff_map := replicate len 1\<rparr>)),
          upd (\<lambda>s. let new = hit_cnt_now ops (env s)
                   in s\<lparr>new_hit_cnt := new,
                        stage_finds := (stage_finds s)(STAGE_INF := stage_finds s STAGE_INF + (new - orig_hit_cnt s)),
                        stage_cycles := (stage_cycles s)(STAGE_INF := stage_cycles s STAGE_INF + ucast (stage_cur s))\<rparr>)]"

section \<open>The quick effector map\<close>

fun first_undone :: "mem \<Rightarrow> nat list \<Rightarrow> nat \<Rightarrow> nat option" where
  "first_undone m [] len = Some len"
| "first_undone m (i # is) len = do { d \<leftarrow> bitmap_read m i; if \<not> d then Some i else first_undone m is len }"

definition quick_prepare :: "'g stage_ops \<Rightarrow> nat \<Rightarrow> ('g, 'a) skipdet_scheme \<Rightarrow> ('g, 'a) skipdet_scheme option" where
  "quick_prepare ops len s = do {
     let s = s\<lparr>stage_cur := 0, stage_max := 32 * 1024, orig_hit_cnt := hit_cnt_now ops (env s),
               before_skip_inf := queued_items ops (env s)\<rparr>;
     eff \<leftarrow> (case skip_eff_map s of None \<Rightarrow> Some (replicate ((len + 7) div 8) 0)
                                 | Some m \<Rightarrow> memset m 0 0 ((len + 7) div 8));
     let s = s\<lparr>skip_eff_map := Some eff\<rparr>;
     case done_inf_map s of
       None \<Rightarrow> Some (s\<lparr>done_inf_map := Some (replicate ((len + 7) div 8) 0)\<rparr>)
     | Some m \<Rightarrow> do { k \<leftarrow> first_undone m [0..<len] len; Some (s\<lparr>stage_cur := word_of_nat k\<rparr>) } }"

text \<open>\<open>while (replace == orig) { replace = rand_below(afl, 256); }\<close>\<close>

partial_function (option) draw_other :: "'g stage_ops \<Rightarrow> u8 \<Rightarrow> 'g \<Rightarrow> (u8 \<times> 'g) option" where
  "draw_other ops orig g =
     (case rand_below_op ops 256 g of (r, g') \<Rightarrow>
        if ucast r = orig then draw_other ops orig g' else Some (ucast r, g'))"

definition MAXIMUM_QUICK_EFF_EXECS :: u32 where "MAXIMUM_QUICK_EFF_EXECS = 64 * 1024"

text \<open>What is recorded after the byte has been replaced, run and restored.\<close>

definition quick_record :: "'g stage_ops \<Rightarrow> bool \<Rightarrow> bool \<Rightarrow> nat \<Rightarrow> ('g, 'a) skipdet_scheme \<Rightarrow> ('g, 'a) skipdet_scheme option" where
  "quick_record ops repeat_eff fuzz_nearby k s = do {
     s \<leftarrow> (if fuzz_nearby \<and> nearby_cksum s = trace_cksum ops (env s)
           then map_option (\<lambda>m. s\<lparr>non_eff_bytes := m\<rparr>) (store8 (non_eff_bytes s) k 1) else Some s);
     s \<leftarrow> (if queued_items ops (env s) \<noteq> before_skip_inf s
           then do {
             eff \<leftarrow> skip_eff_map s;
             eff \<leftarrow> bitmap_set eff k;
             let s = s\<lparr>skip_eff_map := Some eff, quick_eff_bytes := quick_eff_bytes s + 1\<rparr>;
             let s = (if stage_max s < MAXIMUM_QUICK_EFF_EXECS then s\<lparr>stage_max := stage_max s * 2\<rparr> else s);
             Some (if stage_max s = MAXIMUM_QUICK_EFF_EXECS \<and> repeat_eff then s\<lparr>eff_round_continue := True\<rparr> else s) }
           else Some s);
     m \<leftarrow> done_inf_map s;
     m \<leftarrow> bitmap_set m k;
     Some (s\<lparr>done_inf_map := Some m\<rparr>) }"

definition quick_replace ::
  "'g stage_ops \<Rightarrow> bool \<Rightarrow> bool \<Rightarrow> nat \<Rightarrow> u64 \<Rightarrow> nat \<Rightarrow> ('g, 'a) skipdet_scheme \<Rightarrow> exit \<times> ('g, 'a) skipdet_scheme" where
  "quick_replace ops repeat_eff fuzz_nearby len before k =
     seq [check_timeout ops before True,
          reading (\<lambda>s. load8 (out_buf s) k) (\<lambda>orig s.
            case draw_other ops orig (env s) of
              None \<Rightarrow> (Diverges, s)
            | Some (replace, g) \<Rightarrow>
                seq [upd (\<lambda>s. s\<lparr>env := g\<rparr>),
                     put_out k replace,
                     upd (\<lambda>s. s\<lparr>before_skip_inf := queued_items ops (env s)\<rparr>),
                     fuzz_stuff ops len,
                     put_out k orig] s),
          guarded (quick_record ops repeat_eff fuzz_nearby k)]"

definition quick_byte ::
  "'g stage_ops \<Rightarrow> bool \<Rightarrow> bool \<Rightarrow> nat \<Rightarrow> u64 \<Rightarrow> ('g, 'a) skipdet_scheme \<Rightarrow> exit \<times> ('g, 'a) skipdet_scheme" where
  "quick_byte ops repeat_eff fuzz_nearby len before s0 =
     (let k = unat (stage_cur s0)
      in seq [upd (\<lambda>s. s\<lparr>stage_cur_byte := stage_cur s\<rparr>),
              reading (\<lambda>s. load8 (inf_eff_map s) k) (\<lambda>e.
                cond (\<lambda>s. e = 0) (upd (\<lambda>s. s)) (reading (\<lambda>s. eff_read s k) (\<lambda>d.
                  cond (\<lambda>s. d) (upd (\<lambda>s. s)) (quick_replace ops repeat_eff fuzz_nearby len before k)))),
              upd (\<lambda>s. s\<lparr>stage_cur := stage_cur s + 1\<rparr>)] s0)"

definition quick_rounds ::
  "'g stage_ops \<Rightarrow> bool \<Rightarrow> bool \<Rightarrow> nat \<Rightarrow> u64 \<Rightarrow> ('g, 'a) skipdet_scheme \<Rightarrow> exit \<times> ('g, 'a) skipdet_scheme" where
  "quick_rounds ops repeat_eff fuzz_nearby len before =
     while_do (\<lambda>s. eff_round_continue s \<and> eff_round_done s < 8)
       (seq [upd (\<lambda>s. s\<lparr>eff_round_continue := False, stage_max := 32 * 1024\<rparr>),
             while_do (\<lambda>s. stage_cur s < stage_max s \<and> unat (stage_cur s) < len)
               (quick_byte ops repeat_eff fuzz_nearby len before),
             upd (\<lambda>s. s\<lparr>stage_cur := 0, local_done_eff := True, eff_round_done := eff_round_done s + 1\<rparr>)])"

section \<open>Bytes near an effective byte\<close>

text \<open>\<open>while (i < len) { if (bitmap_read(skip_eff_map, i)) { memset(nearby_bytes + i - 3, \<dots>); i += 3; } else i += 1; }\<close>\<close>

function nearby_loop :: "mem \<Rightarrow> nat \<Rightarrow> nat \<Rightarrow> mem \<Rightarrow> mem option" where
  "nearby_loop eff len i nearby =
     (if i < len then do {
        d \<leftarrow> bitmap_read eff i;
        if d then do {
          let fill_length = (if i + 3 < len then 7 else len - i + 2);
          if i < 3 then None else do {
          nearby \<leftarrow> memset nearby (i - 3) 1 fill_length;
          nearby_loop eff len (i + 3) nearby } }
        else nearby_loop eff len (i + 1) nearby }
      else Some nearby)"
  by pat_completeness auto
termination
  by (relation "measure (\<lambda>(eff, len, i, nearby). len - i)") auto

declare nearby_loop.simps [simp del]

fun nearby_mark :: "mem \<Rightarrow> mem \<Rightarrow> nat list \<Rightarrow> mem \<Rightarrow> mem option" where
  "nearby_mark nearby non_eff [] eff = Some eff"
| "nearby_mark nearby non_eff (i # is) eff = do {
     a \<leftarrow> load8 nearby i;
     b \<leftarrow> load8 non_eff i;
     eff \<leftarrow> (if a \<noteq> 0 \<and> b = 0 then bitmap_set eff i else Some eff);
     nearby_mark nearby non_eff is eff }"

definition cleanup_skipdet :: "bool \<Rightarrow> nat \<Rightarrow> ('g, 'a) skipdet_scheme \<Rightarrow> ('g, 'a) skipdet_scheme option" where
  "cleanup_skipdet fuzz_nearby len s = do {
     s \<leftarrow> (if fuzz_nearby then do {
             eff \<leftarrow> skip_eff_map s;
             nearby \<leftarrow> nearby_loop eff len 3 (replicate len 0);
             eff \<leftarrow> nearby_mark nearby (non_eff_bytes s) [0..<len] eff;
             Some (s\<lparr>skip_eff_map := Some eff\<rparr>) }
           else Some s);
     Some (if local_done_eff s then s\<lparr>continue_inf := False, done_eff := True\<rparr> else s\<lparr>continue_inf := True\<rparr>) }"

section \<open>The whole stage\<close>

definition quick_stage ::
  "'g stage_ops \<Rightarrow> bool \<Rightarrow> bool \<Rightarrow> nat \<Rightarrow> u64 \<Rightarrow> ('g, 'a) skipdet_scheme \<Rightarrow> exit \<times> ('g, 'a) skipdet_scheme" where
  "quick_stage ops repeat_eff fuzz_nearby len before =
     seq [guarded (quick_prepare ops len),
          upd (\<lambda>s. s\<lparr>eff_round_continue := True, eff_round_done := 0, local_done_eff := False\<rparr>),
          (\<lambda>s. let execs = total_execs ops (env s)
               in seq [cond (\<lambda>s. fuzz_nearby)
                         (seq [upd (\<lambda>s. s\<lparr>non_eff_bytes := replicate len 0\<rparr>),
                               fuzz_stuff ops len,
                               upd (\<lambda>s. s\<lparr>nearby_cksum := trace_cksum ops (env s)\<rparr>)])
                         (upd (\<lambda>s. s)),
                       quick_rounds ops repeat_eff fuzz_nearby len before,
                       upd (\<lambda>s. let new = hit_cnt_now ops (env s)
                          in s\<lparr>new_hit_cnt := new,
                               stage_finds := (stage_finds s)(STAGE_QUICK := stage_finds s STAGE_QUICK + (new - orig_hit_cnt s)),
                               stage_cycles := (stage_cycles s)(STAGE_QUICK :=
                                 stage_cycles s STAGE_QUICK + (total_execs ops (env s) - execs))\<rparr>)] s)]"

text \<open>Returns 0 as \<open>Abandon_entry\<close> and 1 as \<open>Next\<close>; a timeout jumps to \<open>cleanup_skipdet\<close>.\<close>

definition skip_deterministic_stage ::
  "'g stage_ops \<Rightarrow> bool \<Rightarrow> bool \<Rightarrow> mem \<Rightarrow> nat \<Rightarrow> u64 \<Rightarrow> ('g, 'a) skipdet_scheme \<Rightarrow> exit \<times> ('g, 'a) skipdet_scheme" where
  "skip_deterministic_stage ops repeat_eff fuzz_nearby orig_buf len before s =
     (if done_eff s then (Next, s)
      else case should_det_fuzz ops s of
        None \<Rightarrow> (Fault, s)
      | Some (False, s) \<Rightarrow> (Next, s)
      | Some (True, s) \<Rightarrow>
          (case seq [skip_inference ops orig_buf len, quick_stage ops repeat_eff fuzz_nearby len before] s of
             (e, s') \<Rightarrow> if e = Next \<or> e = Custom_mutator_stage then guarded (cleanup_skipdet fuzz_nearby len) s'
                        else (e, s')))"


section \<open>Lemmas\<close>

lemma flip_from_append: "flip_from b pos (xs @ ys) = Option.bind (flip_from b pos xs) (\<lambda>b. flip_from b pos ys)"
  by (induction b pos xs rule: flip_from.induct) (auto split: Option.bind_splits)

lemma flip_range_nth:
  "pos + sz \<le> length b \<Longrightarrow> \<exists>b'. flip_range b pos sz = Some b' \<and> length b' = length b
     \<and> (\<forall>k. b' ! k = (if pos \<le> k \<and> k < pos + sz then b ! k XOR 0xFF else b ! k))"
proof (induction sz)
  case 0
  then show ?case by (auto simp: flip_range_def)
next
  case (Suc sz)
  then obtain b' where b': "flip_range b pos sz = Some b'" "length b' = length b"
      "\<forall>k. b' ! k = (if pos \<le> k \<and> k < pos + sz then b ! k XOR 0xFF else b ! k)" by auto
  let ?b = "b'[pos + sz := b' ! (pos + sz) XOR 0xFF]"
  have "flip_range b pos (Suc sz) = Some ?b"
    using b'(1,2) Suc.prems by (simp add: flip_range_def flip_from_append)
  moreover have "?b ! k = (if pos \<le> k \<and> k < pos + Suc sz then b ! k XOR 0xFF else b ! k)" for k
    using b'(2,3) Suc.prems by (cases "k = pos + sz") auto
  ultimately show ?case using b'(2) by auto
qed

lemma flip_range_twice:
  assumes "pos + sz \<le> length b"
  shows "\<exists>b'. flip_range b pos sz = Some b' \<and> length b' = length b \<and> flip_range b' pos sz = Some b"
proof -
  from flip_range_nth [OF assms] obtain b' where b': "flip_range b pos sz = Some b'" "length b' = length b"
      "\<forall>k. b' ! k = (if pos \<le> k \<and> k < pos + sz then b ! k XOR 0xFF else b ! k)" by blast
  from flip_range_nth [of pos sz b'] assms b'(2) obtain b'' where b'': "flip_range b' pos sz = Some b''"
      "length b'' = length b'" "\<forall>k. b'' ! k = (if pos \<le> k \<and> k < pos + sz then b' ! k XOR 0xFF else b' ! k)" by auto
  have "b'' = b"
    using b'(2,3) b''(2,3) by (intro nth_equalityI) (auto simp: xor.assoc)
  with b' b'' show ?thesis by blast
qed

lemma memset_Some: "pos + n \<le> length m \<Longrightarrow> \<exists>m'. memset m pos v n = Some m' \<and> length m' = length m"
  by (simp add: memset_def)

text \<open>What the inference keeps: the input buffer and the sizes of the maps.\<close>

definition sk_inv :: "mem \<Rightarrow> nat \<Rightarrow> ('g, 'a) skipdet_scheme \<Rightarrow> bool" where
  "sk_inv b len s \<longleftrightarrow> out_buf s = b \<and> length (inf_eff_map s) = len
     \<and> (\<forall>m. skip_eff_map s = Some m \<longrightarrow> eff_ok len m) \<and> (\<forall>m. done_inf_map s = Some m \<longrightarrow> eff_ok len m)"

lemma triple_flip_out:
  "triple (\<lambda>s. out_buf s = b \<and> R s) (flip_out pos sz) (\<lambda>s. out_buf s = b' \<and> R s) X"
  if "flip_range b pos sz = Some b'" and "\<And>s c. R s \<Longrightarrow> R (s\<lparr>out_buf := c\<rparr>)"
  unfolding flip_out_def using that by (intro triple_guarded) auto

lemma inf_try_block_triple:
  assumes "len \<le> length b" and "p < len - 1" and "0 < c"
  shows "triple (\<lambda>s. sk_inv b len s \<and> inf_pos s = p \<and> cur_block_size s = c \<and> c < len \<and> \<not> inf_break s)
           (inf_try_block ops len base)
           (\<lambda>s. sk_inv b len s \<and> inf_pos s = p \<and> cur_block_size s \<ge> c
                \<and> (inf_break s \<or> cur_block_size s > c)) X"
proof -
  define fl where "fl = (if c + p < len then c else len - 1 - p)"
  have "p + fl \<le> length b" using assms by (auto simp: fl_def)
  from flip_range_twice [OF this] obtain b' where
    flip: "flip_range b p fl = Some b'" "flip_range b' p fl = Some b" by blast
  let ?R = "\<lambda>s. length (inf_eff_map s) = len \<and> (\<forall>m. skip_eff_map s = Some m \<longrightarrow> eff_ok len m)
     \<and> (\<forall>m. done_inf_map s = Some m \<longrightarrow> eff_ok len m) \<and> inf_pos s = p \<and> cur_block_size s = c \<and> c < len \<and> \<not> inf_break s"
  have "triple (\<lambda>s. out_buf s = b \<and> ?R s)
     (seq [upd (\<lambda>s. s\<lparr>stage_cur := stage_cur s + 1\<rparr>), flip_out p fl, fuzz_stuff ops len, flip_out p fl,
           upd (\<lambda>s. if trace_cksum ops (env s) = base
                    then s\<lparr>cur_block_size := c * 2, inf_break := (c * 2 \<ge> len - 1 - p)\<rparr> else s\<lparr>inf_break := True\<rparr>)])
     (\<lambda>s. sk_inv b len s \<and> inf_pos s = p \<and> cur_block_size s \<ge> c \<and> (inf_break s \<or> cur_block_size s > c)) X"
    using assms
    by (intro triple_seq_Cons [where R = "\<lambda>s. out_buf s = b \<and> ?R s", OF triple_upd]
        triple_seq_Cons [where R = "\<lambda>s. out_buf s = b' \<and> ?R s", OF triple_flip_out [OF flip(1)]]
        triple_seq_Cons [where R = "\<lambda>s. out_buf s = b' \<and> ?R s", OF triple_fuzz_stuff]
        triple_seq_Cons [where R = "\<lambda>s. out_buf s = b \<and> ?R s", OF triple_flip_out [OF flip(2)]]
        triple_seq_Cons [OF triple_upd triple_seq_Nil])
       (auto simp: sk_inv_def)
  then show ?thesis
    by (auto simp: triple_def inf_try_block_def Let_def fl_def sk_inv_def)
qed


lemma inf_inner_triple:
  assumes "len \<le> length b" and "p < len - 1"
  shows "triple (\<lambda>s. sk_inv b len s \<and> inf_pos s = p \<and> MINIMAL_BLOCK_SIZE \<le> cur_block_size s)
           (inf_inner ops len base)
           (\<lambda>s. sk_inv b len s \<and> inf_pos s = p \<and> MINIMAL_BLOCK_SIZE \<le> cur_block_size s) X"
  unfolding inf_inner_def
proof (rule triple_while [where m = "\<lambda>s. if inf_break s then 0 else Suc (len - cur_block_size s)"])
  fix k
  show "triple (\<lambda>s. (sk_inv b len s \<and> inf_pos s = p \<and> MINIMAL_BLOCK_SIZE \<le> cur_block_size s)
      \<and> (cur_block_size s < len div 8 \<and> \<not> inf_break s)
      \<and> (if inf_break s then 0 else Suc (len - cur_block_size s)) = k)
    (inf_try_block ops len base)
    (\<lambda>s. (sk_inv b len s \<and> inf_pos s = p \<and> MINIMAL_BLOCK_SIZE \<le> cur_block_size s)
      \<and> (if inf_break s then 0 else Suc (len - cur_block_size s)) < k) X"
  proof (rule triple_Pure)
    fix s :: "('a, 'b) skipdet_scheme"
    assume *: "(sk_inv b len s \<and> inf_pos s = p \<and> MINIMAL_BLOCK_SIZE \<le> cur_block_size s)
      \<and> (cur_block_size s < len div 8 \<and> \<not> inf_break s)
      \<and> (if inf_break s then 0 else Suc (len - cur_block_size s)) = k"
    then have c: "0 < cur_block_size s" "cur_block_size s < len" by (auto simp: MINIMAL_BLOCK_SIZE_def)
    from tripleD [OF inf_try_block_triple [OF assms c(1), of ops base X]] * c
    have "exit_ok (\<lambda>s'. sk_inv b len s' \<and> inf_pos s' = p \<and> cur_block_size s' \<ge> cur_block_size s
                \<and> (inf_break s' \<or> cur_block_size s' > cur_block_size s)) X (inf_try_block ops len base s)"
      by blast
    with * c show "exit_ok (\<lambda>s. (sk_inv b len s \<and> inf_pos s = p \<and> MINIMAL_BLOCK_SIZE \<le> cur_block_size s)
      \<and> (if inf_break s then 0 else Suc (len - cur_block_size s)) < k) X (inf_try_block ops len base s)"
      by (auto simp: exit_ok_def)
  qed
qed simp

lemma inf_advance_ok:
  assumes "sk_inv b len s" and "inf_pos s < len - 1" and "MINIMAL_BLOCK_SIZE \<le> cur_block_size s"
  shows "\<exists>s'. inf_advance len s = Some s' \<and> sk_inv b len s' \<and> inf_pos s < inf_pos s'"
proof (cases "cur_block_size s = MINIMAL_BLOCK_SIZE")
  case True
  then show ?thesis using assms by (simp add: inf_advance_def sk_inv_def MINIMAL_BLOCK_SIZE_def)
next
  case False
  define sl where "sl = (if cur_block_size s div 2 + inf_pos s < len then cur_block_size s div 2 else len - inf_pos s - 1)"
  have "0 < sl" "inf_pos s + sl \<le> len"
    using assms(2,3) by (auto simp: sl_def MINIMAL_BLOCK_SIZE_def)
  then show ?thesis
    using False assms(1) memset_Some [of "inf_pos s" sl "inf_eff_map s" 0]
    by (auto simp: inf_advance_def sk_inv_def Let_def sl_def [symmetric])
qed

lemma inf_loop_triple:
  assumes "len \<le> length b"
  shows "triple (sk_inv b len) (inf_loop ops len base) (sk_inv b len) X"
  unfolding inf_loop_def
proof (rule triple_while [where m = "\<lambda>s. len - inf_pos s"])
  fix k
  show "triple (\<lambda>s. sk_inv b len s \<and> inf_pos s < len - 1 \<and> len - inf_pos s = k)
     (seq [upd (\<lambda>s. s\<lparr>cur_block_size := MINIMAL_BLOCK_SIZE, inf_break := False\<rparr>), inf_inner ops len base,
           guarded (inf_advance len)])
     (\<lambda>s. sk_inv b len s \<and> len - inf_pos s < k) X"
  proof (cases "0 < k \<and> k \<le> len \<and> len - k < len - 1")
    case True
    let ?p = "len - k"
    let ?R = "\<lambda>s :: ('a, 'b) skipdet_scheme. sk_inv b len s \<and> inf_pos s = ?p \<and> MINIMAL_BLOCK_SIZE \<le> cur_block_size s"
    have 1: "triple (\<lambda>s. sk_inv b len s \<and> inf_pos s < len - 1 \<and> len - inf_pos s = k)
       (upd (\<lambda>s. s\<lparr>cur_block_size := MINIMAL_BLOCK_SIZE, inf_break := False\<rparr>)) ?R X"
      by (rule triple_upd) (auto simp: sk_inv_def)
    have 2: "triple ?R (guarded (inf_advance len)) (\<lambda>s. sk_inv b len s \<and> len - inf_pos s < k) X"
    proof (rule triple_guarded)
      fix s :: "('a, 'b) skipdet_scheme"
      assume "?R s"
      with True inf_advance_ok [of b len s] obtain s' where
        "inf_advance len s = Some s'" "sk_inv b len s'" "?p < inf_pos s'" by auto
      moreover have "len - inf_pos s' < k" using \<open>?p < inf_pos s'\<close> True by linarith
      ultimately show "\<exists>s'. inf_advance len s = Some s' \<and> sk_inv b len s' \<and> len - inf_pos s' < k" by blast
    qed
    show ?thesis
      using True by (intro triple_seq_Cons [OF 1] triple_seq_Cons [OF inf_inner_triple [OF assms]]
          triple_seq_Cons [OF 2] triple_seq_Nil) auto
  next
    case False
    then show ?thesis by (intro triple_False) auto
  qed
qed simp


lemma skip_inference_triple:
  assumes "len \<le> length b" and "len \<le> length orig_buf"
  shows "triple (\<lambda>s. sk_inv b len (s\<lparr>inf_eff_map := replicate len 1\<rparr>)) (skip_inference ops orig_buf len) (sk_inv b len) X"
  unfolding skip_inference_def
proof (intro triple_seq_Cons [where R = "sk_inv b len"] triple_seq_Nil triple_cond)
  show "triple (\<lambda>s. sk_inv b len s \<and> MINIMAL_BLOCK_SIZE * 8 < len)
     (\<lambda>s. let base = trace_cksum ops (env s); execs = total_execs ops (env s); (time, g) = get_cur_time ops (env s)
          in seq [upd (\<lambda>s. s\<lparr>inf_pos := 0, cur_block_size := MINIMAL_BLOCK_SIZE\<rparr>), inf_loop ops len base,
                  upd (\<lambda>s. case get_cur_time ops (env s) of (now, g) \<Rightarrow>
                         s\<lparr>inf_execs_cost := inf_execs_cost s + (total_execs ops (env s) - execs),
                           inf_time_cost := inf_time_cost s + (now - time), env := g\<rparr>)] (s\<lparr>env := g\<rparr>))
     (sk_inv b len) X"
  proof (rule triple_Pure)
    fix s :: "('a, 'b) skipdet_scheme"
    assume *: "sk_inv b len s \<and> MINIMAL_BLOCK_SIZE * 8 < len"
    obtain time g where g: "get_cur_time ops (env s) = (time, g)" by (cases "get_cur_time ops (env s)")
    have "triple (sk_inv b len)
       (seq [upd (\<lambda>s. s\<lparr>inf_pos := 0, cur_block_size := MINIMAL_BLOCK_SIZE\<rparr>),
             inf_loop ops len (trace_cksum ops (env s)),
             upd (\<lambda>s'. case get_cur_time ops (env s') of (now, g) \<Rightarrow>
                         s'\<lparr>inf_execs_cost := inf_execs_cost s' + (total_execs ops (env s') - total_execs ops (env s)),
                           inf_time_cost := inf_time_cost s' + (now - time), env := g\<rparr>)]) (sk_inv b len) X"
      by (intro triple_seq_Cons [where R = "sk_inv b len"] triple_seq_Nil triple_upd inf_loop_triple assms(1))
         (auto simp: sk_inv_def split: prod.splits)
    from tripleD [OF this, of "s\<lparr>env := g\<rparr>"] * g show "exit_ok (sk_inv b len) X
      (let base = trace_cksum ops (env s); execs = total_execs ops (env s); (time, g) = get_cur_time ops (env s)
       in seq [upd (\<lambda>s. s\<lparr>inf_pos := 0, cur_block_size := MINIMAL_BLOCK_SIZE\<rparr>), inf_loop ops len base,
               upd (\<lambda>s. case get_cur_time ops (env s) of (now, g) \<Rightarrow>
                         s\<lparr>inf_execs_cost := inf_execs_cost s + (total_execs ops (env s) - execs),
                           inf_time_cost := inf_time_cost s + (now - time), env := g\<rparr>)] (s\<lparr>env := g\<rparr>))"
      by (simp add: sk_inv_def)
  qed
next
  show "triple (sk_inv b len) (reading (\<lambda>s. read_block orig_buf 0 len) (\<lambda>buf s.
      case common_fuzz_stuff ops buf (env s) of (bail, g) \<Rightarrow> (if bail then Abandon_entry else Next, s\<lparr>env := g\<rparr>))) (sk_inv b len) X"
    using assms(2)
    by (intro triple_reading triple_Pure) (auto simp: read_block_def exit_ok_def sk_inv_def split: prod.splits)
qed (auto intro!: triple_upd simp: sk_inv_def Let_def)

section \<open>The quick map\<close>

definition qk_inv :: "mem \<Rightarrow> nat \<Rightarrow> bool \<Rightarrow> nat \<Rightarrow> ('g, 'a) skipdet_scheme \<Rightarrow> bool" where
  "qk_inv b len nearby n s \<longleftrightarrow> out_buf s = b \<and> length (inf_eff_map s) = len
     \<and> (\<exists>m. skip_eff_map s = Some m \<and> eff_ok len m) \<and> (\<exists>m. done_inf_map s = Some m \<and> eff_ok len m)
     \<and> (nearby \<longrightarrow> length (non_eff_bytes s) = len) \<and> eff_round_done s = n"

lemma bitmap_set_ok:
  assumes "eff_ok len m" and "k < len"
  shows "\<exists>m'. bitmap_set m k = Some m' \<and> eff_ok len m'"
proof -
  have "k div 8 < length m" using assms by (auto simp: eff_ok_def)
  from bitmap_set_read [OF this this] assms(1) show ?thesis by (auto simp: eff_ok_def)
qed

lemma quick_record_ok:
  assumes "qk_inv b len nearby n s" and "k < len"
  shows "\<exists>s'. quick_record ops rep nearby k s = Some s' \<and> qk_inv b len nearby n s' \<and> stage_cur s' = stage_cur s"
proof -
  from assms obtain eff dn where m: "skip_eff_map s = Some eff" "eff_ok len eff" "done_inf_map s = Some dn" "eff_ok len dn"
    by (auto simp: qk_inv_def)
  from bitmap_set_ok [OF m(2) assms(2)] bitmap_set_ok [OF m(4) assms(2)] obtain eff' dn' where
    m': "bitmap_set eff k = Some eff'" "eff_ok len eff'" "bitmap_set dn k = Some dn'" "eff_ok len dn'" by blast
  show ?thesis
    using assms m m' by (simp add: quick_record_def qk_inv_def Let_def)
qed


lemma quick_replace_triple:
  fixes ops :: "'g stage_ops"
  assumes "k < len" and "len \<le> length b" and "\<And>orig g. draw_other ops orig g \<noteq> None"
  shows "triple (\<lambda>s :: ('g, 'x) skipdet_scheme. qk_inv b len nearby n s \<and> stage_cur s = c) (quick_replace ops rep nearby len before k)
           (\<lambda>s. qk_inv b len nearby n s \<and> stage_cur s = c) (qk_inv b len nearby n)"
  unfolding quick_replace_def
proof (intro triple_seq_Cons [where R = "\<lambda>s. qk_inv b len nearby n s \<and> stage_cur s = c"] triple_seq_Nil)
  show "triple (\<lambda>s :: ('g, 'x) skipdet_scheme. qk_inv b len nearby n s \<and> stage_cur s = c) (check_timeout ops before True)
      (\<lambda>s. qk_inv b len nearby n s \<and> stage_cur s = c) (qk_inv b len nearby n)"
    by (rule triple_check_timeout) (auto simp: qk_inv_def)
  show "triple (\<lambda>s :: ('g, 'x) skipdet_scheme. qk_inv b len nearby n s \<and> stage_cur s = c) (guarded (quick_record ops rep nearby k))
      (\<lambda>s. qk_inv b len nearby n s \<and> stage_cur s = c) (qk_inv b len nearby n)"
    using quick_record_ok [OF _ assms(1)] by (intro triple_guarded) blast
  show "triple (\<lambda>s :: ('g, 'x) skipdet_scheme. qk_inv b len nearby n s \<and> stage_cur s = c)
     (reading (\<lambda>s. load8 (out_buf s) k) (\<lambda>orig s. case draw_other ops orig (env s) of None \<Rightarrow> (Diverges, s)
         | Some (replace, g) \<Rightarrow> seq [upd (\<lambda>s. s\<lparr>env := g\<rparr>), put_out k replace,
              upd (\<lambda>s. s\<lparr>before_skip_inf := queued_items ops (env s)\<rparr>), fuzz_stuff ops len, put_out k orig] s))
     (\<lambda>s. qk_inv b len nearby n s \<and> stage_cur s = c) (qk_inv b len nearby n)"
  proof (rule triple_reading)
    fix s :: "('g, 'x) skipdet_scheme"
    assume "qk_inv b len nearby n s \<and> stage_cur s = c"
    then show "\<exists>x. load8 (out_buf s) k = Some x" using assms by (auto simp: qk_inv_def)
  next
    fix orig
    show "triple (\<lambda>s :: ('g, 'x) skipdet_scheme. (qk_inv b len nearby n s \<and> stage_cur s = c) \<and> load8 (out_buf s) k = Some orig)
     (\<lambda>s. case draw_other ops orig (env s) of None \<Rightarrow> (Diverges, s)
         | Some (replace, g) \<Rightarrow> seq [upd (\<lambda>s. s\<lparr>env := g\<rparr>), put_out k replace,
              upd (\<lambda>s. s\<lparr>before_skip_inf := queued_items ops (env s)\<rparr>), fuzz_stuff ops len, put_out k orig] s)
     (\<lambda>s. qk_inv b len nearby n s \<and> stage_cur s = c) (qk_inv b len nearby n)"
    proof (rule triple_Pure)
      fix s :: "('g, 'x) skipdet_scheme"
      assume *: "(qk_inv b len nearby n s \<and> stage_cur s = c) \<and> load8 (out_buf s) k = Some orig"
      from assms(3) [of orig "env s"] obtain r g where r: "draw_other ops orig (env s) = Some (r, g)" by auto
      let ?R = "\<lambda>v s :: ('g, 'x) skipdet_scheme. qk_inv (b[k := v]) len nearby n s \<and> stage_cur s = c"
      have kb: "k < length b" using assms by simp
      have orig: "b[k := orig] = b" using * kb by (auto simp: qk_inv_def)
      have "triple (?R orig) (seq [upd (\<lambda>s. s\<lparr>env := g\<rparr>), put_out k r,
              upd (\<lambda>s. s\<lparr>before_skip_inf := queued_items ops (env s)\<rparr>), fuzz_stuff ops len, put_out k orig])
              (?R orig) (qk_inv b len nearby n)"
        unfolding put_out_def
        by (intro triple_seq_Cons [where R = "?R orig", OF triple_upd]
            triple_seq_Cons [where R = "?R r", OF triple_guarded]
            triple_seq_Cons [where R = "?R r", OF triple_upd]
            triple_seq_Cons [where R = "?R r", OF triple_fuzz_stuff]
            triple_seq_Cons [where R = "?R orig", OF triple_guarded] triple_seq_Nil)
           (use kb in \<open>auto simp: qk_inv_def\<close>)
      from tripleD [OF this, of s] * orig r
      show "exit_ok (\<lambda>s. qk_inv b len nearby n s \<and> stage_cur s = c) (qk_inv b len nearby n)
        (case draw_other ops orig (env s) of None \<Rightarrow> (Diverges, s)
         | Some (replace, g) \<Rightarrow> seq [upd (\<lambda>s. s\<lparr>env := g\<rparr>), put_out k replace,
              upd (\<lambda>s. s\<lparr>before_skip_inf := queued_items ops (env s)\<rparr>), fuzz_stuff ops len, put_out k orig] s)"
        by simp
    qed
  qed
qed simp


lemma quick_byte_triple:
  fixes ops :: "'g stage_ops"
  assumes "unat c < len" and "len \<le> length b" and "\<And>orig g. draw_other ops orig g \<noteq> None"
  shows "triple (\<lambda>s :: ('g, 'x) skipdet_scheme. qk_inv b len nearby n s \<and> stage_cur s = c)
           (quick_byte ops rep nearby len before) (\<lambda>s. qk_inv b len nearby n s \<and> stage_cur s = c + 1) (qk_inv b len nearby n)"
proof -
  let ?R = "\<lambda>s :: ('g, 'x) skipdet_scheme. qk_inv b len nearby n s \<and> stage_cur s = c" and ?k = "unat c"
  have read: "\<exists>d. eff_read s ?k = Some d" if "qk_inv b len nearby n s" for s :: "('g, 'x) skipdet_scheme"
    using that assms(1) eff_ok_read by (auto simp: qk_inv_def eff_read_def)
  have "triple ?R (seq [upd (\<lambda>s. s\<lparr>stage_cur_byte := stage_cur s\<rparr>),
          reading (\<lambda>s. load8 (inf_eff_map s) ?k) (\<lambda>e. cond (\<lambda>s. e = 0) (upd (\<lambda>s. s))
            (reading (\<lambda>s. eff_read s ?k) (\<lambda>d. cond (\<lambda>s. d) (upd (\<lambda>s. s)) (quick_replace ops rep nearby len before ?k)))),
          upd (\<lambda>s. s\<lparr>stage_cur := stage_cur s + 1\<rparr>)])
        (\<lambda>s. qk_inv b len nearby n s \<and> stage_cur s = c + 1) (qk_inv b len nearby n)"
  proof (rule triple_seq_Cons [where R = ?R, OF _ triple_seq_Cons [where R = ?R, OF _ triple_seq_Cons [OF _ triple_seq_Nil]]])
    show "triple ?R (reading (\<lambda>s. load8 (inf_eff_map s) ?k) (\<lambda>e. cond (\<lambda>s. e = 0) (upd (\<lambda>s. s))
            (reading (\<lambda>s. eff_read s ?k) (\<lambda>d. cond (\<lambda>s. d) (upd (\<lambda>s. s)) (quick_replace ops rep nearby len before ?k)))))
          ?R (qk_inv b len nearby n)"
      by (intro triple_reading triple_cond triple_upd triple_pre [OF quick_replace_triple [OF assms]])
         (use assms(1) read in \<open>auto simp: qk_inv_def\<close>)
    show "triple ?R (upd (\<lambda>s. s\<lparr>stage_cur := stage_cur s + 1\<rparr>)) (\<lambda>s. qk_inv b len nearby n s \<and> stage_cur s = c + 1)
        (qk_inv b len nearby n)"
      by (rule triple_upd) (auto simp: qk_inv_def)
  qed (auto intro!: triple_upd simp: qk_inv_def)
  then show ?thesis by (auto simp: triple_def quick_byte_def Let_def)
qed

lemma quick_bytes_triple:
  fixes ops :: "'g stage_ops"
  assumes "len \<le> length b" and "len < 2 ^ 32" and "\<And>orig g. draw_other ops orig g \<noteq> None"
  shows "triple (qk_inv b len nearby n :: ('g, 'x) skipdet_scheme \<Rightarrow> bool)
           (while_do (\<lambda>s. stage_cur s < stage_max s \<and> unat (stage_cur s) < len) (quick_byte ops rep nearby len before))
           (qk_inv b len nearby n) (qk_inv b len nearby n)"
proof (rule triple_while [where m = "\<lambda>s. len - unat (stage_cur s)"])
  fix k
  show "triple (\<lambda>s :: ('g, 'x) skipdet_scheme. qk_inv b len nearby n s
      \<and> (stage_cur s < stage_max s \<and> unat (stage_cur s) < len) \<and> len - unat (stage_cur s) = k)
    (quick_byte ops rep nearby len before) (\<lambda>s. qk_inv b len nearby n s \<and> len - unat (stage_cur s) < k) (qk_inv b len nearby n)"
  proof (rule triple_Pure)
    fix s :: "('g, 'x) skipdet_scheme"
    assume *: "qk_inv b len nearby n s \<and> (stage_cur s < stage_max s \<and> unat (stage_cur s) < len) \<and> len - unat (stage_cur s) = k"
    then have "Suc (unat (stage_cur s)) < 2 ^ 32" using assms(2) by linarith
    then have "unat (stage_cur s + 1) = Suc (unat (stage_cur s))" by (simp add: unat_word_ariths)
    moreover have "exit_ok (\<lambda>s'. qk_inv b len nearby n s' \<and> stage_cur s' = stage_cur s + 1) (qk_inv b len nearby n)
        (quick_byte ops rep nearby len before s)"
      using * by (intro tripleD [OF quick_byte_triple [OF _ assms(1,3)]]) auto
    ultimately show "exit_ok (\<lambda>s. qk_inv b len nearby n s \<and> len - unat (stage_cur s) < k) (qk_inv b len nearby n)
        (quick_byte ops rep nearby len before s)"
      using * by (auto simp: exit_ok_def)
  qed
qed simp

lemma quick_rounds_triple:
  fixes ops :: "'g stage_ops"
  assumes "len \<le> length b" and "len < 2 ^ 32" and "\<And>orig g. draw_other ops orig g \<noteq> None"
  shows "triple (\<lambda>s :: ('g, 'x) skipdet_scheme. \<exists>n. qk_inv b len nearby n s) (quick_rounds ops rep nearby len before)
           (\<lambda>s. \<exists>n. qk_inv b len nearby n s) (\<lambda>s. \<exists>n. qk_inv b len nearby n s)"
  unfolding quick_rounds_def
proof (rule triple_while [where m = "\<lambda>s. 8 - eff_round_done s"])
  fix k
  let ?X = "\<lambda>s :: ('g, 'x) skipdet_scheme. \<exists>n. qk_inv b len nearby n s"
  let ?body = "seq [upd (\<lambda>s :: ('g, 'x) skipdet_scheme. s\<lparr>eff_round_continue := False, stage_max := 32 * 1024\<rparr>),
          while_do (\<lambda>s. stage_cur s < stage_max s \<and> unat (stage_cur s) < len) (quick_byte ops rep nearby len before),
          upd (\<lambda>s. s\<lparr>stage_cur := 0, local_done_eff := True, eff_round_done := eff_round_done s + 1\<rparr>)]"
  have "triple (qk_inv b len nearby n) ?body (qk_inv b len nearby (Suc n)) (qk_inv b len nearby n)" for n
    by (intro triple_seq_Cons [where R = "qk_inv b len nearby n", OF triple_upd]
        triple_seq_Cons [OF quick_bytes_triple [OF assms]] triple_seq_Cons [OF triple_upd] triple_seq_Nil)
       (auto simp: qk_inv_def)
  then show "triple (\<lambda>s. ?X s \<and> (eff_round_continue s \<and> eff_round_done s < 8) \<and> 8 - eff_round_done s = k) ?body
    (\<lambda>s. ?X s \<and> 8 - eff_round_done s < k) ?X"
    unfolding triple_def exit_ok_def by (fastforce simp: qk_inv_def)
qed simp


lemma first_undone_Some:
  "eff_ok len m \<Longrightarrow> \<forall>i\<in>set is. i < len \<Longrightarrow> \<exists>k\<le>len. first_undone m is len = Some k"
proof (induction "is")
  case Nil
  then show ?case by simp
next
  case (Cons i "is")
  then obtain d where "bitmap_read m i = Some d" using eff_ok_read [of len m i] by auto
  with Cons show ?case by (cases d) (auto intro: less_imp_le)
qed

lemma quick_prepare_ok:
  assumes "sk_inv b len s"
  shows "\<exists>s'. quick_prepare ops len s = Some s' \<and> out_buf s' = b \<and> length (inf_eff_map s') = len
      \<and> (\<exists>m. skip_eff_map s' = Some m \<and> eff_ok len m) \<and> (\<exists>m. done_inf_map s' = Some m \<and> eff_ok len m)"
proof -
  have "\<exists>m. (case skip_eff_map s of None \<Rightarrow> Some (replicate ((len + 7) div 8) 0)
         | Some m \<Rightarrow> memset m 0 0 ((len + 7) div 8)) = Some m \<and> eff_ok len m"
    using assms memset_Some [of 0 "(len + 7) div 8"]
    by (cases "skip_eff_map s") (fastforce simp: sk_inv_def eff_ok_def)+
  then obtain eff where eff: "(case skip_eff_map s of None \<Rightarrow> Some (replicate ((len + 7) div 8) 0)
         | Some m \<Rightarrow> memset m 0 0 ((len + 7) div 8)) = Some eff" "eff_ok len eff" by blast
  show ?thesis
  proof (cases "done_inf_map s")
    case None
    then show ?thesis using eff assms by (simp add: quick_prepare_def sk_inv_def eff_ok_def)
  next
    case (Some m)
    with assms first_undone_Some [of len m "[0..<len]"] obtain k where "first_undone m [0..<len] len = Some k"
      by (auto simp: sk_inv_def)
    with Some eff assms show ?thesis by (simp add: quick_prepare_def sk_inv_def)
  qed
qed

lemma quick_stage_triple:
  fixes ops :: "'g stage_ops"
  assumes "len \<le> length b" and "len < 2 ^ 32" and "\<And>orig g. draw_other ops orig g \<noteq> None"
  shows "triple (sk_inv b len :: ('g, 'x) skipdet_scheme \<Rightarrow> bool) (quick_stage ops rep nearby len before)
           (\<lambda>s. \<exists>n. qk_inv b len nearby n s) (\<lambda>s. \<exists>n. qk_inv b len nearby n s)"
proof -
  let ?X = "\<lambda>s :: ('g, 'x) skipdet_scheme. \<exists>n. qk_inv b len nearby n s"
  have 1: "triple (sk_inv b len :: ('g, 'x) skipdet_scheme \<Rightarrow> bool) (guarded (quick_prepare ops len)) (\<lambda>s. \<exists>n. qk_inv b len False n s) ?X"
    using quick_prepare_ok by (intro triple_guarded) (fastforce simp: qk_inv_def)
  have 2: "triple (\<lambda>s :: ('g, 'x) skipdet_scheme. \<exists>n. qk_inv b len False n s)
      (upd (\<lambda>s. s\<lparr>eff_round_continue := True, eff_round_done := 0, local_done_eff := False\<rparr>)) (\<lambda>s. \<exists>n. qk_inv b len False n s) ?X"
    by (rule triple_upd) (auto simp: qk_inv_def)
  let ?near = "cond (\<lambda>s. nearby) (seq [upd (\<lambda>s. s\<lparr>non_eff_bytes := replicate len 0\<rparr>), fuzz_stuff ops len,
      upd (\<lambda>s. s\<lparr>nearby_cksum := trace_cksum ops (env s)\<rparr>)]) (upd (\<lambda>s. s))"
  have near: "triple (\<lambda>s :: ('g, 'x) skipdet_scheme. \<exists>n. qk_inv b len False n s) ?near ?X ?X"
    by (intro triple_cond triple_seq_Cons [where R = ?X] triple_seq_Nil triple_fuzz_stuff triple_upd)
       (auto simp: qk_inv_def)
  let ?fin = "\<lambda>execs s. let new = hit_cnt_now ops (env s)
      in s\<lparr>new_hit_cnt := new,
           stage_finds := (stage_finds s)(STAGE_QUICK := stage_finds s STAGE_QUICK + (new - orig_hit_cnt s)),
           stage_cycles := (stage_cycles s)(STAGE_QUICK := stage_cycles s STAGE_QUICK + (total_execs ops (env s) - execs))\<rparr>"
  have fin: "triple ?X (upd (?fin execs)) ?X ?X" for execs
    by (rule triple_upd) (auto simp: qk_inv_def Let_def)
  have body: "triple (\<lambda>s. \<exists>n. qk_inv b len False n s) (seq [?near, quick_rounds ops rep nearby len before, upd (?fin execs)]) ?X ?X" for execs
    by (rule triple_seq_Cons [OF near triple_seq_Cons [OF quick_rounds_triple [OF assms] triple_seq_Cons [OF fin triple_seq_Nil]]])
  have 3: "triple (\<lambda>s. \<exists>n. qk_inv b len False n s)
      (\<lambda>s. let execs = total_execs ops (env s) in seq [?near, quick_rounds ops rep nearby len before, upd (?fin execs)] s) ?X ?X"
    using body unfolding Let_def triple_def by blast
  show ?thesis
    unfolding quick_stage_def
    by (intro triple_seq_Cons [OF 1] triple_seq_Cons [OF 2] triple_seq_Cons [OF 3] triple_seq_Nil)
qed

lemma nearby_loop_ok:
  assumes "eff_ok len eff"
  shows "length nearby = len \<Longrightarrow> 3 \<le> i \<Longrightarrow> \<exists>m. nearby_loop eff len i nearby = Some m \<and> length m = len"
proof (induction "len - i" arbitrary: i nearby rule: less_induct)
  case less
  show ?case
  proof (cases "i < len")
    case True
    then obtain d where d: "bitmap_read eff i = Some d" using assms eff_ok_read by blast
    show ?thesis
    proof (cases d)
      case True
      let ?f = "if i + 3 < len then 7 else len - i + 2"
      have "i - 3 + ?f \<le> length nearby" using \<open>i < len\<close> less.prems by auto
      from memset_Some [OF this, of 1] obtain n' where n': "memset nearby (i - 3) 1 ?f = Some n'" "length n' = len"
        using less.prems by auto
      then have "nearby_loop eff len i nearby = nearby_loop eff len (i + 3) n'"
        using \<open>i < len\<close> d True less.prems by (subst nearby_loop.simps) (simp add: Let_def)
      with less.hyps [of "i + 3" n'] n'(2) \<open>i < len\<close> less.prems show ?thesis by simp
    next
      case False
      then have "nearby_loop eff len i nearby = nearby_loop eff len (i + 1) nearby"
        using \<open>i < len\<close> d by (subst nearby_loop.simps) simp
      with less.hyps [of "i + 1" nearby] \<open>i < len\<close> less.prems show ?thesis by simp
    qed
  next
    case False
    then show ?thesis using less.prems by (subst nearby_loop.simps) simp
  qed
qed

lemma nearby_mark_ok:
  "eff_ok len eff \<Longrightarrow> length nearby = len \<Longrightarrow> length non_eff = len \<Longrightarrow> \<forall>i\<in>set is. i < len
     \<Longrightarrow> \<exists>m. nearby_mark nearby non_eff is eff = Some m \<and> eff_ok len m"
proof (induction "is" arbitrary: eff)
  case Nil
  then show ?case by simp
next
  case (Cons i "is")
  from bitmap_set_ok [of len eff i] Cons.prems obtain e where "bitmap_set eff i = Some e" "eff_ok len e" by auto
  with Cons show ?case by simp
qed

lemma cleanup_skipdet_ok:
  assumes "qk_inv b len nearby n s"
  shows "\<exists>s'. cleanup_skipdet nearby len s = Some s' \<and> out_buf s' = b \<and> (\<exists>m. skip_eff_map s' = Some m \<and> eff_ok len m)
           \<and> (\<exists>m. done_inf_map s' = Some m \<and> eff_ok len m)"
proof (cases nearby)
  case True
  from assms obtain eff where eff: "skip_eff_map s = Some eff" "eff_ok len eff" by (auto simp: qk_inv_def)
  from nearby_loop_ok [OF eff(2), of "replicate len 0" 3] obtain m where
    m: "nearby_loop eff len 3 (replicate len 0) = Some m" "length m = len" by auto
  from nearby_mark_ok [OF eff(2) m(2), of "non_eff_bytes s" "[0..<len]"] assms True obtain e where
    "nearby_mark m (non_eff_bytes s) [0..<len] eff = Some e" "eff_ok len e" by (auto simp: qk_inv_def)
  with eff m True assms show ?thesis by (auto simp: cleanup_skipdet_def qk_inv_def)
next
  case False
  then show ?thesis using assms by (auto simp: cleanup_skipdet_def qk_inv_def)
qed


section \<open>The choice of seeds\<close>

definition mini_bit :: "mem \<Rightarrow> nat \<Rightarrow> bool" where
  "mini_bit mini i \<longleftrightarrow> mini ! (i div 8) AND push_bit (i mod 8) 1 \<noteq> 0"

definition det_virgin :: "('g, 'a) skipdet_scheme \<Rightarrow> mem" where
  "det_virgin s = (case virgin_det_bits s of None \<Rightarrow> replicate (det_map_size s) 0 | Some v \<Rightarrow> v)"

lemma count_new_det_spec:
  "\<forall>i\<in>set is. i div 8 < length mini \<and> i < length v
     \<Longrightarrow> count_new_det mini v is = Some (length (filter (\<lambda>i. mini_bit mini i \<and> v ! i = 0) is))"
  by (induction "is") (auto simp: mini_bit_def)

lemma mark_det_spec:
  "\<forall>i\<in>set is. i div 8 < length mini \<and> i < length v
     \<Longrightarrow> \<exists>v'. mark_det mini v is = Some v' \<and> length v' = length v
            \<and> (\<forall>i<length v. (v' ! i \<noteq> 0) = (v ! i \<noteq> 0 \<or> i \<in> set is \<and> mini_bit mini i))"
proof (induction "is" arbitrary: v)
  case Nil
  then show ?case by simp
next
  case (Cons j "is")
  define w where "w = (if mini_bit mini j \<and> v ! j = 0 then v[j := 1] else v)"
  have step: "mark_det mini v (j # is) = mark_det mini w is"
    using Cons.prems by (auto simp: mini_bit_def w_def)
  have len: "length w = length v" by (simp add: w_def)
  from Cons.IH [of w] Cons.prems obtain v' where v': "mark_det mini w is = Some v'" "length v' = length v"
      "\<forall>i<length v. (v' ! i \<noteq> 0) = (w ! i \<noteq> 0 \<or> i \<in> set is \<and> mini_bit mini i)" by (auto simp: len)
  have "(w ! i \<noteq> 0) = (v ! i \<noteq> 0 \<or> i = j \<and> mini_bit mini i)" if "i < length v" for i
    using that by (cases "i = j") (auto simp: w_def)
  with v' step show ?case by auto
qed

lemma touch_last_cov_simps [simp]:
  "trace_mini (touch_last_cov ops s) = trace_mini s" "det_map_size (touch_last_cov ops s) = det_map_size s"
  "virgin_det_bits (touch_last_cov ops s) = virgin_det_bits s" "out_buf (touch_last_cov ops s) = out_buf s"
  "undet_bits_threshold (touch_last_cov ops s) = undet_bits_threshold s"
  "skip_eff_map (touch_last_cov ops s) = skip_eff_map s" "done_inf_map (touch_last_cov ops s) = done_inf_map s"
  by (simp_all add: touch_last_cov_def split: prod.splits)

lemma lower_threshold_simps [simp]:
  "trace_mini (lower_threshold ops s) = trace_mini s" "det_map_size (lower_threshold ops s) = det_map_size s"
  "virgin_det_bits (lower_threshold ops s) = virgin_det_bits s" "out_buf (lower_threshold ops s) = out_buf s"
  "skip_eff_map (lower_threshold ops s) = skip_eff_map s" "done_inf_map (lower_threshold ops s) = done_inf_map s"
  by (simp_all add: lower_threshold_def Let_def split: prod.splits)

lemma det_clock_simps [simp]:
  "trace_mini (det_clock ops s) = trace_mini s" "det_map_size (det_clock ops s) = det_map_size s"
  "virgin_det_bits (det_clock ops s) = virgin_det_bits s" "out_buf (det_clock ops s) = out_buf s"
  "skip_eff_map (det_clock ops s) = skip_eff_map s" "done_inf_map (det_clock ops s) = done_inf_map s"
  by (simp_all add: det_clock_def)

lemma init_threshold_simps [simp]:
  "trace_mini (init_threshold n s) = trace_mini s" "det_map_size (init_threshold n s) = det_map_size s"
  "virgin_det_bits (init_threshold n s) = virgin_det_bits s" "out_buf (init_threshold n s) = out_buf s"
  "skip_eff_map (init_threshold n s) = skip_eff_map s" "done_inf_map (init_threshold n s) = done_inf_map s"
  by (simp_all add: init_threshold_def)

definition det_maps_ok :: "('g, 'a) skipdet_scheme \<Rightarrow> bool" where
  "det_maps_ok s \<longleftrightarrow> length (det_virgin s) = det_map_size s
     \<and> (\<forall>mini. trace_mini s = Some mini \<longrightarrow> det_map_size s \<le> 8 * length mini)"

definition seed_fresh :: "('g, 'a) skipdet_scheme \<Rightarrow> mem \<Rightarrow> nat \<Rightarrow> bool" where
  "seed_fresh s mini i \<longleftrightarrow> mini_bit mini i \<and> det_virgin s ! i = 0"

lemma should_det_fuzz_spec:
  assumes "det_maps_ok s"
  shows "\<exists>r s'. should_det_fuzz ops s = Some (r, s') \<and> det_map_size s' = det_map_size s \<and> trace_mini s' = trace_mini s
      \<and> out_buf s' = out_buf s \<and> skip_eff_map s' = skip_eff_map s \<and> done_inf_map s' = done_inf_map s
      \<and> length (det_virgin s') = det_map_size s
      \<and> (r \<longrightarrow> q_favored s \<and> \<not> q_passed_det s \<and> trace_mini s \<noteq> None)
      \<and> (\<forall>i<det_map_size s. (det_virgin s' ! i \<noteq> 0)
            = (det_virgin s ! i \<noteq> 0 \<or> r \<and> (\<exists>mini. trace_mini s = Some mini \<and> mini_bit mini i)))"
proof (cases "\<not> q_favored s \<or> q_passed_det s \<or> trace_mini s = None")
  case True
  then have "should_det_fuzz ops s = Some (False, s\<lparr>virgin_det_bits := Some (det_virgin s)\<rparr>)"
    by (auto simp: should_det_fuzz_def det_virgin_def Let_def)
  then show ?thesis
    using assms
    by (intro exI [of _ False] exI [of _ "s\<lparr>virgin_det_bits := Some (det_virgin s)\<rparr>"])
       (simp add: det_maps_ok_def det_virgin_def)
next
  case False
  then obtain mini where mini: "trace_mini s = Some mini" "q_favored s" "\<not> q_passed_det s" by auto
  define v where "v = det_virgin s"
  have len: "length v = det_map_size s" "det_map_size s \<le> 8 * length mini"
    using assms mini by (auto simp: det_maps_ok_def v_def)
  have idx: "\<forall>i\<in>set [0..<det_map_size s]. i div 8 < length mini \<and> i < length v" using len by auto
  define n where "n = length (filter (\<lambda>i. mini_bit mini i \<and> v ! i = 0) [0..<det_map_size s])"
  have cnt: "count_new_det mini v [0..<det_map_size s] = Some n"
    unfolding n_def using idx by (rule count_new_det_spec)
  from mark_det_spec [OF idx] obtain v' where v': "mark_det mini v [0..<det_map_size s] = Some v'" "length v' = length v"
      "\<forall>i<length v. (v' ! i \<noteq> 0) = (v ! i \<noteq> 0 \<or> i \<in> set [0..<det_map_size s] \<and> mini_bit mini i)" by blast
  define s3 where "s3 = init_threshold n (det_clock ops (s\<lparr>virgin_det_bits := Some v\<rparr>))"
  have s3: "trace_mini s3 = Some mini" "det_map_size s3 = det_map_size s" "out_buf s3 = out_buf s"
      "skip_eff_map s3 = skip_eff_map s" "done_inf_map s3 = done_inf_map s" "virgin_det_bits s3 = Some v"
    using mini by (simp_all add: s3_def)
  have v: "(case virgin_det_bits s of None \<Rightarrow> replicate (det_map_size s) 0 | Some v \<Rightarrow> v) = v"
    by (simp add: v_def det_virgin_def)
  have run: "should_det_fuzz ops s =
      (if word_of_nat n \<ge> undet_bits_threshold s3
       then Some (True, ((touch_last_cov ops s3)\<lparr>undet_bits := word_of_nat n\<rparr>)\<lparr>virgin_det_bits := Some v'\<rparr>)
       else Some (False, s3))"
    using mini cnt v'(1) s3(2) by (simp add: should_det_fuzz_def Let_def v s3_def)
  show ?thesis
  proof (cases "word_of_nat n \<ge> undet_bits_threshold s3")
    case True
    let ?s = "((touch_last_cov ops s3)\<lparr>undet_bits := word_of_nat n\<rparr>)\<lparr>virgin_det_bits := Some v'\<rparr>"
    have "det_virgin ?s = v'" by (simp add: det_virgin_def)
    then show ?thesis
      using run True s3 v' len mini by (intro exI [of _ True] exI [of _ ?s]) (simp add: v_def [symmetric])
  next
    case False
    have "det_virgin s3 = v" using s3 by (simp add: det_virgin_def)
    then show ?thesis
      using run False s3 len mini by (intro exI [of _ False] exI [of _ s3]) (simp add: v_def [symmetric])
  qed
qed

lemma skipdet_body_ok:
  fixes ops :: "'g stage_ops" and s :: "('g, 'x) skipdet_scheme"
  assumes "len \<le> length (out_buf s)" and "len < 2 ^ 32" and "\<And>orig g. draw_other ops orig g \<noteq> None"
    and "len \<le> length orig_buf" and "\<forall>m. skip_eff_map s = Some m \<longrightarrow> eff_ok len m" and "\<forall>m. done_inf_map s = Some m \<longrightarrow> eff_ok len m"
  shows "exit_ok (\<lambda>s'. \<exists>n. qk_inv (out_buf s) len nearby n s') (\<lambda>s'. \<exists>n. qk_inv (out_buf s) len nearby n s')
           (seq [skip_inference ops orig_buf len, quick_stage ops rep nearby len before] s)"
proof (rule tripleD)
  let ?X = "\<lambda>s' :: ('g, 'x) skipdet_scheme. \<exists>n. qk_inv (out_buf s) len nearby n s'"
  show "triple (\<lambda>t :: ('g, 'x) skipdet_scheme. sk_inv (out_buf s) len (t\<lparr>inf_eff_map := replicate len 1\<rparr>))
      (seq [skip_inference ops orig_buf len, quick_stage ops rep nearby len before]) ?X ?X"
    by (intro triple_seq_Cons [OF skip_inference_triple [OF assms(1,4)]]
        triple_seq_Cons [OF quick_stage_triple [OF assms(1-3)]] triple_seq_Nil)
  show "sk_inv (out_buf s) len (s\<lparr>inf_eff_map := replicate len 1\<rparr>)"
    using assms(5,6) by (simp add: sk_inv_def)
qed

section \<open>Properties\<close>

text \<open>C9. \<open>should_det_fuzz\<close> only ever accepts a favoured seed that has not passed the deterministic stages and has a
  stored trace; accepting it marks exactly the map bytes of its trace in the global bitmap (which never loses a
  mark), so that no byte of an accepted seed is counted as new a second time; rejecting it marks nothing.\<close>

theorem should_det_fuzz_correct:
  assumes "det_maps_ok s"
  shows "\<exists>r s'. should_det_fuzz ops s = Some (r, s')
      \<and> (r \<longrightarrow> q_favored s \<and> \<not> q_passed_det s \<and> trace_mini s \<noteq> None)
      \<and> (\<forall>i<det_map_size s. (det_virgin s' ! i \<noteq> 0)
            = (det_virgin s ! i \<noteq> 0 \<or> r \<and> (\<exists>mini. trace_mini s = Some mini \<and> mini_bit mini i)))
      \<and> (r \<longrightarrow> (\<forall>mini. trace_mini s = Some mini \<longrightarrow> (\<forall>i<det_map_size s. \<not> seed_fresh s' mini i)))"
  using should_det_fuzz_spec [OF assms, of ops] by (fastforce simp: seed_fresh_def)

text \<open>An environment for examples: a counter that serves as clock, checksum and random generator; every run succeeds.\<close>

definition det_example_ops :: "nat stage_ops" where
  "det_example_ops = \<lparr>common_fuzz_stuff = (\<lambda>m g. (False, Suc g)), get_cur_time = (\<lambda>g. (word_of_nat g, g)),
     trace_cksum = (\<lambda>g. 0), queued_items = (\<lambda>g. word_of_nat g), saved_crashes = (\<lambda>g. 0),
     total_execs = word_of_nat, rand_below_op = (\<lambda>limit g. (word_of_nat (g mod 2), Suc g)), maybe_add_auto_op = (\<lambda>m g. g),
     user_extras = (\<lambda>g. []), auto_extras = (\<lambda>g. [])\<rparr>"

definition skipdet_example :: "nat skipdet" where
  "skipdet_example = \<lparr>env = 1, out_buf = [1, 2, 3], stage_cur = 0, stage_max = 0, stage_cur_byte = 0, stage_cur_val = 0,
     stage_val_type = STAGE_VAL_NONE, stage_finds = (\<lambda>_. 0), stage_cycles = (\<lambda>_. 0), orig_hit_cnt = 0, new_hit_cnt = 0,
     skip_eff_map = None, blocks_eff_select = 0, blocks_eff_total = 0,
     q_favored = True, q_passed_det = False, trace_mini = Some [5], det_map_size = 8, continue_inf = False,
     done_eff = False, undet_bits = 0, quick_eff_bytes = 0, done_inf_map = None, undet_bits_threshold = 0,
     last_cov_undet = 0, virgin_det_bits = None, inf_skipped_bytes = 0, inf_execs_cost = 0, inf_time_cost = 0,
     inf_eff_map = [], inf_pos = 0, cur_block_size = 0, inf_break = False, eff_round_continue = False,
     eff_round_done = 0, local_done_eff = False, non_eff_bytes = [], nearby_cksum = 0, before_skip_inf = 0\<rparr>"

lemma det_example_draw: "draw_other det_example_ops orig g \<noteq> None"
proof -
  have neq: "(ucast (word_of_nat (g mod 2) :: u32) :: u8) \<noteq> ucast (word_of_nat (Suc g mod 2) :: u32)"
    by (cases "even g") (simp_all add: mod_2_eq_odd)
  have step: "draw_other det_example_ops orig h =
      (if ucast (word_of_nat (h mod 2) :: u32) = orig then draw_other det_example_ops orig (Suc h)
       else Some (ucast (word_of_nat (h mod 2) :: u32), Suc h))" for h
    by (subst draw_other.simps) (simp add: det_example_ops_def)
  show ?thesis
    by (subst step, subst step [of "Suc g"]) (use neq in auto)
qed

theorem should_det_fuzz_witness:
  "det_maps_ok skipdet_example \<and> (\<exists>r s'. should_det_fuzz det_example_ops skipdet_example = Some (r, s'))"
proof -
  have "det_maps_ok skipdet_example"
    by (simp add: det_maps_ok_def det_virgin_def skipdet_example_def)
  with should_det_fuzz_correct [OF this, of det_example_ops] show ?thesis by blast
qed

text \<open>C10. \<open>skip_deterministic_stage\<close> stays inside the two input buffers, which hold at least \<open>len\<close> bytes, and all its maps, all of its loops end (given
  that the random generator does not return the same byte for ever), and when it lets the seed proceed the input buffer
  is exactly what it was and any effector map it leaves behind covers every input byte.\<close>

theorem skip_deterministic_stage_correct:
  fixes ops :: "'g stage_ops" and s :: "('g, 'x) skipdet_scheme"
  assumes "det_maps_ok s" and "len \<le> length (out_buf s)" and "len \<le> length orig_buf" and "len < 2 ^ 32"
    and "\<And>orig g. draw_other ops orig g \<noteq> None"
    and "\<forall>m. skip_eff_map s = Some m \<longrightarrow> eff_ok len m" and "\<forall>m. done_inf_map s = Some m \<longrightarrow> eff_ok len m"
  shows "case skip_deterministic_stage ops rep nearby orig_buf len before s of (e, s') \<Rightarrow>
           (e = Next \<or> e = Abandon_entry)
           \<and> (e = Next \<longrightarrow> out_buf s' = out_buf s \<and> (\<forall>m. skip_eff_map s' = Some m \<longrightarrow> eff_ok len m))"
proof -
  from should_det_fuzz_spec [OF assms(1), of ops] obtain r s1 where
    s1: "should_det_fuzz ops s = Some (r, s1)" "out_buf s1 = out_buf s" "skip_eff_map s1 = skip_eff_map s"
      "done_inf_map s1 = done_inf_map s" by blast
  show ?thesis
  proof (cases "done_eff s \<or> \<not> r")
    case True
    then show ?thesis
      using s1 assms(6) by (cases r) (auto simp: skip_deterministic_stage_def)
  next
    case False
    obtain e s2 where s2: "seq [skip_inference ops orig_buf len, quick_stage ops rep nearby len before] s1 = (e, s2)"
      by (cases "seq [skip_inference ops orig_buf len, quick_stage ops rep nearby len before] s1")
    have run: "skip_deterministic_stage ops rep nearby orig_buf len before s =
        (if e = Next \<or> e = Custom_mutator_stage then guarded (cleanup_skipdet nearby len) s2 else (e, s2))"
      using False s1(1) s2 by (simp add: skip_deterministic_stage_def del: seq.simps)
    have ok: "exit_ok (\<lambda>s'. \<exists>n. qk_inv (out_buf s1) len nearby n s') (\<lambda>s'. \<exists>n. qk_inv (out_buf s1) len nearby n s') (e, s2)"
      unfolding s2 [symmetric] using assms s1 by (intro skipdet_body_ok) simp_all
    show ?thesis
    proof (cases "e = Next \<or> e = Custom_mutator_stage")
      case True
      with ok obtain n where "qk_inv (out_buf s1) len nearby n s2" by (auto simp: exit_ok_def)
      from cleanup_skipdet_ok [OF this] True run s1(2) show ?thesis by (auto simp: guarded_def)
    next
      case False
      with ok run show ?thesis by (cases e) (auto simp: exit_ok_def)
    qed
  qed
qed

theorem skip_deterministic_stage_witness:
  "case skip_deterministic_stage det_example_ops False True [1, 2, 3] 3 0 skipdet_example of (e, s') \<Rightarrow>
     (e = Next \<or> e = Abandon_entry) \<and> (e = Next \<longrightarrow> out_buf s' = [1, 2, 3])"
  using skip_deterministic_stage_correct [of skipdet_example 3 "[1, 2, 3]" det_example_ops False True 0]
    det_example_draw
  by (auto simp: det_maps_ok_def det_virgin_def skipdet_example_def)

end
