(* ===== verification/Dedup.thy ===== *)
theory Dedup
  imports Extras
begin

text \<open>
  The helpers of \<^verbatim>\<open>src/afl-fuzz-one.c\<close> that keep the deterministic stages from running the same input twice:
  \<open>could_be_bitflip\<close>, \<open>could_be_arith\<close>, \<open>could_be_interest\<close>, and \<open>locate_diffs\<close>, which finds where two inputs
  differ before they are spliced. The theorems say exactly which changes they recognise.
\<close>

section \<open>Definitions\<close>

definition ARITH_MAX :: nat where "ARITH_MAX = 35"

text \<open>\<open>while (!(xor_val & 1)) { ++sh; xor_val >>= 1; }\<close>, which is only reached with \<open>xor_val\<close> not 0.\<close>

lemma unat_half: "unat (drop_bit 1 (x :: u32)) = unat x div 2"
  by (subst unat_drop_bit_eq) (simp add: drop_bit_Suc)

lemma and_1_unat: "x AND 1 = 0 \<longleftrightarrow> even (unat (x :: u32))"
proof -
  have "x AND 1 = 0 \<longleftrightarrow> unat (x mod 2) = 0"
    by (simp add: and_one_eq unsigned_eq_0_iff)
  then show ?thesis by (simp add: unat_mod even_iff_mod_2_eq_zero)
qed

function strip_zeros :: "u32 \<Rightarrow> nat \<Rightarrow> u32 \<times> nat" where
  "strip_zeros x sh = (if x \<noteq> 0 \<and> x AND 1 = 0 then strip_zeros (drop_bit 1 x) (Suc sh) else (x, sh))"
  by pat_completeness auto
termination
proof (relation "measure (\<lambda>(x, sh). unat x)")
  fix x :: u32 and sh :: nat
  assume "x \<noteq> 0 \<and> x AND 1 = 0"
  then have "unat x \<noteq> 0" by (simp add: unsigned_eq_0_iff)
  then show "((drop_bit 1 x, Suc sh), (x, sh)) \<in> measure (\<lambda>(x, sh). unat x)"
    by (simp only: in_measure case_prod_conv unat_half)
qed simp

declare strip_zeros.simps [simp del]

definition could_be_bitflip :: "u32 \<Rightarrow> bool" where
  "could_be_bitflip xor_val =
     (if xor_val = 0 then True
      else case strip_zeros xor_val 0 of (xor_val, sh) \<Rightarrow>
        if xor_val = 1 \<or> xor_val = 3 \<or> xor_val = 15 then True
        else if sh mod 8 \<noteq> 0 then False
        else xor_val = 0xff \<or> xor_val = 0xffff \<or> xor_val = 0xffffffff)"

text \<open>One iteration of the loops of \<open>could_be_arith\<close> that count the differing bytes or words and remember the last
  pair; \<open>a\<close> and \<open>b\<close> are already truncated.\<close>

definition diff_step :: "u32 \<Rightarrow> u32 \<Rightarrow> nat \<times> u32 \<times> u32 \<Rightarrow> nat \<times> u32 \<times> u32" where
  "diff_step a b st = (case st of (diffs, ov, nv) \<Rightarrow> if a \<noteq> b then (Suc diffs, a, b) else (diffs, ov, nv))"

definition byte_at :: "u32 \<Rightarrow> nat \<Rightarrow> u8" where
  "byte_at v i = ucast (drop_bit (8 * i) v)"

definition word_at :: "u32 \<Rightarrow> nat \<Rightarrow> u16" where
  "word_at v i = ucast (drop_bit (16 * i) v)"

definition near8 :: "u32 \<Rightarrow> u32 \<Rightarrow> bool" where
  "near8 ov nv \<longleftrightarrow> unat (ucast (ov - nv) :: u8) \<le> ARITH_MAX \<or> unat (ucast (nv - ov) :: u8) \<le> ARITH_MAX"

definition near16 :: "u32 \<Rightarrow> u32 \<Rightarrow> bool" where
  "near16 ov nv \<longleftrightarrow> unat (ucast (ov - nv) :: u16) \<le> ARITH_MAX \<or> unat (ucast (nv - ov) :: u16) \<le> ARITH_MAX"

definition near32 :: "u32 \<Rightarrow> u32 \<Rightarrow> bool" where
  "near32 ov nv \<longleftrightarrow> unat (ov - nv) \<le> ARITH_MAX \<or> unat (nv - ov) \<le> ARITH_MAX"

definition could_be_arith :: "u32 \<Rightarrow> u32 \<Rightarrow> nat \<Rightarrow> bool" where
  "could_be_arith old_val new_val blen =
     (if old_val = new_val then True
      else case fold (\<lambda>i. diff_step (ucast (byte_at old_val i)) (ucast (byte_at new_val i))) [0..<blen] (0, 0, 0) of
        (diffs, ov, nv) \<Rightarrow>
          if diffs = 1 \<and> near8 ov nv then True
          else if blen = 1 then False
          else case fold (\<lambda>i. diff_step (ucast (word_at old_val i)) (ucast (word_at new_val i))) [0..<blen div 2]
                      (0, ov, nv) of
            (diffs, ov, nv) \<Rightarrow>
              if diffs = 1 \<and> (near16 ov nv \<or> near16 (ucast (SWAP16 (ucast ov))) (ucast (SWAP16 (ucast nv)))) then True
              else if blen = 4 \<and> (near32 old_val new_val \<or> near32 (SWAP32 old_val) (SWAP32 new_val)) then True
              else False)"

text \<open>\<open>(old_val & ~(0xff << (i * 8))) | (v << (i * 8))\<close>, and the same for words\<close>

definition put_byte :: "u32 \<Rightarrow> nat \<Rightarrow> u8 \<Rightarrow> u32" where
  "put_byte old_val i v = (old_val AND NOT (push_bit (i * 8) 0xff)) OR push_bit (i * 8) (ucast v)"

definition put_half :: "u32 \<Rightarrow> nat \<Rightarrow> u16 \<Rightarrow> u32" where
  "put_half old_val i v = (old_val AND NOT (push_bit (i * 8) 0xffff)) OR push_bit (i * 8) (ucast v)"

definition could_be_interest :: "u32 \<Rightarrow> u32 \<Rightarrow> nat \<Rightarrow> bool \<Rightarrow> bool" where
  "could_be_interest old_val new_val blen check_le =
     (if old_val = new_val then True
      else if list_ex (\<lambda>i. list_ex (\<lambda>v. new_val = put_byte old_val i (word_of_int v)) interesting_8) [0..<blen] then True
      else if blen = 2 \<and> \<not> check_le then False
      else if list_ex (\<lambda>i. list_ex (\<lambda>v. new_val = put_half old_val i (word_of_int v)
                                \<or> blen > 2 \<and> new_val = put_half old_val i (SWAP16 (word_of_int v))) interesting_16)
                [0..<blen - 1] then True
      else blen = 4 \<and> check_le \<and> list_ex (\<lambda>v. new_val = word_of_int v) interesting_32)"

text \<open>The first and last differing offsets, -1 when there are none.\<close>

fun locate_diffs_loop :: "mem \<Rightarrow> mem \<Rightarrow> nat list \<Rightarrow> int \<times> int \<Rightarrow> (int \<times> int) option" where
  "locate_diffs_loop p1 p2 [] st = Some st"
| "locate_diffs_loop p1 p2 (pos # ps) (f_loc, l_loc) = do {
     a \<leftarrow> load8 p1 pos;
     b \<leftarrow> load8 p2 pos;
     locate_diffs_loop p1 p2 ps
       (if a \<noteq> b then (if f_loc = -1 then int pos else f_loc, int pos) else (f_loc, l_loc)) }"

definition locate_diffs :: "mem \<Rightarrow> mem \<Rightarrow> nat \<Rightarrow> (int \<times> int) option" where
  "locate_diffs p1 p2 len = locate_diffs_loop p1 p2 [0..<len] (-1, -1)"

section \<open>Bit flips\<close>

lemma strip_zeros_spec:
  assumes "x \<noteq> 0"
  shows "\<exists>y n. strip_zeros x sh = (y, sh + n) \<and> odd (unat y) \<and> unat x = 2 ^ n * unat y"
  using assms
proof (induction x sh rule: strip_zeros.induct)
  case (1 x sh)
  show ?case
  proof (cases "x AND 1 = 0")
    case True
    then have ev: "even (unat x)" by (simp only: and_1_unat)
    have "unat x \<noteq> 0" using "1.prems" by (simp add: unsigned_eq_0_iff)
    with ev have "unat x div 2 \<noteq> 0" by auto
    then have "drop_bit 1 x \<noteq> 0" by (metis unat_half unsigned_0)
    with 1 True obtain y n where y: "strip_zeros (drop_bit 1 x) (Suc sh) = (y, Suc sh + n)" "odd (unat y)"
        "unat (drop_bit 1 x) = 2 ^ n * unat y" by blast
    have "unat x = 2 * (unat x div 2)" using ev by simp
    then have "unat x = 2 ^ Suc n * unat y" using y(3) unat_half [of x] by simp
    moreover have "strip_zeros x sh = (y, sh + Suc n)"
      using y(1) "1.prems" True by (subst strip_zeros.simps) simp
    ultimately show ?thesis using y(2) by blast
  next
    case False
    then have "odd (unat x)" by (simp add: and_1_unat)
    moreover have "strip_zeros x sh = (x, sh + 0)" using False by (subst strip_zeros.simps) simp
    ultimately show ?thesis by (intro exI [of _ x] exI [of _ 0]) simp
  qed
qed

lemma odd_part_unique:
  fixes a b :: nat
  shows "2 ^ m * a = 2 ^ n * b \<Longrightarrow> odd a \<Longrightarrow> odd b \<Longrightarrow> m = n \<and> a = b"
proof (induction m arbitrary: n)
  case 0
  then show ?case by (cases n) auto
next
  case (Suc m)
  then show ?case by (cases n) auto
qed

lemma unat_push_mask:
  assumes "sh + w \<le> 32"
  shows "unat (push_bit sh (mask w) :: u32) = 2 ^ sh * (2 ^ w - 1)"
proof -
  have "(2 :: nat) ^ sh * (2 ^ w - 1) < 2 ^ 32"
  proof -
    have "(2 :: nat) ^ sh * (2 ^ w - 1) < 2 ^ sh * 2 ^ w" by simp
    also have "\<dots> \<le> 2 ^ 32" unfolding power_add [symmetric] using assms by (intro power_increasing) simp_all
    finally show ?thesis .
  qed
  moreover have "(push_bit sh (mask w) :: u32) = word_of_nat (2 ^ sh * (2 ^ w - 1))"
    by (simp add: push_bit_eq_mult mask_eq_exp_minus_1 of_nat_diff)
  ultimately show ?thesis by (simp only: unsigned_of_nat) (simp add: take_bit_nat_eq_self)
qed

text \<open>The runs of bits the bit flip stages flip: 1, 2 or 4 bits anywhere, 8, 16 or 32 at a byte boundary.\<close>

definition flip_pattern :: "nat \<Rightarrow> nat \<Rightarrow> bool" where
  "flip_pattern w sh \<longleftrightarrow> sh + w \<le> 32 \<and> (w = 1 \<or> w = 2 \<or> w = 4 \<or> (w = 8 \<or> w = 16 \<or> w = 32) \<and> 8 dvd sh)"

lemma unat_eq_numeral_u32:
  "unat (y :: u32) = 1 \<longleftrightarrow> y = 1" "unat y = 3 \<longleftrightarrow> y = 3" "unat y = 15 \<longleftrightarrow> y = 15"
  "unat y = 255 \<longleftrightarrow> y = 0xff" "unat y = 65535 \<longleftrightarrow> y = 0xffff" "unat y = 4294967295 \<longleftrightarrow> y = 0xffffffff"
proof -
  have "y = word_of_nat n" if "unat y = n" for n using that by auto
  then show "unat y = 1 \<longleftrightarrow> y = 1" "unat y = 3 \<longleftrightarrow> y = 3" "unat y = 15 \<longleftrightarrow> y = 15"
    "unat y = 255 \<longleftrightarrow> y = 0xff" "unat y = 65535 \<longleftrightarrow> y = 0xffff" "unat y = 4294967295 \<longleftrightarrow> y = 0xffffffff"
    by fastforce+
qed

section \<open>Properties of \<open>could_be_bitflip\<close>\<close>

lemma could_be_bitflip_iff:
  "could_be_bitflip x \<longleftrightarrow> x = 0 \<or> (\<exists>w sh. flip_pattern w sh \<and> x = push_bit sh (mask w))"
proof (cases "x = 0")
  case True
  then show ?thesis by (simp add: could_be_bitflip_def)
next
  case False
  from strip_zeros_spec [OF this, of 0] obtain y n where y: "strip_zeros x 0 = (y, n)" "odd (unat y)"
      "unat x = 2 ^ n * unat y" by auto
  have pat: "x = push_bit sh (mask w) \<longleftrightarrow> sh = n \<and> unat y = 2 ^ w - 1" if "flip_pattern w sh" for w sh
  proof -
    have le: "sh + w \<le> 32" and pos: "0 < w" using that by (auto simp: flip_pattern_def)
    have "x = push_bit sh (mask w) \<longleftrightarrow> unat x = unat (push_bit sh (mask w) :: u32)"
      by (metis unsigned_word_eqI)
    also have "\<dots> \<longleftrightarrow> 2 ^ n * unat y = 2 ^ sh * (2 ^ w - 1)" by (simp only: unat_push_mask [OF le] y(3))
    also have "\<dots> \<longleftrightarrow> sh = n \<and> unat y = 2 ^ w - 1"
      using odd_part_unique [of n "unat y" sh "2 ^ w - 1"] y(2) pos by auto
    finally show ?thesis .
  qed
  have bound: "2 ^ n * unat y < 2 ^ 32" using unsigned_less [of x, where ?'a = nat] y(3) by simp
  have fits: "n + w \<le> 32" if "unat y = 2 ^ w - 1" "0 < w" for w
  proof (rule ccontr)
    assume "\<not> n + w \<le> 32"
    then have "(2 :: nat) ^ 32 \<le> 2 ^ (n + (w - 1))" using that(2) by (intro power_increasing) simp_all
    also have "\<dots> = 2 ^ n * 2 ^ (w - 1)" by (simp add: power_add)
    also have "\<dots> \<le> 2 ^ n * (2 ^ w - 1)"
      using that(2) by (cases w) simp_all
    finally show False using bound that(1) by simp
  qed
  have "(\<exists>w sh. flip_pattern w sh \<and> x = push_bit sh (mask w)) \<longleftrightarrow> (\<exists>w. flip_pattern w n \<and> unat y = 2 ^ w - 1)"
    using pat by blast
  also have "\<dots> \<longleftrightarrow> (unat y = 1 \<or> unat y = 3 \<or> unat y = 15 \<or> 8 dvd n \<and> (unat y = 255 \<or> unat y = 65535 \<or> unat y = 4294967295))"
    (is "?L = ?R")
  proof
    show ?R if ?L using that by (auto simp: flip_pattern_def)
    have ex: ?L if "w = 1 \<or> w = 2 \<or> w = 4 \<or> (w = 8 \<or> w = 16 \<or> w = 32) \<and> 8 dvd n" "unat y = 2 ^ w - 1" for w
      using that fits [of w] by (intro exI [of _ w]) (auto simp: flip_pattern_def)
    show ?L if ?R
      using that ex [of 1] ex [of 2] ex [of 4] ex [of 8] ex [of 16] ex [of 32] by auto
  qed
  also have "\<dots> \<longleftrightarrow> could_be_bitflip x"
    using False y(1) unfolding unat_eq_numeral_u32 by (auto simp: could_be_bitflip_def)
  finally show ?thesis using False by blast
qed


section \<open>Arithmetic\<close>

text \<open>Two words at most \<open>ARITH_MAX\<close> apart, around the clock.\<close>

definition near :: "'w::len word \<Rightarrow> 'w word \<Rightarrow> bool" where
  "near a b \<longleftrightarrow> (\<exists>j\<le>ARITH_MAX. b = a + word_of_nat j \<or> b = a - word_of_nat j)"

lemma near_unat:
  assumes "ARITH_MAX < 2 ^ LENGTH('w)"
  shows "near a b \<longleftrightarrow> unat (a - b :: 'w::len word) \<le> ARITH_MAX \<or> unat (b - a) \<le> ARITH_MAX"
proof
  assume "near a b"
  then obtain j where j: "j \<le> ARITH_MAX" "b = a + word_of_nat j \<or> b = a - word_of_nat j" by (auto simp: near_def)
  then have "unat (word_of_nat j :: 'w word) = j" using assms by (simp add: unsigned_of_nat take_bit_nat_eq_self)
  with j show "unat (a - b) \<le> ARITH_MAX \<or> unat (b - a) \<le> ARITH_MAX" by auto
next
  assume "unat (a - b) \<le> ARITH_MAX \<or> unat (b - a) \<le> ARITH_MAX"
  moreover have "b = a - word_of_nat (unat (a - b))" "b = a + word_of_nat (unat (b - a))" by simp_all
  ultimately show "near a b" unfolding near_def by blast
qed

lemma ucast_diff_down:
  fixes a b :: "'w::len word"
  assumes "LENGTH('w) \<le> LENGTH('v::len)"
  shows "ucast (ucast a - ucast b :: 'v word) = a - b"
proof (rule unsigned_word_eqI [where ?'a = int])
  have d: "(2 :: int) ^ LENGTH('w) dvd 2 ^ LENGTH('v)" using assms by (rule le_imp_power_dvd)
  have "uint x mod 2 ^ LENGTH('v) mod 2 ^ LENGTH('w) = uint x mod 2 ^ LENGTH('w)" for x :: "'w word"
    using d by (rule mod_mod_cancel)
  then have "(uint a mod 2 ^ LENGTH('v) - uint b mod 2 ^ LENGTH('v)) mod 2 ^ LENGTH('w) = (uint a - uint b) mod 2 ^ LENGTH('w)"
    by (metis mod_diff_cong)
  then show "uint (ucast (ucast a - ucast b :: 'v word) :: 'w word) = uint (a - b)"
    using d by (simp add: unsigned_ucast_eq uint_word_ariths take_bit_eq_mod mod_mod_cancel)
qed

lemma ucast_up_down: "ucast (ucast a :: u32) = (a :: u16)"
  using ucast_diff_down [of a 0, where ?'v = 32] by simp

lemma near8_near: "near8 (ucast a) (ucast b) \<longleftrightarrow> near a (b :: u8)"
  by (simp add: near8_def near_unat ARITH_MAX_def ucast_diff_down)

lemma near16_near: "near16 (ucast a) (ucast b) \<longleftrightarrow> near a (b :: u16)"
  by (simp add: near16_def near_unat ARITH_MAX_def ucast_diff_down)

lemma near32_near: "near32 a b \<longleftrightarrow> near a b"
  by (simp add: near32_def near_unat ARITH_MAX_def)

text \<open>Exactly one of the first \<open>k\<close> lanes differs, and \<open>P\<close> holds of it.\<close>

definition one_differs :: "(nat \<Rightarrow> 'b) \<Rightarrow> (nat \<Rightarrow> 'b) \<Rightarrow> nat \<Rightarrow> ('b \<Rightarrow> 'b \<Rightarrow> bool) \<Rightarrow> bool" where
  "one_differs f g k P \<longleftrightarrow> (\<exists>i<k. f i \<noteq> g i \<and> (\<forall>i'<k. i' \<noteq> i \<longrightarrow> f i' = g i') \<and> P (f i) (g i))"

lemma fold_diff_step:
  "fold (\<lambda>i. diff_step (f i) (g i)) xs (d, ov, nv) =
     (d + length (filter (\<lambda>i. f i \<noteq> g i) xs),
      if filter (\<lambda>i. f i \<noteq> g i) xs = [] then (ov, nv)
      else (f (last (filter (\<lambda>i. f i \<noteq> g i) xs)), g (last (filter (\<lambda>i. f i \<noteq> g i) xs))))"
  by (induction xs arbitrary: d ov nv) (auto simp: diff_step_def)

lemma diff_one:
  "(case fold (\<lambda>i. diff_step (f i) (g i)) [0..<k] (0, ov, nv) of (d, o', n') \<Rightarrow> d = 1 \<and> P o' n') \<longleftrightarrow> one_differs f g k P"
proof -
  let ?fs = "filter (\<lambda>i. f i \<noteq> g i) [0..<k]"
  have "length ?fs = 1 \<and> P (f (last ?fs)) (g (last ?fs)) \<longleftrightarrow> one_differs f g k P"
  proof
    assume *: "length ?fs = 1 \<and> P (f (last ?fs)) (g (last ?fs))"
    then obtain i where i: "?fs = [i]" by (auto simp: length_Suc_conv)
    then have "{x \<in> set [0..<k]. f x \<noteq> g x} = {i}" by (metis set_filter empty_set list.simps(15))
    then have "i < k" "f i \<noteq> g i" "\<forall>x<k. x \<noteq> i \<longrightarrow> f x = g x" by auto
    then show "one_differs f g k P" using * i unfolding one_differs_def by auto
  next
    assume "one_differs f g k P"
    then obtain i where i: "i < k" "f i \<noteq> g i" "\<forall>i'<k. i' \<noteq> i \<longrightarrow> f i' = g i'" "P (f i) (g i)"
      unfolding one_differs_def by blast
    have "set ?fs = {i}" using i by auto
    moreover have "distinct ?fs" by simp
    ultimately have "length ?fs = 1" using distinct_card [of ?fs] by simp
    then obtain x where "?fs = [x]" by (auto simp: length_Suc_conv)
    with \<open>set ?fs = {i}\<close> have "?fs = [i]" by (metis list.set(1,2) singleton_inject)
    with i show "length ?fs = 1 \<and> P (f (last ?fs)) (g (last ?fs))" by simp
  qed
  then show ?thesis by (auto simp: fold_diff_step)
qed


lemma one_differs_ucast:
  fixes f g :: "nat \<Rightarrow> 'w::len word"
  assumes "LENGTH('w) \<le> LENGTH('v::len)"
  shows "one_differs (\<lambda>i. ucast (f i) :: 'v word) (\<lambda>i. ucast (g i)) k P
           \<longleftrightarrow> one_differs f g k (\<lambda>a b. P (ucast a) (ucast b))"
proof -
  have "(ucast a :: 'v word) = ucast b \<longleftrightarrow> a = b" for a b :: "'w word"
  proof
    assume "(ucast a :: 'v word) = ucast b"
    then have "uint (ucast a :: 'v word) = uint (ucast b :: 'v word)" by simp
    moreover have "uint (ucast x :: 'v word) = uint x" for x :: "'w word"
    proof -
      have "uint x < 2 ^ LENGTH('v)"
        using unsigned_less [of x, where ?'a = int] power_increasing [OF assms, of "2 :: int"] by linarith
      then show ?thesis by (simp add: unsigned_ucast_eq take_bit_int_eq_self)
    qed
    ultimately show "a = b" by (simp add: unsigned_word_eqI)
  qed simp
  then show ?thesis unfolding one_differs_def by simp
qed

text \<open>What the arithmetic stages of width up to \<open>blen\<close> can do to a value: change one byte, one aligned word (in either
  byte order) or, at width 4, the whole value (in either byte order) by at most \<open>ARITH_MAX\<close>.\<close>

definition arith_reach :: "u32 \<Rightarrow> u32 \<Rightarrow> nat \<Rightarrow> bool" where
  "arith_reach old new blen \<longleftrightarrow> old = new
     \<or> one_differs (byte_at old) (byte_at new) blen near
     \<or> blen \<noteq> 1 \<and> one_differs (word_at old) (word_at new) (blen div 2) (\<lambda>a b. near a b \<or> near (SWAP16 a) (SWAP16 b))
     \<or> blen = 4 \<and> (near old new \<or> near (SWAP32 old) (SWAP32 new))"

lemma could_be_arith_reach: "could_be_arith old new blen \<longleftrightarrow> arith_reach old new blen"
proof -
  let ?B = "fold (\<lambda>i. diff_step (ucast (byte_at old i)) (ucast (byte_at new i))) [0..<blen] (0, 0, 0)"
  have b: "(case ?B of (d, a, b) \<Rightarrow> d = 1 \<and> near8 a b) \<longleftrightarrow> one_differs (byte_at old) (byte_at new) blen near"
    unfolding diff_one by (simp add: one_differs_ucast near8_near)
  obtain d a b where B: "?B = (d, a, b)" by (cases ?B)
  let ?P = "\<lambda>ov nv. near16 ov nv \<or> near16 (ucast (SWAP16 (ucast ov))) (ucast (SWAP16 (ucast nv)))"
  let ?W = "fold (\<lambda>i. diff_step (ucast (word_at old i)) (ucast (word_at new i))) [0..<blen div 2] (0, a, b)"
  have w: "(case ?W of (d, a, b) \<Rightarrow> d = 1 \<and> ?P a b)
      \<longleftrightarrow> one_differs (word_at old) (word_at new) (blen div 2) (\<lambda>a b. near a b \<or> near (SWAP16 a) (SWAP16 b))"
    unfolding diff_one by (simp add: one_differs_ucast near16_near ucast_up_down)
  obtain d' a' b' where W: "?W = (d', a', b')" by (cases ?W)
  show ?thesis
    unfolding could_be_arith_def arith_reach_def b [symmetric] w [symmetric] B W prod.case near32_near by auto
qed

section \<open>Properties\<close>

text \<open>\<open>could_be_bitflip\<close> recognises exactly the differences that a bit flip stage produces inside a 32-bit window: 1,
  2 or 4 adjacent bits anywhere, or 8, 16 or 32 bits starting at a byte boundary, and the empty difference. Its loop ends on
  every argument.\<close>

theorem could_be_bitflip_correct:
  "could_be_bitflip xor_val \<longleftrightarrow> xor_val = 0 \<or> (\<exists>w sh. flip_pattern w sh \<and> xor_val = push_bit sh (mask w))"
  by (rule could_be_bitflip_iff)

text \<open>\<open>could_be_arith\<close> holds exactly when the new value is the old one, or differs from it in exactly one byte, in
  exactly one aligned 16-bit word (in either byte order, for widths above 1), or as a 32-bit value (in either byte
  order, for width 4), by at most \<open>ARITH_MAX\<close>.\<close>

theorem could_be_arith_correct: "could_be_arith old_val new_val blen \<longleftrightarrow> arith_reach old_val new_val blen"
  by (rule could_be_arith_reach)

lemma locate_diffs_loop_spec:
  assumes "n \<le> length p1" and "n \<le> length p2"
  defines "D \<equiv> filter (\<lambda>i. p1 ! i \<noteq> p2 ! i) [0..<n]"
  shows "locate_diffs p1 p2 n = Some (if D = [] then (-1, -1) else (int (hd D), int (last D)))"
proof -
  have "locate_diffs_loop p1 p2 ps (f, l) = Some (if filter (\<lambda>i. p1 ! i \<noteq> p2 ! i) ps = [] then (f, l)
      else (if f = -1 then int (hd (filter (\<lambda>i. p1 ! i \<noteq> p2 ! i) ps)) else f, int (last (filter (\<lambda>i. p1 ! i \<noteq> p2 ! i) ps))))"
    if "\<forall>i\<in>set ps. i < n" for ps f l
    using that assms(1,2) by (induction ps arbitrary: f l) auto
  from this [of "[0..<n]" "-1" "-1"] show ?thesis by (simp add: locate_diffs_def D_def)
qed

lemma locate_diffs_spec:
  assumes "len \<le> length p1" and "len \<le> length p2"
  shows "\<exists>f l. locate_diffs p1 p2 len = Some (f, l) \<and>
     (if take len p1 = take len p2 then f = -1 \<and> l = -1
      else \<exists>i j. f = int i \<and> l = int j \<and> i \<le> j \<and> j < len \<and> p1 ! i \<noteq> p2 ! i \<and> p1 ! j \<noteq> p2 ! j
                \<and> (\<forall>k<len. p1 ! k \<noteq> p2 ! k \<longrightarrow> i \<le> k \<and> k \<le> j))"
proof -
  define D where "D = filter (\<lambda>i. p1 ! i \<noteq> p2 ! i) [0..<len]"
  have eq: "take len p1 = take len p2 \<longleftrightarrow> D = []"
    using assms by (auto simp: D_def list_eq_iff_nth_eq [of "take len p1"] filter_empty_conv)
  have run: "locate_diffs p1 p2 len = Some (if D = [] then (-1, -1) else (int (hd D), int (last D)))"
    unfolding D_def by (rule locate_diffs_loop_spec [OF assms])
  show ?thesis
  proof (cases "D = []")
    case True
    then show ?thesis using run eq by simp
  next
    case False
    have "sorted D" unfolding D_def using sorted_wrt_filter [OF sorted_upt] by blast
    have "hd D \<le> k \<and> k \<le> last D" if k: "k \<in> set D" for k
    proof -
      from k obtain m where "m < length D" "k = D ! m" by (auto simp: in_set_conv_nth)
      with \<open>sorted D\<close> False show ?thesis
        by (simp add: hd_conv_nth last_conv_nth sorted_iff_nth_mono)
    qed
    note range = this
    have mem: "k \<in> set D \<longleftrightarrow> k < len \<and> p1 ! k \<noteq> p2 ! k" for k by (auto simp: D_def)
    have ends: "hd D \<in> set D" "last D \<in> set D" using False by simp_all
    have "hd D \<le> last D" using range [OF ends(2)] by simp
    then have P: "\<exists>i j. int (hd D) = int i \<and> int (last D) = int j \<and> i \<le> j \<and> j < len \<and> p1 ! i \<noteq> p2 ! i \<and> p1 ! j \<noteq> p2 ! j
                \<and> (\<forall>k<len. p1 ! k \<noteq> p2 ! k \<longrightarrow> i \<le> k \<and> k \<le> j)"
      using ends range unfolding mem by blast
    have "take len p1 \<noteq> take len p2" using eq False by simp
    with run False P show ?thesis
      by (intro exI [of _ "int (hd D)"] exI [of _ "int (last D)"]) presburger
  qed
qed

text \<open>\<open>locate_diffs\<close> stays inside two buffers of at least \<open>len\<close> bytes; it returns -1 twice when they agree on \<open>len\<close> bytes, and
  otherwise the first and the last offset at which they differ.\<close>

theorem locate_diffs_correct:
  assumes "len \<le> length p1" and "len \<le> length p2"
  shows "\<exists>f l. locate_diffs p1 p2 len = Some (f, l) \<and>
     (if take len p1 = take len p2 then f = -1 \<and> l = -1
      else \<exists>i j. f = int i \<and> l = int j \<and> i \<le> j \<and> j < len \<and> p1 ! i \<noteq> p2 ! i \<and> p1 ! j \<noteq> p2 ! j
                \<and> (\<forall>k<len. p1 ! k \<noteq> p2 ! k \<longrightarrow> i \<le> k \<and> k \<le> j))"
  by (rule locate_diffs_spec [OF assms])

theorem locate_diffs_witness:
  "\<exists>i j. locate_diffs [1, 2, 3, 4] [1, 9, 3, 8] 4 = Some (int i, int j) \<and> i \<le> j \<and> j < 4"
  using locate_diffs_correct [of 4 "[1, 2, 3, 4]" "[1, 9, 3, 8]"] by auto

end
