(* ===== verification/Det.thy ===== *)
theory Det
  imports Skipdet Dedup
begin

text \<open>
  The deterministic stages of \<open>fuzz_one_original\<close> (\<^verbatim>\<open>src/afl-fuzz-one.c\<close>): bit flips of 1 to 32 bits with
  the detection of syntax tokens, arithmetic, interesting values, and the dictionaries, in the order and with the jumps
  of the source. \<open>out_buf\<close> is the whole allocated buffer, of which the first \<open>len\<close> bytes are the input;
  \<open>ex_tmp\<close> is the buffer for inputs that grow.
\<close>

record 'g fuzz1 = "'g det" +
  a_collect :: mem
  a_len :: nat
  prev_cksum :: u64
  first_cksum :: u64
  last_len :: nat
  ex_tmp :: mem
  passed_det :: bool

section \<open>Building blocks\<close>

text \<open>The reads and writes through \<open>*(uN *)(m + off)\<close>\<close>

definition load_le :: "nat \<Rightarrow> mem \<Rightarrow> nat \<Rightarrow> 'w::len word option" where
  "load_le nb m off = (if off + nb \<le> length m then Some (le_word (take nb (drop off m))) else None)"

definition put_bytes :: "nat \<Rightarrow> mem \<Rightarrow> ('g, 'a) det_scheme \<Rightarrow> exit \<times> ('g, 'a) det_scheme" where
  "put_bytes off bs = guarded (\<lambda>s. map_option (\<lambda>b. s\<lparr>out_buf := b\<rparr>) (memcpy_at (out_buf s) off bs))"

definition flip_bit :: "mem \<Rightarrow> nat \<Rightarrow> mem option" where
  "flip_bit m b = do {
     x \<leftarrow> load8 m (b div 8);
     store8 m (b div 8) (x XOR drop_bit (b mod 8) 128) }"

definition FLIP_BIT :: "nat \<Rightarrow> ('g, 'a) det_scheme \<Rightarrow> exit \<times> ('g, 'a) det_scheme" where
  "FLIP_BIT b = guarded (\<lambda>s. map_option (\<lambda>m. s\<lparr>out_buf := m\<rparr>) (flip_bit (out_buf s) b))"

text \<open>\<open>if (!bitmap_read(skip_eff_map, i)) continue; if (is_det_timeout(before_det_time, 0)) { goto custom_mutator_stage; }\<close>\<close>

definition at_effective ::
  "'g stage_ops \<Rightarrow> u64 \<Rightarrow> nat \<Rightarrow> (('g, 'a) det_scheme \<Rightarrow> exit \<times> ('g, 'a) det_scheme) \<Rightarrow> ('g, 'a) det_scheme \<Rightarrow> exit \<times> ('g, 'a) det_scheme"
  where
  "at_effective ops before i body =
     reading (\<lambda>s. eff_read s i) (\<lambda>d. cond (\<lambda>s. d) (seq [check_timeout ops before False, body]) (upd (\<lambda>s. s)))"

text \<open>\<open>if (ok) { \<dots> write; run; ++stage_cur; } else { --stage_max; }\<close>, with what is noted about the attempt first\<close>

definition try_value ::
  "'g stage_ops \<Rightarrow> nat \<Rightarrow> bool \<Rightarrow> (('g, 'a) det_scheme \<Rightarrow> ('g, 'a) det_scheme) \<Rightarrow> (('g, 'a) det_scheme \<Rightarrow> exit \<times> ('g, 'a) det_scheme)
     \<Rightarrow> ('g, 'a) det_scheme \<Rightarrow> exit \<times> ('g, 'a) det_scheme" where
  "try_value ops len ok note_it write =
     cond (\<lambda>s. ok)
       (seq [upd note_it, write, fuzz_stuff ops len, upd (\<lambda>s. s\<lparr>stage_cur := stage_cur s + 1\<rparr>)])
       (upd (\<lambda>s. s\<lparr>stage_max := stage_max s - 1\<rparr>))"

definition stage_begin :: "u32 \<Rightarrow> ('g, 'a) det_scheme \<Rightarrow> exit \<times> ('g, 'a) det_scheme" where
  "stage_begin m = upd (\<lambda>s. s\<lparr>stage_cur := 0, stage_max := m, orig_hit_cnt := new_hit_cnt s\<rparr>)"

section \<open>Bit flips\<close>

text \<open>The detection of syntax tokens after the lowest bit of a byte has been flipped back.\<close>

definition collect_byte :: "nat \<Rightarrow> ('g, 'a) fuzz1_scheme \<Rightarrow> ('g, 'a) fuzz1_scheme option" where
  "collect_byte k s = do {
     s \<leftarrow> (if a_len s < MAX_AUTO_EXTRA
           then do { c \<leftarrow> load8 (out_buf s) (k div 8);
                     m \<leftarrow> store8 (a_collect s) (a_len s) c;
                     Some (s\<lparr>a_collect := m\<rparr>) }
           else Some s);
     Some (s\<lparr>a_len := a_len s + 1\<rparr>) }"

definition flush_token :: "'g stage_ops \<Rightarrow> ('g, 'a) fuzz1_scheme \<Rightarrow> ('g, 'a) fuzz1_scheme" where
  "flush_token ops s =
     (if a_len s \<ge> MIN_AUTO_EXTRA \<and> a_len s \<le> MAX_AUTO_EXTRA
      then s\<lparr>env := maybe_add_auto_op ops (take (a_len s) (a_collect s)) (env s)\<rparr> else s)"

definition detect_token :: "'g stage_ops \<Rightarrow> nat \<Rightarrow> ('g, 'a) fuzz1_scheme \<Rightarrow> ('g, 'a) fuzz1_scheme option" where
  "detect_token ops k s = do {
     let cksum = trace_cksum ops (env s);
     s \<leftarrow> (if k = unat (stage_max s) - 1 \<and> cksum = prev_cksum s
           then map_option (flush_token ops) (collect_byte k s)
           else if cksum \<noteq> prev_cksum s
           then Some ((flush_token ops s)\<lparr>a_len := 0, prev_cksum := cksum\<rparr>)
           else Some s);
     if cksum \<noteq> first_cksum s then collect_byte k s else Some s }"

definition stage_flip1 ::
  "'g stage_ops \<Rightarrow> bool \<Rightarrow> nat \<Rightarrow> u64 \<Rightarrow> ('g, 'a) fuzz1_scheme \<Rightarrow> exit \<times> ('g, 'a) fuzz1_scheme" where
  "stage_flip1 ops non_instrumented_mode len before =
     seq [upd (\<lambda>s. s\<lparr>stage_max := word_of_nat len * 8, stage_val_type := STAGE_VAL_NONE,
                     orig_hit_cnt := hit_cnt_now ops (env s)\<rparr>),
          fuzz_stuff ops len,
          upd (\<lambda>s. s\<lparr>prev_cksum := trace_cksum ops (env s), first_cksum := trace_cksum ops (env s)\<rparr>),
          (\<lambda>s. for_each (\<lambda>k. seq [
               upd (\<lambda>s. s\<lparr>stage_cur := word_of_nat k, stage_cur_byte := word_of_nat (k div 8)\<rparr>),
               at_effective ops before (k div 8) (seq [
                 FLIP_BIT k,
                 fuzz_stuff ops len,
                 FLIP_BIT k,
                 cond (\<lambda>s. \<not> non_instrumented_mode \<and> k mod 8 = 7) (guarded (detect_token ops k)) (upd (\<lambda>s. s))])])
             [0..<unat (stage_max s)] s),
          upd (\<lambda>s. s\<lparr>stage_cur := stage_max s\<rparr>),
          stage_end ops STAGE_FLIP1]"

definition stage_flip2 :: "'g stage_ops \<Rightarrow> nat \<Rightarrow> u64 \<Rightarrow> ('g, 'a) fuzz1_scheme \<Rightarrow> exit \<times> ('g, 'a) fuzz1_scheme" where
  "stage_flip2 ops len before =
     seq [upd (\<lambda>s. s\<lparr>stage_max := word_of_nat len * 8 - 1, orig_hit_cnt := new_hit_cnt s\<rparr>),
          (\<lambda>s. for_each (\<lambda>k. seq [
               upd (\<lambda>s. s\<lparr>stage_cur := word_of_nat k, stage_cur_byte := word_of_nat (k div 8)\<rparr>),
               at_effective ops before (k div 8) (seq [
                 FLIP_BIT k, FLIP_BIT (k + 1),
                 fuzz_stuff ops len,
                 FLIP_BIT k, FLIP_BIT (k + 1)])])
             [0..<unat (stage_max s)] s),
          upd (\<lambda>s. s\<lparr>stage_cur := stage_max s\<rparr>),
          stage_end ops STAGE_FLIP2]"

definition stage_flip4 :: "'g stage_ops \<Rightarrow> nat \<Rightarrow> u64 \<Rightarrow> ('g, 'a) fuzz1_scheme \<Rightarrow> exit \<times> ('g, 'a) fuzz1_scheme" where
  "stage_flip4 ops len before =
     seq [upd (\<lambda>s. s\<lparr>stage_max := word_of_nat len * 8 - 3, orig_hit_cnt := new_hit_cnt s\<rparr>),
          (\<lambda>s. for_each (\<lambda>k. seq [
               upd (\<lambda>s. s\<lparr>stage_cur := word_of_nat k, stage_cur_byte := word_of_nat (k div 8)\<rparr>),
               at_effective ops before (k div 8) (seq [
                 FLIP_BIT k, FLIP_BIT (k + 1), FLIP_BIT (k + 2), FLIP_BIT (k + 3),
                 fuzz_stuff ops len,
                 FLIP_BIT k, FLIP_BIT (k + 1), FLIP_BIT (k + 2), FLIP_BIT (k + 3)])])
             [0..<unat (stage_max s)] s),
          upd (\<lambda>s. s\<lparr>stage_cur := stage_max s\<rparr>),
          stage_end ops STAGE_FLIP4]"

definition stage_flip8 :: "'g stage_ops \<Rightarrow> nat \<Rightarrow> u64 \<Rightarrow> ('g, 'a) fuzz1_scheme \<Rightarrow> exit \<times> ('g, 'a) fuzz1_scheme" where
  "stage_flip8 ops len before =
     seq [upd (\<lambda>s. s\<lparr>stage_max := word_of_nat len, orig_hit_cnt := new_hit_cnt s, prev_cksum := first_cksum s\<rparr>),
          (\<lambda>s. for_each (\<lambda>k. seq [
               upd (\<lambda>s. s\<lparr>stage_cur := word_of_nat k, stage_cur_byte := word_of_nat k\<rparr>),
               at_effective ops before k (seq [
                 flip_out k 1,
                 fuzz_stuff ops len,
                 flip_out k 1])])
             [0..<unat (stage_max s)] s),
          upd (\<lambda>s. s\<lparr>stage_cur := stage_max s\<rparr>),
          for_each (\<lambda>i. reading (\<lambda>s. eff_read s i) (\<lambda>d.
               upd (\<lambda>s. if d then s\<lparr>blocks_eff_select := blocks_eff_select s + 1\<rparr> else s))) [0..<len],
          upd (\<lambda>s. s\<lparr>blocks_eff_total := blocks_eff_total s + word_of_nat len\<rparr>),
          stage_end ops STAGE_FLIP8]"

text \<open>\<open>*(u16 *)(out_buf + i) ^= 0xFFFF\<close>\<close>

definition stage_flip16 :: "'g stage_ops \<Rightarrow> nat \<Rightarrow> u64 \<Rightarrow> ('g, 'a) fuzz1_scheme \<Rightarrow> exit \<times> ('g, 'a) fuzz1_scheme" where
  "stage_flip16 ops len before =
     seq [stage_begin (word_of_nat len - 1),
          for_each (\<lambda>i. at_effective ops before i (seq [
               upd (\<lambda>s. s\<lparr>stage_cur_byte := word_of_nat i\<rparr>),
               reading (\<lambda>s. load_le 2 (out_buf s) i) (\<lambda>w. put_bytes i (le_bytes 2 (w XOR 0xFFFF :: u16))),
               fuzz_stuff ops len,
               upd (\<lambda>s. s\<lparr>stage_cur := stage_cur s + 1\<rparr>),
               reading (\<lambda>s. load_le 2 (out_buf s) i) (\<lambda>w. put_bytes i (le_bytes 2 (w XOR 0xFFFF :: u16)))]))
             [0..<len - 1],
          stage_end ops STAGE_FLIP16]"

definition stage_flip32 :: "'g stage_ops \<Rightarrow> nat \<Rightarrow> u64 \<Rightarrow> ('g, 'a) fuzz1_scheme \<Rightarrow> exit \<times> ('g, 'a) fuzz1_scheme" where
  "stage_flip32 ops len before =
     seq [stage_begin (word_of_nat len - 3),
          for_each (\<lambda>i. at_effective ops before i (seq [
               upd (\<lambda>s. s\<lparr>stage_cur_byte := word_of_nat i\<rparr>),
               reading (\<lambda>s. load_le 4 (out_buf s) i) (\<lambda>w. put_bytes i (le_bytes 4 (w XOR 0xFFFFFFFF :: u32))),
               fuzz_stuff ops len,
               upd (\<lambda>s. s\<lparr>stage_cur := stage_cur s + 1\<rparr>),
               reading (\<lambda>s. load_le 4 (out_buf s) i) (\<lambda>w. put_bytes i (le_bytes 4 (w XOR 0xFFFFFFFF :: u32)))]))
             [0..<len - 3],
          stage_end ops STAGE_FLIP32]"

section \<open>Arithmetic\<close>

definition stage_arith8 :: "'g stage_ops \<Rightarrow> nat \<Rightarrow> u64 \<Rightarrow> ('g, 'a) fuzz1_scheme \<Rightarrow> exit \<times> ('g, 'a) fuzz1_scheme" where
  "stage_arith8 ops len before =
     seq [stage_begin (2 * word_of_nat len * word_of_nat ARITH_MAX),
          upd (\<lambda>s. s\<lparr>stage_val_type := STAGE_VAL_LE\<rparr>),
          for_each (\<lambda>i. reading (\<lambda>s. load8 (out_buf s) i) (\<lambda>orig. at_effective ops before i (seq [
               upd (\<lambda>s. s\<lparr>stage_cur_byte := word_of_nat i\<rparr>),
               for_each (\<lambda>j. let jj = word_of_nat j :: u8 in seq [
                   try_value ops len (\<not> could_be_bitflip (ucast (orig XOR (orig + jj)))) (\<lambda>s. s\<lparr>stage_cur_val := word_of_nat j\<rparr>)
                     (put_out i (orig + jj)),
                   try_value ops len (\<not> could_be_bitflip (ucast (orig XOR (orig - jj)))) (\<lambda>s. s\<lparr>stage_cur_val := - word_of_nat j\<rparr>)
                     (put_out i (orig - jj)),
                   put_out i orig])
                 [1..<ARITH_MAX + 1]])))
             [0..<len],
          stage_end ops STAGE_ARITH8]"

definition stage_arith16 :: "'g stage_ops \<Rightarrow> nat \<Rightarrow> u64 \<Rightarrow> ('g, 'a) fuzz1_scheme \<Rightarrow> exit \<times> ('g, 'a) fuzz1_scheme" where
  "stage_arith16 ops len before =
     seq [stage_begin (4 * (word_of_nat len - 1) * word_of_nat ARITH_MAX),
          for_each (\<lambda>i. reading (\<lambda>s. load_le 2 (out_buf s) i) (\<lambda>orig. at_effective ops before i (seq [
               upd (\<lambda>s. s\<lparr>stage_cur_byte := word_of_nat i\<rparr>),
               for_each (\<lambda>j. let jj = word_of_nat j :: u16;
                                 r1 = orig XOR (orig + jj);
                                 r2 = orig XOR (orig - jj);
                                 r3 = orig XOR SWAP16 (SWAP16 orig + jj);
                                 r4 = orig XOR SWAP16 (SWAP16 orig - jj)
                             in seq [
                   upd (\<lambda>s. s\<lparr>stage_val_type := STAGE_VAL_LE\<rparr>),
                   try_value ops len (unat (orig AND 0xff) + j > 0xff \<and> \<not> could_be_bitflip (ucast r1))
                     (\<lambda>s. s\<lparr>stage_cur_val := word_of_nat j\<rparr>) (put_bytes i (le_bytes 2 (orig + jj))),
                   try_value ops len (unat (orig AND 0xff) < j \<and> \<not> could_be_bitflip (ucast r2))
                     (\<lambda>s. s\<lparr>stage_cur_val := - word_of_nat j\<rparr>) (put_bytes i (le_bytes 2 (orig - jj))),
                   upd (\<lambda>s. s\<lparr>stage_val_type := STAGE_VAL_BE\<rparr>),
                   try_value ops len (unat (drop_bit 8 orig) + j > 0xff \<and> \<not> could_be_bitflip (ucast r3))
                     (\<lambda>s. s\<lparr>stage_cur_val := word_of_nat j\<rparr>) (put_bytes i (le_bytes 2 (SWAP16 (SWAP16 orig + jj)))),
                   try_value ops len (unat (drop_bit 8 orig) < j \<and> \<not> could_be_bitflip (ucast r4))
                     (\<lambda>s. s\<lparr>stage_cur_val := - word_of_nat j\<rparr>) (put_bytes i (le_bytes 2 (SWAP16 (SWAP16 orig - jj)))),
                   put_bytes i (le_bytes 2 orig)])
                 [1..<ARITH_MAX + 1]])))
             [0..<len - 1],
          stage_end ops STAGE_ARITH16]"

definition stage_arith32 :: "'g stage_ops \<Rightarrow> nat \<Rightarrow> u64 \<Rightarrow> ('g, 'a) fuzz1_scheme \<Rightarrow> exit \<times> ('g, 'a) fuzz1_scheme" where
  "stage_arith32 ops len before =
     seq [stage_begin (4 * (word_of_nat len - 3) * word_of_nat ARITH_MAX),
          for_each (\<lambda>i. reading (\<lambda>s. load_le 4 (out_buf s) i) (\<lambda>orig. at_effective ops before i (seq [
               upd (\<lambda>s. s\<lparr>stage_cur_byte := word_of_nat i\<rparr>),
               for_each (\<lambda>j. let jj = word_of_nat j :: u32;
                                 r1 = orig XOR (orig + jj);
                                 r2 = orig XOR (orig - jj);
                                 r3 = orig XOR SWAP32 (SWAP32 orig + jj);
                                 r4 = orig XOR SWAP32 (SWAP32 orig - jj)
                             in seq [
                   upd (\<lambda>s. s\<lparr>stage_val_type := STAGE_VAL_LE\<rparr>),
                   try_value ops len (unat (orig AND 0xffff) + j > 0xffff \<and> \<not> could_be_bitflip r1)
                     (\<lambda>s. s\<lparr>stage_cur_val := word_of_nat j\<rparr>) (put_bytes i (le_bytes 4 (orig + jj))),
                   try_value ops len (unat (orig AND 0xffff) < j \<and> \<not> could_be_bitflip r2)
                     (\<lambda>s. s\<lparr>stage_cur_val := - word_of_nat j\<rparr>) (put_bytes i (le_bytes 4 (orig - jj))),
                   upd (\<lambda>s. s\<lparr>stage_val_type := STAGE_VAL_BE\<rparr>),
                   try_value ops len (unat (SWAP32 orig AND 0xffff) + j > 0xffff \<and> \<not> could_be_bitflip r3)
                     (\<lambda>s. s\<lparr>stage_cur_val := word_of_nat j\<rparr>) (put_bytes i (le_bytes 4 (SWAP32 (SWAP32 orig + jj)))),
                   try_value ops len (unat (SWAP32 orig AND 0xffff) < j \<and> \<not> could_be_bitflip r4)
                     (\<lambda>s. s\<lparr>stage_cur_val := - word_of_nat j\<rparr>) (put_bytes i (le_bytes 4 (SWAP32 (SWAP32 orig - jj)))),
                   put_bytes i (le_bytes 4 orig)])
                 [1..<ARITH_MAX + 1]])))
             [0..<len - 3],
          stage_end ops STAGE_ARITH32]"


section \<open>Interesting values\<close>

definition stage_int8 :: "'g stage_ops \<Rightarrow> nat \<Rightarrow> u64 \<Rightarrow> ('g, 'a) fuzz1_scheme \<Rightarrow> exit \<times> ('g, 'a) fuzz1_scheme" where
  "stage_int8 ops len before =
     seq [stage_begin (word_of_nat len * word_of_nat (length interesting_8)),
          upd (\<lambda>s. s\<lparr>stage_val_type := STAGE_VAL_LE\<rparr>),
          for_each (\<lambda>i. reading (\<lambda>s. load8 (out_buf s) i) (\<lambda>orig. at_effective ops before i (seq [
               upd (\<lambda>s. s\<lparr>stage_cur_byte := word_of_nat i\<rparr>),
               for_each (\<lambda>v. let x = word_of_int v :: u8 in
                   cond (\<lambda>s. could_be_bitflip (ucast (orig XOR x)) \<or> could_be_arith (ucast orig) (ucast x) 1)
                     (upd (\<lambda>s. s\<lparr>stage_max := stage_max s - 1\<rparr>))
                     (seq [upd (\<lambda>s. s\<lparr>stage_cur_val := word_of_int v\<rparr>),
                           put_out i x,
                           fuzz_stuff ops len,
                           put_out i orig,
                           upd (\<lambda>s. s\<lparr>stage_cur := stage_cur s + 1\<rparr>)]))
                 interesting_8])))
             [0..<len],
          stage_end ops STAGE_INTEREST8]"

definition stage_int16 :: "'g stage_ops \<Rightarrow> nat \<Rightarrow> u64 \<Rightarrow> ('g, 'a) fuzz1_scheme \<Rightarrow> exit \<times> ('g, 'a) fuzz1_scheme" where
  "stage_int16 ops len before =
     seq [stage_begin (2 * (word_of_nat len - 1) * word_of_nat (length interesting_16)),
          for_each (\<lambda>i. reading (\<lambda>s. load_le 2 (out_buf s) i) (\<lambda>orig :: u16. at_effective ops before i (seq [
               upd (\<lambda>s. s\<lparr>stage_cur_byte := word_of_nat i\<rparr>),
               for_each (\<lambda>v. let x = word_of_int v :: u16; y = SWAP16 x in seq [
                   upd (\<lambda>s. s\<lparr>stage_cur_val := word_of_int v\<rparr>),
                   try_value ops len (\<not> could_be_bitflip (ucast (orig XOR x)) \<and> \<not> could_be_arith (ucast orig) (ucast x) 2
                                      \<and> \<not> could_be_interest (ucast orig) (ucast x) 2 False)
                     (\<lambda>s. s\<lparr>stage_val_type := STAGE_VAL_LE\<rparr>) (put_bytes i (le_bytes 2 x)),
                   try_value ops len (x \<noteq> y \<and> \<not> could_be_bitflip (ucast (orig XOR y)) \<and> \<not> could_be_arith (ucast orig) (ucast y) 2
                                      \<and> \<not> could_be_interest (ucast orig) (ucast y) 2 True)
                     (\<lambda>s. s\<lparr>stage_val_type := STAGE_VAL_BE\<rparr>) (put_bytes i (le_bytes 2 y))])
                 interesting_16,
               put_bytes i (le_bytes 2 orig)])))
             [0..<len - 1],
          stage_end ops STAGE_INTEREST16]"

definition stage_int32 :: "'g stage_ops \<Rightarrow> nat \<Rightarrow> u64 \<Rightarrow> ('g, 'a) fuzz1_scheme \<Rightarrow> exit \<times> ('g, 'a) fuzz1_scheme" where
  "stage_int32 ops len before =
     seq [stage_begin (2 * (word_of_nat len - 3) * word_of_nat (length interesting_32)),
          for_each (\<lambda>i. reading (\<lambda>s. load_le 4 (out_buf s) i) (\<lambda>orig :: u32. at_effective ops before i (seq [
               upd (\<lambda>s. s\<lparr>stage_cur_byte := word_of_nat i\<rparr>),
               for_each (\<lambda>v. let x = word_of_int v :: u32; y = SWAP32 x in seq [
                   upd (\<lambda>s. s\<lparr>stage_cur_val := word_of_int v\<rparr>),
                   try_value ops len (\<not> could_be_bitflip (orig XOR x) \<and> \<not> could_be_arith orig x 4
                                      \<and> \<not> could_be_interest orig x 4 False)
                     (\<lambda>s. s\<lparr>stage_val_type := STAGE_VAL_LE\<rparr>) (put_bytes i (le_bytes 4 x)),
                   try_value ops len (x \<noteq> y \<and> \<not> could_be_bitflip (orig XOR y) \<and> \<not> could_be_arith orig y 4
                                      \<and> \<not> could_be_interest orig y 4 True)
                     (\<lambda>s. s\<lparr>stage_val_type := STAGE_VAL_BE\<rparr>) (put_bytes i (le_bytes 4 y))])
                 interesting_32,
               put_bytes i (le_bytes 4 orig)])))
             [0..<len - 3],
          stage_end ops STAGE_INTEREST32]"

section \<open>Dictionaries\<close>

text \<open>One token written over the input at \<open>i\<close>.\<close>

definition overwrite_token ::
  "'g stage_ops \<Rightarrow> nat \<Rightarrow> nat \<Rightarrow> mem \<Rightarrow> ('g, 'a) fuzz1_scheme \<Rightarrow> exit \<times> ('g, 'a) fuzz1_scheme" where
  "overwrite_token ops len i tok =
     cond (\<lambda>s. length tok > len - i \<or> tok = take (length tok) (drop i (out_buf s)))
       (upd (\<lambda>s. s\<lparr>stage_max := stage_max s - 1\<rparr>))
       (seq [upd (\<lambda>s. s\<lparr>last_len := length tok\<rparr>),
             put_bytes i tok,
             fuzz_stuff ops len,
             upd (\<lambda>s. s\<lparr>stage_cur := stage_cur s + 1\<rparr>)])"

text \<open>\<open>afl->extras_cnt > afl->max_det_extras && rand_below(afl, afl->extras_cnt) >= afl->max_det_extras\<close>\<close>

definition skip_extra :: "'g stage_ops \<Rightarrow> nat \<Rightarrow> nat \<Rightarrow> 'g \<Rightarrow> bool \<times> 'g" where
  "skip_extra ops cnt max_det_extras g =
     (if cnt > max_det_extras
      then (case rand_below_op ops (word_of_nat cnt) g of (r, g') \<Rightarrow> (unat r \<ge> max_det_extras, g'))
      else (False, g))"

definition user_tokens :: "'g stage_ops \<Rightarrow> 'g \<Rightarrow> mem list" where
  "user_tokens ops g = map (\<lambda>e. take (ex_len e) (ex_data e)) (user_extras ops g)"

definition auto_tokens :: "'g stage_ops \<Rightarrow> 'g \<Rightarrow> mem list" where
  "auto_tokens ops g = map (\<lambda>e. take (ae_len e) (ae_data e)) (auto_extras ops g)"

text \<open>\<open>memcpy(out_buf + i, in_buf + i, last_len)\<close>\<close>

definition restore_tokens :: "mem \<Rightarrow> nat \<Rightarrow> ('g, 'a) fuzz1_scheme \<Rightarrow> exit \<times> ('g, 'a) fuzz1_scheme" where
  "restore_tokens in_buf i s = put_bytes i (take (last_len s) (drop i in_buf)) s"

definition stage_ext_UO ::
  "'g stage_ops \<Rightarrow> nat \<Rightarrow> mem \<Rightarrow> nat \<Rightarrow> u64 \<Rightarrow> ('g, 'a) fuzz1_scheme \<Rightarrow> exit \<times> ('g, 'a) fuzz1_scheme" where
  "stage_ext_UO ops max_det_extras in_buf len before s0 =
     (let toks = user_tokens ops (env s0)
      in seq [stage_begin (word_of_nat (length toks) * word_of_nat len),
              upd (\<lambda>s. s\<lparr>stage_val_type := STAGE_VAL_NONE\<rparr>),
              for_each (\<lambda>i. seq [
                  upd (\<lambda>s. s\<lparr>last_len := 0\<rparr>),
                  at_effective ops before i (seq [
                    upd (\<lambda>s. s\<lparr>stage_cur_byte := word_of_nat i\<rparr>),
                    for_each (\<lambda>tok s. case skip_extra ops (length toks) max_det_extras (env s) of (skip, g) \<Rightarrow>
                        if skip then upd (\<lambda>s. s\<lparr>stage_max := stage_max s - 1\<rparr>) (s\<lparr>env := g\<rparr>)
                        else overwrite_token ops len i tok (s\<lparr>env := g\<rparr>))
                      toks,
                    restore_tokens in_buf i])])
                [0..<len],
              stage_end ops STAGE_EXTRAS_UO] s0)"

definition stage_ext_AO ::
  "'g stage_ops \<Rightarrow> mem \<Rightarrow> nat \<Rightarrow> u64 \<Rightarrow> ('g, 'a) fuzz1_scheme \<Rightarrow> exit \<times> ('g, 'a) fuzz1_scheme" where
  "stage_ext_AO ops in_buf len before s0 =
     (let toks = take USE_AUTO_EXTRAS (auto_tokens ops (env s0))
      in seq [stage_begin (word_of_nat (length toks) * word_of_nat len),
              upd (\<lambda>s. s\<lparr>stage_val_type := STAGE_VAL_NONE\<rparr>),
              for_each (\<lambda>i. seq [
                  upd (\<lambda>s. s\<lparr>last_len := 0\<rparr>),
                  at_effective ops before i (seq [
                    upd (\<lambda>s. s\<lparr>stage_cur_byte := word_of_nat i\<rparr>),
                    for_each (overwrite_token ops len i) toks,
                    restore_tokens in_buf i])])
                [0..<len],
              stage_end ops STAGE_EXTRAS_AO] s0)"

text \<open>\<open>afl_realloc\<close> keeps a buffer that is large enough and extends it with zeros otherwise.\<close>

definition grow :: "mem \<Rightarrow> nat \<Rightarrow> mem" where
  "grow m n = m @ replicate (n - length m) 0"

definition put_ex :: "nat \<Rightarrow> mem \<Rightarrow> ('g, 'a) fuzz1_scheme \<Rightarrow> exit \<times> ('g, 'a) fuzz1_scheme" where
  "put_ex off bs = guarded (\<lambda>s. map_option (\<lambda>b. s\<lparr>ex_tmp := b\<rparr>) (memcpy_at (ex_tmp s) off bs))"

definition fuzz_ex :: "'g stage_ops \<Rightarrow> nat \<Rightarrow> ('g, 'a) fuzz1_scheme \<Rightarrow> exit \<times> ('g, 'a) fuzz1_scheme" where
  "fuzz_ex ops n s =
     (case common_fuzz_stuff ops (take n (ex_tmp s)) (env s) of
        (bail, g) \<Rightarrow> (if bail then Abandon_entry else Next, s\<lparr>env := g\<rparr>))"

text \<open>One token inserted before position \<open>i\<close>, and the byte copied to the head of \<open>ex_tmp\<close> afterwards.\<close>

definition insert_token ::
  "'g stage_ops \<Rightarrow> nat \<Rightarrow> nat \<Rightarrow> mem \<Rightarrow> ('g, 'a) fuzz1_scheme \<Rightarrow> exit \<times> ('g, 'a) fuzz1_scheme" where
  "insert_token ops len i tok =
     cond (\<lambda>s. len + length tok > MAX_FILE)
       (upd (\<lambda>s. s\<lparr>stage_max := stage_max s - 1\<rparr>))
       (seq [put_ex i tok,
             (\<lambda>s. put_ex (i + length tok) (take (len - i) (drop i (out_buf s))) s),
             fuzz_ex ops (len + length tok),
             upd (\<lambda>s. s\<lparr>stage_cur := stage_cur s + 1\<rparr>)])"

definition copy_head :: "nat \<Rightarrow> ('g, 'a) fuzz1_scheme \<Rightarrow> exit \<times> ('g, 'a) fuzz1_scheme" where
  "copy_head i = guarded (\<lambda>s. do {
     c \<leftarrow> load8 (out_buf s) i;
     m \<leftarrow> store8 (ex_tmp s) i c;
     Some (s\<lparr>ex_tmp := m\<rparr>) })"

definition insert_all ::
  "'g stage_ops \<Rightarrow> nat \<Rightarrow> u64 \<Rightarrow> mem list \<Rightarrow> ('g, 'a) fuzz1_scheme \<Rightarrow> exit \<times> ('g, 'a) fuzz1_scheme" where
  "insert_all ops len before toks =
     for_each (\<lambda>i. at_effective ops before (i mod len) (seq [
         upd (\<lambda>s. s\<lparr>stage_cur_byte := word_of_nat i\<rparr>),
         for_each (insert_token ops len i) toks,
         copy_head i]))
       [0..<len + 1]"

definition stage_ext_UI :: "'g stage_ops \<Rightarrow> nat \<Rightarrow> u64 \<Rightarrow> ('g, 'a) fuzz1_scheme \<Rightarrow> exit \<times> ('g, 'a) fuzz1_scheme" where
  "stage_ext_UI ops len before s0 =
     (let toks = user_tokens ops (env s0)
      in seq [stage_begin (word_of_nat (length toks) * (word_of_nat len + 1)),
              upd (\<lambda>s. s\<lparr>ex_tmp := grow (ex_tmp s) (len + MAX_DICT_FILE)\<rparr>),
              insert_all ops len before toks,
              stage_end ops STAGE_EXTRAS_UI] s0)"

definition stage_ext_AI :: "'g stage_ops \<Rightarrow> nat \<Rightarrow> u64 \<Rightarrow> ('g, 'a) fuzz1_scheme \<Rightarrow> exit \<times> ('g, 'a) fuzz1_scheme" where
  "stage_ext_AI ops len before s0 =
     (let toks = auto_tokens ops (env s0)
      in seq [stage_begin (word_of_nat (length toks) * (word_of_nat len + 1)),
              upd (\<lambda>s. s\<lparr>ex_tmp := grow (ex_tmp s) (len + MAX_DICT_FILE)\<rparr>),
              insert_all ops len before toks,
              stage_end ops STAGE_EXTRAS_AI] s0)"

section \<open>All stages in order\<close>

definition skip_step :: "'s \<Rightarrow> exit \<times> 's" where
  "skip_step = upd (\<lambda>s. s)"

definition all_bitflips ::
  "'g stage_ops \<Rightarrow> bool \<Rightarrow> nat \<Rightarrow> u64 \<Rightarrow> ('g, 'a) fuzz1_scheme \<Rightarrow> exit \<times> ('g, 'a) fuzz1_scheme" where
  "all_bitflips ops non_instrumented_mode len before =
     seq [stage_flip1 ops non_instrumented_mode len before,
          stage_flip2 ops len before,
          stage_flip4 ops len before,
          stage_flip8 ops len before,
          cond (\<lambda>s. len < 2) skip_step
            (seq [stage_flip16 ops len before,
                  cond (\<lambda>s. len < 4) skip_step (stage_flip32 ops len before)])]"

definition all_ariths :: "'g stage_ops \<Rightarrow> bool \<Rightarrow> nat \<Rightarrow> u64 \<Rightarrow> ('g, 'a) fuzz1_scheme \<Rightarrow> exit \<times> ('g, 'a) fuzz1_scheme" where
  "all_ariths ops no_arith len before =
     cond (\<lambda>s. no_arith) skip_step
       (seq [stage_arith8 ops len before,
             cond (\<lambda>s. len < 2) skip_step
               (seq [stage_arith16 ops len before,
                     cond (\<lambda>s. len < 4) skip_step (stage_arith32 ops len before)])])"

definition all_interests :: "'g stage_ops \<Rightarrow> bool \<Rightarrow> nat \<Rightarrow> u64 \<Rightarrow> ('g, 'a) fuzz1_scheme \<Rightarrow> exit \<times> ('g, 'a) fuzz1_scheme" where
  "all_interests ops no_arith len before =
     seq [stage_int8 ops len before,
          cond (\<lambda>s. no_arith \<or> len < 2) skip_step
            (seq [stage_int16 ops len before,
                  cond (\<lambda>s. len < 4) skip_step (stage_int32 ops len before)])]"

definition all_extras ::
  "'g stage_ops \<Rightarrow> nat \<Rightarrow> mem \<Rightarrow> nat \<Rightarrow> u64 \<Rightarrow> ('g, 'a) fuzz1_scheme \<Rightarrow> exit \<times> ('g, 'a) fuzz1_scheme" where
  "all_extras ops max_det_extras in_buf len before =
     seq [cond (\<lambda>s. user_extras ops (env s) = []) skip_step
            (seq [stage_ext_UO ops max_det_extras in_buf len before, stage_ext_UI ops len before]),
          cond (\<lambda>s. auto_extras ops (env s) = []) skip_step
            (seq [stage_ext_AO ops in_buf len before, stage_ext_AI ops len before])]"

definition deterministic_stages ::
  "'g stage_ops \<Rightarrow> bool \<Rightarrow> bool \<Rightarrow> nat \<Rightarrow> mem \<Rightarrow> nat \<Rightarrow> u64 \<Rightarrow> ('g, 'a) fuzz1_scheme \<Rightarrow> exit \<times> ('g, 'a) fuzz1_scheme" where
  "deterministic_stages ops non_instrumented_mode no_arith max_det_extras in_buf len before =
     seq [all_bitflips ops non_instrumented_mode len before,
          all_ariths ops no_arith len before,
          all_interests ops no_arith len before,
          all_extras ops max_det_extras in_buf len before,
          upd (\<lambda>s. s\<lparr>passed_det := True\<rparr>)]"

end
