(* ===== verification/Det_Safe.thy ===== *)
theory Det_Safe
  imports Det
begin

text \<open>
  Total correctness of the deterministic stages. The locale \<open>stage_env\<close> is what the stages rely on in the rest of the
  fuzzer: a property of the environment that every call keeps and that implies that both dictionaries are sorted by
  length and bounded. Inside it, each stage is shown to keep \<open>det_ok\<close>: the input buffer is back to what it was, the
  effector map covers the input and the token collector has its fixed size. The locale is interpreted on \<open>afl_ops\<close>,
  whose dictionary operations are those of \<open>Extras\<close>.
\<close>

section \<open>Buffers\<close>

lemma upd_at_upd_at:
  "off + length bs \<le> length m \<Longrightarrow> length cs \<le> length bs \<Longrightarrow> upd_at (upd_at m off cs) off bs = upd_at m off bs"
  by (simp add: upd_at_def add.commute)

lemma upd_at_self: "off + n \<le> length m \<Longrightarrow> upd_at m off (take n (drop off m)) = m"
  by (simp add: upd_at_def) (metis append_take_drop_id drop_drop add.commute)

lemma upd_at_single: "i < length m \<Longrightarrow> m[i := v] = upd_at m i [v]"
  by (simp add: upd_at_def upd_conv_take_nth_drop)

lemma take_drop_upd_at: "off + length bs \<le> length m \<Longrightarrow> take (length bs) (drop off (upd_at m off bs)) = bs"
  by (simp add: upd_at_def)

section \<open>Bit flips are involutions\<close>

lemma flip_bit_twice:
  assumes "k div 8 < length b"
  shows "\<exists>b'. flip_bit b k = Some b' \<and> length b' = length b \<and> flip_bit b' k = Some b"
proof -
  let ?v = "drop_bit (k mod 8) 128 :: u8" and ?i = "k div 8"
  have "(b ! ?i XOR ?v) XOR ?v = b ! ?i" by (simp add: xor.assoc)
  then show ?thesis using assms by (simp add: flip_bit_def)
qed

lemma flip_bit_commute:
  assumes "j div 8 < length b" and "k div 8 < length b"
  shows "Option.bind (flip_bit b j) (\<lambda>b. flip_bit b k) = Option.bind (flip_bit b k) (\<lambda>b. flip_bit b j)"
proof (cases "j div 8 = k div 8")
  case True
  then show ?thesis using assms by (simp add: flip_bit_def ac_simps)
next
  case False
  then show ?thesis using assms by (simp add: flip_bit_def list_update_swap)
qed

fun flip_bits :: "mem \<Rightarrow> nat list \<Rightarrow> mem option" where
  "flip_bits b [] = Some b"
| "flip_bits b (k # ks) = do { b \<leftarrow> flip_bit b k; flip_bits b ks }"

lemma flip_bits_flip:
  assumes "k div 8 < length b" and "\<forall>j\<in>set ks. j div 8 < length b"
  shows "Option.bind (flip_bits b ks) (\<lambda>b. flip_bit b k) = Option.bind (flip_bit b k) (\<lambda>b. flip_bits b ks)"
  using assms
proof (induction ks arbitrary: b)
  case Nil
  then show ?case by (cases "flip_bit b k") simp_all
next
  case (Cons j ks)
  obtain bj where bj: "flip_bit b j = Some bj" "length bj = length b" using flip_bit_twice [of j b] Cons.prems by auto
  obtain bk where bk: "flip_bit b k = Some bk" using flip_bit_twice [of k b] Cons.prems by auto
  have "Option.bind (flip_bits bj ks) (\<lambda>b. flip_bit b k) = Option.bind (flip_bit bj k) (\<lambda>b. flip_bits b ks)"
    using Cons bj by simp
  also have "flip_bit bj k = flip_bit bk j"
    using flip_bit_commute [of j b k] Cons.prems bj bk by simp
  finally show ?case using bj bk by simp
qed

text \<open>Flipping the same bits twice, in the same order, restores the buffer.\<close>

lemma flip_bits_twice:
  assumes "\<forall>j\<in>set ks. j div 8 < length b"
  shows "\<exists>b'. flip_bits b ks = Some b' \<and> length b' = length b \<and> flip_bits b' ks = Some b"
  using assms
proof (induction ks arbitrary: b)
  case Nil
  then show ?case by simp
next
  case (Cons k ks)
  obtain bk where bk: "flip_bit b k = Some bk" "length bk = length b" "flip_bit bk k = Some b"
    using flip_bit_twice [of k b] Cons.prems by auto
  obtain b' where b': "flip_bits bk ks = Some b'" "length b' = length bk" "flip_bits b' ks = Some bk"
    using Cons.IH [of bk] Cons.prems bk by auto
  obtain c where c: "flip_bit b' k = Some c" "length c = length b'"
    using flip_bit_twice [of k b'] Cons.prems bk b' by auto
  have "flip_bits c ks = Option.bind (flip_bit b' k) (\<lambda>b. flip_bits b ks)" using c by simp
  also have "\<dots> = Option.bind (flip_bits b' ks) (\<lambda>b. flip_bit b k)"
    using flip_bits_flip [of k b' ks] Cons.prems bk b' by simp
  also have "\<dots> = Some b" using b' bk by simp
  finally have "flip_bits b' (k # ks) = Some b" using c by simp
  moreover have "flip_bits b (k # ks) = Some b'" using bk b' by simp
  moreover have "length b' = length b" using bk b' by simp
  ultimately show ?case by (intro exI [of _ b'] conjI)
qed

section \<open>Rules for sequences that keep an invariant\<close>

lemma seq_append: "seq (cs @ ds) s = (case seq cs s of (e, s') \<Rightarrow> if e = Next then seq ds s' else (e, s'))"
proof (induction cs arbitrary: s)
  case (Cons c cs)
  then show ?case by (cases "c s") simp
qed simp

lemma triple_seq_append: "triple P (seq cs) R X \<Longrightarrow> triple R (seq ds) Q X \<Longrightarrow> triple P (seq (cs @ ds)) Q X"
  by (erule triple_then [where c = "seq cs" and d = "seq ds"], assumption) (rule seq_append)

lemma triple_keep_Cons: "triple P c P X \<Longrightarrow> triple P (seq cs) P X \<Longrightarrow> triple P (seq (c # cs)) P X"
  by (rule triple_seq_Cons)

lemma triple_keep_Nil: "triple P (seq []) P X"
  by (rule triple_seq_Nil)

lemma triple_keep_cond: "triple P c P X \<Longrightarrow> triple P d P X \<Longrightarrow> triple P (cond b c d) P X"
  by (simp add: triple_def cond_def)

lemma triple_skip_step: "triple P skip_step P X"
  unfolding skip_step_def by (rule triple_upd)

lemmas triple_keep = triple_keep_Cons triple_keep_Nil triple_keep_cond triple_skip_step

text \<open>A loop over tokens of growing length, each step of which leaves a mark of at most the length of its token.\<close>

lemma triple_for_sorted:
  assumes "\<And>t. t \<in> set ts \<Longrightarrow> triple (\<lambda>s. R s \<and> m s \<le> length t) (c t) (\<lambda>s. R s \<and> m s \<le> length t) X"
    and "sorted (map length ts)"
  shows "triple (\<lambda>s. R s \<and> (\<forall>t\<in>set ts. m s \<le> length t)) (for_each c ts) R X"
  using assms
proof (induction ts)
  case Nil
  then show ?case by (simp add: triple_def exit_ok_def)
next
  case (Cons t ts)
  have "triple (\<lambda>s. R s \<and> m s \<le> length t) (c t) (\<lambda>s. R s \<and> m s \<le> length t) X" using Cons.prems(1) by simp
  then have "triple (\<lambda>s. R s \<and> (\<forall>t\<in>set (t # ts). m s \<le> length t)) (c t) (\<lambda>s. R s \<and> (\<forall>t\<in>set ts. m s \<le> length t)) X"
    using Cons.prems(2) by (elim triple_conseq) (auto intro: order_trans)
  moreover have "triple (\<lambda>s. R s \<and> (\<forall>t\<in>set ts. m s \<le> length t)) (for_each c ts) R X"
    using Cons.prems by (intro Cons.IH) auto
  ultimately show ?case by (rule triple_then) simp
qed

text \<open>A loop up to the value \<open>stage_max\<close> has when it is entered.\<close>

lemma triple_counted:
  assumes "\<And>k. k < n \<Longrightarrow> triple P (c k) P X" and "\<And>s. Q s \<Longrightarrow> P s \<and> unat (stage_max s) \<le> n"
  shows "triple Q (\<lambda>s. for_each c [0..<unat (stage_max s)] s) P X"
proof (rule triple_Pure)
  fix s assume Q: "Q s"
  have "triple P (for_each c [0..<unat (stage_max s)]) P X"
    by (rule triple_for) (use assms(1) assms(2) [OF Q] in auto)
  from tripleD [OF this] assms(2) [OF Q] show "exit_ok P X (for_each c [0..<unat (stage_max s)] s)" by blast
qed

section \<open>What every statement keeps\<close>

definition det_ok :: "('g \<Rightarrow> bool) \<Rightarrow> mem \<Rightarrow> nat \<Rightarrow> ('g, 'a) fuzz1_scheme \<Rightarrow> bool" where
  "det_ok I b len s \<longleftrightarrow> I (env s) \<and> out_buf s = b \<and> (\<exists>m. skip_eff_map s = Some m \<and> eff_ok len m)
     \<and> length (a_collect s) = MAX_AUTO_EXTRA"

lemma det_ok_env: "det_ok I b len s \<Longrightarrow> I g \<Longrightarrow> det_ok I b len (s\<lparr>env := g\<rparr>)"
  by (simp add: det_ok_def)

lemma det_ok_simps [simp]:
  "det_ok I b len (s\<lparr>stage_cur := x\<rparr>) = det_ok I b len s" "det_ok I b len (s\<lparr>stage_max := x\<rparr>) = det_ok I b len s"
  "det_ok I b len (s\<lparr>stage_cur_byte := x\<rparr>) = det_ok I b len s" "det_ok I b len (s\<lparr>stage_cur_val := x\<rparr>) = det_ok I b len s"
  "det_ok I b len (s\<lparr>stage_val_type := vt\<rparr>) = det_ok I b len s" "det_ok I b len (s\<lparr>orig_hit_cnt := y\<rparr>) = det_ok I b len s"
  "det_ok I b len (s\<lparr>new_hit_cnt := y\<rparr>) = det_ok I b len s" "det_ok I b len (s\<lparr>stage_finds := f\<rparr>) = det_ok I b len s"
  "det_ok I b len (s\<lparr>stage_cycles := f\<rparr>) = det_ok I b len s" "det_ok I b len (s\<lparr>prev_cksum := y\<rparr>) = det_ok I b len s"
  "det_ok I b len (s\<lparr>first_cksum := y\<rparr>) = det_ok I b len s" "det_ok I b len (s\<lparr>last_len := n\<rparr>) = det_ok I b len s"
  "det_ok I b len (s\<lparr>a_len := n\<rparr>) = det_ok I b len s" "det_ok I b len (s\<lparr>ex_tmp := m\<rparr>) = det_ok I b len s"
  "det_ok I b len (s\<lparr>blocks_eff_select := x\<rparr>) = det_ok I b len s" "det_ok I b len (s\<lparr>blocks_eff_total := x\<rparr>) = det_ok I b len s"
  "det_ok I b len (s\<lparr>passed_det := pd\<rparr>) = det_ok I b len s"
  by (simp_all add: det_ok_def)

lemma det_ok_buf: "det_ok I b len s \<Longrightarrow> out_buf s = b"
  by (simp add: det_ok_def)

lemma triple_stage_end: "triple (det_ok I b len) (stage_end ops st) (det_ok I b len) X"
  unfolding stage_end_def by (rule triple_upd) (simp add: Let_def)

lemma triple_stage_begin: "triple (det_ok I b len) (stage_begin n) (det_ok I b len) X"
  unfolding stage_begin_def by (rule triple_upd) simp

lemma triple_put_bytes:
  "off + length bs \<le> length b \<Longrightarrow> triple (det_ok I b len) (put_bytes off bs) (det_ok I (upd_at b off bs) len) X"
  unfolding put_bytes_def by (rule triple_guarded) (auto simp: det_ok_def memcpy_at_upd)

lemma triple_put_out: "i < length b \<Longrightarrow> triple (det_ok I b len) (put_out i v) (det_ok I (upd_at b i [v]) len) X"
  unfolding put_out_def by (rule triple_guarded) (auto simp: det_ok_def upd_at_single)

lemma triple_flips:
  "flip_bits b ks = Some b' \<Longrightarrow> triple (det_ok I b len) (seq (map FLIP_BIT ks)) (det_ok I b' len) X"
proof (induction ks arbitrary: b)
  case Nil
  then show ?case by (simp add: triple_seq_Nil del: seq.simps)
next
  case (Cons k ks)
  then obtain c where c: "flip_bit b k = Some c" "flip_bits c ks = Some b'" by (auto split: Option.bind_splits)
  have "triple (det_ok I b len) (FLIP_BIT k) (det_ok I c len) X"
    unfolding FLIP_BIT_def using c(1) by (intro triple_guarded) (auto simp: det_ok_def)
  from triple_seq_Cons [OF this Cons.IH [OF c(2)]] show ?case by (simp del: seq.simps)
qed

lemma triple_flip_byte:
  assumes "flip_range b i n = Some b'"
  shows "triple (det_ok I b len) (flip_out i n) (det_ok I b' len) X"
  unfolding flip_out_def using assms by (intro triple_guarded) (auto simp: det_ok_def)

text \<open>The window of \<open>nb\<close> bytes at \<open>i\<close> may hold anything, the rest is \<open>b\<close>.\<close>

definition window :: "('g \<Rightarrow> bool) \<Rightarrow> mem \<Rightarrow> nat \<Rightarrow> nat \<Rightarrow> nat \<Rightarrow> ('g, 'a) fuzz1_scheme \<Rightarrow> bool" where
  "window I b len i nb s \<longleftrightarrow> (\<exists>bs. length bs = nb \<and> det_ok I (upd_at b i bs) len s)"

lemma det_ok_window: "i + nb \<le> length b \<Longrightarrow> det_ok I b len s \<Longrightarrow> window I b len i nb s"
  unfolding window_def using upd_at_self [of i nb b] by (intro exI [of _ "take nb (drop i b)"]) simp

lemma window_det_ok: "length bs = nb \<Longrightarrow> det_ok I (upd_at b i bs) len s \<Longrightarrow> window I b len i nb s"
  unfolding window_def by blast

lemma window_put:
  assumes "i + nb \<le> length b" and "length bs = nb"
  shows "triple (window I b len i nb) (put_bytes i bs) (det_ok I (upd_at b i bs) len) X"
proof (rule triple_Pure)
  fix s :: "('a, 'b) fuzz1_scheme"
  assume "window I b len i nb s"
  then obtain cs where cs: "length cs = nb" "det_ok I (upd_at b i cs) len s" by (auto simp: window_def)
  have "i + length bs \<le> length (upd_at b i cs)" using assms cs(1) by simp
  from tripleD [OF triple_put_bytes [OF this] cs(2)] show "exit_ok (det_ok I (upd_at b i bs) len) X (put_bytes i bs s)"
    using assms cs(1) by (simp add: upd_at_upd_at)
qed

lemma window_put_out:
  assumes "i < length b"
  shows "triple (window I b len i 1) (put_out i v) (det_ok I (upd_at b i [v]) len) X"
proof (rule triple_Pure)
  fix s :: "('a, 'b) fuzz1_scheme"
  assume "window I b len i 1 s"
  then obtain cs where cs: "length cs = 1" "det_ok I (upd_at b i cs) len s" by (auto simp: window_def)
  have l: "i < length (upd_at b i cs)" using assms cs(1) by simp
  from tripleD [OF triple_put_out [OF l, of I len v X] cs(2)] show "exit_ok (det_ok I (upd_at b i [v]) len) X (put_out i v s)"
    using assms cs(1) upd_at_upd_at [of i "[v]" b cs] by simp
qed

lemma window_upd: "(\<And>b'. det_ok I b' len s \<Longrightarrow> det_ok I b' len (f s)) \<Longrightarrow> window I b len i nb s \<Longrightarrow> window I b len i nb (f s)"
  unfolding window_def by blast

lemma window_simps [simp]:
  "window I b len i nb (s\<lparr>stage_cur := x\<rparr>) = window I b len i nb s"
  "window I b len i nb (s\<lparr>stage_max := x\<rparr>) = window I b len i nb s"
  "window I b len i nb (s\<lparr>stage_cur_val := x\<rparr>) = window I b len i nb s"
  "window I b len i nb (s\<lparr>stage_val_type := vt\<rparr>) = window I b len i nb s"
  by (simp_all add: window_def)

section \<open>The stages in an environment that keeps its dictionaries in order\<close>

locale stage_env =
  fixes ops :: "'g stage_ops" and env_ok :: "'g \<Rightarrow> bool"
  assumes run_ok: "env_ok g \<Longrightarrow> env_ok (snd (common_fuzz_stuff ops m g))"
    and clock_ok: "env_ok g \<Longrightarrow> env_ok (snd (get_cur_time ops g))"
    and draw_ok: "env_ok g \<Longrightarrow> env_ok (snd (rand_below_op ops n g))"
    and auto_add_ok: "env_ok g \<Longrightarrow> env_ok (maybe_add_auto_op ops m g)"
    and user_sorted: "env_ok g \<Longrightarrow> sorted (map length (user_tokens ops g))"
    and user_small: "env_ok g \<Longrightarrow> t \<in> set (user_tokens ops g) \<Longrightarrow> length t \<le> MAX_DICT_FILE"
    and auto_sorted: "env_ok g \<Longrightarrow> sorted (map length (take USE_AUTO_EXTRAS (auto_tokens ops g)))"
    and auto_token_small: "env_ok g \<Longrightarrow> t \<in> set (auto_tokens ops g) \<Longrightarrow> length t \<le> MAX_DICT_FILE"
begin

lemma triple_run: "triple (det_ok env_ok b len) (fuzz_stuff ops n) (det_ok env_ok b len) X"
proof (rule triple_Pure)
  fix s :: "('g, 'a) fuzz1_scheme"
  assume s: "det_ok env_ok b len s"
  obtain bail g where g: "common_fuzz_stuff ops (take n (out_buf s)) (env s) = (bail, g)" by fastforce
  have "env_ok g" using run_ok [of "env s" "take n (out_buf s)"] s g by (simp add: det_ok_def)
  with s g show "exit_ok (det_ok env_ok b len) X (fuzz_stuff ops n s)"
    by (simp add: fuzz_stuff_def exit_ok_def det_ok_env)
qed

lemma triple_timeout: "triple (det_ok env_ok b len) (check_timeout ops before fl) (det_ok env_ok b len) (det_ok env_ok b len)"
proof (rule triple_Pure)
  fix s :: "('g, 'a) fuzz1_scheme"
  assume s: "det_ok env_ok b len s"
  obtain now g where g: "get_cur_time ops (env s) = (now, g)" by fastforce
  have "env_ok g" using clock_ok [of "env s"] s g by (simp add: det_ok_def)
  with s g show "exit_ok (det_ok env_ok b len) (det_ok env_ok b len) (check_timeout ops before fl s)"
    by (simp add: check_timeout_def is_det_timeout_def exit_ok_def det_ok_env)
qed

lemma triple_at_effective_frame:
  assumes "i < len" and "\<And>s g. F s \<Longrightarrow> F (s\<lparr>env := g\<rparr>)"
    and "triple (\<lambda>s. det_ok env_ok b len s \<and> F s) body Q (det_ok env_ok b len)" and "\<And>s. det_ok env_ok b len s \<Longrightarrow> F s \<Longrightarrow> Q s"
  shows "triple (\<lambda>s. det_ok env_ok b len s \<and> F s) (at_effective ops before i body) Q (det_ok env_ok b len)"
  unfolding at_effective_def
proof (intro triple_reading triple_cond)
  fix s :: "('g, 'a) fuzz1_scheme"
  assume "det_ok env_ok b len s \<and> F s"
  then show "\<exists>x. eff_read s i = Some x"
    using eff_ok_read [OF _ assms(1)] by (auto simp: det_ok_def eff_read_def)
next
  fix d
  have "triple (\<lambda>s. det_ok env_ok b len s \<and> F s) (check_timeout ops before False) (\<lambda>s. det_ok env_ok b len s \<and> F s) (det_ok env_ok b len)"
  proof (rule triple_Pure)
    fix s :: "('g, 'a) fuzz1_scheme"
    assume "det_ok env_ok b len s \<and> F s"
    with tripleD [OF triple_timeout, of b len s before False] assms(2)
    show "exit_ok (\<lambda>s. det_ok env_ok b len s \<and> F s) (det_ok env_ok b len) (check_timeout ops before False s)"
      by (auto simp: exit_ok_def check_timeout_def split: prod.splits)
  qed
  from triple_seq_Cons [OF this triple_seq_Cons [OF assms(3) triple_seq_Nil]]
  show "triple (\<lambda>s. ((det_ok env_ok b len s \<and> F s) \<and> eff_read s i = Some d) \<and> d) (seq [check_timeout ops before False, body])
      Q (det_ok env_ok b len)" by (rule triple_pre) simp_all
qed (rule triple_upd, use assms(4) in blast)

lemma triple_at_effective:
  assumes "i < len" and "triple (det_ok env_ok b len) body (det_ok env_ok b len) (det_ok env_ok b len)"
  shows "triple (det_ok env_ok b len) (at_effective ops before i body) (det_ok env_ok b len) (det_ok env_ok b len)"
  using triple_at_effective_frame [OF assms(1), where F = "\<lambda>s. True" and Q = "det_ok env_ok b len"] assms(2) by simp

lemma triple_flip_run:
  assumes "\<forall>j\<in>set ks. j div 8 < length b"
  shows "triple (det_ok env_ok b len) (seq (map FLIP_BIT ks @ [fuzz_stuff ops n] @ map FLIP_BIT ks)) (det_ok env_ok b len) X"
proof -
  from flip_bits_twice [OF assms] obtain b' where b': "flip_bits b ks = Some b'" "flip_bits b' ks = Some b" by blast
  have "triple (det_ok env_ok b' len) (seq ([fuzz_stuff ops n] @ map FLIP_BIT ks)) (det_ok env_ok b len) X"
    by (rule triple_seq_append [OF triple_keep_Cons [OF triple_run triple_keep_Nil] triple_flips [OF b'(2)]])
  from triple_seq_append [OF triple_flips [OF b'(1)] this] show ?thesis .
qed

lemma window_try:
  assumes "triple (window env_ok b len i nb) write (det_ok env_ok (upd_at b i bs) len) X" and "length bs = nb"
    and "\<And>b' s. det_ok env_ok b' len s \<Longrightarrow> det_ok env_ok b' len (note_it s)"
  shows "triple (window env_ok b len i nb) (try_value ops n ok note_it write) (window env_ok b len i nb) X"
  unfolding try_value_def
proof (rule triple_cond)
  have "triple (window env_ok b len i nb) (upd note_it) (window env_ok b len i nb) X"
    by (rule triple_upd) (rule window_upd, erule assms(3), assumption)
  then have "triple (window env_ok b len i nb) (seq [upd note_it, write, fuzz_stuff ops n, upd (\<lambda>s. s\<lparr>stage_cur := stage_cur s + 1\<rparr>)])
      (window env_ok b len i nb) X"
    by (intro triple_seq_Cons [OF _ triple_seq_Cons [OF assms(1) triple_seq_Cons [OF triple_run triple_seq_Cons [OF triple_upd triple_seq_Nil]]]])
       (auto intro: window_det_ok assms(2))
  then show "triple (\<lambda>s. window env_ok b len i nb s \<and> ok)
      (seq [upd note_it, write, fuzz_stuff ops n, upd (\<lambda>s. s\<lparr>stage_cur := stage_cur s + 1\<rparr>)]) (window env_ok b len i nb) X"
    by (rule triple_pre) simp
  show "triple (\<lambda>s. window env_ok b len i nb s \<and> \<not> ok) (upd (\<lambda>s. s\<lparr>stage_max := stage_max s - 1\<rparr>)) (window env_ok b len i nb) X"
    by (rule triple_upd) simp
qed

lemmas window_try_bytes = window_try [OF window_put]
lemmas window_try_out = window_try [OF window_put_out]

end

section \<open>Bit flip stages\<close>

lemma unat_of_nat_le: "unat (word_of_nat n :: u32) \<le> n"
  by (simp add: unsigned_of_nat take_bit_nat_less_eq_self)

lemma stage_max_bound:
  assumes "c \<le> len * 8"
  shows "unat (word_of_nat len * 8 - word_of_nat c :: u32) \<le> len * 8 - c"
proof -
  have "(word_of_nat len * 8 - word_of_nat c :: u32) = word_of_nat (len * 8 - c)"
    using assms by (simp add: of_nat_diff)
  then show ?thesis using unat_of_nat_le by metis
qed

context stage_env
begin

lemma triple_flip_then:
  assumes "\<forall>j\<in>set ks. j div 8 < length b" and "triple (det_ok env_ok b len) (seq cs) (det_ok env_ok b len) X"
  shows "triple (det_ok env_ok b len) (seq (map FLIP_BIT ks @ [fuzz_stuff ops n] @ map FLIP_BIT ks @ cs)) (det_ok env_ok b len) X"
  using triple_seq_append [OF triple_flip_run [OF assms(1)] assms(2)] by (simp del: seq.simps)

lemma detect_token_ok:
  assumes "det_ok env_ok b len s" and "k div 8 < length b"
  shows "\<exists>s'. detect_token ops k s = Some s' \<and> det_ok env_ok b len s'"
proof -
  have col: "\<exists>s'. collect_byte k s = Some s' \<and> det_ok env_ok b len s'"
    if "det_ok env_ok b len s" for s :: "('g, 'a) fuzz1_scheme"
    using that assms(2) by (auto simp: collect_byte_def det_ok_def MAX_AUTO_EXTRA_def)
  have flush: "det_ok env_ok b len (flush_token ops s)" if "det_ok env_ok b len s" for s :: "('g, 'a) fuzz1_scheme"
    using that auto_add_ok by (auto simp: flush_token_def det_ok_def)
  let ?c = "trace_cksum ops (env s)"
  have "\<exists>s1. (if k = unat (stage_max s) - 1 \<and> ?c = prev_cksum s then map_option (flush_token ops) (collect_byte k s)
           else if ?c \<noteq> prev_cksum s then Some ((flush_token ops s)\<lparr>a_len := 0, prev_cksum := ?c\<rparr>)
           else Some s) = Some s1 \<and> det_ok env_ok b len s1"
    using col [OF assms(1)] flush assms(1) by auto
  then obtain s1 where s1: "(if k = unat (stage_max s) - 1 \<and> ?c = prev_cksum s then map_option (flush_token ops) (collect_byte k s)
           else if ?c \<noteq> prev_cksum s then Some ((flush_token ops s)\<lparr>a_len := 0, prev_cksum := ?c\<rparr>)
           else Some s) = Some s1" "det_ok env_ok b len s1" by blast
  have "detect_token ops k s = (if ?c \<noteq> first_cksum s1 then collect_byte k s1 else Some s1)"
    unfolding detect_token_def Let_def s1(1) by simp
  with col [OF s1(2)] s1(2) show ?thesis by auto
qed

lemma triple_bits_loop:
  assumes "\<And>k. k < n \<Longrightarrow> triple (det_ok env_ok b len) (body k) (det_ok env_ok b len) (det_ok env_ok b len)"
    and "n \<le> len * 8" and "\<And>s. Q s \<Longrightarrow> det_ok env_ok b len s \<and> unat (stage_max s) \<le> n"
  shows "triple Q (\<lambda>s. for_each (\<lambda>k. seq [
             upd (\<lambda>s. s\<lparr>stage_cur := word_of_nat k, stage_cur_byte := word_of_nat (k div 8)\<rparr>),
             at_effective ops before (k div 8) (body k)])
           [0..<unat (stage_max s)] s) (det_ok env_ok b len) (det_ok env_ok b len)"
proof (rule triple_counted [where n = n])
  fix k assume "k < n"
  then show "triple (det_ok env_ok b len)
      (seq [upd (\<lambda>s. s\<lparr>stage_cur := word_of_nat k, stage_cur_byte := word_of_nat (k div 8)\<rparr>), at_effective ops before (k div 8) (body k)])
      (det_ok env_ok b len) (det_ok env_ok b len)"
    using assms(2) by (intro triple_keep triple_upd triple_at_effective assms(1)) auto
qed (rule assms(3))

lemma triple_run_max:
  "triple (\<lambda>s. det_ok env_ok b len s \<and> stage_max s = m) (fuzz_stuff ops n) (\<lambda>s. det_ok env_ok b len s \<and> stage_max s = m) X"
proof (rule triple_Pure)
  fix s :: "('g, 'a) fuzz1_scheme"
  assume "det_ok env_ok b len s \<and> stage_max s = m"
  with tripleD [OF triple_run [of b len n X], of s]
  show "exit_ok (\<lambda>s. det_ok env_ok b len s \<and> stage_max s = m) X (fuzz_stuff ops n s)"
    by (auto simp: exit_ok_def fuzz_stuff_def split: prod.splits)
qed

lemma triple_flip1_body:
  assumes "k div 8 < length b"
  shows "triple (det_ok env_ok b len) (seq [FLIP_BIT k, fuzz_stuff ops len, FLIP_BIT k,
           cond (\<lambda>s. \<not> ni \<and> k mod 8 = 7) (guarded (detect_token ops k)) (upd (\<lambda>s. s))]) (det_ok env_ok b len) X"
proof -
  have "triple (det_ok env_ok b len) (guarded (detect_token ops k)) (det_ok env_ok b len) X"
    by (rule triple_guarded) (rule detect_token_ok [OF _ assms])
  then have "triple (det_ok env_ok b len) (seq [cond (\<lambda>s. \<not> ni \<and> k mod 8 = 7) (guarded (detect_token ops k)) (upd (\<lambda>s. s))])
      (det_ok env_ok b len) X"
    by (intro triple_keep triple_upd)
  from triple_flip_then [OF _ this, of "[k]"] assms show ?thesis by (simp del: seq.simps)
qed

lemma stage_flip1_ok:
  assumes "len \<le> length b"
  shows "triple (det_ok env_ok b len) (stage_flip1 ops ni len before) (det_ok env_ok b len) (det_ok env_ok b len)"
proof -
  have loop: "triple (\<lambda>s. det_ok env_ok b len s \<and> stage_max s = word_of_nat len * 8)
     (\<lambda>s. for_each (\<lambda>k. seq [
             upd (\<lambda>s. s\<lparr>stage_cur := word_of_nat k, stage_cur_byte := word_of_nat (k div 8)\<rparr>),
             at_effective ops before (k div 8) (seq [FLIP_BIT k, fuzz_stuff ops len, FLIP_BIT k,
               cond (\<lambda>s. \<not> ni \<and> k mod 8 = 7) (guarded (detect_token ops k)) (upd (\<lambda>s. s))])])
           [0..<unat (stage_max s)] s) (det_ok env_ok b len) (det_ok env_ok b len)"
    using assms stage_max_bound [of 0 len] by (intro triple_bits_loop [where n = "len * 8"] triple_flip1_body) auto
  show ?thesis
    unfolding stage_flip1_def
    by (rule triple_seq_Cons [OF triple_upd triple_seq_Cons [OF triple_run_max [where m = "word_of_nat len * 8"]
          triple_seq_Cons [OF triple_upd triple_seq_Cons [OF loop triple_seq_Cons [OF triple_upd
          triple_seq_Cons [OF triple_stage_end triple_seq_Nil]]]]]]) auto
qed

text \<open>The stages that flip the bits \<open>k + d\<close> for the offsets \<open>d\<close> in a list.\<close>

lemma triple_multi_flip:
  assumes "len \<le> length b" and "0 < len" and "c \<le> 7" and "\<forall>d\<in>set ds. d \<le> c"
  shows "triple (det_ok env_ok b len)
     (seq [upd (\<lambda>s. s\<lparr>stage_max := word_of_nat len * 8 - word_of_nat c, orig_hit_cnt := new_hit_cnt s\<rparr>),
          (\<lambda>s. for_each (\<lambda>k. seq [
               upd (\<lambda>s. s\<lparr>stage_cur := word_of_nat k, stage_cur_byte := word_of_nat (k div 8)\<rparr>),
               at_effective ops before (k div 8) (seq (map FLIP_BIT (map ((+) k) ds) @ [fuzz_stuff ops len] @ map FLIP_BIT (map ((+) k) ds)))])
             [0..<unat (stage_max s)] s),
          upd (\<lambda>s. s\<lparr>stage_cur := stage_max s\<rparr>),
          stage_end ops st])
     (det_ok env_ok b len) (det_ok env_ok b len)"
proof -
  have c: "c \<le> len * 8" using assms by linarith
  have loop: "triple (\<lambda>s. det_ok env_ok b len s \<and> stage_max s = word_of_nat len * 8 - word_of_nat c)
     (\<lambda>s. for_each (\<lambda>k. seq [
               upd (\<lambda>s. s\<lparr>stage_cur := word_of_nat k, stage_cur_byte := word_of_nat (k div 8)\<rparr>),
               at_effective ops before (k div 8) (seq (map FLIP_BIT (map ((+) k) ds) @ [fuzz_stuff ops len] @ map FLIP_BIT (map ((+) k) ds)))])
             [0..<unat (stage_max s)] s)
     (det_ok env_ok b len) (det_ok env_ok b len)"
  proof (rule triple_bits_loop [where n = "len * 8 - c"])
    fix k assume k: "k < len * 8 - c"
    show "triple (det_ok env_ok b len) (seq (map FLIP_BIT (map ((+) k) ds) @ [fuzz_stuff ops len] @ map FLIP_BIT (map ((+) k) ds)))
        (det_ok env_ok b len) (det_ok env_ok b len)"
    proof (rule triple_flip_run, clarsimp)
      fix d assume "d \<in> set ds"
      with assms(4) k have "k + d < len * 8" by force
      with assms(1) show "(k + d) div 8 < length b" by linarith
    qed
  qed (use stage_max_bound [OF c] in auto)
  show ?thesis
    by (rule triple_seq_Cons [OF triple_upd triple_seq_Cons [OF loop triple_seq_Cons [OF triple_upd
          triple_seq_Cons [OF triple_stage_end triple_seq_Nil]]]]) auto
qed

lemma stage_flip2_ok:
  assumes "len \<le> length b" and "0 < len"
  shows "triple (det_ok env_ok b len) (stage_flip2 ops len before) (det_ok env_ok b len) (det_ok env_ok b len)"
  using triple_multi_flip [OF assms, of 1 "[0, 1]" before STAGE_FLIP2]
  unfolding stage_flip2_def by (simp del: seq.simps)

lemma stage_flip4_ok:
  assumes "len \<le> length b" and "0 < len"
  shows "triple (det_ok env_ok b len) (stage_flip4 ops len before) (det_ok env_ok b len) (det_ok env_ok b len)"
  using triple_multi_flip [OF assms, of 3 "[0, 1, 2, 3]" before STAGE_FLIP4]
  unfolding stage_flip4_def by (simp del: seq.simps)

lemma stage_flip8_ok:
  assumes "len \<le> length b"
  shows "triple (det_ok env_ok b len) (stage_flip8 ops len before) (det_ok env_ok b len) (det_ok env_ok b len)"
proof -
  have body: "triple (det_ok env_ok b len) (seq [flip_out k 1, fuzz_stuff ops len, flip_out k 1]) (det_ok env_ok b len) X"
    if "k < len" for k X
  proof -
    from flip_range_twice [of k 1 b] that assms obtain b' where
      b': "flip_range b k 1 = Some b'" "flip_range b' k 1 = Some b" by auto
    show ?thesis
      by (rule triple_seq_Cons [OF triple_flip_byte [OF b'(1)] triple_seq_Cons [OF triple_run
            triple_seq_Cons [OF triple_flip_byte [OF b'(2)] triple_seq_Nil]]])
  qed
  have loop: "triple (\<lambda>s. det_ok env_ok b len s \<and> stage_max s = word_of_nat len) (\<lambda>s. for_each (\<lambda>k. seq [
               upd (\<lambda>s. s\<lparr>stage_cur := word_of_nat k, stage_cur_byte := word_of_nat k\<rparr>),
               at_effective ops before k (seq [flip_out k 1, fuzz_stuff ops len, flip_out k 1])])
             [0..<unat (stage_max s)] s) (det_ok env_ok b len) (det_ok env_ok b len)"
    by (rule triple_counted [where n = len])
       (rule triple_keep_Cons [OF triple_upd triple_keep_Cons [OF triple_at_effective [OF _ body] triple_keep_Nil]],
        simp_all add: unat_of_nat_le)
  have count: "triple (det_ok env_ok b len) (for_each (\<lambda>i. reading (\<lambda>s. eff_read s i) (\<lambda>d.
               upd (\<lambda>s. if d then s\<lparr>blocks_eff_select := blocks_eff_select s + 1\<rparr> else s))) [0..<len]) (det_ok env_ok b len) X" for X
    using eff_ok_read [of len]
    by (intro triple_for triple_reading triple_upd) (auto simp: det_ok_def eff_read_def)
  show ?thesis
    unfolding stage_flip8_def
    by (rule triple_seq_Cons [OF triple_upd triple_seq_Cons [OF loop triple_seq_Cons [OF triple_upd triple_seq_Cons [OF count
          triple_seq_Cons [OF triple_upd triple_seq_Cons [OF triple_stage_end triple_seq_Nil]]]]]]) auto
qed

end

section \<open>Word-sized stages\<close>

lemma load_le_Some: "i + nb \<le> length m \<Longrightarrow> load_le nb m i = Some (le_word (take nb (drop i m)))"
  by (simp add: load_le_def)

lemma triple_xor_word:
  fixes x :: "'w::len word"
  assumes "LENGTH('w) = 8 * nb" and "i + nb \<le> length b"
  shows "triple (det_ok I b len) (reading (\<lambda>s. load_le nb (out_buf s) i) (\<lambda>w. put_bytes i (le_bytes nb (w XOR x))))
           (det_ok I (upd_at b i (le_bytes nb (le_word (take nb (drop i b)) XOR x))) len) X"
proof (rule triple_Pure)
  fix s :: "('a, 'b) fuzz1_scheme"
  assume s: "det_ok I b len s"
  let ?w = "le_word (take nb (drop i b)) XOR x"
  have "i + length (le_bytes nb ?w) \<le> length b" using assms(2) by simp
  from tripleD [OF triple_put_bytes [OF this] s] det_ok_buf [OF s]
  show "exit_ok (det_ok I (upd_at b i (le_bytes nb ?w)) len) X
      (reading (\<lambda>s. load_le nb (out_buf s) i) (\<lambda>w. put_bytes i (le_bytes nb (w XOR x))) s)"
    using assms(2) by (simp add: reading_def load_le_Some)
qed

lemma xor_word_twice:
  fixes x :: "'w::len word"
  assumes "LENGTH('w) = 8 * nb" and "i + nb \<le> length b"
  defines "b' \<equiv> upd_at b i (le_bytes nb (le_word (take nb (drop i b)) XOR x))"
  shows "upd_at b' i (le_bytes nb (le_word (take nb (drop i b')) XOR x)) = b"
proof -
  let ?w = "le_word (take nb (drop i b)) :: 'w word"
  have "take nb (drop i b') = le_bytes nb (?w XOR x)"
    using take_drop_upd_at [of i "le_bytes nb (?w XOR x)" b] assms(2) by (simp add: b'_def)
  then have "le_word (take nb (drop i b')) XOR x = ?w" using assms(1) by (simp add: xor.assoc)
  then have "upd_at b' i (le_bytes nb (le_word (take nb (drop i b')) XOR x)) = upd_at b i (le_bytes nb ?w)"
    unfolding b'_def using assms(2) by (simp add: upd_at_upd_at)
  also have "le_bytes nb ?w = take nb (drop i b)" using assms(1,2) by simp
  also have "upd_at b i (take nb (drop i b)) = b" using assms(2) by (rule upd_at_self)
  finally show ?thesis .
qed

lemma triple_step: "triple P c P X \<Longrightarrow> triple P (seq cs) Q X \<Longrightarrow> triple P (seq (c # cs)) Q X"
  by (rule triple_seq_Cons)

lemma triple_last: "triple P c Q X \<Longrightarrow> triple P (seq [c]) Q X"
  by (erule triple_seq_Cons) (rule triple_seq_Nil)

text \<open>A window whose original contents are written back.\<close>

lemma window_restore:
  assumes "i + nb \<le> length b" and "bs = take nb (drop i b)"
  shows "triple (window I b len i nb) (put_bytes i bs) (det_ok I b len) X"
proof -
  have "upd_at b i bs = b" using assms by (simp add: upd_at_self)
  with window_put [OF assms(1), of bs I len X] assms show ?thesis by simp
qed

lemma window_restore_out:
  assumes "i < length b" and "v = b ! i"
  shows "triple (window I b len i 1) (put_out i v) (det_ok I b len) X"
proof -
  have "upd_at b i [v] = b" using assms upd_at_single [of i b v] by simp
  with window_put_out [OF assms(1), of I len v X] show ?thesis by simp
qed

context stage_env
begin

lemma triple_xor_stage:
  fixes x :: "'w::len word"
  assumes "LENGTH('w) = 8 * nb" and "\<And>i. i \<in> set xs \<Longrightarrow> i < len \<and> i + nb \<le> length b"
  shows "triple (det_ok env_ok b len) (for_each (\<lambda>i. at_effective ops before i (seq [
               upd (\<lambda>s. s\<lparr>stage_cur_byte := word_of_nat i\<rparr>),
               reading (\<lambda>s. load_le nb (out_buf s) i) (\<lambda>w. put_bytes i (le_bytes nb (w XOR x))),
               fuzz_stuff ops len,
               upd (\<lambda>s. s\<lparr>stage_cur := stage_cur s + 1\<rparr>),
               reading (\<lambda>s. load_le nb (out_buf s) i) (\<lambda>w. put_bytes i (le_bytes nb (w XOR x)))])) xs)
           (det_ok env_ok b len) (det_ok env_ok b len)"
proof (rule triple_for, rule triple_at_effective)
  fix i assume i: "i \<in> set xs"
  let ?b = "upd_at b i (le_bytes nb (le_word (take nb (drop i b)) XOR x))"
  have ib: "i + nb \<le> length b" using assms(2) i by blast
  then have ib': "i + nb \<le> length ?b" by simp
  note flip = triple_xor_word [OF assms(1) ib, of env_ok len x]
    triple_xor_word [OF assms(1) ib', of env_ok len x, unfolded xor_word_twice [OF assms(1) ib]]
  show "i < len" using assms(2) i by blast
  show "triple (det_ok env_ok b len) (seq [upd (\<lambda>s. s\<lparr>stage_cur_byte := word_of_nat i\<rparr>),
      reading (\<lambda>s. load_le nb (out_buf s) i) (\<lambda>w. put_bytes i (le_bytes nb (w XOR x))), fuzz_stuff ops len,
      upd (\<lambda>s. s\<lparr>stage_cur := stage_cur s + 1\<rparr>),
      reading (\<lambda>s. load_le nb (out_buf s) i) (\<lambda>w. put_bytes i (le_bytes nb (w XOR x)))]) (det_ok env_ok b len) (det_ok env_ok b len)"
    by (rule triple_step [OF triple_upd triple_seq_Cons [OF flip(1) triple_step [OF triple_run triple_step [OF triple_upd
          triple_last [OF flip(2)]]]]]) simp_all
qed

lemma stage_flip16_ok:
  assumes "len \<le> length b"
  shows "triple (det_ok env_ok b len) (stage_flip16 ops len before) (det_ok env_ok b len) (det_ok env_ok b len)"
  unfolding stage_flip16_def
  by (rule triple_step [OF triple_stage_begin triple_step [OF triple_xor_stage triple_last [OF triple_stage_end]]])
     (use assms in auto)

lemma stage_flip32_ok:
  assumes "len \<le> length b"
  shows "triple (det_ok env_ok b len) (stage_flip32 ops len before) (det_ok env_ok b len) (det_ok env_ok b len)"
  unfolding stage_flip32_def
  by (rule triple_step [OF triple_stage_begin triple_step [OF triple_xor_stage triple_last [OF triple_stage_end]]])
     (use assms in auto)

end

section \<open>Arithmetic and interesting values\<close>

text \<open>Reading the bytes that a stage will restore.\<close>

lemma triple_read_word:
  fixes body :: "'w::len word \<Rightarrow> ('g, 'a) fuzz1_scheme \<Rightarrow> exit \<times> ('g, 'a) fuzz1_scheme"
  assumes "LENGTH('w) = 8 * nb" and "i + nb \<le> length b"
    and "\<And>orig. le_bytes nb orig = take nb (drop i b) \<Longrightarrow> triple (det_ok I b len) (body orig) Q X"
  shows "triple (det_ok I b len) (reading (\<lambda>s. load_le nb (out_buf s) i) body) Q X"
proof (rule triple_Pure)
  fix s :: "('g, 'a) fuzz1_scheme"
  assume s: "det_ok I b len s"
  let ?w = "le_word (take nb (drop i b)) :: 'w word"
  have "le_bytes nb ?w = take nb (drop i b)" using assms(1,2) by simp
  from tripleD [OF assms(3) [OF this] s] show "exit_ok Q X (reading (\<lambda>s. load_le nb (out_buf s) i) body s)"
    using det_ok_buf [OF s] assms(2) by (simp add: reading_def load_le_Some)
qed

lemma triple_read_byte:
  assumes "i < length b" and "\<And>orig. orig = b ! i \<Longrightarrow> triple (det_ok I b len) (body orig) Q X"
  shows "triple (det_ok I b len) (reading (\<lambda>s. load8 (out_buf s) i) body) Q X"
proof (rule triple_Pure)
  fix s :: "('a, 'b) fuzz1_scheme"
  assume s: "det_ok I b len s"
  from tripleD [OF assms(2) [OF refl] s] show "exit_ok Q X (reading (\<lambda>s. load8 (out_buf s) i) body s)"
    using det_ok_buf [OF s] assms(1) by (simp add: reading_def)
qed

context stage_env
begin

lemma stage_arith8_ok:
  assumes "len \<le> length b"
  shows "triple (det_ok env_ok b len) (stage_arith8 ops len before) (det_ok env_ok b len) (det_ok env_ok b len)"
proof -
  have j: "triple (det_ok env_ok b len) (let jj = word_of_nat j :: u8 in seq [
           try_value ops len (\<not> could_be_bitflip (ucast (orig XOR (orig + jj)))) (\<lambda>s. s\<lparr>stage_cur_val := word_of_nat j\<rparr>)
             (put_out i (orig + jj)),
           try_value ops len (\<not> could_be_bitflip (ucast (orig XOR (orig - jj)))) (\<lambda>s. s\<lparr>stage_cur_val := - word_of_nat j\<rparr>)
             (put_out i (orig - jj)),
           put_out i orig]) (det_ok env_ok b len) X"
    if i: "i < len" "orig = b ! i" for i j orig X
    unfolding Let_def
    by (rule triple_pre [OF _ det_ok_window [where i = i and nb = 1]])
       (rule triple_step [OF window_try_out triple_step [OF window_try_out triple_last [OF window_restore_out]]],
        use assms i in auto)
  show ?thesis
    unfolding stage_arith8_def
    by (rule triple_step [OF triple_stage_begin triple_step [OF triple_upd triple_step [OF triple_for [OF triple_read_byte
          [OF _ triple_at_effective [OF _ triple_step [OF triple_upd triple_last [OF triple_for [OF j]]]]]] triple_last [OF triple_stage_end]]]])
       (use assms in auto)
qed

lemma triple_arith_word:
  assumes "i + nb \<le> length b" and "bs = take nb (drop i b)"
    and "length v1 = nb" and "length v2 = nb" and "length v3 = nb" and "length v4 = nb"
  shows "triple (det_ok env_ok b len) (seq [
           upd (\<lambda>s. s\<lparr>stage_val_type := STAGE_VAL_LE\<rparr>),
           try_value ops n ok1 (\<lambda>s. s\<lparr>stage_cur_val := x1\<rparr>) (put_bytes i v1),
           try_value ops n ok2 (\<lambda>s. s\<lparr>stage_cur_val := x2\<rparr>) (put_bytes i v2),
           upd (\<lambda>s. s\<lparr>stage_val_type := STAGE_VAL_BE\<rparr>),
           try_value ops n ok3 (\<lambda>s. s\<lparr>stage_cur_val := x1\<rparr>) (put_bytes i v3),
           try_value ops n ok4 (\<lambda>s. s\<lparr>stage_cur_val := x2\<rparr>) (put_bytes i v4),
           put_bytes i bs]) (det_ok env_ok b len) X"
  by (rule triple_pre [OF _ det_ok_window [OF assms(1)]])
     (rule triple_step [OF triple_upd triple_step [OF window_try_bytes triple_step [OF window_try_bytes triple_step [OF triple_upd
        triple_step [OF window_try_bytes triple_step [OF window_try_bytes triple_last [OF window_restore]]]]]]],
      use assms in simp_all)

lemma stage_arith16_ok:
  assumes "len \<le> length b"
  shows "triple (det_ok env_ok b len) (stage_arith16 ops len before) (det_ok env_ok b len) (det_ok env_ok b len)"
  unfolding stage_arith16_def Let_def
  by (rule triple_step [OF triple_stage_begin triple_step [OF triple_for [OF triple_read_word [OF _ _ triple_at_effective
        [OF _ triple_step [OF triple_upd triple_last [OF triple_for [OF triple_arith_word]]]]]] triple_last [OF triple_stage_end]]])
     (use assms in auto)

lemma stage_arith32_ok:
  assumes "len \<le> length b"
  shows "triple (det_ok env_ok b len) (stage_arith32 ops len before) (det_ok env_ok b len) (det_ok env_ok b len)"
  unfolding stage_arith32_def Let_def
  by (rule triple_step [OF triple_stage_begin triple_step [OF triple_for [OF triple_read_word [OF _ _ triple_at_effective
        [OF _ triple_step [OF triple_upd triple_last [OF triple_for [OF triple_arith_word]]]]]] triple_last [OF triple_stage_end]]])
     (use assms in auto)

lemma stage_int8_ok:
  assumes "len \<le> length b"
  shows "triple (det_ok env_ok b len) (stage_int8 ops len before) (det_ok env_ok b len) (det_ok env_ok b len)"
proof -
  have v: "triple (det_ok env_ok b len) (cond (\<lambda>s. skip)
             (upd (\<lambda>s. s\<lparr>stage_max := stage_max s - 1\<rparr>))
             (seq [upd (\<lambda>s. s\<lparr>stage_cur_val := x\<rparr>), put_out i y, fuzz_stuff ops len, put_out i orig,
                   upd (\<lambda>s. s\<lparr>stage_cur := stage_cur s + 1\<rparr>)])) (det_ok env_ok b len) X"
    if i: "i < len" "orig = b ! i" for i orig skip x y X
  proof (rule triple_keep_cond)
    have lb: "i < length b" "i < length (upd_at b i [y])" using i assms by simp_all
    have "upd_at (upd_at b i [y]) i [orig] = b"
      using upd_at_upd_at [of i "[orig]" b "[y]"] upd_at_single [of i b orig] lb i(2) by simp
    with triple_put_out [OF lb(2), of env_ok len orig X]
    have back_out: "triple (det_ok env_ok (upd_at b i [y]) len) (put_out i orig) (det_ok env_ok b len) X" by simp
    show "triple (det_ok env_ok b len) (seq [upd (\<lambda>s. s\<lparr>stage_cur_val := x\<rparr>), put_out i y, fuzz_stuff ops len, put_out i orig,
                   upd (\<lambda>s. s\<lparr>stage_cur := stage_cur s + 1\<rparr>)]) (det_ok env_ok b len) X"
      by (rule triple_step [OF triple_upd triple_seq_Cons [OF triple_put_out [OF lb(1)] triple_step [OF triple_run
            triple_seq_Cons [OF back_out triple_last [OF triple_upd]]]]]) simp_all
  qed (rule triple_upd, simp)
  show ?thesis
    unfolding stage_int8_def Let_def
    by (rule triple_step [OF triple_stage_begin triple_step [OF triple_upd triple_step [OF triple_for [OF triple_read_byte
          [OF _ triple_at_effective [OF _ triple_step [OF triple_upd triple_last [OF triple_for [OF v]]]]]] triple_last [OF triple_stage_end]]]])
       (use assms in auto)
qed

lemma triple_interest_word:
  assumes "i + nb \<le> length b" and "bs = take nb (drop i b)"
    and "\<And>v. length (p v) = nb" and "\<And>v. length (q v) = nb"
  shows "triple (det_ok env_ok b len) (seq [
           upd (\<lambda>s. s\<lparr>stage_cur_byte := pos\<rparr>),
           for_each (\<lambda>v. seq [
               upd (\<lambda>s. s\<lparr>stage_cur_val := x v\<rparr>),
               try_value ops n (ok1 v) (\<lambda>s. s\<lparr>stage_val_type := STAGE_VAL_LE\<rparr>) (put_bytes i (p v)),
               try_value ops n (ok2 v) (\<lambda>s. s\<lparr>stage_val_type := STAGE_VAL_BE\<rparr>) (put_bytes i (q v))]) vs,
           put_bytes i bs]) (det_ok env_ok b len) X"
proof -
  have "triple (window env_ok b len i nb) (seq [
           for_each (\<lambda>v. seq [
               upd (\<lambda>s. s\<lparr>stage_cur_val := x v\<rparr>),
               try_value ops n (ok1 v) (\<lambda>s. s\<lparr>stage_val_type := STAGE_VAL_LE\<rparr>) (put_bytes i (p v)),
               try_value ops n (ok2 v) (\<lambda>s. s\<lparr>stage_val_type := STAGE_VAL_BE\<rparr>) (put_bytes i (q v))]) vs,
           put_bytes i bs]) (det_ok env_ok b len) X"
    by (rule triple_step [OF triple_for triple_last [OF window_restore]],
        rule triple_step [OF triple_upd triple_step [OF window_try_bytes triple_last [OF window_try_bytes]]])
       (use assms in simp_all)
  note rest = triple_pre [OF this det_ok_window [OF assms(1)]]
  show ?thesis by (rule triple_step [OF triple_upd rest]) simp_all
qed

lemma stage_int16_ok:
  assumes "len \<le> length b"
  shows "triple (det_ok env_ok b len) (stage_int16 ops len before) (det_ok env_ok b len) (det_ok env_ok b len)"
  unfolding stage_int16_def Let_def
  by (rule triple_step [OF triple_stage_begin triple_step [OF triple_for [OF triple_read_word [OF _ _ triple_at_effective
        [OF _ triple_interest_word]]] triple_last [OF triple_stage_end]]])
     (use assms in auto)

lemma stage_int32_ok:
  assumes "len \<le> length b"
  shows "triple (det_ok env_ok b len) (stage_int32 ops len before) (det_ok env_ok b len) (det_ok env_ok b len)"
  unfolding stage_int32_def Let_def
  by (rule triple_step [OF triple_stage_begin triple_step [OF triple_for [OF triple_read_word [OF _ _ triple_at_effective
        [OF _ triple_interest_word]]] triple_last [OF triple_stage_end]]])
     (use assms in auto)

end

section \<open>Dictionary tokens written over the input\<close>

text \<open>The last token written at \<open>i\<close> covers the first \<open>last_len\<close> bytes there; the rest is \<open>b\<close>.\<close>

definition token_at :: "('g \<Rightarrow> bool) \<Rightarrow> mem \<Rightarrow> nat \<Rightarrow> nat \<Rightarrow> ('g, 'a) fuzz1_scheme \<Rightarrow> bool" where
  "token_at I b len i s \<longleftrightarrow> (\<exists>bs. length bs = last_len s \<and> i + length bs \<le> len \<and> det_ok I (upd_at b i bs) len s)"

lemma token_at_start: "i \<le> len \<Longrightarrow> det_ok I b len s \<Longrightarrow> last_len s = 0 \<Longrightarrow> token_at I b len i s"
  unfolding token_at_def by (intro exI [of _ "[]"]) (simp add: upd_at_def)

lemma take_drop_agree:
  assumes "take len xs = take len ys" and "i + n \<le> len"
  shows "take n (drop i xs) = take n (drop i ys)"
  using arg_cong [OF assms(1), of "\<lambda>zs. drop i (take (n + i) zs)"] assms(2)
  by (simp add: take_drop min_def add.commute)

lemma triple_restore_tokens:
  assumes "len \<le> length b" and "take len in_buf = take len b"
  shows "triple (token_at I b len i) (restore_tokens in_buf i) (det_ok I b len) X"
proof (rule triple_Pure)
  fix s :: "('a, 'b) fuzz1_scheme"
  assume "token_at I b len i s"
  then obtain bs where bs: "length bs = last_len s" "i + length bs \<le> len" "det_ok I (upd_at b i bs) len s"
    by (auto simp: token_at_def)
  let ?o = "take (last_len s) (drop i b)"
  have eq: "take (last_len s) (drop i in_buf) = ?o" using take_drop_agree [OF assms(2)] bs by simp
  have fits: "i + length ?o \<le> length (upd_at b i bs)" "length bs \<le> length ?o" "i + length ?o \<le> length b"
    using bs assms(1) by simp_all
  have "upd_at (upd_at b i bs) i ?o = b"
    using upd_at_upd_at [OF fits(3,2)] upd_at_self [of i "last_len s" b] bs assms(1) by simp
  with tripleD [OF triple_put_bytes [OF fits(1), of I len X] bs(3)] eq
  show "exit_ok (det_ok I b len) X (restore_tokens in_buf i s)" by (simp add: restore_tokens_def)
qed

context stage_env
begin

lemma triple_put_token:
  assumes "i + length tok \<le> length b"
  shows "triple (\<lambda>s. det_ok env_ok b len s \<and> last_len s = n) (put_bytes i tok)
           (\<lambda>s. det_ok env_ok (upd_at b i tok) len s \<and> last_len s = n) X"
  unfolding put_bytes_def using assms by (intro triple_guarded) (auto simp: det_ok_def memcpy_at_upd)

lemma triple_run_last:
  "triple (\<lambda>s. det_ok env_ok b len s \<and> last_len s = m) (fuzz_stuff ops n) (\<lambda>s. det_ok env_ok b len s \<and> last_len s = m) X"
proof (rule triple_Pure)
  fix s :: "('g, 'a) fuzz1_scheme"
  assume "det_ok env_ok b len s \<and> last_len s = m"
  with tripleD [OF triple_run [of b len n X], of s]
  show "exit_ok (\<lambda>s. det_ok env_ok b len s \<and> last_len s = m) X (fuzz_stuff ops n s)"
    by (auto simp: exit_ok_def fuzz_stuff_def split: prod.splits)
qed

lemma triple_overwrite:
  assumes "i < len" and "len \<le> length b"
  shows "triple (\<lambda>s. token_at env_ok b len i s \<and> last_len s \<le> length tok) (overwrite_token ops len i tok)
           (\<lambda>s. token_at env_ok b len i s \<and> last_len s \<le> length tok) X"
proof (rule triple_Pure)
  fix s :: "('g, 'a) fuzz1_scheme"
  assume s: "token_at env_ok b len i s \<and> last_len s \<le> length tok"
  then obtain bs where bs: "length bs = last_len s" "i + length bs \<le> len" "det_ok env_ok (upd_at b i bs) len s"
    by (auto simp: token_at_def)
  show "exit_ok (\<lambda>s. token_at env_ok b len i s \<and> last_len s \<le> length tok) X (overwrite_token ops len i tok s)"
  proof (cases "length tok > len - i \<or> tok = take (length tok) (drop i (out_buf s))")
    case True
    then show ?thesis using s by (simp add: overwrite_token_def cond_def upd_def exit_ok_def token_at_def)
  next
    case False
    then have fits: "i + length tok \<le> len" using assms(1) by linarith
    have fits': "i + length tok \<le> length (upd_at b i bs)" using fits bs assms by simp
    have over: "upd_at (upd_at b i bs) i tok = upd_at b i tok"
      using upd_at_upd_at [of i tok b bs] fits assms bs s by simp
    note run = triple_put_token [OF fits', of len "length tok" X, unfolded over]
    have "triple (det_ok env_ok (upd_at b i bs) len) (seq [upd (\<lambda>s. s\<lparr>last_len := length tok\<rparr>), put_bytes i tok,
        fuzz_stuff ops len, upd (\<lambda>s. s\<lparr>stage_cur := stage_cur s + 1\<rparr>)])
        (\<lambda>s. det_ok env_ok (upd_at b i tok) len s \<and> last_len s = length tok) X"
      by (rule triple_seq_Cons [OF triple_upd triple_seq_Cons [OF run triple_step [OF triple_run_last triple_last [OF triple_upd]]]])
         simp_all
    from tripleD [OF this bs(3)] False fits show ?thesis
      by (auto simp: overwrite_token_def cond_def exit_ok_def token_at_def simp del: seq.simps)
  qed
qed

lemma triple_overwrite_maybe:
  assumes "i < len" and "len \<le> length b"
  shows "triple (\<lambda>s. token_at env_ok b len i s \<and> last_len s \<le> length tok)
           (\<lambda>s. case skip_extra ops cnt max_det (env s) of (skip, g) \<Rightarrow>
              if skip then upd (\<lambda>s. s\<lparr>stage_max := stage_max s - 1\<rparr>) (s\<lparr>env := g\<rparr>)
              else overwrite_token ops len i tok (s\<lparr>env := g\<rparr>))
           (\<lambda>s. token_at env_ok b len i s \<and> last_len s \<le> length tok) X"
proof (rule triple_Pure)
  fix s :: "('g, 'a) fuzz1_scheme"
  assume s: "token_at env_ok b len i s \<and> last_len s \<le> length tok"
  obtain skip g where g: "skip_extra ops cnt max_det (env s) = (skip, g)" by fastforce
  have "env_ok g"
    using g s draw_ok [of "env s" "word_of_nat cnt"]
    by (auto simp: skip_extra_def token_at_def det_ok_def split: if_splits prod.splits)
  then have "token_at env_ok b len i (s\<lparr>env := g\<rparr>) \<and> last_len (s\<lparr>env := g\<rparr>) \<le> length tok"
    using s by (auto simp: token_at_def intro: det_ok_env)
  from tripleD [OF triple_overwrite [OF assms, of tok X] this] this g
  show "exit_ok (\<lambda>s. token_at env_ok b len i s \<and> last_len s \<le> length tok) X
     (case skip_extra ops cnt max_det (env s) of (skip, g) \<Rightarrow>
        if skip then upd (\<lambda>s. s\<lparr>stage_max := stage_max s - 1\<rparr>) (s\<lparr>env := g\<rparr>)
        else overwrite_token ops len i tok (s\<lparr>env := g\<rparr>))"
    by (cases skip) (simp_all add: upd_def exit_ok_def token_at_def)
qed

lemma triple_token_stage:
  assumes "len \<le> length b" and "take len in_buf = take len b" and "sorted (map length toks)"
    and "\<And>i tok. i < len \<Longrightarrow> triple (\<lambda>s. token_at env_ok b len i s \<and> last_len s \<le> length tok) (put i tok)
           (\<lambda>s. token_at env_ok b len i s \<and> last_len s \<le> length tok) (det_ok env_ok b len)"
  shows "triple (det_ok env_ok b len)
     (seq [stage_begin n, upd (\<lambda>s. s\<lparr>stage_val_type := STAGE_VAL_NONE\<rparr>),
           for_each (\<lambda>i. seq [
               upd (\<lambda>s. s\<lparr>last_len := 0\<rparr>),
               at_effective ops before i (seq [
                 upd (\<lambda>s. s\<lparr>stage_cur_byte := word_of_nat i\<rparr>),
                 for_each (put i) toks,
                 restore_tokens in_buf i])])
             [0..<len],
           stage_end ops st]) (det_ok env_ok b len) (det_ok env_ok b len)"
proof -
  have pos: "triple (det_ok env_ok b len) (seq [
               upd (\<lambda>s. s\<lparr>last_len := 0\<rparr>),
               at_effective ops before i (seq [
                 upd (\<lambda>s. s\<lparr>stage_cur_byte := word_of_nat i\<rparr>),
                 for_each (put i) toks,
                 restore_tokens in_buf i])]) (det_ok env_ok b len) (det_ok env_ok b len)" if i: "i < len" for i
  proof -
    have loop: "triple (\<lambda>s. token_at env_ok b len i s \<and> (\<forall>t\<in>set toks. last_len s \<le> length t)) (for_each (put i) toks)
        (token_at env_ok b len i) (det_ok env_ok b len)"
      using assms(3) by (intro triple_for_sorted assms(4) i)
    have "triple (\<lambda>s. det_ok env_ok b len s \<and> last_len s = 0) (seq [
                 upd (\<lambda>s. s\<lparr>stage_cur_byte := word_of_nat i\<rparr>),
                 for_each (put i) toks,
                 restore_tokens in_buf i]) (det_ok env_ok b len) (det_ok env_ok b len)"
      by (rule triple_seq_Cons [OF triple_upd triple_seq_Cons [OF loop triple_last [OF triple_restore_tokens [OF assms(1,2)]]]])
         (use i in \<open>auto intro: token_at_start\<close>)
    from triple_at_effective_frame [OF i _ this]
    have eff: "triple (\<lambda>s. det_ok env_ok b len s \<and> last_len s = 0) (at_effective ops before i (seq [
                 upd (\<lambda>s. s\<lparr>stage_cur_byte := word_of_nat i\<rparr>),
                 for_each (put i) toks,
                 restore_tokens in_buf i])) (det_ok env_ok b len) (det_ok env_ok b len)" by simp
    show ?thesis by (rule triple_seq_Cons [OF triple_upd triple_last [OF eff]]) simp
  qed
  show ?thesis
    by (rule triple_step [OF triple_stage_begin triple_step [OF triple_upd triple_step [OF triple_for [OF pos]
          triple_last [OF triple_stage_end]]]]) simp_all
qed

lemma stage_ext_UO_ok:
  assumes "len \<le> length b" and "take len in_buf = take len b"
  shows "triple (det_ok env_ok b len) (stage_ext_UO ops max_det in_buf len before) (det_ok env_ok b len) (det_ok env_ok b len)"
proof (rule triple_Pure)
  fix s :: "('g, 'a) fuzz1_scheme"
  assume s: "det_ok env_ok b len s"
  then have "sorted (map length (user_tokens ops (env s)))" by (intro user_sorted) (simp add: det_ok_def)
  from tripleD [OF triple_token_stage [OF assms this triple_overwrite_maybe] s] assms(1)
  show "exit_ok (det_ok env_ok b len) (det_ok env_ok b len) (stage_ext_UO ops max_det in_buf len before s)"
    by (simp add: stage_ext_UO_def Let_def del: seq.simps)
qed

lemma stage_ext_AO_ok:
  assumes "len \<le> length b" and "take len in_buf = take len b"
  shows "triple (det_ok env_ok b len) (stage_ext_AO ops in_buf len before) (det_ok env_ok b len) (det_ok env_ok b len)"
proof (rule triple_Pure)
  fix s :: "('g, 'a) fuzz1_scheme"
  assume s: "det_ok env_ok b len s"
  then have "sorted (map length (take USE_AUTO_EXTRAS (auto_tokens ops (env s))))" by (intro auto_sorted) (simp add: det_ok_def)
  from tripleD [OF triple_token_stage [OF assms this triple_overwrite] s] assms(1)
  show "exit_ok (det_ok env_ok b len) (det_ok env_ok b len) (stage_ext_AO ops in_buf len before s)"
    by (simp add: stage_ext_AO_def Let_def del: seq.simps)
qed

end

section \<open>Dictionary tokens inserted into the input\<close>

text \<open>The buffer for grown inputs has room for the input and the longest token.\<close>

definition room :: "nat \<Rightarrow> ('g, 'a) fuzz1_scheme \<Rightarrow> bool" where
  "room len s \<longleftrightarrow> len + MAX_DICT_FILE \<le> length (ex_tmp s)"

lemma length_grow: "n \<le> length (grow m n)"
  by (simp add: grow_def)

lemma triple_put_ex:
  assumes "off + length bs \<le> len + MAX_DICT_FILE"
  shows "triple (\<lambda>s. det_ok I b len s \<and> room len s) (put_ex off bs) (\<lambda>s. det_ok I b len s \<and> room len s) X"
  unfolding put_ex_def
proof (rule triple_guarded)
  fix s :: "('a, 'b) fuzz1_scheme"
  assume s: "det_ok I b len s \<and> room len s"
  then have "off + length bs \<le> length (ex_tmp s)" using assms by (simp add: room_def)
  with s show "\<exists>s'. map_option (\<lambda>b. s\<lparr>ex_tmp := b\<rparr>) (memcpy_at (ex_tmp s) off bs) = Some s' \<and> det_ok I b len s' \<and> room len s'"
    by (simp add: memcpy_at_upd room_def)
qed

lemma triple_copy_head:
  assumes "i \<le> len" and "len < length b"
  shows "triple (\<lambda>s. det_ok I b len s \<and> room len s) (copy_head i) (\<lambda>s. det_ok I b len s \<and> room len s) X"
  unfolding copy_head_def
proof (rule triple_guarded)
  fix s :: "('a, 'b) fuzz1_scheme"
  assume s: "det_ok I b len s \<and> room len s"
  have "i < length (ex_tmp s)" using s assms(1) by (simp add: room_def MAX_DICT_FILE_def)
  moreover have "i < length (out_buf s)" using s assms by (simp add: det_ok_def)
  ultimately show "\<exists>s'. do { c \<leftarrow> load8 (out_buf s) i; m \<leftarrow> store8 (ex_tmp s) i c; Some (s\<lparr>ex_tmp := m\<rparr>) } = Some s'
      \<and> det_ok I b len s' \<and> room len s'"
    using s by (simp add: room_def)
qed

context stage_env
begin

lemma triple_fuzz_ex:
  "triple (\<lambda>s. det_ok env_ok b len s \<and> room len s) (fuzz_ex ops n) (\<lambda>s. det_ok env_ok b len s \<and> room len s) X"
proof (rule triple_Pure)
  fix s :: "('g, 'a) fuzz1_scheme"
  assume s: "det_ok env_ok b len s \<and> room len s"
  obtain bail g where g: "common_fuzz_stuff ops (take n (ex_tmp s)) (env s) = (bail, g)" by fastforce
  have "env_ok g" using run_ok [of "env s" "take n (ex_tmp s)"] s g by (simp add: det_ok_def)
  with s g show "exit_ok (\<lambda>s. det_ok env_ok b len s \<and> room len s) X (fuzz_ex ops n s)"
    by (simp add: fuzz_ex_def exit_ok_def det_ok_env room_def)
qed

lemma triple_insert_token:
  assumes "i \<le> len" and "len \<le> length b" and "length tok \<le> MAX_DICT_FILE"
  shows "triple (\<lambda>s. det_ok env_ok b len s \<and> room len s) (insert_token ops len i tok) (\<lambda>s. det_ok env_ok b len s \<and> room len s) X"
proof -
  have tail: "triple (\<lambda>s. det_ok env_ok b len s \<and> room len s)
      (\<lambda>s. put_ex (i + length tok) (take (len - i) (drop i (out_buf s))) s) (\<lambda>s. det_ok env_ok b len s \<and> room len s) X"
  proof (rule triple_Pure)
    fix s :: "('g, 'a) fuzz1_scheme"
    assume s: "det_ok env_ok b len s \<and> room len s"
    have "i + length tok + length (take (len - i) (drop i b)) \<le> len + MAX_DICT_FILE" using assms by simp
    from tripleD [OF triple_put_ex [OF this] s] det_ok_buf [of env_ok b len s] s
    show "exit_ok (\<lambda>s. det_ok env_ok b len s \<and> room len s) X (put_ex (i + length tok) (take (len - i) (drop i (out_buf s))) s)"
      by simp
  qed
  show ?thesis
    unfolding insert_token_def
    by (rule triple_keep_cond [OF triple_upd triple_step [OF triple_put_ex triple_step [OF tail triple_step [OF triple_fuzz_ex
          triple_last [OF triple_upd]]]]])
       (use assms in \<open>auto simp: room_def\<close>)
qed

lemma triple_insert_all:
  assumes "0 < len" and "len < length b" and "\<forall>t\<in>set toks. length t \<le> MAX_DICT_FILE"
  shows "triple (\<lambda>s. det_ok env_ok b len s \<and> room len s) (insert_all ops len before toks)
           (\<lambda>s. det_ok env_ok b len s \<and> room len s) (det_ok env_ok b len)"
  unfolding insert_all_def
proof (rule triple_for, rule triple_at_effective_frame)
  fix i assume "i \<in> set [0..<len + 1]"
  then have i: "i \<le> len" by auto
  show "i mod len < len" using assms(1) by simp
  show "triple (\<lambda>s. det_ok env_ok b len s \<and> room len s)
     (seq [upd (\<lambda>s. s\<lparr>stage_cur_byte := word_of_nat i\<rparr>), for_each (insert_token ops len i) toks, copy_head i])
     (\<lambda>s. det_ok env_ok b len s \<and> room len s) (det_ok env_ok b len)"
    by (rule triple_step [OF triple_upd triple_step [OF triple_for [OF triple_insert_token] triple_last [OF triple_copy_head]]])
       (use assms i in \<open>auto simp: room_def\<close>)
qed (simp_all add: room_def)

lemma triple_insert_stage:
  assumes "0 < len" and "len < length b" and "\<forall>t\<in>set toks. length t \<le> MAX_DICT_FILE"
  shows "triple (det_ok env_ok b len)
     (seq [stage_begin n, upd (\<lambda>s. s\<lparr>ex_tmp := grow (ex_tmp s) (len + MAX_DICT_FILE)\<rparr>), insert_all ops len before toks, stage_end ops st])
     (det_ok env_ok b len) (det_ok env_ok b len)"
  by (rule triple_step [OF triple_stage_begin triple_seq_Cons [OF triple_upd triple_step [OF triple_insert_all [OF assms]
        triple_pre [OF triple_last [OF triple_stage_end]]]]])
     (simp_all add: room_def length_grow)

lemma stage_ext_UI_ok:
  assumes "0 < len" and "len < length b"
  shows "triple (det_ok env_ok b len) (stage_ext_UI ops len before) (det_ok env_ok b len) (det_ok env_ok b len)"
proof (rule triple_Pure)
  fix s :: "('g, 'a) fuzz1_scheme"
  assume s: "det_ok env_ok b len s"
  then have "\<forall>t\<in>set (user_tokens ops (env s)). length t \<le> MAX_DICT_FILE" by (auto simp: det_ok_def intro: user_small)
  from tripleD [OF triple_insert_stage [OF assms this] s]
  show "exit_ok (det_ok env_ok b len) (det_ok env_ok b len) (stage_ext_UI ops len before s)"
    by (simp add: stage_ext_UI_def Let_def del: seq.simps)
qed

lemma stage_ext_AI_ok:
  assumes "0 < len" and "len < length b"
  shows "triple (det_ok env_ok b len) (stage_ext_AI ops len before) (det_ok env_ok b len) (det_ok env_ok b len)"
proof (rule triple_Pure)
  fix s :: "('g, 'a) fuzz1_scheme"
  assume s: "det_ok env_ok b len s"
  then have "\<forall>t\<in>set (auto_tokens ops (env s)). length t \<le> MAX_DICT_FILE" by (auto simp: det_ok_def intro: auto_token_small)
  from tripleD [OF triple_insert_stage [OF assms this] s]
  show "exit_ok (det_ok env_ok b len) (det_ok env_ok b len) (stage_ext_AI ops len before s)"
    by (simp add: stage_ext_AI_def Let_def del: seq.simps)
qed

lemma deterministic_stages_ok:
  assumes "0 < len" and "len < length b" and "take len in_buf = take len b"
  shows "triple (det_ok env_ok b len) (deterministic_stages ops ni no_arith max_det in_buf len before)
           (\<lambda>s. det_ok env_ok b len s \<and> passed_det s) (det_ok env_ok b len)"
proof -
  have le: "len \<le> length b" using assms(2) by simp
  have bits: "triple (det_ok env_ok b len) (all_bitflips ops ni len before) (det_ok env_ok b len) (det_ok env_ok b len)"
    unfolding all_bitflips_def
    by (intro triple_keep stage_flip1_ok stage_flip2_ok stage_flip4_ok stage_flip8_ok stage_flip16_ok stage_flip32_ok le assms)
  have ariths: "triple (det_ok env_ok b len) (all_ariths ops no_arith len before) (det_ok env_ok b len) (det_ok env_ok b len)"
    unfolding all_ariths_def by (intro triple_keep stage_arith8_ok stage_arith16_ok stage_arith32_ok le)
  have interests: "triple (det_ok env_ok b len) (all_interests ops no_arith len before) (det_ok env_ok b len) (det_ok env_ok b len)"
    unfolding all_interests_def by (intro triple_keep stage_int8_ok stage_int16_ok stage_int32_ok le)
  have dicts: "triple (det_ok env_ok b len) (all_extras ops max_det in_buf len before) (det_ok env_ok b len) (det_ok env_ok b len)"
    unfolding all_extras_def
    by (intro triple_keep stage_ext_UO_ok stage_ext_UI_ok stage_ext_AO_ok stage_ext_AI_ok le assms)
  have mark: "triple (det_ok env_ok b len) (seq [upd (\<lambda>s. s\<lparr>passed_det := True\<rparr>)])
      (\<lambda>s. det_ok env_ok b len s \<and> passed_det s) (det_ok env_ok b len)"
    by (rule triple_last, rule triple_upd) simp
  show ?thesis
    unfolding deterministic_stages_def
    by (rule triple_step [OF bits triple_step [OF ariths triple_step [OF interests triple_step [OF dicts mark]]]])
qed

end

section \<open>The fuzzer's own dictionaries as the environment\<close>

text \<open>The rest of the fuzzer and the system: running the target on an input, the clock, the checksum of the last trace,
  the counters, and the random generator.\<close>

record 'w world_ops =
  w_run :: "mem \<Rightarrow> 'w \<Rightarrow> bool \<times> 'w"
  w_time :: "'w \<Rightarrow> u64 \<times> 'w"
  w_cksum :: "'w \<Rightarrow> u64"
  w_queued :: "'w \<Rightarrow> u32"
  w_crashes :: "'w \<Rightarrow> u64"
  w_execs :: "'w \<Rightarrow> u64"
  w_rand :: "u32 \<Rightarrow> 'w \<Rightarrow> u32 \<times> 'w"

record 'w afl_env =
  dict :: afl_extras
  world :: 'w

definition on_world :: "('w \<Rightarrow> 'b \<times> 'w) \<Rightarrow> 'w afl_env \<Rightarrow> 'b \<times> 'w afl_env" where
  "on_world f g = (case f (world g) of (r, w) \<Rightarrow> (r, g\<lparr>world := w\<rparr>))"

text \<open>\<open>maybe_add_auto\<close> draws a random number only when it has to evict a token from a full dictionary.\<close>

definition add_auto_env :: "'w world_ops \<Rightarrow> mem \<Rightarrow> 'w afl_env \<Rightarrow> 'w afl_env" where
  "add_auto_env W m g =
     (if auto_rejected m (dict g) \<or> bump_match m (a_extras (dict g)) \<noteq> None \<or> length (a_extras (dict g)) < MAX_AUTO_EXTRAS
      then g\<lparr>dict := maybe_add_auto isort_by 0 m (dict g)\<rparr>
      else case on_world (w_rand W (word_of_nat ((MAX_AUTO_EXTRAS + 1) div 2))) g of (r, g') \<Rightarrow>
             g'\<lparr>dict := maybe_add_auto isort_by (unat r) m (dict g')\<rparr>)"

definition afl_ops :: "'w world_ops \<Rightarrow> 'w afl_env stage_ops" where
  "afl_ops W = \<lparr>common_fuzz_stuff = (\<lambda>m. on_world (w_run W m)), get_cur_time = on_world (w_time W),
     trace_cksum = (\<lambda>g. w_cksum W (world g)), queued_items = (\<lambda>g. w_queued W (world g)),
     saved_crashes = (\<lambda>g. w_crashes W (world g)), total_execs = (\<lambda>g. w_execs W (world g)),
     rand_below_op = (\<lambda>n. on_world (w_rand W n)), maybe_add_auto_op = add_auto_env W,
     user_extras = (\<lambda>g. extras (dict g)), auto_extras = (\<lambda>g. a_extras (dict g))\<rparr>"

text \<open>The dictionaries as the loaders and \<open>maybe_add_auto\<close> leave them.\<close>

definition auto_fit :: "auto_extra_data list \<Rightarrow> bool" where
  "auto_fit as \<longleftrightarrow> (\<forall>a\<in>set as. length (ae_data a) = MAX_AUTO_EXTRA \<and> ae_len a \<le> MAX_AUTO_EXTRA)"

definition dict_ok :: "'w afl_env \<Rightarrow> bool" where
  "dict_ok g \<longleftrightarrow> sorted (map ex_len (extras (dict g))) \<and> (\<forall>e\<in>set (extras (dict g)). extra_ok e \<and> ex_len e \<le> MAX_DICT_FILE)
     \<and> auto_fit (a_extras (dict g)) \<and> sorted (map ae_len (take USE_AUTO_EXTRAS (a_extras (dict g))))"

lemma length_isort_by [simp]: "length (isort_by cmp xs) = length xs"
  using mset_isort_by [of cmp xs] by (rule mset_eq_length)

lemma set_isort_by [simp]: "set (isort_by cmp xs) = set xs"
  using mset_isort_by [of cmp xs] by (rule mset_eq_setD)

lemma set_sort_a_extras: "set (sort_a_extras isort_by as) = set as"
proof -
  have "set (sort_a_extras isort_by as) = set (isort_by compare_auto_extras_use_d as)"
    unfolding sort_a_extras_def Let_def set_append set_isort_by [of compare_auto_extras_len]
    by (metis append_take_drop_id set_append)
  then show ?thesis by simp
qed

lemma sorted_sort_a_extras: "sorted (map ae_len (take USE_AUTO_EXTRAS (sort_a_extras isort_by as)))"
proof -
  let ?u = "isort_by compare_auto_extras_use_d as" and ?k = "min USE_AUTO_EXTRAS (length as)"
  have "sorted (map (\<lambda>a. int (ae_len a)) (isort_by compare_auto_extras_len (take ?k ?u)))"
    by (rule sorted_isort_by) (simp add: compare_auto_extras_len_def)
  then have "sorted (map ae_len (isort_by compare_auto_extras_len (take ?k ?u)))"
    by (simp add: sorted_iff_nth_mono)
  moreover have "take USE_AUTO_EXTRAS (sort_a_extras isort_by as) = isort_by compare_auto_extras_len (take ?k ?u)"
    by (simp add: sort_a_extras_def Let_def) linarith
  ultimately show ?thesis by simp
qed

lemma auto_fit_next:
  assumes "auto_fit as" and "length m \<le> MAX_AUTO_EXTRA"
  shows "auto_fit (auto_next evict m as)"
proof -
  have mk: "length (ae_data (mk_auto m a)) = MAX_AUTO_EXTRA \<and> ae_len (mk_auto m a) \<le> MAX_AUTO_EXTRA"
    if "length (ae_data a) = MAX_AUTO_EXTRA" for a
    using that assms(2) by (simp add: mk_auto_def)
  have blank: "length (ae_data blank_auto) = MAX_AUTO_EXTRA" by (simp add: blank_auto_def)
  show ?thesis
  proof (cases "bump_match m as")
    case (Some as')
    from bump_match_Some [OF Some] obtain i where i: "i < length as"
      "as' = as[i := (as ! i)\<lparr>ae_hit_cnt := ae_hit_cnt (as ! i) + 1\<rparr>]" by blast
    have "set as' \<subseteq> insert ((as ! i)\<lparr>ae_hit_cnt := ae_hit_cnt (as ! i) + 1\<rparr>) (set as)"
      unfolding i(2) by (rule set_update_subset_insert)
    with assms(1) i(1) Some show ?thesis by (fastforce simp: auto_next_def auto_fit_def)
  next
    case None
    define i where "i = evicted_slot evict"
    have "auto_fit (as[i := (mk_auto m (as ! i))\<lparr>ae_hit_cnt := 0\<rparr>])"
    proof (cases "i < length as")
      case True
      have "set (as[i := (mk_auto m (as ! i))\<lparr>ae_hit_cnt := 0\<rparr>]) \<subseteq> insert ((mk_auto m (as ! i))\<lparr>ae_hit_cnt := 0\<rparr>) (set as)"
        by (rule set_update_subset_insert)
      with assms(1) True mk [of "as ! i"] show ?thesis by (fastforce simp: auto_fit_def)
    qed (use assms(1) in \<open>simp add: list_update_beyond\<close>)
    with None assms(1) mk [OF blank] show ?thesis by (auto simp: auto_next_def i_def Let_def auto_fit_def)
  qed
qed

lemma dict_ok_add:
  assumes "dict_ok g"
  shows "dict_ok (g\<lparr>dict := maybe_add_auto isort_by evict m (dict g)\<rparr>)"
proof (cases "auto_rejected m (dict g)")
  case True
  then show ?thesis using assms by (simp add: maybe_add_auto_next dict_ok_def)
next
  case False
  then have "length m \<le> MAX_AUTO_EXTRA" by (simp add: auto_rejected_def)
  then have "auto_fit (auto_next evict m (a_extras (dict g)))" using assms by (intro auto_fit_next) (simp_all add: dict_ok_def)
  with False assms show ?thesis
    by (simp add: maybe_add_auto_next dict_ok_def auto_fit_def set_sort_a_extras sorted_sort_a_extras)
qed

lemma dict_ok_world [simp]: "dict_ok (g\<lparr>world := w\<rparr>) = dict_ok g"
  by (simp add: dict_ok_def)

lemma dict_ok_on_world: "dict_ok g \<Longrightarrow> dict_ok (snd (on_world f g))"
  by (simp add: on_world_def split: prod.splits)

lemma dict_ok_user: "dict_ok g \<Longrightarrow> map length (user_tokens (afl_ops W) g) = map ex_len (extras (dict g))"
  by (auto simp: user_tokens_def afl_ops_def dict_ok_def extra_ok_def)

lemma dict_ok_auto: "dict_ok g \<Longrightarrow> map length (auto_tokens (afl_ops W) g) = map ae_len (a_extras (dict g))"
  by (auto simp: auto_tokens_def afl_ops_def dict_ok_def auto_fit_def)

interpretation afl: stage_env "afl_ops W" dict_ok for W :: "'w world_ops"
proof unfold_locales
  fix g :: "'w afl_env" and m :: mem and n :: u32 and t :: mem
  assume g: "dict_ok g"
  then show "dict_ok (snd (common_fuzz_stuff (afl_ops W) m g))" "dict_ok (snd (get_cur_time (afl_ops W) g))"
    "dict_ok (snd (rand_below_op (afl_ops W) n g))"
    by (simp_all add: afl_ops_def dict_ok_on_world)
  show "dict_ok (maybe_add_auto_op (afl_ops W) m g)"
    using g dict_ok_add [OF g] dict_ok_add [of "g\<lparr>world := w\<rparr>" _ m for w]
    by (auto simp: afl_ops_def add_auto_env_def on_world_def split: prod.splits)
  show "sorted (map length (user_tokens (afl_ops W) g))" using g by (simp add: dict_ok_user) (simp add: dict_ok_def)
  show "sorted (map length (take USE_AUTO_EXTRAS (auto_tokens (afl_ops W) g)))"
    using g by (simp add: take_map [symmetric] dict_ok_auto) (simp add: dict_ok_def take_map)
  show "length t \<le> MAX_DICT_FILE" if "t \<in> set (user_tokens (afl_ops W) g)"
  proof -
    have "length t \<in> set (map length (user_tokens (afl_ops W) g))" using that by simp
    with g show ?thesis unfolding dict_ok_user [OF g] by (auto simp: dict_ok_def)
  qed
  show "length t \<le> MAX_DICT_FILE" if "t \<in> set (auto_tokens (afl_ops W) g)"
  proof -
    have "length t \<in> set (map length (auto_tokens (afl_ops W) g))" using that by simp
    with g have "length t \<le> MAX_AUTO_EXTRA" unfolding dict_ok_auto [OF g] by (auto simp: dict_ok_def auto_fit_def)
    then show ?thesis by (simp add: MAX_AUTO_EXTRA_def MAX_DICT_FILE_def)
  qed
qed

section \<open>The mark of an entry\<close>

text \<open>Statements that leave \<open>passed_det\<close> alone, on every path out of them.\<close>

definition keeps_mark :: "(('g, 'a) fuzz1_scheme \<Rightarrow> exit \<times> ('g, 'a) fuzz1_scheme) \<Rightarrow> bool" where
  "keeps_mark c \<longleftrightarrow> (\<forall>s. passed_det (snd (c s)) = passed_det s)"

named_theorems marks

lemma keeps_mark_seq [marks]:
  "keeps_mark (seq [])" "keeps_mark c \<Longrightarrow> keeps_mark (seq cs) \<Longrightarrow> keeps_mark (seq (c # cs))"
  unfolding keeps_mark_def by (simp, simp split: prod.splits) (metis snd_conv)

lemma keeps_mark_for:
  assumes "\<And>x. keeps_mark (c x)"
  shows "passed_det (snd (for_each c xs s)) = passed_det s"
proof (induction xs arbitrary: s)
  case (Cons x xs)
  obtain e s' where c: "c x s = (e, s')" by (cases "c x s")
  then have "passed_det s' = passed_det s" using assms [of x] unfolding keeps_mark_def by (metis snd_conv)
  then show ?case using c Cons.IH by simp
qed simp

lemma keeps_mark_for_each [marks]:
  "(\<And>x. keeps_mark (c x)) \<Longrightarrow> keeps_mark (for_each c xs)" "(\<And>x. keeps_mark (d x)) \<Longrightarrow> keeps_mark (\<lambda>s. for_each d (ys s) s)"
  using keeps_mark_for [of c] keeps_mark_for [of d] by (simp_all add: keeps_mark_def)

lemma keeps_mark_cond [marks]: "keeps_mark c \<Longrightarrow> keeps_mark d \<Longrightarrow> keeps_mark (cond b c d)"
  by (simp add: keeps_mark_def cond_def)

lemma keeps_mark_upd [marks]: "(\<And>s. passed_det (f s) = passed_det s) \<Longrightarrow> keeps_mark (upd f)"
  by (simp add: keeps_mark_def upd_def)

lemma keeps_mark_guarded [marks]: "(\<And>s s'. f s = Some s' \<Longrightarrow> passed_det s' = passed_det s) \<Longrightarrow> keeps_mark (guarded f)"
  by (simp add: keeps_mark_def guarded_def split: option.splits)

lemma keeps_mark_reading [marks]: "(\<And>x. keeps_mark (c x)) \<Longrightarrow> keeps_mark (reading f c)"
  by (simp add: keeps_mark_def reading_def split: option.splits)

lemma keeps_mark_calls [marks]:
  "keeps_mark (fuzz_stuff ops len)" "keeps_mark (check_timeout ops before fl)" "keeps_mark (fuzz_ex ops n)"
  by (simp_all add: keeps_mark_def fuzz_stuff_def check_timeout_def fuzz_ex_def split: prod.splits)

lemma keeps_mark_writes [marks]:
  "keeps_mark (put_out k v)" "keeps_mark (put_bytes off bs)" "keeps_mark (FLIP_BIT k)" "keeps_mark (flip_out k n)"
  "keeps_mark (put_ex off bs)" "keeps_mark (copy_head i)"
  unfolding put_out_def put_bytes_def FLIP_BIT_def flip_out_def put_ex_def copy_head_def
  by (auto intro!: keeps_mark_guarded split: Option.bind_splits)

lemma keeps_mark_writes_at [marks]:
  "keeps_mark (restore_tokens in_buf i)" "keeps_mark (\<lambda>s. put_ex off (bs s) s)"
  by (simp_all add: keeps_mark_def restore_tokens_def keeps_mark_writes [unfolded keeps_mark_def, rule_format])

lemma keeps_mark_stage [marks]: "keeps_mark (stage_begin m)" "keeps_mark (stage_end ops st)"
  unfolding stage_begin_def stage_end_def by (intro marks; simp add: Let_def)+

lemma keeps_mark_at_effective [marks]: "keeps_mark c \<Longrightarrow> keeps_mark (at_effective ops before i c)"
  unfolding at_effective_def by (intro marks) simp_all

lemma keeps_mark_try_value [marks]:
  "(\<And>s. passed_det (f s) = passed_det s) \<Longrightarrow> keeps_mark c \<Longrightarrow> keeps_mark (try_value ops len ok f c)"
  unfolding try_value_def by (intro marks) simp_all

lemma passed_det_tokens:
  "collect_byte k s = Some s' \<Longrightarrow> passed_det s' = passed_det s" "passed_det (flush_token ops s) = passed_det s"
  "(flush_token ops s)\<lparr>a_len := n, prev_cksum := c\<rparr> = s' \<Longrightarrow> passed_det s' = passed_det s"
  by (auto simp: collect_byte_def flush_token_def split: Option.bind_splits if_splits)

lemma keeps_mark_detect [marks]: "keeps_mark (guarded (detect_token ops k))"
  by (rule keeps_mark_guarded)
     (auto simp: detect_token_def Let_def passed_det_tokens dest!: passed_det_tokens(1,3) split: Option.bind_splits if_splits)

lemma keeps_mark_tokens [marks]:
  "keeps_mark (overwrite_token ops len i tok)" "keeps_mark (insert_token ops len i tok)"
  unfolding overwrite_token_def insert_token_def by (intro marks; simp)+

lemma keeps_mark_skip_extra [marks]:
  "keeps_mark (\<lambda>s. case skip_extra ops n m (env s) of (skip, g) \<Rightarrow>
     if skip then upd (\<lambda>s. s\<lparr>stage_max := stage_max s - 1\<rparr>) (s\<lparr>env := g\<rparr>) else overwrite_token ops len i tok (s\<lparr>env := g\<rparr>))"
  by (simp add: keeps_mark_def upd_def keeps_mark_tokens(1) [unfolded keeps_mark_def, rule_format] split: prod.splits)

lemma keeps_mark_insert_all [marks]: "keeps_mark (insert_all ops len before toks)"
  unfolding insert_all_def by (intro marks) simp

lemma keeps_mark_let: "(\<And>x. keeps_mark (c x)) \<Longrightarrow> keeps_mark (\<lambda>s. c (f s) s)"
  by (simp add: keeps_mark_def)

lemma keeps_mark_flips [marks]:
  "keeps_mark (stage_flip1 ops ni len before)" "keeps_mark (stage_flip2 ops len before)" "keeps_mark (stage_flip4 ops len before)"
  "keeps_mark (stage_flip8 ops len before)" "keeps_mark (stage_flip16 ops len before)" "keeps_mark (stage_flip32 ops len before)"
  unfolding stage_flip1_def stage_flip2_def stage_flip4_def stage_flip8_def stage_flip16_def stage_flip32_def
  by (intro marks; simp)+

lemma keeps_mark_ariths [marks]:
  "keeps_mark (stage_arith8 ops len before)" "keeps_mark (stage_arith16 ops len before)" "keeps_mark (stage_arith32 ops len before)"
  unfolding stage_arith8_def stage_arith16_def stage_arith32_def Let_def by (intro marks; simp)+

lemma keeps_mark_ints [marks]:
  "keeps_mark (stage_int8 ops len before)" "keeps_mark (stage_int16 ops len before)" "keeps_mark (stage_int32 ops len before)"
  unfolding stage_int8_def stage_int16_def stage_int32_def Let_def by (intro marks; simp)+

lemma keeps_mark_exts [marks]:
  "keeps_mark (stage_ext_UO ops n in_buf len before)" "keeps_mark (stage_ext_AO ops in_buf len before)"
  "keeps_mark (stage_ext_UI ops len before)" "keeps_mark (stage_ext_AI ops len before)"
  unfolding stage_ext_UO_def [abs_def] stage_ext_AO_def [abs_def] stage_ext_UI_def [abs_def] stage_ext_AI_def [abs_def] Let_def
  by (rule keeps_mark_let, intro marks; simp)+

lemma keeps_mark_skip [marks]: "keeps_mark skip_step"
  by (simp add: keeps_mark_def skip_step_def upd_def)

lemma seq_snoc_upd: "seq (cs @ [upd f]) s = (case seq cs s of (e, s') \<Rightarrow> (e, if e = Next then f s' else s'))"
  by (induction cs arbitrary: s) (auto simp: upd_def split: prod.splits)

lemma deterministic_stages_mark:
  "case deterministic_stages ops ni no_arith max_det in_buf len before s of (e, s') \<Rightarrow> e \<noteq> Next \<longrightarrow> passed_det s' = passed_det s"
proof -
  let ?cs = "[all_bitflips ops ni len before, all_ariths ops no_arith len before, all_interests ops no_arith len before,
      all_extras ops max_det in_buf len before]"
  have "keeps_mark (seq ?cs)"
    unfolding all_bitflips_def all_ariths_def all_interests_def all_extras_def by (intro marks)
  then have m: "passed_det (snd (seq ?cs s)) = passed_det s" unfolding keeps_mark_def by (rule spec)
  have "deterministic_stages ops ni no_arith max_det in_buf len before s =
      (case seq ?cs s of (e, s') \<Rightarrow> (e, if e = Next then s'\<lparr>passed_det := True\<rparr> else s'))"
    unfolding deterministic_stages_def seq_snoc_upd [of ?cs, simplified append.simps] ..
  moreover obtain e s' where r: "seq ?cs s = (e, s')" by (cases "seq ?cs s")
  ultimately have "deterministic_stages ops ni no_arith max_det in_buf len before s = (e, if e = Next then s'\<lparr>passed_det := True\<rparr> else s')"
    by (simp only: prod.case)
  moreover have "passed_det s' = passed_det s" using m unfolding r snd_conv .
  ultimately show ?thesis by simp
qed

section \<open>Properties\<close>

text \<open>C14. The deterministic stages, run with the real dictionary code and any target, clock and random numbers, never touch
  memory outside a buffer and never loop for ever, provided that the output buffer has at least one byte more than the input: the
  insertion stages read \<open>out_buf[len]\<close> after the last position, whatever its value. Unless the entry is abandoned, the
  input buffer is afterwards exactly what it was (so the stages that follow start from the unmodified input), and the dictionaries
  are still sorted and bounded. The entry is marked as done when every stage has run to its end, and only then: on every other way
  out, a timeout or an abandoned entry, the mark is what it was before.\<close>

theorem deterministic_stages_restore:
  fixes s :: "('w afl_env, 'x) fuzz1_scheme"
  assumes "0 < len" and "len < length (out_buf s)" and "take len in_buf = take len (out_buf s)"
    and "skip_eff_map s = Some m" and "eff_ok len m" and "length (a_collect s) = MAX_AUTO_EXTRA" and "dict_ok (env s)"
  shows "case deterministic_stages (afl_ops W) ni no_arith max_det in_buf len before s of (e, s') \<Rightarrow>
           (e = Next \<or> e = Custom_mutator_stage \<or> e = Abandon_entry)
           \<and> (e \<noteq> Abandon_entry \<longrightarrow> out_buf s' = out_buf s \<and> dict_ok (env s'))
           \<and> (e = Next \<longrightarrow> passed_det s') \<and> (e \<noteq> Next \<longrightarrow> passed_det s' = passed_det s)"
proof -
  have "det_ok dict_ok (out_buf s) len s" using assms by (simp add: det_ok_def)
  from tripleD [OF afl.deterministic_stages_ok [OF assms(1-3), of W ni no_arith max_det before] this]
  show ?thesis using deterministic_stages_mark [of s "afl_ops W" ni no_arith max_det in_buf len before]
    by (cases "deterministic_stages (afl_ops W) ni no_arith max_det in_buf len before s")
       (auto simp: exit_ok_def det_ok_def intro: exit.exhaust)
qed

text \<open>An environment that records the inputs the target is run on: no run asks to stop, the clock stands still.\<close>

definition recorder :: "(mem list \<Rightarrow> u64) \<Rightarrow> mem list world_ops" where
  "recorder ck = \<lparr>w_run = (\<lambda>m w. (False, w @ [m])), w_time = (\<lambda>w. (0, w)), w_cksum = ck, w_queued = (\<lambda>w. 0),
     w_crashes = (\<lambda>w. 0), w_execs = (\<lambda>w. word_of_nat (length w)), w_rand = (\<lambda>n w. (0, w))\<rparr>"

definition det_example :: "mem \<Rightarrow> mem \<Rightarrow> extra_data list \<Rightarrow> mem list afl_env fuzz1" where
  "det_example b eff toks = \<lparr>env = \<lparr>dict = \<lparr>extras = toks, a_extras = [], auto_changed = False\<rparr>, world = []\<rparr>,
     out_buf = b, stage_cur = 0, stage_max = 0, stage_cur_byte = 0, stage_cur_val = 0,
     stage_val_type = STAGE_VAL_NONE, stage_finds = (\<lambda>_. 0), stage_cycles = (\<lambda>_. 0), orig_hit_cnt = 0, new_hit_cnt = 0,
     skip_eff_map = Some eff, blocks_eff_select = 0, blocks_eff_total = 0, a_collect = replicate MAX_AUTO_EXTRA 0,
     a_len = 0, prev_cksum = 0, first_cksum = 0, last_len = 0, ex_tmp = [], passed_det = False\<rparr>"

theorem deterministic_stages_witness:
  "case deterministic_stages (afl_ops (recorder (\<lambda>w. 0))) False False 200 [65, 66, 0] 2 0
       (det_example [65, 66, 0] [3] [mk_extra [80]]) of (e, s') \<Rightarrow>
     (e = Next \<or> e = Custom_mutator_stage \<or> e = Abandon_entry) \<and> (e \<noteq> Abandon_entry \<longrightarrow> out_buf s' = [65, 66, 0])"
  using deterministic_stages_restore [of 2 "det_example [65, 66, 0] [3] [mk_extra [80]]" "[65, 66, 0]" "[3]" "recorder (\<lambda>w. 0)"
      False False 200 0]
  by (auto simp: det_example_def eff_ok_def dict_ok_def mk_extra_def extra_ok_def auto_fit_def MAX_DICT_FILE_def split: prod.splits)

end
