(* ===== verification/Det_Run.thy ===== *)
theory Det_Run
  imports Det_Safe
begin

text \<open>
  Which inputs the deterministic stages run the target on. \<open>runs P c Q\<close> says that a statement falls through, from \<open>P\<close>
  to \<open>Q\<close>; with the recording environment of \<open>Det_Safe\<close> the postcondition can name the inputs in order.
\<close>

section \<open>Statements that fall through\<close>

definition runs :: "('s \<Rightarrow> bool) \<Rightarrow> ('s \<Rightarrow> exit \<times> 's) \<Rightarrow> ('s \<Rightarrow> bool) \<Rightarrow> bool" where
  "runs P c Q \<longleftrightarrow> (\<forall>s. P s \<longrightarrow> fst (c s) = Next \<and> Q (snd (c s)))"

lemma runsD: "runs P c Q \<Longrightarrow> P s \<Longrightarrow> fst (c s) = Next \<and> Q (snd (c s))"
  by (simp add: runs_def)

lemma runs_Pure: "(\<And>s. P s \<Longrightarrow> \<exists>s'. c s = (Next, s') \<and> Q s') \<Longrightarrow> runs P c Q"
  unfolding runs_def by fastforce

lemma runs_seq_Nil: "(\<And>s. P s \<Longrightarrow> Q s) \<Longrightarrow> runs P (seq []) Q"
  by (simp add: runs_def)

lemma runs_seq_Cons: "runs P c R \<Longrightarrow> runs R (seq cs) Q \<Longrightarrow> runs P (seq (c # cs)) Q"
  unfolding runs_def by (force split: prod.splits)

lemma runs_last: "runs P c Q \<Longrightarrow> runs P (seq [c]) Q"
  by (erule runs_seq_Cons) (rule runs_seq_Nil)

lemma runs_seq_append: "runs P (seq cs) R \<Longrightarrow> runs R (seq ds) Q \<Longrightarrow> runs P (seq (cs @ ds)) Q"
  unfolding runs_def seq_append by (force split: prod.splits)

lemma runs_upd: "(\<And>s. P s \<Longrightarrow> Q (f s)) \<Longrightarrow> runs P (upd f) Q"
  by (simp add: runs_def upd_def)

lemma runs_guarded: "(\<And>s. P s \<Longrightarrow> \<exists>s'. f s = Some s' \<and> Q s') \<Longrightarrow> runs P (guarded f) Q"
  unfolding runs_def guarded_def by fastforce

lemma runs_pre: "runs P' c Q \<Longrightarrow> (\<And>s. P s \<Longrightarrow> P' s) \<Longrightarrow> runs P c Q"
  by (auto simp: runs_def)

lemma runs_for:
  assumes "\<And>L x. x \<in> set xs \<Longrightarrow> runs (P L) (c x) (P (L @ f x))"
  shows "runs (P L) (for_each c xs) (P (L @ concat (map f xs)))"
  using assms
proof (induction xs arbitrary: L)
  case Nil
  then show ?case by (simp add: runs_def)
next
  case (Cons x xs)
  have "runs (P L) (c x) (P (L @ f x))" using Cons.prems by simp
  moreover have "runs (P (L @ f x)) (for_each c xs) (P ((L @ f x) @ concat (map f xs)))"
    by (rule Cons.IH) (rule Cons.prems, simp)
  ultimately show ?case unfolding runs_def by (force split: prod.splits)
qed

lemma runs_for_index:
  assumes "\<And>i L. i < n \<Longrightarrow> runs (P i L) (c i) (P (Suc i) (L @ f i))"
  shows "runs (P 0 L) (for_each c [0..<n]) (P n (L @ concat (map f [0..<n])))"
  using assms
proof (induction n)
  case 0
  then show ?case by (simp add: runs_def)
next
  case (Suc n)
  then have "runs (P 0 L) (for_each c [0..<n]) (P n (L @ concat (map f [0..<n])))" by simp
  moreover have "runs (P n (L @ concat (map f [0..<n]))) (c n) (P (Suc n) ((L @ concat (map f [0..<n])) @ f n))"
    by (rule Suc.prems) simp
  ultimately show ?case unfolding runs_def by (force simp: for_each_append split: prod.splits)
qed

section \<open>The recording environment\<close>

definition rec_ok :: "mem \<Rightarrow> mem \<Rightarrow> mem list \<Rightarrow> (mem list afl_env, 'a) fuzz1_scheme \<Rightarrow> bool" where
  "rec_ok b m L s \<longleftrightarrow> out_buf s = b \<and> skip_eff_map s = Some m \<and> world (env s) = L \<and> length (a_collect s) = MAX_AUTO_EXTRA"

lemma rec_ok_simps [simp]:
  "rec_ok b m L (s\<lparr>stage_cur := x\<rparr>) = rec_ok b m L s" "rec_ok b m L (s\<lparr>stage_max := x\<rparr>) = rec_ok b m L s"
  "rec_ok b m L (s\<lparr>stage_cur_byte := x\<rparr>) = rec_ok b m L s" "rec_ok b m L (s\<lparr>stage_val_type := vt\<rparr>) = rec_ok b m L s"
  "rec_ok b m L (s\<lparr>orig_hit_cnt := y\<rparr>) = rec_ok b m L s" "rec_ok b m L (s\<lparr>new_hit_cnt := y\<rparr>) = rec_ok b m L s"
  "rec_ok b m L (s\<lparr>stage_finds := f\<rparr>) = rec_ok b m L s" "rec_ok b m L (s\<lparr>stage_cycles := f\<rparr>) = rec_ok b m L s"
  "rec_ok b m L (s\<lparr>prev_cksum := y\<rparr>) = rec_ok b m L s" "rec_ok b m L (s\<lparr>first_cksum := y\<rparr>) = rec_ok b m L s"
  "rec_ok b m L (s\<lparr>a_len := n\<rparr>) = rec_ok b m L s" "rec_ok b m L (s\<lparr>ex_tmp := e\<rparr>) = rec_ok b m L s"
  by (simp_all add: rec_ok_def)

lemma runs_record:
  "runs (rec_ok b m L) (fuzz_stuff (afl_ops (recorder ck)) n) (rec_ok b m (L @ [take n b]))"
  by (rule runs_Pure) (simp add: fuzz_stuff_def afl_ops_def recorder_def on_world_def rec_ok_def)

lemma runs_rec_end: "runs (rec_ok b m L) (stage_end ops st) (rec_ok b m L)"
  unfolding stage_end_def by (rule runs_upd) (simp add: Let_def)

lemma at_effective_rec:
  assumes "skip_eff_map s = Some m" and "eff_ok len m" and "i < len"
  shows "at_effective (afl_ops (recorder ck)) 0 i body s = (if bitmap_read m i = Some True then body s else (Next, s))"
proof -
  from eff_ok_read [OF assms(2,3)] obtain d where d: "bitmap_read m i = Some d" by blast
  have "seq [check_timeout (afl_ops (recorder ck)) 0 False, body] s = body s"
    by (cases "body s")
       (simp add: check_timeout_def is_det_timeout_def afl_ops_def recorder_def on_world_def MAX_DET_TIMEOUT_def)
  with d assms(1) show ?thesis
    by (simp add: at_effective_def reading_def eff_read_def cond_def upd_def del: seq.simps)
qed

lemma runs_effective:
  assumes "\<And>s. P s \<Longrightarrow> skip_eff_map s = Some m" and "eff_ok len m" and "i < len"
    and "bitmap_read m i = Some True \<Longrightarrow> runs P body Q" and "\<And>s. bitmap_read m i \<noteq> Some True \<Longrightarrow> P s \<Longrightarrow> Q s"
  shows "runs P (at_effective (afl_ops (recorder ck)) 0 i body) Q"
  using assms(4,5) at_effective_rec [OF assms(1,2,3)] unfolding runs_def by auto

lemma runs_counted:
  assumes "runs P (for_each c [0..<n]) R" and "\<And>s. Q s \<Longrightarrow> P s \<and> unat (stage_max s) = n"
  shows "runs Q (\<lambda>s. for_each c [0..<unat (stage_max s)] s) R"
  using assms unfolding runs_def by auto

section \<open>Walking bits\<close>

text \<open>The input with the bits numbered \<open>ks\<close> flipped; bits are numbered from the most significant one of each byte.\<close>

definition flipped :: "mem \<Rightarrow> nat list \<Rightarrow> mem" where
  "flipped b ks = map (\<lambda>i. fold (\<lambda>k x. if k div 8 = i then x XOR drop_bit (k mod 8) 128 else x) ks (b ! i)) [0..<length b]"

lemma flip_bits_flipped:
  "\<forall>k\<in>set ks. k div 8 < length b \<Longrightarrow> flip_bits b ks = Some (flipped b ks)"
proof (induction ks arbitrary: b)
  case Nil
  then show ?case by (simp add: flipped_def map_nth)
next
  case (Cons k ks)
  let ?b = "b[k div 8 := b ! (k div 8) XOR drop_bit (k mod 8) 128]"
  have "flip_bit b k = Some ?b" using Cons.prems by (simp add: flip_bit_def)
  moreover have "flip_bits ?b ks = Some (flipped ?b ks)" using Cons by simp
  moreover have "flipped ?b ks = flipped b (k # ks)"
    using Cons.prems by (auto simp: flipped_def nth_list_update)
  ultimately show ?case by simp
qed

lemma runs_flips: "flip_bits b ks = Some b' \<Longrightarrow> runs (rec_ok b m L) (seq (map FLIP_BIT ks)) (rec_ok b' m L)"
proof (induction ks arbitrary: b)
  case Nil
  then show ?case by (simp add: runs_seq_Nil del: seq.simps)
next
  case (Cons k ks)
  then obtain c where c: "flip_bit b k = Some c" "flip_bits c ks = Some b'" by (auto split: Option.bind_splits)
  have "runs (rec_ok b m L) (FLIP_BIT k) (rec_ok c m L)"
    unfolding FLIP_BIT_def using c(1) by (intro runs_guarded) (auto simp: rec_ok_def)
  from runs_seq_Cons [OF this Cons.IH [OF c(2)]] show ?case by (simp del: seq.simps)
qed

lemma runs_flip_record:
  assumes "\<forall>k\<in>set ks. k div 8 < length b"
  shows "runs (rec_ok b m L) (seq (map FLIP_BIT ks @ [fuzz_stuff (afl_ops (recorder ck)) n] @ map FLIP_BIT ks))
           (rec_ok b m (L @ [take n (flipped b ks)]))"
proof -
  have fb: "flip_bits b ks = Some (flipped b ks)" using assms by (rule flip_bits_flipped)
  with flip_bits_twice [OF assms] have fb': "flip_bits (flipped b ks) ks = Some b" by auto
  have "runs (rec_ok (flipped b ks) m L) (seq ([fuzz_stuff (afl_ops (recorder ck)) n] @ map FLIP_BIT ks))
      (rec_ok b m (L @ [take n (flipped b ks)]))"
    by (rule runs_seq_append [OF runs_last [OF runs_record] runs_flips [OF fb']])
  from runs_seq_append [OF runs_flips [OF fb] this] show ?thesis .
qed

text \<open>The inputs of a stage that flips the bits \<open>k + d\<close>, \<open>d \<in> ds\<close>, for every position \<open>k < n\<close> in an effective byte.\<close>

definition walk_inputs :: "mem \<Rightarrow> nat \<Rightarrow> mem \<Rightarrow> nat \<Rightarrow> nat list \<Rightarrow> mem list" where
  "walk_inputs b len m n ds =
     [take len (flipped b (map ((+) k) ds)). k \<leftarrow> [0..<n], bitmap_read m (k div 8) = Some True]"

lemma runs_walk:
  assumes "eff_ok len m" and "n \<le> len * 8"
    and "\<And>k L. k < n \<Longrightarrow> bitmap_read m (k div 8) = Some True \<Longrightarrow> runs (rec_ok b m L) (body k) (rec_ok b m (L @ [take len (flipped b (map ((+) k) ds))]))"
    and "\<And>s. Q s \<Longrightarrow> rec_ok b m L s \<and> unat (stage_max s) = n"
  shows "runs Q (\<lambda>s. for_each (\<lambda>k. seq [
             upd (\<lambda>s. s\<lparr>stage_cur := word_of_nat k, stage_cur_byte := word_of_nat (k div 8)\<rparr>),
             at_effective (afl_ops (recorder ck)) 0 (k div 8) (body k)])
           [0..<unat (stage_max s)] s) (rec_ok b m (L @ walk_inputs b len m n ds))"
proof (rule runs_counted [where n = n])
  let ?f = "\<lambda>k. if bitmap_read m (k div 8) = Some True then [take len (flipped b (map ((+) k) ds))] else []"
  have "runs (rec_ok b m L) (for_each (\<lambda>k. seq [
             upd (\<lambda>s. s\<lparr>stage_cur := word_of_nat k, stage_cur_byte := word_of_nat (k div 8)\<rparr>),
             at_effective (afl_ops (recorder ck)) 0 (k div 8) (body k)]) [0..<n]) (rec_ok b m (L @ concat (map ?f [0..<n])))"
  proof (rule runs_for)
    fix L k assume "k \<in> set [0..<n]"
    then have k: "k < n" "k div 8 < len" using assms(2) by auto
    have "runs (rec_ok b m L) (at_effective (afl_ops (recorder ck)) 0 (k div 8) (body k)) (rec_ok b m (L @ ?f k))"
      using assms(3) [OF k(1)] by (intro runs_effective [OF _ assms(1) k(2)]) (auto simp: rec_ok_def)
    then show "runs (rec_ok b m L) (seq [upd (\<lambda>s. s\<lparr>stage_cur := word_of_nat k, stage_cur_byte := word_of_nat (k div 8)\<rparr>),
        at_effective (afl_ops (recorder ck)) 0 (k div 8) (body k)]) (rec_ok b m (L @ ?f k))"
      by (intro runs_seq_Cons [OF runs_upd runs_last]) simp_all
  qed
  then show "runs (rec_ok b m L) (for_each (\<lambda>k. seq [
             upd (\<lambda>s. s\<lparr>stage_cur := word_of_nat k, stage_cur_byte := word_of_nat (k div 8)\<rparr>),
             at_effective (afl_ops (recorder ck)) 0 (k div 8) (body k)]) [0..<n]) (rec_ok b m (L @ walk_inputs b len m n ds))"
    by (simp only: walk_inputs_def)
qed (rule assms(4))

lemma unat_bits:
  assumes "c \<le> len * 8" and "len \<le> MAX_FILE"
  shows "unat (word_of_nat len * 8 - word_of_nat c :: u32) = len * 8 - c"
proof -
  have "(word_of_nat len * 8 - word_of_nat c :: u32) = word_of_nat (len * 8 - c)"
    using assms(1) by (simp add: of_nat_diff)
  moreover have "len * 8 - c < 2 ^ 32" using assms(2) by (simp add: MAX_FILE_def)
  ultimately show ?thesis by (simp add: unsigned_of_nat take_bit_nat_eq_self)
qed

lemma runs_multi_flip:
  assumes "len \<le> length b" and "0 < len" and "len \<le> MAX_FILE" and "eff_ok len m" and "c \<le> 7" and "\<forall>d\<in>set ds. d \<le> c"
  shows "runs (rec_ok b m L)
     (seq [upd (\<lambda>s. s\<lparr>stage_max := word_of_nat len * 8 - word_of_nat c, orig_hit_cnt := new_hit_cnt s\<rparr>),
          (\<lambda>s. for_each (\<lambda>k. seq [
               upd (\<lambda>s. s\<lparr>stage_cur := word_of_nat k, stage_cur_byte := word_of_nat (k div 8)\<rparr>),
               at_effective (afl_ops (recorder ck)) 0 (k div 8)
                 (seq (map FLIP_BIT (map ((+) k) ds) @ [fuzz_stuff (afl_ops (recorder ck)) len] @ map FLIP_BIT (map ((+) k) ds)))])
             [0..<unat (stage_max s)] s),
          upd (\<lambda>s. s\<lparr>stage_cur := stage_max s\<rparr>),
          stage_end (afl_ops (recorder ck)) st])
     (rec_ok b m (L @ walk_inputs b len m (len * 8 - c) ds))"
proof -
  have c: "c \<le> len * 8" using assms(2,5) by linarith
  have body: "runs (rec_ok b m L) (seq (map FLIP_BIT (map ((+) k) ds) @ [fuzz_stuff (afl_ops (recorder ck)) len] @ map FLIP_BIT (map ((+) k) ds)))
      (rec_ok b m (L @ [take len (flipped b (map ((+) k) ds))]))" if "k < len * 8 - c" for k L
  proof (rule runs_flip_record, clarsimp)
    fix d assume "d \<in> set ds"
    with assms(6) that have "k + d < len * 8" by force
    with assms(1) show "(k + d) div 8 < length b" by linarith
  qed
  have loop: "runs (\<lambda>s. rec_ok b m L s \<and> stage_max s = word_of_nat len * 8 - word_of_nat c)
     (\<lambda>s. for_each (\<lambda>k. seq [
               upd (\<lambda>s. s\<lparr>stage_cur := word_of_nat k, stage_cur_byte := word_of_nat (k div 8)\<rparr>),
               at_effective (afl_ops (recorder ck)) 0 (k div 8)
                 (seq (map FLIP_BIT (map ((+) k) ds) @ [fuzz_stuff (afl_ops (recorder ck)) len] @ map FLIP_BIT (map ((+) k) ds)))])
             [0..<unat (stage_max s)] s) (rec_ok b m (L @ walk_inputs b len m (len * 8 - c) ds))"
    by (rule runs_walk [OF assms(4)]) (use body unat_bits [OF c assms(3)] in auto)
  show ?thesis
    by (rule runs_seq_Cons [OF runs_upd runs_seq_Cons [OF loop runs_seq_Cons [OF runs_upd runs_last [OF runs_rec_end]]]]) auto
qed

lemma detect_token_rec:
  assumes "rec_ok b m L s" and "k div 8 < length b"
  shows "\<exists>s'. detect_token (afl_ops (recorder ck)) k s = Some s' \<and> rec_ok b m L s'"
proof -
  let ?ops = "afl_ops (recorder ck)"
  have col: "\<exists>s'. collect_byte k s = Some s' \<and> rec_ok b m L s'"
    if "rec_ok b m L s" for s :: "(mem list afl_env, 'a) fuzz1_scheme"
    using that assms(2) by (auto simp: collect_byte_def rec_ok_def MAX_AUTO_EXTRA_def)
  have "world (add_auto_env (recorder ck) t g) = world g" for t and g :: "mem list afl_env"
    by (simp add: add_auto_env_def on_world_def recorder_def)
  then have flush: "rec_ok b m L (flush_token ?ops s)" if "rec_ok b m L s" for s :: "(mem list afl_env, 'a) fuzz1_scheme"
    using that by (simp add: flush_token_def rec_ok_def afl_ops_def)
  let ?c = "trace_cksum ?ops (env s)"
  have "\<exists>s1. (if k = unat (stage_max s) - 1 \<and> ?c = prev_cksum s then map_option (flush_token ?ops) (collect_byte k s)
           else if ?c \<noteq> prev_cksum s then Some ((flush_token ?ops s)\<lparr>a_len := 0, prev_cksum := ?c\<rparr>)
           else Some s) = Some s1 \<and> rec_ok b m L s1"
    using col [OF assms(1)] flush assms(1) by auto
  then obtain s1 where s1: "(if k = unat (stage_max s) - 1 \<and> ?c = prev_cksum s then map_option (flush_token ?ops) (collect_byte k s)
           else if ?c \<noteq> prev_cksum s then Some ((flush_token ?ops s)\<lparr>a_len := 0, prev_cksum := ?c\<rparr>)
           else Some s) = Some s1" "rec_ok b m L s1" by blast
  have "detect_token ?ops k s = (if ?c \<noteq> first_cksum s1 then collect_byte k s1 else Some s1)"
    unfolding detect_token_def Let_def s1(1) by simp
  with col [OF s1(2)] s1(2) show ?thesis by auto
qed

lemma runs_flip1:
  assumes "len \<le> length b" and "len \<le> MAX_FILE" and "eff_ok len m"
  shows "runs (rec_ok b m L) (stage_flip1 (afl_ops (recorder ck)) ni len 0)
           (rec_ok b m (L @ take len b # walk_inputs b len m (len * 8) [0]))"
proof -
  let ?ops = "afl_ops (recorder ck)"
  have body: "runs (rec_ok b m L) (seq [FLIP_BIT k, fuzz_stuff ?ops len, FLIP_BIT k,
           cond (\<lambda>s. \<not> ni \<and> k mod 8 = 7) (guarded (detect_token ?ops k)) (upd (\<lambda>s. s))])
           (rec_ok b m (L @ [take len (flipped b (map ((+) k) [0]))]))" if k: "k < len * 8" for k L
  proof -
    have kb: "k div 8 < length b" using k assms(1) by linarith
    have det: "runs (rec_ok b m L') (guarded (detect_token ?ops k)) (rec_ok b m L')" for L'
      by (rule runs_guarded) (rule detect_token_rec [OF _ kb])
    have tail: "runs (rec_ok b m L') (seq [cond (\<lambda>s. \<not> ni \<and> k mod 8 = 7) (guarded (detect_token ?ops k)) (upd (\<lambda>s. s))]) (rec_ok b m L')" for L'
      by (rule runs_last) (use det [of L'] in \<open>auto simp: runs_def cond_def upd_def\<close>)
    from runs_seq_append [OF runs_flip_record [of "[k]" b m L ck len] tail] kb show ?thesis by (simp del: seq.simps)
  qed
  have loop: "runs (\<lambda>s. rec_ok b m L s \<and> stage_max s = word_of_nat len * 8)
     (\<lambda>s. for_each (\<lambda>k. seq [
             upd (\<lambda>s. s\<lparr>stage_cur := word_of_nat k, stage_cur_byte := word_of_nat (k div 8)\<rparr>),
             at_effective ?ops 0 (k div 8) (seq [FLIP_BIT k, fuzz_stuff ?ops len, FLIP_BIT k,
               cond (\<lambda>s. \<not> ni \<and> k mod 8 = 7) (guarded (detect_token ?ops k)) (upd (\<lambda>s. s))])])
           [0..<unat (stage_max s)] s) (rec_ok b m (L @ walk_inputs b len m (len * 8) [0]))" for L
    by (rule runs_walk [OF assms(3)]) (use body unat_bits [of 0 len] assms(2) in auto)
  have clean: "runs (\<lambda>s. rec_ok b m L s \<and> stage_max s = word_of_nat len * 8) (fuzz_stuff ?ops len)
      (\<lambda>s. rec_ok b m (L @ [take len b]) s \<and> stage_max s = word_of_nat len * 8)"
    by (rule runs_Pure) (simp add: fuzz_stuff_def afl_ops_def recorder_def on_world_def rec_ok_def)
  have fin: "L @ take len b # walk_inputs b len m (len * 8) [0] = (L @ [take len b]) @ walk_inputs b len m (len * 8) [0]" by simp
  show ?thesis
    unfolding stage_flip1_def fin
    by (rule runs_seq_Cons [OF runs_upd runs_seq_Cons [OF clean runs_seq_Cons [OF runs_upd runs_seq_Cons [OF loop
          runs_seq_Cons [OF runs_upd runs_last [OF runs_rec_end]]]]]]) auto
qed

section \<open>Insertions\<close>

definition ins_ok :: "mem \<Rightarrow> nat \<Rightarrow> mem \<Rightarrow> nat \<Rightarrow> mem list \<Rightarrow> (mem list afl_env, 'a) fuzz1_scheme \<Rightarrow> bool" where
  "ins_ok b len m i L s \<longleftrightarrow> rec_ok b m L s \<and> room len s \<and> take i (ex_tmp s) = take i b"

lemma insert_buffer:
  assumes "i \<le> len" and "len \<le> length b" and "len + length t \<le> length e" and "take i e = take i b"
  shows "take (len + length t) (upd_at (upd_at e i t) (i + length t) (take (len - i) (drop i b)))
           = take i (take len b) @ t @ drop i (take len b)"
    and "take i (upd_at (upd_at e i t) (i + length t) (take (len - i) (drop i b))) = take i b"
proof -
  have l: "length (take i b) = i" "length (take (len - i) (drop i b)) = len - i" using assms by simp_all
  let ?x = "take i b @ t @ take (len - i) (drop i b)"
  have x: "length ?x = len + length t" using l assms(1) by simp
  have e: "upd_at (upd_at e i t) (i + length t) (take (len - i) (drop i b)) = ?x @ drop (len + length t) e"
    using assms l by (simp add: upd_at_def add.commute add.left_commute)
  have "take (len + length t) (?x @ drop (len + length t) e) = ?x"
    using append_eq_conv_conj [of ?x "drop (len + length t) e"] x by metis
  also have "?x = take i (take len b) @ t @ drop i (take len b)" using assms(1) by (simp add: drop_take min_def)
  finally show "take (len + length t) (upd_at (upd_at e i t) (i + length t) (take (len - i) (drop i b)))
           = take i (take len b) @ t @ drop i (take len b)" unfolding e .
  show "take i (upd_at (upd_at e i t) (i + length t) (take (len - i) (drop i b))) = take i b"
    unfolding e using l(1) by simp
qed

lemma runs_insert_token:
  assumes "i \<le> len" and "len \<le> length b" and "length t \<le> MAX_DICT_FILE" and "len + length t \<le> MAX_FILE"
  shows "runs (ins_ok b len m i L) (insert_token (afl_ops (recorder ck)) len i t)
           (ins_ok b len m i (L @ [take i (take len b) @ t @ drop i (take len b)]))"
proof (rule runs_Pure)
  fix s :: "(mem list afl_env, 'a) fuzz1_scheme"
  assume s: "ins_ok b len m i L s"
  let ?e = "upd_at (upd_at (ex_tmp s) i t) (i + length t) (take (len - i) (drop i b))"
  have room: "len + length t \<le> length (ex_tmp s)" using s assms(3) by (simp add: ins_ok_def room_def)
  have put: "memcpy_at (ex_tmp s) i t = Some (upd_at (ex_tmp s) i t)"
    "memcpy_at (upd_at (ex_tmp s) i t) (i + length t) (take (len - i) (drop i b)) = Some ?e"
    using room assms by (simp_all add: memcpy_at_upd)
  note buf = insert_buffer [OF assms(1,2) room]
  have le: "length ?e = length (ex_tmp s)" using room assms by simp
  have out: "out_buf s = b" "take i (ex_tmp s) = take i b" using s by (simp_all add: ins_ok_def rec_ok_def)
  show "\<exists>s'. insert_token (afl_ops (recorder ck)) len i t s = (Next, s')
      \<and> ins_ok b len m i (L @ [take i (take len b) @ t @ drop i (take len b)]) s'"
    using s assms(4) put out buf [OF out(2)] le
    by (simp add: insert_token_def cond_def put_ex_def guarded_def fuzz_ex_def upd_def afl_ops_def recorder_def on_world_def
        ins_ok_def rec_ok_def room_def)
qed

lemma runs_copy_head:
  assumes "i \<le> len" and "len < length b"
  shows "runs (ins_ok b len m i L) (copy_head i) (ins_ok b len m (Suc i) L)"
  unfolding copy_head_def
proof (rule runs_guarded)
  fix s :: "(mem list afl_env, 'a) fuzz1_scheme"
  assume s: "ins_ok b len m i L s"
  have e: "i < length (ex_tmp s)" using s assms(1) by (simp add: ins_ok_def room_def MAX_DICT_FILE_def)
  have o: "out_buf s = b" "i < length b" using s assms by (simp_all add: ins_ok_def rec_ok_def)
  have "take (Suc i) ((ex_tmp s)[i := b ! i]) = take (Suc i) b"
    using s e o(2) by (simp add: take_Suc_conv_app_nth ins_ok_def)
  with s e o show "\<exists>s'. do { c \<leftarrow> load8 (out_buf s) i; m \<leftarrow> store8 (ex_tmp s) i c; Some (s\<lparr>ex_tmp := m\<rparr>) } = Some s'
      \<and> ins_ok b len m (Suc i) L s'"
    by (simp add: ins_ok_def room_def)
qed

definition insertions :: "mem \<Rightarrow> mem list \<Rightarrow> mem list" where
  "insertions inp toks = [take i inp @ t @ drop i inp. i \<leftarrow> [0..<length inp + 1], t \<leftarrow> toks]"

lemma runs_insert_all:
  assumes "0 < len" and "len < length b" and "eff_ok len m" and "\<forall>i<len. bitmap_read m i = Some True"
    and "\<forall>t\<in>set toks. length t \<le> MAX_DICT_FILE \<and> len + length t \<le> MAX_FILE"
  shows "runs (ins_ok b len m 0 L) (insert_all (afl_ops (recorder ck)) len 0 toks)
           (ins_ok b len m (len + 1) (L @ insertions (take len b) toks))"
proof -
  let ?f = "\<lambda>i. concat (map (\<lambda>t. [take i (take len b) @ t @ drop i (take len b)]) toks)"
  have "runs (ins_ok b len m 0 L) (insert_all (afl_ops (recorder ck)) len 0 toks)
      (ins_ok b len m (len + 1) (L @ concat (map ?f [0..<len + 1])))"
    unfolding insert_all_def
  proof (rule runs_for_index, rule runs_effective [OF _ assms(3)])
    fix i L assume i: "i < len + 1"
    have toks: "runs (ins_ok b len m i L) (for_each (insert_token (afl_ops (recorder ck)) len i) toks) (ins_ok b len m i (L @ ?f i))"
      using i assms by (intro runs_for runs_insert_token) auto
    show "runs (ins_ok b len m i L)
        (seq [upd (\<lambda>s. s\<lparr>stage_cur_byte := word_of_nat i\<rparr>), for_each (insert_token (afl_ops (recorder ck)) len i) toks, copy_head i])
        (ins_ok b len m (Suc i) (L @ ?f i))"
      by (rule runs_seq_Cons [OF runs_upd runs_seq_Cons [OF toks runs_last [OF runs_copy_head]]])
         (use i assms in \<open>auto simp: ins_ok_def room_def\<close>)
  qed (use assms in \<open>auto simp: ins_ok_def rec_ok_def\<close>)
  moreover have "concat (map ?f [0..<len + 1]) = insertions (take len b) toks"
    using assms(2) by (simp add: insertions_def)
  ultimately show ?thesis by simp
qed

section \<open>Properties\<close>

text \<open>C15. When no run asks to stop and the time does not run out, the three walking-bit stages run
  the target on exactly the inputs they are meant to: after one clean run, for
  every bit position in an effective byte, in order, the input with 1, 2 or 4 adjacent bits flipped from there, and
  nothing else; each stage falls through with the input restored.\<close>

theorem walking_bits_inputs:
  fixes s :: "(mem list afl_env, 'x) fuzz1_scheme" and ck :: "mem list \<Rightarrow> u64"
  assumes "0 < len" and "len \<le> length (out_buf s)" and "len \<le> MAX_FILE" and "skip_eff_map s = Some m" and "eff_ok len m"
    and "length (a_collect s) = MAX_AUTO_EXTRA"
  defines "b \<equiv> out_buf s" and "ops \<equiv> afl_ops (recorder ck)"
  shows "case seq [stage_flip1 ops ni len 0, stage_flip2 ops len 0, stage_flip4 ops len 0] s of (e, s') \<Rightarrow>
           e = Next \<and> out_buf s' = b
           \<and> world (env s') = world (env s) @ take len b # walk_inputs b len m (len * 8) [0]
               @ walk_inputs b len m (len * 8 - 1) [0, 1] @ walk_inputs b len m (len * 8 - 3) [0, 1, 2, 3]"
proof -
  have b: "len \<le> length b" using assms(2) by (simp add: b_def)
  have two: "runs (rec_ok b m L) (stage_flip2 ops len 0) (rec_ok b m (L @ walk_inputs b len m (len * 8 - 1) [0, 1]))" for L
    using runs_multi_flip [OF b assms(1,3,5), of 1 "[0, 1]" L ck STAGE_FLIP2]
    unfolding stage_flip2_def ops_def by (simp del: seq.simps)
  have four: "runs (rec_ok b m L) (stage_flip4 ops len 0) (rec_ok b m (L @ walk_inputs b len m (len * 8 - 3) [0, 1, 2, 3]))" for L
    using runs_multi_flip [OF b assms(1,3,5), of 3 "[0, 1, 2, 3]" L ck STAGE_FLIP4]
    unfolding stage_flip4_def ops_def by (simp del: seq.simps)
  have "rec_ok b m (world (env s)) s" using assms by (simp add: rec_ok_def b_def)
  from runsD [OF runs_seq_Cons [OF runs_flip1 [OF b assms(3,5), where ni = ni and ck = ck, folded ops_def] runs_seq_Cons [OF two runs_last [OF four]]] this]
  show ?thesis by (simp add: rec_ok_def split_beta del: seq.simps)
qed

theorem walking_bits_witness:
  "case seq [stage_flip1 (afl_ops (recorder (\<lambda>w. 0))) True 1 0, stage_flip2 (afl_ops (recorder (\<lambda>w. 0))) 1 0,
       stage_flip4 (afl_ops (recorder (\<lambda>w. 0))) 1 0] (det_example [255] [1] []) of (e, s') \<Rightarrow>
     e = Next \<and> world (env s') = [255] # walk_inputs [255] 1 [1] 8 [0] @ walk_inputs [255] 1 [1] 7 [0, 1]
       @ walk_inputs [255] 1 [1] 5 [0, 1, 2, 3]"
  using walking_bits_inputs [of 1 "det_example [255] [1] []" "[1]" "\<lambda>w. 0" True]
  by (simp add: det_example_def eff_ok_def MAX_FILE_def split_beta del: seq.simps)

text \<open>C16. When every byte is effective, no run asks to stop, the time does not run out and the tokens fit, inserting the
  user dictionary runs the target on exactly the input with every token inserted at every position, end included, in order.\<close>

theorem insert_stage_inputs:
  fixes s :: "(mem list afl_env, 'x) fuzz1_scheme" and ck :: "mem list \<Rightarrow> u64"
  assumes "0 < len" and "len < length (out_buf s)" and "skip_eff_map s = Some m" and "eff_ok len m"
    and "\<forall>i<len. bitmap_read m i = Some True" and "length (a_collect s) = MAX_AUTO_EXTRA"
  defines "toks \<equiv> user_tokens (afl_ops (recorder ck)) (env s)"
  assumes "\<forall>t\<in>set toks. length t \<le> MAX_DICT_FILE \<and> len + length t \<le> MAX_FILE"
  shows "case stage_ext_UI (afl_ops (recorder ck)) len 0 s of (e, s') \<Rightarrow>
           e = Next \<and> world (env s') = world (env s) @ insertions (take len (out_buf s)) toks"
proof -
  let ?b = "out_buf s" and ?ops = "afl_ops (recorder ck)"
  have run: "runs (rec_ok ?b m (world (env s))) (seq [stage_begin n,
       upd (\<lambda>s. s\<lparr>ex_tmp := grow (ex_tmp s) (len + MAX_DICT_FILE)\<rparr>), insert_all ?ops len 0 toks, stage_end ?ops STAGE_EXTRAS_UI])
     (rec_ok ?b m (world (env s) @ insertions (take len ?b) toks))" for n
    unfolding stage_begin_def
    by (rule runs_seq_Cons [OF runs_upd runs_seq_Cons [OF runs_upd runs_seq_Cons [OF runs_insert_all [OF assms(1,2,4,5,8)]
          runs_pre [OF runs_last [OF runs_rec_end]]]]])
       (auto simp: ins_ok_def room_def length_grow)
  have "rec_ok ?b m (world (env s)) s" using assms by (simp add: rec_ok_def)
  from runsD [OF run this, of "word_of_nat (length toks) * (word_of_nat len + 1)"] show ?thesis
    by (simp add: stage_ext_UI_def Let_def toks_def rec_ok_def split_beta del: seq.simps)
qed

theorem insert_stage_witness:
  "case stage_ext_UI (afl_ops (recorder (\<lambda>w. 0))) 2 0 (det_example [65, 66, 0] [3] [mk_extra [80]]) of (e, s') \<Rightarrow>
     e = Next \<and> world (env s') = insertions [65, 66] [[80]]"
proof -
  have "bitmap_read [3] i = Some True" if "i < 2" for i
    using that less_2_cases [OF that] by (auto simp: bitmap_read_def)
  then show ?thesis
    using insert_stage_inputs [of 2 "det_example [65, 66, 0] [3] [mk_extra [80]]" "[3]" "\<lambda>w. 0"]
    by (simp add: det_example_def eff_ok_def user_tokens_def afl_ops_def mk_extra_def MAX_DICT_FILE_def MAX_FILE_def split_beta)
qed

text \<open>With a byte that is not effective the insertion stage also runs inputs that are no insertion at all: skipping
  the byte also skips copying it to the head of the buffer, which keeps the byte of an earlier attempt.\<close>

theorem insert_stage_stale_head:
  "\<exists>inp \<in> set (world (env (snd (stage_ext_UI (afl_ops (recorder (\<lambda>w. 0))) 3 0 (det_example [65, 66, 67, 0] [5] [mk_extra [80]]))))).
     inp \<notin> set (insertions [65, 66, 67] [[80]])"
proof -
  have "[0..<3 + 1] = [0, 1, 2, 3 :: nat]" by (simp add: upt_rec)
  then show ?thesis
    by (simp add: stage_ext_UI_def Let_def stage_begin_def upd_def insert_all_def at_effective_def reading_def
      check_timeout_def is_det_timeout_def eff_read_def MAX_DET_TIMEOUT_def stage_end_def hit_cnt_now_def insertions_def upt_rec
      bitmap_read_def MAX_FILE_def cond_def user_tokens_def afl_ops_def recorder_def on_world_def insert_token_def put_ex_def guarded_def memcpy_at_def
      copy_head_def fuzz_ex_def grow_def mk_extra_def det_example_def MAX_DICT_FILE_def)
qed

end
