(* ===== verification/Coverage.thy ===== *)
theory Coverage
  imports Prelude
begin

text \<open>
  The coverage bitmap: \<^verbatim>\<open>include/coverage-64.h\<close>, \<^verbatim>\<open>include/coverage-32.h\<close> and the bitmap
  primitives of \<^verbatim>\<open>src/afl-fuzz-bitmap.c\<close>. The word-at-a-time routines come in a 64-bit and a
  32-bit flavour; the locale \<open>coverage_word\<close> states what a flavour has to provide (how one word is
  classified and compared with the virgin map) and proves the routines equal to their
  byte-at-a-time meaning once, for both.
\<close>

section \<open>State and lookup tables\<close>

text \<open>The fields of \<open>afl_state_t\<close> (and its embedded forkserver) the bitmap code works on, and the
  global table \<open>count_class_lookup16\<close>.\<close>

record afl_cov =
  trace_bits :: mem
  map_size :: u32
  real_map_size :: u32
  virgin_bits :: mem
  virgin_tmout :: mem
  virgin_crash :: mem
  bitmap_changed :: u8
  count_class_lookup16 :: "u16 \<Rightarrow> u16"

text \<open>Which virgin map a \<open>u8 *virgin_map\<close> argument points to.\<close>

datatype virgin_map = Virgin_Bits | Virgin_Tmout | Virgin_Crash

fun get_virgin :: "'a afl_cov_scheme \<Rightarrow> virgin_map \<Rightarrow> mem" where
  "get_virgin s Virgin_Bits = virgin_bits s"
| "get_virgin s Virgin_Tmout = virgin_tmout s"
| "get_virgin s Virgin_Crash = virgin_crash s"

fun set_virgin :: "virgin_map \<Rightarrow> mem \<Rightarrow> 'a afl_cov_scheme \<Rightarrow> 'a afl_cov_scheme" where
  "set_virgin Virgin_Bits m s = s\<lparr>virgin_bits := m\<rparr>"
| "set_virgin Virgin_Tmout m s = s\<lparr>virgin_tmout := m\<rparr>"
| "set_virgin Virgin_Crash m s = s\<lparr>virgin_crash := m\<rparr>"

definition simplify_lookup :: "u8 \<Rightarrow> u8" where
  "simplify_lookup b = (if b = 0 then 1 else 128)"

definition count_class_lookup8 :: "u8 \<Rightarrow> u8" where
  "count_class_lookup8 b =
     (if b = 0 then 0
      else if b = 1 then 1
      else if b = 2 then 2
      else if b = 3 then 4
      else if b \<le> 7 then 8
      else if b \<le> 15 then 16
      else if b \<le> 31 then 32
      else if b \<le> 127 then 64
      else 128)"

definition init_count_class16 :: "(u16 \<Rightarrow> u16) \<Rightarrow> (u16 \<Rightarrow> u16)" where
  "init_count_class16 tab0 =
     fold (\<lambda>b1. fold (\<lambda>b2 tab. tab(of_nat (b1 * 2 ^ 8 + b2) :=
          push_bit 8 (ucast (count_class_lookup8 (of_nat b1)))
            OR ucast (count_class_lookup8 (of_nat b2)))) [0..<256]) [0..<256] tab0"

section \<open>Word routines, 64-bit and 32-bit\<close>

text \<open>\<open>memcpy\<close> between a word and an array of 16-bit halves.\<close>

definition halves_of :: "nat \<Rightarrow> 'w::len word \<Rightarrow> u16 list" where
  "halves_of n w = map (\<lambda>i. ucast (drop_bit (16 * i) w)) [0..<n]"

definition of_halves :: "u16 list \<Rightarrow> 'w::len word" where
  "of_halves hs = foldr (\<lambda>h w. push_bit 16 w OR ucast h) hs 0"

definition classify_word_64 :: "(u16 \<Rightarrow> u16) \<Rightarrow> u64 \<Rightarrow> u64" where
  "classify_word_64 tab word = of_halves (map tab (halves_of 4 word))"

definition classify_word_32 :: "(u16 \<Rightarrow> u16) \<Rightarrow> u32 \<Rightarrow> u32" where
  "classify_word_32 tab word = of_halves (map tab (halves_of 2 word))"

definition simplify_word_64 :: "u64 \<Rightarrow> u64" where
  "simplify_word_64 w =
     (if w \<noteq> 0 then le_word (map simplify_lookup (le_bytes 8 w)) else 0x0101010101010101)"

definition simplify_word_32 :: "u32 \<Rightarrow> u32" where
  "simplify_word_32 w =
     (if w \<noteq> 0 then le_word (map simplify_lookup (le_bytes 4 w)) else 0x01010101)"

definition pristine_hit :: "u8 list \<Rightarrow> u8 list \<Rightarrow> bool" where
  "pristine_hit cur vir \<longleftrightarrow> list_ex (\<lambda>(c, v). c \<noteq> 0 \<and> v = 0xff) (zip cur vir)"

definition discover_word_64 :: "u8 \<Rightarrow> u64 \<Rightarrow> u64 \<Rightarrow> u8 \<times> u64" where
  "discover_word_64 ret current virgin =
     (if current AND virgin \<noteq> 0
      then (if ret < 2
            then (if pristine_hit (le_bytes 8 current) (le_bytes 8 virgin) then 2 else 1)
            else ret,
            virgin AND NOT current)
      else (ret, virgin))"

definition discover_word_32 :: "u8 \<Rightarrow> u32 \<Rightarrow> u32 \<Rightarrow> u8 \<times> u32" where
  "discover_word_32 ret current virgin =
     (if current AND virgin \<noteq> 0
      then (if ret < 2
            then (if pristine_hit (le_bytes 4 current) (le_bytes 4 virgin) then 2 else 1)
            else ret,
            virgin AND NOT current)
      else (ret, virgin))"

section \<open>Whole-map loops\<close>

text \<open>\<open>while (i--) { if (*current) discover_word(&ret, current, virgin); current++; virgin++; }\<close>\<close>

fun has_new_bits_loop ::
  "nat \<Rightarrow> (u8 \<Rightarrow> 'w::len word \<Rightarrow> 'w word \<Rightarrow> u8 \<times> 'w word) \<Rightarrow> mem \<Rightarrow> mem \<Rightarrow> u8 \<Rightarrow> nat \<Rightarrow> nat
     \<Rightarrow> (u8 \<times> mem) option" where
  "has_new_bits_loop nb discover trace virgin ret p 0 = Some (ret, virgin)"
| "has_new_bits_loop nb discover trace virgin ret p (Suc i) = do {
     c \<leftarrow> load_word nb trace p;
     if c \<noteq> 0 then do {
       v \<leftarrow> load_word nb virgin p;
       let (ret', v') = discover ret c v;
       virgin' \<leftarrow> store_word nb virgin p v';
       has_new_bits_loop nb discover trace virgin' ret' (Suc p) i }
     else has_new_bits_loop nb discover trace virgin ret (Suc p) i }"

definition has_new_bits_with ::
  "nat \<Rightarrow> (u8 \<Rightarrow> 'w::len word \<Rightarrow> 'w word \<Rightarrow> u8 \<times> 'w word) \<Rightarrow> u32 \<Rightarrow> 'a afl_cov_scheme \<Rightarrow> virgin_map
     \<Rightarrow> (u8 \<times> 'a afl_cov_scheme) option" where
  "has_new_bits_with nb discover i s vm = do {
     (ret, v) \<leftarrow> has_new_bits_loop nb discover (trace_bits s) (get_virgin s vm) 0 0 (unat i);
     let s' = set_virgin vm v s;
     Some (ret, if ret \<noteq> 0 \<and> vm = Virgin_Bits then s'\<lparr>bitmap_changed := 1\<rparr> else s') }"

definition has_new_bits_64 :: "'a afl_cov_scheme \<Rightarrow> virgin_map \<Rightarrow> (u8 \<times> 'a afl_cov_scheme) option" where
  "has_new_bits_64 s vm = has_new_bits_with 8 discover_word_64 (drop_bit 3 (real_map_size s + 7)) s vm"

definition has_new_bits_32 :: "'a afl_cov_scheme \<Rightarrow> virgin_map \<Rightarrow> (u8 \<times> 'a afl_cov_scheme) option" where
  "has_new_bits_32 s vm = has_new_bits_with 4 discover_word_32 (drop_bit 2 (real_map_size s + 3)) s vm"

definition classify_counts_64 :: "'a afl_cov_scheme \<Rightarrow> 'a afl_cov_scheme option" where
  "classify_counts_64 s = do {
     m \<leftarrow> words_upd 8 (\<lambda>w. if w \<noteq> 0 then classify_word_64 (count_class_lookup16 s) w else w)
           (trace_bits s) 0 (unat (drop_bit 3 (map_size s)));
     Some (s\<lparr>trace_bits := m\<rparr>) }"

definition classify_counts_32 :: "'a afl_cov_scheme \<Rightarrow> 'a afl_cov_scheme option" where
  "classify_counts_32 s = do {
     m \<leftarrow> words_upd 4 (\<lambda>w. if w \<noteq> 0 then classify_word_32 (count_class_lookup16 s) w else w)
           (trace_bits s) 0 (unat (drop_bit 2 (map_size s)));
     Some (s\<lparr>trace_bits := m\<rparr>) }"

definition simplify_trace_64 :: "'a afl_cov_scheme \<Rightarrow> mem \<Rightarrow> mem option" where
  "simplify_trace_64 s bytes = words_upd 8 simplify_word_64 bytes 0 (unat (drop_bit 3 (map_size s)))"

definition simplify_trace_32 :: "'a afl_cov_scheme \<Rightarrow> mem \<Rightarrow> mem option" where
  "simplify_trace_32 s bytes = words_upd 4 simplify_word_32 bytes 0 (unat (drop_bit 2 (map_size s)))"

text \<open>\<open>current[x] && classify_word(current[x]) & virgin[x]\<close>, with the short circuit of \<open>&&\<close>: the
  virgin map is read only under a non-zero trace word.\<close>

definition skim_word ::
  "nat \<Rightarrow> ('w::len word \<Rightarrow> 'w word) \<Rightarrow> mem \<Rightarrow> mem \<Rightarrow> nat \<Rightarrow> bool option" where
  "skim_word nb classify virgin current p = do {
     c \<leftarrow> load_word nb current p;
     if c = 0 then Some False
     else do { v \<leftarrow> load_word nb virgin p; Some (classify c AND v \<noteq> 0) } }"

text \<open>A chain of tests \<open>if (f(x)) return 1;\<close>, evaluated left to right up to the first hit.\<close>

fun any_of :: "(nat \<Rightarrow> bool option) \<Rightarrow> nat list \<Rightarrow> bool option" where
  "any_of f [] = Some False"
| "any_of f (x # xs) = do { b \<leftarrow> f x; if b then Some True else any_of f xs }"

text \<open>The portable \<open>skim\<close>: four words per round, \<open>n\<close> rounds.\<close>

fun skim_loop ::
  "nat \<Rightarrow> ('w::len word \<Rightarrow> 'w word) \<Rightarrow> mem \<Rightarrow> mem \<Rightarrow> nat \<Rightarrow> nat \<Rightarrow> u32 option" where
  "skim_loop nb classify virgin current p 0 = Some 0"
| "skim_loop nb classify virgin current p (Suc n) = do {
     b \<leftarrow> any_of (\<lambda>x. skim_word nb classify virgin current (p + x)) [0, 1, 2, 3];
     if b then Some 1 else skim_loop nb classify virgin current (p + 4) n }"

text \<open>\<open>current < current_end\<close> holds for \<open>\<lceil>bytes / (4 * nb)\<rceil>\<close> rounds of \<open>current += 4\<close>.\<close>

definition skim_64 :: "(u16 \<Rightarrow> u16) \<Rightarrow> mem \<Rightarrow> mem \<Rightarrow> nat \<Rightarrow> u32 option" where
  "skim_64 tab virgin current bytes =
     skim_loop 8 (classify_word_64 tab) virgin current 0 ((bytes + 31) div 32)"

definition skim_32 :: "(u16 \<Rightarrow> u16) \<Rightarrow> mem \<Rightarrow> mem \<Rightarrow> nat \<Rightarrow> u32 option" where
  "skim_32 tab virgin current bytes =
     skim_loop 4 (classify_word_32 tab) virgin current 0 ((bytes + 15) div 16)"

definition has_new_bits_unclassified_64 ::
  "'a afl_cov_scheme \<Rightarrow> virgin_map \<Rightarrow> (u8 \<times> 'a afl_cov_scheme) option" where
  "has_new_bits_unclassified_64 s vm = do {
     r \<leftarrow> skim_64 (count_class_lookup16 s) (get_virgin s vm) (trace_bits s) (unat (map_size s));
     if r = 0 then Some (0, s)
     else do { s' \<leftarrow> classify_counts_64 s; has_new_bits_64 s' vm } }"

definition has_new_bits_unclassified_32 ::
  "'a afl_cov_scheme \<Rightarrow> virgin_map \<Rightarrow> (u8 \<times> 'a afl_cov_scheme) option" where
  "has_new_bits_unclassified_32 s vm = do {
     r \<leftarrow> skim_32 (count_class_lookup16 s) (get_virgin s vm) (trace_bits s) (unat (map_size s));
     if r = 0 then Some (0, s)
     else do { s' \<leftarrow> classify_counts_32 s; has_new_bits_32 s' vm } }"

section \<open>Vectorised skim\<close>

text \<open>A vector load reads all its 64-bit lanes; the scalar tests that follow look at a lane only
  when the zero mask says it is not zero.\<close>

definition load_lanes :: "nat \<Rightarrow> mem \<Rightarrow> nat \<Rightarrow> u64 list option" where
  "load_lanes k m p = those (map (\<lambda>x. load_word 8 m (p + x)) [0..<k])"

definition lane_new :: "bool \<Rightarrow> (u64 \<Rightarrow> u64) \<Rightarrow> mem \<Rightarrow> u64 list \<Rightarrow> nat \<Rightarrow> nat \<Rightarrow> bool option" where
  "lane_new zero_lane classify virgin cs p x =
     (if zero_lane then Some False
      else do { v \<leftarrow> load_word 8 virgin (p + x); Some (classify (cs ! x) AND v \<noteq> 0) })"

text \<open>AVX2: \<open>_mm256_cmpeq_epi64\<close> with zero and \<open>_mm256_movemask_epi8\<close> give a 32-bit mask with eight
  one bits for every 64-bit lane that is zero.\<close>

definition avx2_zero_mask :: "u64 list \<Rightarrow> u32" where
  "avx2_zero_mask lanes = le_word (map (\<lambda>w. if w = 0 then 0xff else 0) lanes)"

fun skim_avx2_loop :: "(u16 \<Rightarrow> u16) \<Rightarrow> mem \<Rightarrow> mem \<Rightarrow> nat \<Rightarrow> nat \<Rightarrow> u32 option" where
  "skim_avx2_loop tab virgin current p 0 = Some 0"
| "skim_avx2_loop tab virgin current p (Suc n) = do {
     cs \<leftarrow> load_lanes 4 current p;
     let zmask = avx2_zero_mask cs;
     if zmask = - 1 then skim_avx2_loop tab virgin current (p + 4) n else do {
     b \<leftarrow> any_of (\<lambda>x. lane_new (zmask AND push_bit (8 * x) 0xff \<noteq> 0) (classify_word_64 tab) virgin cs p x)
           [0, 1, 2, 3];
     if b then Some 1 else skim_avx2_loop tab virgin current (p + 4) n }}"

definition skim_avx2 :: "(u16 \<Rightarrow> u16) \<Rightarrow> mem \<Rightarrow> mem \<Rightarrow> nat \<Rightarrow> u32 option" where
  "skim_avx2 tab virgin current bytes = skim_avx2_loop tab virgin current 0 ((bytes + 31) div 32)"

text \<open>AVX-512: \<open>_mm512_testn_epi64_mask(v, v)\<close> has one bit per zero lane. The loop compares with
  \<open>!=\<close>, so a map size that is not a multiple of 64 runs off the buffer; a walk that never meets the
  end pointer has no result.\<close>

definition avx512_zero_mask :: "u64 list \<Rightarrow> u8" where
  "avx512_zero_mask lanes = horner_sum of_bool 2 (map (\<lambda>w. w = 0) lanes)"

partial_function (option) skim_avx512_loop ::
  "(u16 \<Rightarrow> u16) \<Rightarrow> mem \<Rightarrow> mem \<Rightarrow> nat \<Rightarrow> nat \<Rightarrow> u32 option" where
  "skim_avx512_loop tab virgin current p e =
     (if p = e then Some 0
      else Option.bind (load_lanes 8 current p) (\<lambda>cs.
        let zmask = avx512_zero_mask cs in
        if zmask = 0xff then skim_avx512_loop tab virgin current (p + 8) e
        else Option.bind
          (any_of (\<lambda>x. lane_new (zmask AND push_bit x 1 \<noteq> 0) (classify_word_64 tab) virgin cs p x)
             [0, 1, 2, 3, 4, 5, 6, 7])
          (\<lambda>b. if b then Some 1 else skim_avx512_loop tab virgin current (p + 8) e)))"

text \<open>\<open>current_end\<close> is \<open>bytes\<close> past the start: it is a word index only when the size divides by 8.\<close>

definition skim_avx512 :: "(u16 \<Rightarrow> u16) \<Rightarrow> mem \<Rightarrow> mem \<Rightarrow> nat \<Rightarrow> u32 option" where
  "skim_avx512 tab virgin current bytes =
     (if bytes mod 8 = 0 then skim_avx512_loop tab virgin current 0 (bytes div 8) else None)"

section \<open>Counting and compacting\<close>

text \<open>\<open>while (i--) { u32 v = *(ptr++); ret += f(v); }\<close>\<close>

fun count_loop :: "(u32 \<Rightarrow> u32) \<Rightarrow> mem \<Rightarrow> u32 \<Rightarrow> nat \<Rightarrow> nat \<Rightarrow> u32 option" where
  "count_loop f m ret p 0 = Some ret"
| "count_loop f m ret p (Suc i) = do {
     v \<leftarrow> load_word 4 m p;
     count_loop f m (ret + f v) (Suc p) i }"

definition popcount32 :: "u32 \<Rightarrow> u32" where
  "popcount32 v = of_nat (length (filter (bit v) [0..<32]))"

definition count_bits :: "'a afl_cov_scheme \<Rightarrow> mem \<Rightarrow> u32 option" where
  "count_bits s m =
     count_loop (\<lambda>v. if v = 0xffffffff then 32 else popcount32 v) m 0 0
       (unat (drop_bit 2 (real_map_size s + 3)))"

definition count_bytes :: "'a afl_cov_scheme \<Rightarrow> mem \<Rightarrow> u32 option" where
  "count_bytes s m =
     count_loop (\<lambda>v. if v = 0 then 0
         else (if v AND 0x000000ff \<noteq> 0 then 1 else 0)
            + (if v AND 0x0000ff00 \<noteq> 0 then 1 else 0)
            + (if v AND 0x00ff0000 \<noteq> 0 then 1 else 0)
            + (if v AND 0xff000000 \<noteq> 0 then 1 else 0)) m 0 0
       (unat (drop_bit 2 (real_map_size s + 3)))"

definition count_non_255_bytes :: "'a afl_cov_scheme \<Rightarrow> mem \<Rightarrow> u32 option" where
  "count_non_255_bytes s m =
     count_loop (\<lambda>v. if v = 0xffffffff then 0
         else (if v AND 0x000000ff \<noteq> 0x000000ff then 1 else 0)
            + (if v AND 0x0000ff00 \<noteq> 0x0000ff00 then 1 else 0)
            + (if v AND 0x00ff0000 \<noteq> 0x00ff0000 then 1 else 0)
            + (if v AND 0xff000000 \<noteq> 0xff000000 then 1 else 0)) m 0 0
       (unat (drop_bit 2 (real_map_size s + 3)))"

text \<open>\<open>while (i < map_size) { if (*(src++)) dst[i >> 3] |= 1 << (i & 7); ++i; }\<close>: \<open>k\<close> rounds are left.\<close>

fun minimize_bits_loop :: "mem \<Rightarrow> mem \<Rightarrow> nat \<Rightarrow> nat \<Rightarrow> mem option" where
  "minimize_bits_loop dst src i 0 = Some dst"
| "minimize_bits_loop dst src i (Suc k) = do {
     b \<leftarrow> load8 src i;
     dst' \<leftarrow> (if b \<noteq> 0 then do {
                 d \<leftarrow> load8 dst (i div 8);
                 store8 dst (i div 8) (d OR push_bit (i mod 8) 1) }
              else Some dst);
     minimize_bits_loop dst' src (Suc i) k }"

definition minimize_bits :: "'a afl_cov_scheme \<Rightarrow> mem \<Rightarrow> mem \<Rightarrow> mem option" where
  "minimize_bits s dst src = minimize_bits_loop dst src 0 (unat (map_size s))"

definition count_class16 :: "u16 \<Rightarrow> u16" where
  "count_class16 w = push_bit 8 (ucast (count_class_lookup8 (ucast (drop_bit 8 w))))
            OR ucast (count_class_lookup8 (ucast w))"

lemma idx_inj: assumes "(of_nat (a * 256 + b) :: u16) = w" "a < 256" "b < 256"
  shows "(of_nat a :: u8) = ucast (drop_bit 8 w)" "(of_nat b :: u8) = ucast w"
proof -
  have w: "unat w = a * 256 + b" using assms(2,3) unfolding assms(1) [symmetric] by (subst unat_of_nat) simp
  have "unat (drop_bit 8 w) = a" using w assms(2,3) by (subst unat_drop_bit_eq) (simp add: drop_bit_eq_div)
  moreover have "unat (ucast w :: u8) = b" using w assms by (simp add: unsigned_ucast_eq take_bit_eq_mod)
  ultimately show "(of_nat a :: u8) = ucast (drop_bit 8 w)" "(of_nat b :: u8) = ucast w"
    by (auto simp: word_unat_eq_iff unat_of_nat unsigned_ucast_eq take_bit_eq_mod assms(2,3))
qed
lemma idx_surj: "\<exists>a<256. \<exists>b<256. (of_nat (a * 256 + b) :: u16) = w"
proof (intro exI conjI)
  show "unat w div 256 < 256" using unsigned_less [of w, where ?'a = nat] by (simp add: less_mult_imp_div_less)
  show "unat w mod 256 < 256" by simp
  show "of_nat (unat w div 256 * 256 + unat w mod 256) = w" by simp
qed

lemma init_count_class16: "init_count_class16 tab0 = count_class16"
proof
  fix w
  show "init_count_class16 tab0 w = count_class16 w"
    unfolding init_count_class16_def fold_fold_product split_def
  proof (rule fold_fun_upd_in, safe)
    fix a b assume "(a, b) \<in> set (List.product [0..<256] [0..<256])"
    then have "a < 256" "b < 256" by simp_all
    from idx_inj [OF refl this] show "push_bit 8 (ucast (count_class_lookup8 (of_nat (fst (a, b))))) OR
      ucast (count_class_lookup8 (of_nat (snd (a, b)))) =
      count_class16 (word_of_nat (fst (a, b) * 2 ^ 8 + snd (a, b)))"
      by (simp add: count_class16_def)
  next
    assume "\<not> (\<exists>x\<in>set (List.product [0..<256] [0..<256]). word_of_nat (fst x * 2 ^ 8 + snd x) = w)"
    with idx_surj [of w] show "tab0 w = count_class16 w" by fastforce
  qed
qed

lemma of_halves_step:
  "push_bit 16 (w :: 'w::len word) OR ucast (le_word [a, b] :: u16) = push_bit 8 (push_bit 8 w OR ucast b) OR ucast a"
  by (rule bit_word_eqI) (auto simp: bit_simps bit_le_word less_Suc_eq nth_Cons' le_div_geq le_mod_geq dest: bit_imp_le_length)

lemma count_class16_le_word: "count_class16 (le_word [a, b]) = le_word [count_class_lookup8 a, count_class_lookup8 b]"
proof -
  have "ucast (le_word [a, b] :: u16) = a" "ucast (drop_bit 8 (le_word [a, b] :: u16)) = b"
    by (rule bit_word_eqI, auto simp: bit_simps bit_le_word)+
  then show ?thesis by (simp add: count_class16_def le_word_Cons)
qed

lemma of_halves_Cons: "of_halves (h # hs) = push_bit 16 (of_halves hs) OR ucast h"
  by (simp add: of_halves_def)

lemma halves_of_le_word:
  assumes "LENGTH('w::len) = 16 * n" and "length bs = 2 * n"
  shows "halves_of n (le_word bs :: 'w word) = map (\<lambda>i. le_word [bs ! (2 * i), bs ! (2 * i + 1)]) [0..<n]"
  unfolding halves_of_def
proof (rule map_cong [OF refl])
  fix i assume "i \<in> set [0..<n]"
  then have i: "i < n" by simp
  show "ucast (drop_bit (16 * i) (le_word bs :: 'w word)) = (le_word [bs ! (2 * i), bs ! (2 * i + 1)] :: u16)"
  proof (rule bit_word_eqI)
    fix j assume "j < LENGTH(16)"
    then have j: "j < 16" by simp
    have "(j + 8 * (2 * i)) div 8 = (if j < 8 then 2 * i else 2 * i + 1)"
      "(j + 8 * (2 * i)) mod 8 = (if j < 8 then j else j - 8)"
      using j by (simp_all only: div_mult_self2 mod_mult_self2) (auto simp: le_div_geq le_mod_geq)
    then have "(16 * i + j) div 8 = (if j < 8 then 2 * i else 2 * i + 1)"
      "(16 * i + j) mod 8 = (if j < 8 then j else j - 8)" by (simp_all add: algebra_simps)
    then show "bit (ucast (drop_bit (16 * i) (le_word bs :: 'w word)) :: u16) j
        = bit (le_word [bs ! (2 * i), bs ! (2 * i + 1)] :: u16) j"
      using i j assms by (simp add: bit_simps bit_le_word le_div_geq le_mod_geq split: if_splits)
  qed
qed

lemma classify_halves: 
  assumes "LENGTH('w::len) = 16 * n" and "length bs = 2 * n" 
  shows "of_halves (map count_class16 (halves_of n (le_word bs :: 'w word))) = (le_word (map count_class_lookup8 bs) :: 'w word)"
proof -
  have *: "of_halves (map (\<lambda>i. le_word [cs ! (2 * i), cs ! (2 * i + 1)]) [0..<n]) = (le_word cs :: 'w word)"
    if "length cs = 2 * n" for cs n
    using that
  proof (induction n arbitrary: cs)
    case 0 then show ?case by (simp add: of_halves_def)
  next
    case (Suc n)
    then obtain a b cs' where cs: "cs = a # b # cs'" "length cs' = 2 * n"
      by (auto simp: length_Suc_conv)
    have "map (\<lambda>i. le_word [cs ! (2 * i), cs ! (2 * i + 1)]) [0..<Suc n]
      = (le_word [a, b] :: u16) # map (\<lambda>i. le_word [cs' ! (2 * i), cs' ! (2 * i + 1)]) [0..<n]"
      using cs by (simp add: map_upt_Suc del: upt_Suc)
    then show ?case
      by (simp only: of_halves_Cons of_halves_step Suc.IH [OF cs(2)]) (simp only: cs le_word_Cons [of a "b # cs'"] le_word_Cons [of b cs'])
  qed
  have "map count_class16 (halves_of n (le_word bs :: 'w word))
      = map (\<lambda>i. le_word [map count_class_lookup8 bs ! (2 * i), map count_class_lookup8 bs ! (2 * i + 1)]) [0..<n]"
    using assms by (simp add: halves_of_le_word count_class16_le_word)
  then show ?thesis using assms * [of "map count_class_lookup8 bs" n] by simp
qed

definition any_hit :: "u8 list \<Rightarrow> u8 list \<Rightarrow> bool" where
  "any_hit cur vir \<longleftrightarrow> list_ex (\<lambda>(c, v). c AND v \<noteq> 0) (zip cur vir)"

definition novelty :: "u8 list \<Rightarrow> u8 list \<Rightarrow> u8" where
  "novelty cur vir = (if pristine_hit cur vir then 2 else if any_hit cur vir then 1 else 0)"

lemma pristine_any_hit: "pristine_hit cur vir \<Longrightarrow> any_hit cur vir"
  unfolding pristine_hit_def any_hit_def list_ex_iff by (force intro: bexI [rotated])

lemma novelty_Nil [simp]: "novelty [] v = 0"
  by (simp add: novelty_def pristine_hit_def any_hit_def)

lemma novelty_append:
  assumes "length c1 = length v1"
  shows "novelty (c1 @ c2) (v1 @ v2) = max (novelty c1 v1) (novelty c2 v2)"
proof -
  have "pristine_hit (c1 @ c2) (v1 @ v2) \<longleftrightarrow> pristine_hit c1 v1 \<or> pristine_hit c2 v2"
    "any_hit (c1 @ c2) (v1 @ v2) \<longleftrightarrow> any_hit c1 v1 \<or> any_hit c2 v2"
    using assms by (simp_all add: pristine_hit_def any_hit_def)
  then show ?thesis by (auto simp: novelty_def max_def word_le_nat_alt)
qed

lemma not_any_hit_zero: "\<forall>c\<in>set cur. c = 0 \<Longrightarrow> \<not> any_hit cur vir"
  unfolding any_hit_def list_ex_iff using set_zip_leftD [of _ _ cur vir] by fastforce

lemma novelty_not_any_hit: "\<not> any_hit cur vir \<Longrightarrow> novelty cur vir = 0"
  using pristine_any_hit by (auto simp: novelty_def)

definition clear_hits :: "u8 list \<Rightarrow> u8 list \<Rightarrow> u8 list" where
  "clear_hits vir cur = map2 (\<lambda>v c. v AND NOT c) vir cur"

lemma length_clear_hits [simp]: "length (clear_hits v c) = min (length v) (length c)"
  by (simp add: clear_hits_def)

lemma clear_hits_append: "length v1 = length c1 \<Longrightarrow> clear_hits (v1 @ v2) (c1 @ c2) = clear_hits v1 c1 @ clear_hits v2 c2"
  by (simp add: clear_hits_def)

lemma clear_hits_not_any_hit: "length vir = length cur \<Longrightarrow> \<not> any_hit cur vir \<Longrightarrow> clear_hits vir cur = vir"
  by (induction vir cur rule: list_induct2) (auto simp: clear_hits_def any_hit_def and_not_id and.commute)

lemma le_word_and_eq_0:
  assumes "LENGTH('w::len) = 8 * nb" and "length cs = nb" and "length vs = nb"
  shows "(le_word cs AND le_word vs :: 'w word) = 0 \<longleftrightarrow> \<not> any_hit cs vs"
proof -
  have lens: "length cs = length vs" using assms by simp
  show ?thesis
    unfolding le_word_map2_and [OF lens]
    using le_word_eq_0_iff [OF assms(1), of "map2 (AND) cs vs"] assms(2,3)
    by (auto simp: any_hit_def list_ex_iff)
qed

lemma discover_generic:
  assumes "LENGTH('w::len) = 8 * nb" "length cs = nb" "length vs = nb"
  defines "c \<equiv> le_word cs :: 'w word" and "v \<equiv> le_word vs :: 'w word"
  shows "(if c AND v \<noteq> 0
      then (if ret < 2 then (if pristine_hit (le_bytes nb c) (le_bytes nb v) then 2 else 1) else ret,
            v AND NOT c)
      else (ret, v)) = (max ret (novelty cs vs), le_word (clear_hits vs cs))"
proof -
  have lens: "length cs = length vs" "length vs = length cs" using assms by simp_all
  have cv: "c AND v = 0 \<longleftrightarrow> \<not> any_hit cs vs"
    unfolding c_def v_def using assms(1-3) by (rule le_word_and_eq_0)
  have clear: "v AND NOT c = le_word (clear_hits vs cs)"
    unfolding c_def v_def clear_hits_def by (rule le_word_map2_and_not [OF lens(2)])
  have pr: "pristine_hit (le_bytes nb c) (le_bytes nb v) = pristine_hit cs vs"
    using assms by simp
  show ?thesis
  proof (cases "any_hit cs vs")
    case False
    then have "clear_hits vs cs = vs" using lens by (intro clear_hits_not_any_hit) simp_all
    then show ?thesis using False cv by (simp add: novelty_not_any_hit v_def)
  next
    case True
    then have "novelty cs vs = (if pristine_hit cs vs then 2 else 1)"
      by (simp add: novelty_def)
    moreover have "ret < 2 \<longleftrightarrow> ret = 0 \<or> ret = 1" by unat_arith
    ultimately show ?thesis using True cv pr clear by (auto simp: max_def) unat_arith+
  qed
qed

definition window_hit :: "mem \<Rightarrow> mem \<Rightarrow> nat \<Rightarrow> nat \<Rightarrow> bool" where
  "window_hit cur vir q n \<longleftrightarrow> any_hit (map count_class_lookup8 (take n (drop q cur))) (take n (drop q vir))"

lemma any_hit_append: "length c1 = length v1 \<Longrightarrow> any_hit (c1 @ c2) (v1 @ v2) \<longleftrightarrow> any_hit c1 v1 \<or> any_hit c2 v2"
  by (simp add: any_hit_def)

lemma window_hit_add:
  assumes "q + (a + b) \<le> length cur" "q + (a + b) \<le> length vir"
  shows "window_hit cur vir q (a + b) \<longleftrightarrow> window_hit cur vir q a \<or> window_hit cur vir (q + a) b"
proof -
  have "any_hit (map count_class_lookup8 (take a (drop q cur)) @ map count_class_lookup8 (take b (drop (q + a) cur)))
          (take a (drop q vir) @ take b (drop (q + a) vir)) \<longleftrightarrow> window_hit cur vir q a \<or> window_hit cur vir (q + a) b"
    using assms by (simp add: any_hit_append window_hit_def)
  then show ?thesis by (simp add: window_hit_def take_add add.commute)
qed

lemma window_hit_4:
  assumes "q + nb * 4 \<le> length cur" "q + nb * 4 \<le> length vir"
  shows "window_hit cur vir q (nb * 4) \<longleftrightarrow> list_ex (\<lambda>x. window_hit cur vir (q + nb * x) nb) [0, 1, 2, 3]"
proof -
  have "nb * 4 = nb + (nb + (nb + nb))" by simp
  then have "window_hit cur vir q (nb * 4) \<longleftrightarrow> window_hit cur vir q nb \<or> window_hit cur vir (q + nb) nb
      \<or> window_hit cur vir (q + nb + nb) nb \<or> window_hit cur vir (q + nb + nb + nb) nb"
    using assms by (simp only: window_hit_add)
  moreover have e: "q + nb * 2 = q + nb + nb" "q + nb * 3 = q + nb + nb + nb" by simp_all
  ultimately show ?thesis by (simp add: e)
qed

lemma any_of_Some: "(\<And>x. x \<in> set xs \<Longrightarrow> f x = Some (g x)) \<Longrightarrow> any_of f xs = Some (list_ex g xs)"
  by (induction xs) auto

locale coverage_word =
  fixes nb :: nat
    and classify_word :: "'w::len word \<Rightarrow> 'w word"
    and simplify_word :: "'w word \<Rightarrow> 'w word"
    and discover_word :: "u8 \<Rightarrow> 'w word \<Rightarrow> 'w word \<Rightarrow> u8 \<times> 'w word"
  assumes width: "LENGTH('w) = 8 * nb"
    and classify_bytes: "length bs = nb \<Longrightarrow> classify_word (le_word bs) = le_word (map count_class_lookup8 bs)"
    and simplify_bytes: "length bs = nb \<Longrightarrow> simplify_word (le_word bs) = le_word (map simplify_lookup bs)"
    and discover_bytes: "length cs = nb \<Longrightarrow> length vs = nb \<Longrightarrow>
          discover_word ret (le_word cs) (le_word vs) = (max ret (novelty cs vs), le_word (clear_hits vs cs))"
begin

lemma classify_guarded:
  "length bs = nb \<Longrightarrow> (if (le_word bs :: 'w word) \<noteq> 0 then classify_word (le_word bs) else le_word bs)
       = le_word (map count_class_lookup8 bs)"
proof (cases "(le_word bs :: 'w word) = 0")
  case True
  assume len: "length bs = nb"
  with True have "\<forall>b\<in>set bs. b = 0" using le_word_eq_0_iff [OF width] by blast
  then have "map count_class_lookup8 bs = bs" by (intro map_idI) (simp add: count_class_lookup8_def)
  with True show ?thesis by simp
qed (simp add: classify_bytes)

lemma classify_loop:
  "nb * i \<le> length m \<Longrightarrow> words_upd nb (\<lambda>w. if w \<noteq> 0 then classify_word w else w) m 0 i
     = Some (map count_class_lookup8 (take (nb * i) m) @ drop (nb * i) m)"
  by (rule words_upd_prefix [OF width classify_guarded])

lemma simplify_loop:
  "nb * i \<le> length m \<Longrightarrow> words_upd nb simplify_word m 0 i
     = Some (map simplify_lookup (take (nb * i) m) @ drop (nb * i) m)"
  by (rule words_upd_prefix [OF width simplify_bytes])

lemma has_new_bits_step:
  assumes "length pc = nb * p" "length pv = nb * p" "length cs = nb" "length vs = nb"
  shows "has_new_bits_loop nb discover_word (pc @ cs @ rc) (pv @ vs @ rv) ret p (Suc i)
       = has_new_bits_loop nb discover_word (pc @ cs @ rc) (pv @ clear_hits vs cs @ rv)
           (max ret (novelty cs vs)) (Suc p) i"
proof (cases "(le_word cs :: 'w word) = 0")
  case True
  then have "\<forall>b\<in>set cs. b = 0" using le_word_eq_0_iff [OF width assms(3)] by blast
  then have "\<not> any_hit cs vs" by (rule not_any_hit_zero)
  then have "novelty cs vs = 0" and "clear_hits vs cs = vs"
    using assms by (auto simp: novelty_not_any_hit clear_hits_not_any_hit)
  with True assms show ?thesis by (simp add: mem_simps)
next
  case False
  with assms width show ?thesis by (simp add: mem_simps discover_bytes)
qed

lemma has_new_bits_loop_bytes:
  assumes "length pc = nb * p" "length pv = nb * p" "length cs = nb * i" "length vs = nb * i"
  shows "has_new_bits_loop nb discover_word (pc @ cs @ rc) (pv @ vs @ rv) ret p i
       = Some (max ret (novelty cs vs), pv @ clear_hits vs cs @ rv)"
  using assms
proof (induction i arbitrary: p pc pv cs vs ret)
  case 0
  then show ?case by (simp add: clear_hits_def)
next
  case (Suc i)
  define c1 c2 v1 v2 where "c1 = take nb cs" and "c2 = drop nb cs" and "v1 = take nb vs" and "v2 = drop nb vs"
  have sp: "cs = c1 @ c2" "vs = v1 @ v2" "length c1 = nb" "length v1 = nb" "length c2 = nb * i" "length v2 = nb * i"
    using Suc.prems by (simp_all add: c1_def c2_def v1_def v2_def)
  have "has_new_bits_loop nb discover_word ((pc @ c1) @ c2 @ rc) ((pv @ clear_hits v1 c1) @ v2 @ rv)
          (max ret (novelty c1 v1)) (Suc p) i
       = Some (max (max ret (novelty c1 v1)) (novelty c2 v2), (pv @ clear_hits v1 c1) @ clear_hits v2 c2 @ rv)"
    by (rule Suc.IH) (use Suc.prems sp in simp_all)
  then show ?case
    using has_new_bits_step [of pc p pv c1 v1 "c2 @ rc" "v2 @ rv" ret i] Suc.prems sp
    by (simp add: novelty_append clear_hits_append max.assoc)
qed

lemma has_new_bits_bytes:
  assumes "nb * unat i \<le> length (trace_bits s)" "nb * unat i \<le> length (get_virgin s vm)"
  defines "cur \<equiv> take (nb * unat i) (trace_bits s)"
    and "vir \<equiv> take (nb * unat i) (get_virgin s vm)"
  shows "has_new_bits_with nb discover_word i s vm =
    (let s' = set_virgin vm (clear_hits vir cur @ drop (nb * unat i) (get_virgin s vm)) s
     in Some (novelty cur vir, if novelty cur vir \<noteq> 0 \<and> vm = Virgin_Bits then s'\<lparr>bitmap_changed := 1\<rparr> else s'))"
proof -
  have "has_new_bits_loop nb discover_word (trace_bits s) (get_virgin s vm) 0 0 (unat i)
      = Some (novelty cur vir, clear_hits vir cur @ drop (nb * unat i) (get_virgin s vm))"
    using has_new_bits_loop_bytes [of "[]" 0 "[]" cur "unat i" vir "drop (nb * unat i) (trace_bits s)"
        "drop (nb * unat i) (get_virgin s vm)" 0] assms by simp
  then show ?thesis by (simp add: has_new_bits_with_def Let_def)
qed

lemma skim_word_bytes:
  assumes "nb * p + nb \<le> length cur" "nb * p + nb \<le> length vir"
  defines "cs \<equiv> take nb (drop (nb * p) cur)" and "vs \<equiv> take nb (drop (nb * p) vir)"
  shows "skim_word nb classify_word vir cur p = Some (any_hit (map count_class_lookup8 cs) vs)"
proof -
  have len: "length cs = nb" "length vs = nb" using assms by simp_all
  have ld: "load_word nb cur p = Some (le_word cs :: 'w word)" "load_word nb vir p = Some (le_word vs :: 'w word)"
    using assms by (simp_all add: load_word_def)
  show ?thesis
  proof (cases "(le_word cs :: 'w word) = 0")
    case True
    then have "\<forall>b\<in>set cs. b = 0" using le_word_eq_0_iff [OF width len(1)] by blast
    then have "\<not> any_hit (map count_class_lookup8 cs) vs"
      by (intro not_any_hit_zero) (simp add: count_class_lookup8_def)
    with True ld show ?thesis by (simp add: skim_word_def)
  next
    case False
    have "classify_word (le_word cs) AND le_word vs \<noteq> (0 :: 'w word) \<longleftrightarrow> any_hit (map count_class_lookup8 cs) vs"
      unfolding classify_bytes [OF len(1)]
      using le_word_and_eq_0 [OF width, of "map count_class_lookup8 cs" vs] len by simp
    with False ld show ?thesis by (simp add: skim_word_def)
  qed
qed

lemma skim_loop_bytes:
  assumes "nb * (p + 4 * n) \<le> length cur" "nb * (p + 4 * n) \<le> length vir"
  shows "skim_loop nb classify_word vir cur p n
     = Some (of_bool (window_hit cur vir (nb * p) (nb * (4 * n))))"
  using assms
proof (induction n arbitrary: p)
  case 0
  then show ?case by (simp add: window_hit_def any_hit_def)
next
  case (Suc n)
  have w: "skim_word nb classify_word vir cur (p + x) = Some (window_hit cur vir (nb * p + nb * x) nb)" if "x < 4" for x
  proof -
    have "nb * Suc (p + x) \<le> nb * (p + 4 * Suc n)" using that by (intro mult_le_mono) simp_all
    then show ?thesis
      using Suc.prems skim_word_bytes [of "p + x" cur vir] by (simp add: window_hit_def algebra_simps)
  qed
  have "any_of (\<lambda>x. skim_word nb classify_word vir cur (p + x)) [0, 1, 2, 3]
      = Some (list_ex (\<lambda>x. window_hit cur vir (nb * p + nb * x) nb) [0, 1, 2, 3])"
    by (rule any_of_Some, rule w) auto
  moreover have "window_hit cur vir (nb * p) (nb * (4 * Suc n)) \<longleftrightarrow>
     list_ex (\<lambda>x. window_hit cur vir (nb * p + nb * x) nb) [0, 1, 2, 3] \<or> window_hit cur vir (nb * (p + 4)) (nb * (4 * n))"
    using Suc.prems window_hit_add [of "nb * p" "nb * 4" "nb * (4 * n)" cur vir] window_hit_4 [of "nb * p" nb cur vir]
    by (simp add: algebra_simps)
  moreover have "skim_loop nb classify_word vir cur (p + 4) n
     = Some (of_bool (window_hit cur vir (nb * (p + 4)) (nb * (4 * n))))"
    by (rule Suc.IH) (use Suc.prems in \<open>simp_all add: algebra_simps\<close>)
  ultimately show ?case by (simp split: if_splits)
qed

end

interpretation cov64: coverage_word 8 "classify_word_64 count_class16" simplify_word_64 discover_word_64
proof unfold_locales
  show "LENGTH(64) = 8 * 8" by simp
  show "classify_word_64 count_class16 (le_word bs) = le_word (map count_class_lookup8 bs)" if "length bs = 8" for bs
    using that classify_halves [of 4 bs, where ?'w = 64] by (simp add: classify_word_64_def)
  show "simplify_word_64 (le_word bs) = le_word (map simplify_lookup bs)" if "length bs = 8" for bs
  proof (cases "(le_word bs :: u64) = 0")
    case True
    then have "bs = replicate 8 0"
      using that le_word_eq_0_iff [of 8 bs, where ?'w = 64] by (auto intro: replicate_eqI)
    moreover have "le_word (map simplify_lookup (replicate 8 0)) = (simplify_word_64 0)"
      by code_simp
    ultimately show ?thesis using True by simp
  qed (use that in \<open>simp add: simplify_word_64_def\<close>)
  show "discover_word_64 ret (le_word cs) (le_word vs) = (max ret (novelty cs vs), le_word (clear_hits vs cs))"
    if "length cs = 8" "length vs = 8" for ret cs vs
    unfolding discover_word_64_def using that by (intro discover_generic) simp_all
qed

interpretation cov32: coverage_word 4 "classify_word_32 count_class16" simplify_word_32 discover_word_32
proof unfold_locales
  show "LENGTH(32) = 8 * 4" by simp
  show "classify_word_32 count_class16 (le_word bs) = le_word (map count_class_lookup8 bs)" if "length bs = 4" for bs
    using that classify_halves [of 2 bs, where ?'w = 32] by (simp add: classify_word_32_def)
  show "simplify_word_32 (le_word bs) = le_word (map simplify_lookup bs)" if "length bs = 4" for bs
  proof (cases "(le_word bs :: u32) = 0")
    case True
    then have "bs = replicate 4 0"
      using that le_word_eq_0_iff [of 4 bs, where ?'w = 32] by (auto intro: replicate_eqI)
    moreover have "le_word (map simplify_lookup (replicate 4 0)) = (simplify_word_32 0)"
      by code_simp
    ultimately show ?thesis using True by simp
  qed (use that in \<open>simp add: simplify_word_32_def\<close>)
  show "discover_word_32 ret (le_word cs) (le_word vs) = (max ret (novelty cs vs), le_word (clear_hits vs cs))"
    if "length cs = 4" "length vs = 4" for ret cs vs
    unfolding discover_word_32_def using that by (intro discover_generic) simp_all
qed

lemma avx2_lane:
  assumes "length cs = 4" "x < 4"
  shows "avx2_zero_mask cs AND push_bit (8 * x) 0xff \<noteq> 0 \<longleftrightarrow> cs ! x = 0"
proof -
  obtain a b c d where "cs = [a, b, c, d]" using assms by (auto simp: length_Suc_conv eval_nat_numeral)
  moreover have "x = 0 \<or> x = 1 \<or> x = 2 \<or> x = 3" using assms by auto
  ultimately show ?thesis by (auto simp: avx2_zero_mask_def le_word_Cons)
qed

lemma avx2_all_zero:
  assumes "length cs = 4"
  shows "avx2_zero_mask cs = - 1 \<longleftrightarrow> (\<forall>x<4. cs ! x = 0)"
proof -
  obtain a b c d where "cs = [a, b, c, d]" using assms by (auto simp: length_Suc_conv eval_nat_numeral)
  moreover have "(\<forall>x<4. cs ! x = 0) \<longleftrightarrow> cs ! 0 = 0 \<and> cs ! 1 = 0 \<and> cs ! 2 = 0 \<and> cs ! 3 = 0"
    by (auto simp: eval_nat_numeral less_Suc_eq)
  ultimately show ?thesis by (auto simp: avx2_zero_mask_def le_word_Cons)
qed

lemma avx512_lane:
  assumes "length cs = 8" "x < 8"
  shows "avx512_zero_mask cs AND push_bit x 1 \<noteq> 0 \<longleftrightarrow> cs ! x = 0"
  using assms by (simp add: avx512_zero_mask_def  and_exp_eq_0_iff_not_bit push_bit_eq_mult bit_horner_sum_bit_word_iff)

lemma lane_new_eq_skim_word:
  assumes "load_word 8 cur (p + x) = Some (cs ! x)"
  shows "lane_new (cs ! x = 0) classify vir cs p x = skim_word 8 classify vir cur (p + x)"
  using assms by (simp add: lane_new_def skim_word_def)

lemma load_lanes_Some:
  assumes "8 * (p + k) \<le> length m"
  obtains cs where "load_lanes k m p = Some cs" and "length cs = k"
    and "\<And>x. x < k \<Longrightarrow> load_word 8 m (p + x) = Some (cs ! x)"
proof
  let ?f = "\<lambda>x. le_word (take 8 (drop (8 * (p + x)) m)) :: u64"
  have ld: "load_word 8 m (p + x) = Some (?f x)" if "x < k" for x
    using assms that by (simp add: load_word_def)
  then show "load_lanes k m p = Some (map ?f [0..<k])"
    unfolding load_lanes_def by (intro those_map_Some) simp
  show "length (map ?f [0..<k]) = k" by simp
  show "load_word 8 m (p + x) = Some (map ?f [0..<k] ! x)" if "x < k" for x
    using ld [OF that] that by simp
qed

lemma any_of_append: "any_of f (xs @ ys) = do { b \<leftarrow> any_of f xs; if b then Some True else any_of f ys }"
proof (induction xs)
  case (Cons x xs)
  then show ?case by (cases "f x") auto
qed simp

lemma any_of_map: "any_of f (map g xs) = any_of (\<lambda>x. f (g x)) xs"
  by (induction xs) (auto cong: if_cong)

lemma any_of_cong: "(\<And>x. x \<in> set xs \<Longrightarrow> f x = g x) \<Longrightarrow> any_of f xs = any_of g xs"
  by (induction xs) (auto cong: if_cong)

lemma any_of_skim_zero:
  fixes classify :: "'w::len word \<Rightarrow> 'w word"
  assumes "\<And>x. x \<in> set xs \<Longrightarrow> load_word nb cur (p + x) = Some (0 :: 'w word)"
  shows "any_of (\<lambda>x. skim_word nb classify vir cur (p + x)) xs = Some False"
  using assms by (induction xs) (auto simp: skim_word_def)

lemma skim_avx2_loop_eq:
  assumes "8 * (p + 4 * n) \<le> length current"
  shows "skim_avx2_loop tab virgin current p n = skim_loop 8 (classify_word_64 tab) virgin current p n"
  using assms
proof (induction n arbitrary: p)
  case 0
  then show ?case by simp
next
  case (Suc n)
  have "8 * (p + 4) \<le> length current" using Suc.prems by simp
  then obtain cs where cs: "load_lanes 4 current p = Some cs" "length cs = 4"
    and ld: "\<And>x. x < 4 \<Longrightarrow> load_word 8 current (p + x) = Some (cs ! x)"
    by (rule load_lanes_Some) auto
  have tests: "any_of (\<lambda>x. lane_new (avx2_zero_mask cs AND push_bit (8 * x) 0xff \<noteq> 0) (classify_word_64 tab) virgin cs p x) [0, 1, 2, 3]
     = any_of (\<lambda>x. skim_word 8 (classify_word_64 tab) virgin current (p + x)) [0, 1, 2, 3]"
  proof (rule any_of_cong)
    fix x :: nat assume "x \<in> set [0, 1, 2, 3]"
    then have x: "x < 4" by auto
    show "lane_new (avx2_zero_mask cs AND push_bit (8 * x) 0xff \<noteq> 0) (classify_word_64 tab) virgin cs p x
       = skim_word 8 (classify_word_64 tab) virgin current (p + x)"
      unfolding avx2_lane [OF cs(2) x] by (rule lane_new_eq_skim_word [OF ld [OF x]])
  qed
  have zero: "any_of (\<lambda>x. skim_word 8 (classify_word_64 tab) virgin current (p + x)) [0, 1, 2, 3] = Some False"
    if "avx2_zero_mask cs = - 1"
  proof (rule any_of_skim_zero)
    fix x :: nat assume "x \<in> set [0, 1, 2, 3]"
    then have "x < 4" by auto
    then show "load_word 8 current (p + x) = Some (0 :: u64)"
      using that avx2_all_zero [OF cs(2)] ld by simp
  qed
  have "skim_avx2_loop tab virgin current (p + 4) n = skim_loop 8 (classify_word_64 tab) virgin current (p + 4) n"
    by (rule Suc.IH) (use Suc.prems in simp)
  then show ?case
    using zero unfolding skim_avx2_loop.simps skim_loop.simps cs(1) Option.bind.simps Let_def tests
    by (auto simp del: any_of.simps cong: if_cong)
qed

lemma avx512_all_zero:
  assumes "length cs = 8"
  shows "avx512_zero_mask cs = 0xff \<longleftrightarrow> (\<forall>x<8. cs ! x = 0)"
proof -
  have "avx512_zero_mask cs = 0xff \<longleftrightarrow> (\<forall>x<8. bit (avx512_zero_mask cs) x)"
  proof
    assume "avx512_zero_mask cs = 0xff"
    moreover have "\<forall>x<8. bit (0xff :: u8) x" by (auto simp: less_Suc_eq eval_nat_numeral)
    ultimately show "\<forall>x<8. bit (avx512_zero_mask cs) x" by simp
  next
    assume "\<forall>x<8. bit (avx512_zero_mask cs) x"
    moreover have "\<forall>x<8. bit (0xff :: u8) x" by (auto simp: less_Suc_eq eval_nat_numeral)
    ultimately show "avx512_zero_mask cs = 0xff" by (intro bit_word_eqI) auto
  qed
  then show ?thesis using assms by (simp add: avx512_zero_mask_def bit_horner_sum_bit_word_iff)
qed

lemma skim_avx512_loop_eq:
  assumes "8 * (p + 8 * n) \<le> length current"
  shows "skim_avx512_loop tab virgin current p (p + 8 * n) = skim_loop 8 (classify_word_64 tab) virgin current p (2 * n)"
  using assms
proof (induction n arbitrary: p)
  case 0
  then show ?case by (simp add: skim_avx512_loop.simps)
next
  case (Suc n)
  let ?sk = "\<lambda>x. skim_word 8 (classify_word_64 tab) virgin current (p + x)"
  have "8 * (p + 8) \<le> length current" using Suc.prems by simp
  then obtain cs where cs: "load_lanes 8 current p = Some cs" "length cs = 8"
    and ld: "\<And>x. x < 8 \<Longrightarrow> load_word 8 current (p + x) = Some (cs ! x)"
    by (rule load_lanes_Some) auto
  have tests: "any_of (\<lambda>x. lane_new (avx512_zero_mask cs AND push_bit x 1 \<noteq> 0) (classify_word_64 tab) virgin cs p x) [0, 1, 2, 3, 4, 5, 6, 7]
     = any_of ?sk [0, 1, 2, 3, 4, 5, 6, 7]"
  proof (rule any_of_cong)
    fix x :: nat assume "x \<in> set [0, 1, 2, 3, 4, 5, 6, 7]"
    then have x: "x < 8" by auto
    show "lane_new (avx512_zero_mask cs AND push_bit x 1 \<noteq> 0) (classify_word_64 tab) virgin cs p x = ?sk x"
      unfolding avx512_lane [OF cs(2) x] by (rule lane_new_eq_skim_word [OF ld [OF x]])
  qed
  have zero: "any_of ?sk [0, 1, 2, 3, 4, 5, 6, 7] = Some False" if "avx512_zero_mask cs = 0xff"
  proof (rule any_of_skim_zero)
    fix x :: nat assume "x \<in> set [0, 1, 2, 3, 4, 5, 6, 7]"
    then have "x < 8" by auto
    then show "load_word 8 current (p + x) = Some (0 :: u64)"
      using that avx512_all_zero [OF cs(2)] ld by simp
  qed
  have "skim_avx512_loop tab virgin current (p + 8) (p + 8 + 8 * n) = skim_loop 8 (classify_word_64 tab) virgin current (p + 8) (2 * n)"
    by (rule Suc.IH) (use Suc.prems in simp)
  then have IH: "skim_avx512_loop tab virgin current (p + 8) (p + 8 * Suc n) = skim_loop 8 (classify_word_64 tab) virgin current (p + 8) (2 * n)"
    by (simp add: algebra_simps)
  have split: "skim_loop 8 (classify_word_64 tab) virgin current p (2 * Suc n)
     = do { b \<leftarrow> any_of ?sk [0, 1, 2, 3, 4, 5, 6, 7]; if b then Some 1 else skim_loop 8 (classify_word_64 tab) virgin current (p + 8) (2 * n) }"
  proof -
    have shift: "(\<lambda>x. skim_word 8 (classify_word_64 tab) virgin current (p + 4 + x)) = (\<lambda>x. ?sk (x + 4))"
      by (simp add: algebra_simps)
    have "any_of ?sk [0, 1, 2, 3, 4, 5, 6, 7] = do { b \<leftarrow> any_of ?sk [0, 1, 2, 3];
         if b then Some True else any_of (\<lambda>x. ?sk (x + 4)) [0, 1, 2, 3] }"
    proof -
      have "[0, 1, 2, 3, 4, 5, 6, 7] = [0, 1, 2, 3] @ map (\<lambda>x. x + 4) [0, 1, 2, 3 :: nat]" by simp
      then show ?thesis by (simp only: any_of_append any_of_map)
    qed
    moreover have "2 * Suc n = Suc (Suc (2 * n))" and e: "p + 4 + 4 = p + 8" by simp_all
    ultimately show ?thesis
      by (cases "any_of ?sk [0, 1, 2, 3]") (simp_all add: shift e del: any_of.simps cong: if_cong)
  qed
  have "p \<noteq> p + 8 * Suc n" by simp
  then have "skim_avx512_loop tab virgin current p (p + 8 * Suc n)
     = (if avx512_zero_mask cs = 0xff then skim_loop 8 (classify_word_64 tab) virgin current (p + 8) (2 * n)
        else do { b \<leftarrow> any_of ?sk [0, 1, 2, 3, 4, 5, 6, 7];
                  if b then Some 1 else skim_loop 8 (classify_word_64 tab) virgin current (p + 8) (2 * n) })"
    by (subst skim_avx512_loop.simps) (simp only: cs(1) Option.bind.simps Let_def tests IH if_False simp_thms)
  then show ?case
    unfolding split using zero by (auto simp del: any_of.simps)
qed

definition cov_ready :: "nat \<Rightarrow> 'a afl_cov_scheme \<Rightarrow> bool" where
  "cov_ready n s \<longleftrightarrow> n \<le> length (trace_bits s) \<and> n \<le> length (virgin_bits s)
     \<and> n \<le> length (virgin_tmout s) \<and> n \<le> length (virgin_crash s)"

lemma cov_ready_virgin: "cov_ready n s \<Longrightarrow> n \<le> length (get_virgin s vm)"
  by (cases vm) (simp_all add: cov_ready_def)

definition has_new_bits_spec :: "nat \<Rightarrow> 'a afl_cov_scheme \<Rightarrow> virgin_map \<Rightarrow> u8 \<times> 'a afl_cov_scheme" where
  "has_new_bits_spec n s vm =
    (let cur = take n (trace_bits s); vir = take n (get_virgin s vm); ret = novelty cur vir;
         s' = set_virgin vm (clear_hits vir cur @ drop n (get_virgin s vm)) s
     in (ret, if ret \<noteq> 0 \<and> vm = Virgin_Bits then s'\<lparr>bitmap_changed := 1\<rparr> else s'))"

lemma has_new_bits_64_spec:
  "cov_ready (8 * unat (drop_bit 3 (real_map_size s + 7))) s \<Longrightarrow>
     has_new_bits_64 s vm = Some (has_new_bits_spec (8 * unat (drop_bit 3 (real_map_size s + 7))) s vm)"
  unfolding has_new_bits_64_def has_new_bits_spec_def
  by (subst cov64.has_new_bits_bytes) (auto simp: cov_ready_def Let_def cov_ready_virgin)

lemma has_new_bits_32_spec:
  "cov_ready (4 * unat (drop_bit 2 (real_map_size s + 3))) s \<Longrightarrow>
     has_new_bits_32 s vm = Some (has_new_bits_spec (4 * unat (drop_bit 2 (real_map_size s + 3))) s vm)"
  unfolding has_new_bits_32_def has_new_bits_spec_def
  by (subst cov32.has_new_bits_bytes) (auto simp: cov_ready_def Let_def cov_ready_virgin)

lemma get_set_virgin [simp]: "get_virgin (set_virgin vm m s) vm' = (if vm = vm' then m else get_virgin s vm')"
  by (cases vm; cases vm') simp_all

lemma get_virgin_bitmap_changed [simp]: "get_virgin (s\<lparr>bitmap_changed := x\<rparr>) vm = get_virgin s vm"
  by (cases vm) simp_all

lemma set_virgin_fields [simp]:
  "trace_bits (set_virgin vm m s) = trace_bits s"
  "map_size (set_virgin vm m s) = map_size s"
  "real_map_size (set_virgin vm m s) = real_map_size s"
  "bitmap_changed (set_virgin vm m s) = bitmap_changed s"
  "count_class_lookup16 (set_virgin vm m s) = count_class_lookup16 s"
  by (cases vm; simp)+

lemma set_virgin_same: "get_virgin s vm = m \<Longrightarrow> set_virgin vm m s = s"
  by (cases vm) auto

lemma not_any_hit_clear: "length vir = length cur \<Longrightarrow> \<not> any_hit cur (clear_hits vir cur)"
proof (induction vir cur rule: list_induct2)
  case Nil
  then show ?case by (simp add: any_hit_def)
next
  case (Cons v vs c cs)
  have "c AND (v AND NOT c) = 0" by (rule bit_word_eqI) (auto simp: bit_simps)
  with Cons show ?case by (simp add: any_hit_def clear_hits_def)
qed

lemma has_new_bits_spec_again:
  assumes "cov_ready n s" and "has_new_bits_spec n s vm = (r, s')"
  shows "cov_ready n s' \<and> has_new_bits_spec n s' vm = (0, s')"
proof -
  let ?cur = "take n (trace_bits s)" and ?vir = "take n (get_virgin s vm)"
  have len: "length ?vir = length ?cur" using assms(1) cov_ready_virgin [OF assms(1), of vm] by (simp add: cov_ready_def)
  have v': "get_virgin s' vm = clear_hits ?vir ?cur @ drop n (get_virgin s vm)" and t': "trace_bits s' = trace_bits s"
    using assms(2) by (auto simp: has_new_bits_spec_def Let_def split: if_splits)
  have tv: "take n (get_virgin s' vm) = clear_hits ?vir ?cur"
    using len assms(1) cov_ready_virgin [OF assms(1), of vm] by (simp add: v' cov_ready_def)
  have nh: "\<not> any_hit ?cur (clear_hits ?vir ?cur)" using len by (rule not_any_hit_clear)
  have "clear_hits (clear_hits ?vir ?cur) ?cur = clear_hits ?vir ?cur"
    by (rule clear_hits_not_any_hit [OF _ nh]) (use len in simp)
  then have "set_virgin vm (clear_hits (take n (get_virgin s' vm)) ?cur @ drop n (get_virgin s' vm)) s' = s'"
    using tv by (intro set_virgin_same) (metis append_take_drop_id)
  then have "has_new_bits_spec n s' vm = (0, s')"
    using nh by (simp add: has_new_bits_spec_def Let_def t' tv novelty_not_any_hit)
  moreover have "cov_ready n s'"
    using assms by (cases vm) (auto simp: has_new_bits_spec_def Let_def cov_ready_def split: if_splits)
  ultimately show ?thesis by simp
qed

lemma classify_counts_64_bytes:
  assumes "count_class_lookup16 s = count_class16" and "8 * unat (drop_bit 3 (map_size s)) \<le> length (trace_bits s)"
  shows "classify_counts_64 s = Some (s\<lparr>trace_bits :=
     map count_class_lookup8 (take (8 * unat (drop_bit 3 (map_size s))) (trace_bits s))
       @ drop (8 * unat (drop_bit 3 (map_size s))) (trace_bits s)\<rparr>)"
  using assms cov64.classify_loop [OF assms(2)] by (simp add: classify_counts_64_def cong: if_cong)

lemma skim_64_bytes:
  assumes "32 * n \<le> length cur" "32 * n \<le> length vir"
  shows "skim_64 count_class16 vir cur (32 * n) = Some (of_bool (window_hit cur vir 0 (32 * n)))"
proof -
  have "(32 * n + 31) div 32 = n" by simp
  then show ?thesis using cov64.skim_loop_bytes [of 0 n cur vir] assms by (simp add: skim_64_def)
qed

lemma classify_keeps_ready: "cov_ready n s \<Longrightarrow> length m = length (trace_bits s) \<Longrightarrow> cov_ready n (s\<lparr>trace_bits := m\<rparr>)"
  by (simp add: cov_ready_def)

lemma get_virgin_trace_bits [simp]: "get_virgin (s\<lparr>trace_bits := m\<rparr>) vm = get_virgin s vm"
  by (cases vm) simp_all

lemma any_hit_take: "any_hit (take k cur) (take k vir) \<Longrightarrow> any_hit cur vir"
  by (auto simp: any_hit_def list_ex_iff take_zip [symmetric] dest: in_set_takeD)

lemma unclassified_64_aux:
  assumes tab: "count_class_lookup16 s = init_count_class16 tab0"
    and ms: "unat (map_size s) = 32 * n" and rdy: "cov_ready (32 * n) s"
    and rms: "8 * unat (drop_bit 3 (real_map_size s + 7)) \<le> 32 * n"
  shows "\<exists>c r t u. classify_counts_64 s = Some c \<and> has_new_bits_64 c vm = Some (r, t)
     \<and> has_new_bits_unclassified_64 s vm = Some (r, u)
     \<and> (if r = 0 \<and> u \<noteq> t then u = s \<and> t = c else u = t)"
proof -
  let ?k = "8 * unat (drop_bit 3 (real_map_size s + 7))"
  have tab': "count_class_lookup16 s = count_class16" using tab by (simp add: init_count_class16)
  have ms8: "8 * unat (drop_bit 3 (map_size s)) = 32 * n" using ms by (simp add: drop_bit_3_unat)
  have len: "32 * n \<le> length (trace_bits s)" using rdy by (simp add: cov_ready_def)
  define c where "c = s\<lparr>trace_bits := map count_class_lookup8 (take (32 * n) (trace_bits s)) @ drop (32 * n) (trace_bits s)\<rparr>"
  have cl: "classify_counts_64 s = Some c"
    using classify_counts_64_bytes [OF tab'] len by (simp add: ms8 c_def)
  have rdyc: "cov_ready (32 * n) c" unfolding c_def using rdy len by (intro classify_keeps_ready) simp_all
  then have rdyk: "cov_ready ?k c" using rms by (auto simp: cov_ready_def)
  have rc: "real_map_size c = real_map_size s" by (simp add: c_def)
  have hn: "has_new_bits_64 c vm = Some (has_new_bits_spec ?k c vm)"
    using has_new_bits_64_spec [of c vm] rdyk rc by simp
  have sk: "skim_64 (count_class_lookup16 s) (get_virgin s vm) (trace_bits s) (unat (map_size s))
      = Some (of_bool (window_hit (trace_bits s) (get_virgin s vm) 0 (32 * n)))"
    using skim_64_bytes [OF len, of "get_virgin s vm"] cov_ready_virgin [OF rdy, of vm] by (simp add: tab' ms)
  show ?thesis
  proof (cases "window_hit (trace_bits s) (get_virgin s vm) 0 (32 * n)")
    case True
    obtain r t where rt: "has_new_bits_spec ?k c vm = (r, t)" by fastforce
    then have "has_new_bits_unclassified_64 s vm = Some (r, t)"
      using True cl hn sk by (simp add: has_new_bits_unclassified_64_def)
    with cl hn rt have "classify_counts_64 s = Some c \<and> has_new_bits_64 c vm = Some (r, t)
       \<and> has_new_bits_unclassified_64 s vm = Some (r, t) \<and> (if r = 0 \<and> t \<noteq> t then t = s \<and> t = c else t = t)"
      by simp
    then show ?thesis by blast
  next
    case False
    let ?cur = "take ?k (trace_bits c)" and ?vir = "take ?k (get_virgin c vm)"
    have "\<not> any_hit (take ?k (take (32 * n) (trace_bits c))) (take ?k (take (32 * n) (get_virgin c vm)))"
    proof -
      have "take (32 * n) (trace_bits c) = map count_class_lookup8 (take (32 * n) (trace_bits s))"
        and "get_virgin c vm = get_virgin s vm"
        using len by (simp_all add: c_def)
      with False show ?thesis using any_hit_take by (metis window_hit_def drop_0)
    qed
    moreover have "min ?k (32 * n) = ?k" using rms by (rule min_absorb1)
    ultimately have nh: "\<not> any_hit ?cur ?vir" by (simp only: take_take simp_thms)
    have "length ?vir = length ?cur" using rdyk cov_ready_virgin [OF rdyk, of vm] by (simp add: cov_ready_def)
    from clear_hits_not_any_hit [OF this nh] have "has_new_bits_spec ?k c vm = (0, c)"
      using nh by (simp add: has_new_bits_spec_def Let_def novelty_not_any_hit set_virgin_same)
    moreover have "has_new_bits_unclassified_64 s vm = Some (0, s)"
      using False sk by (simp add: has_new_bits_unclassified_64_def)
    ultimately have "classify_counts_64 s = Some c \<and> has_new_bits_64 c vm = Some (0, c)
       \<and> has_new_bits_unclassified_64 s vm = Some (0, s) \<and> (if (0 :: u8) = 0 \<and> s \<noteq> c then s = s \<and> c = c else s = c)"
      using cl hn by simp
    then show ?thesis by blast
  qed
qed

lemma count_loop_bytes:
  assumes f: "\<And>bs. length bs = 4 \<Longrightarrow> f (le_word bs) = of_nat (sum_list (map g bs))"
    and "length pre = 4 * p" and "length body = 4 * i"
  shows "count_loop f (pre @ body @ rest) ret p i = Some (ret + of_nat (sum_list (map g body)))"
  using assms(2,3)
proof (induction i arbitrary: p pre body ret)
  case 0
  then show ?case by simp
next
  case (Suc i)
  define b1 b2 where "b1 = take 4 body" and "b2 = drop 4 body"
  have sp: "body = b1 @ b2" "length b1 = 4" "length b2 = 4 * i"
    using Suc.prems by (simp_all add: b1_def b2_def)
  have "count_loop f ((pre @ b1) @ b2 @ rest) (ret + f (le_word b1)) (Suc p) i
     = Some (ret + f (le_word b1) + of_nat (sum_list (map g b2)))"
    by (rule Suc.IH) (use Suc.prems sp in simp_all)
  then show ?case using Suc.prems sp by (simp add: mem_simps f)
qed

lemma count_loop_prefix:
  assumes "\<And>bs. length bs = 4 \<Longrightarrow> f (le_word bs) = of_nat (sum_list (map g bs))" and "4 * i \<le> length m"
  shows "count_loop f m 0 0 i = Some (of_nat (sum_list (map g (take (4 * i) m))))"
  using count_loop_bytes [OF assms(1), of "[]" 0 "take (4 * i) m" i "drop (4 * i) m" 0] assms(2) by simp

lemma u32_byte_masks:
  "(0xff :: u32) = le_word [0xff, 0, 0, 0]" "(0xff00 :: u32) = le_word [0, 0xff, 0, 0]"
  "(0xff0000 :: u32) = le_word [0, 0, 0xff, 0]" "(0xff000000 :: u32) = le_word [0, 0, 0, 0xff]"
  "(0xffffffff :: u32) = le_word [0xff, 0xff, 0xff, 0xff]"
  by (simp_all add: le_word_Cons)

lemma len4_cases: "length bs = 4 \<Longrightarrow> (\<And>a b c d. bs = [a, b, c, d] \<Longrightarrow> P) \<Longrightarrow> P"
  by (auto simp: length_Suc_conv eval_nat_numeral)

lemma u32_le_word_inject: "length xs = 4 \<Longrightarrow> length ys = 4 \<Longrightarrow> (le_word xs :: u32) = le_word ys \<longleftrightarrow> xs = ys"
  by (rule le_word_inject) simp_all

lemma u32_le_word_eq_0: "length xs = 4 \<Longrightarrow> (le_word xs :: u32) = 0 \<longleftrightarrow> (\<forall>b\<in>set xs. b = 0)"
  by (rule le_word_eq_0_iff) simp_all

definition popcount8 :: "u8 \<Rightarrow> nat" where
  "popcount8 b = length (filter (bit b) [0..<8])"

lemma popcount32_bytes:
  assumes "length bs = 4"
  shows "popcount32 (le_word bs) = of_nat (sum_list (map popcount8 bs))"
proof -
  obtain a b c d where bs: "bs = [a, b, c, d]" using assms by (rule len4_cases)
  let ?P = "bit (le_word bs :: u32)"
  have u: "[0..<32] = [0..<8] @ map (\<lambda>i. i + 8) [0..<8] @ map (\<lambda>i. i + 16) [0..<8] @ map (\<lambda>i. i + 24) [0..<8]"
    by code_simp
  have *: "length (filter ?P (map (\<lambda>i. i + 8 * k) [0..<8])) = popcount8 (bs ! k)" if "k < 4" for k
    unfolding popcount8_def filter_map length_map comp_def
    by (rule arg_cong [where f = length], rule filter_cong) (use that assms in \<open>auto simp: bit_le_word\<close>)
  show ?thesis
    using * [of 0] * [of 1] * [of 2] * [of 3] unfolding popcount32_def u by (simp add: bs)
qed

lemma count_bits_correct:
  fixes s :: "'a afl_cov_scheme"
  defines "n \<equiv> 4 * unat (drop_bit 2 (real_map_size s + 3))"
  assumes "n \<le> length m"
  shows "count_bits s m = Some (of_nat (sum_list (map popcount8 (take n m))))"
  unfolding count_bits_def n_def
proof (rule count_loop_prefix, goal_cases)
  case (1 bs)
  moreover have "popcount32 0xffffffff = 32" by code_simp
  ultimately show ?case using popcount32_bytes [of bs] by auto
qed (use assms in simp)

lemma count_bytes_correct:
  fixes s :: "'a afl_cov_scheme"
  defines "n \<equiv> 4 * unat (drop_bit 2 (real_map_size s + 3))"
  assumes "n \<le> length m"
  shows "count_bytes s m = Some (of_nat (length (filter (\<lambda>b. b \<noteq> 0) (take n m))))"
proof -
  have "count_bytes s m = Some (of_nat (sum_list (map (\<lambda>b. of_bool (b \<noteq> 0)) (take n m))))"
    unfolding count_bytes_def n_def
  proof (rule count_loop_prefix, goal_cases)
    case (1 bs)
    then show ?case unfolding u32_byte_masks
      by (elim len4_cases) (simp add: le_word_map2_and u32_le_word_eq_0)
  qed (use assms in simp)
  then show ?thesis by (simp add: sum_list_of_bool)
qed

lemma count_non_255_bytes_correct:
  fixes s :: "'a afl_cov_scheme"
  defines "n \<equiv> 4 * unat (drop_bit 2 (real_map_size s + 3))"
  assumes "n \<le> length m"
  shows "count_non_255_bytes s m = Some (of_nat (length (filter (\<lambda>b. b \<noteq> 0xff) (take n m))))"
proof -
  have "count_non_255_bytes s m = Some (of_nat (sum_list (map (\<lambda>b. of_bool (b \<noteq> 0xff)) (take n m))))"
    unfolding count_non_255_bytes_def n_def
  proof (rule count_loop_prefix, goal_cases)
    case (1 bs)
    then show ?case unfolding u32_byte_masks
      by (elim len4_cases) (simp add: le_word_map2_and u32_le_word_inject)
  qed (use assms in simp)
  then show ?thesis by (simp add: sum_list_of_bool)
qed

lemma minimize_bits_loop_correct:
  assumes "i + k \<le> length src" and "i + k \<le> 8 * length dst"
  shows "\<exists>dst'. minimize_bits_loop dst src i k = Some dst' \<and> length dst' = length dst \<and>
     (\<forall>q<length dst. \<forall>j<8. bit (dst' ! q) j \<longleftrightarrow>
        bit (dst ! q) j \<or> (i \<le> 8 * q + j \<and> 8 * q + j < i + k \<and> src ! (8 * q + j) \<noteq> 0))"
  using assms
proof (induction k arbitrary: i dst)
  case 0
  then show ?case by auto
next
  case (Suc k)
  define d1 where "d1 = (if src ! i \<noteq> 0 then dst[i div 8 := dst ! (i div 8) OR push_bit (i mod 8) 1] else dst)"
  have "minimize_bits_loop dst src i (Suc k) = minimize_bits_loop d1 src (Suc i) k" and len: "length d1 = length dst"
    using Suc.prems by (simp_all add: d1_def)
  moreover have bits: "bit (d1 ! q) j \<longleftrightarrow> bit (dst ! q) j \<or> (8 * q + j = i \<and> src ! i \<noteq> 0)"
    if "q < length dst" "j < 8" for q j
  proof (cases "q = i div 8")
    case True
    then have "8 * q + j = i \<longleftrightarrow> j = i mod 8" by presburger
    with True that show ?thesis by (auto simp: d1_def bit_simps)
  next
    case False
    then have "8 * q + j \<noteq> i" using that by auto
    with False that show ?thesis by (simp add: d1_def)
  qed
  moreover obtain d' where "minimize_bits_loop d1 src (Suc i) k = Some d'" "length d' = length d1"
    "\<forall>q<length d1. \<forall>j<8. bit (d' ! q) j \<longleftrightarrow> bit (d1 ! q) j \<or> (Suc i \<le> 8 * q + j \<and> 8 * q + j < Suc i + k \<and> src ! (8 * q + j) \<noteq> 0)"
    using Suc.IH [of "Suc i" d1] Suc.prems len by auto
  ultimately show ?case
    by (intro exI [of _ d']) (auto simp: Suc_le_eq le_less)
qed

section \<open>Properties\<close>

lemma has_new_bits_64_rounding:
  "real_map_size s \<le> 0xfffffff8 \<Longrightarrow> 8 * unat (drop_bit 3 (real_map_size s + 7)) = (unat (real_map_size s) + 7) div 8 * 8"
  by (subst drop_bit_3_unat, subst unat_plus_simple [THEN iffD1]) (auto simp: word_le_nat_alt unat_word_ariths)

lemma has_new_bits_32_rounding:
  "real_map_size s \<le> 0xfffffff8 \<Longrightarrow> 4 * unat (drop_bit 2 (real_map_size s + 3)) = (unat (real_map_size s) + 3) div 4 * 4"
  by (subst drop_bit_2_unat, subst unat_plus_simple [THEN iffD1]) (auto simp: word_le_nat_alt unat_word_ariths)

text \<open>A concrete state: a map of 32 bytes with one new and one known edge.\<close>

definition cov_example :: afl_cov where
  "cov_example = \<lparr>trace_bits = [3, 0, 5] @ replicate 29 0, map_size = 32, real_map_size = 27,
     virgin_bits = [0xfb, 0xff, 0xff] @ replicate 29 0xff, virgin_tmout = replicate 32 0xff,
     virgin_crash = replicate 32 0xff, bitmap_changed = 0,
     count_class_lookup16 = init_count_class16 (\<lambda>_. 0)\<rparr>"

lemma novelty_eq_2:
  "length cur = length vir \<Longrightarrow> novelty cur vir = 2 \<longleftrightarrow> (\<exists>i<length cur. cur ! i \<noteq> 0 \<and> vir ! i = 0xff)"
  by (auto simp: novelty_def pristine_hit_def list_ex_length)

lemma novelty_eq_0:
  "length cur = length vir \<Longrightarrow> novelty cur vir = 0 \<longleftrightarrow> (\<forall>i<length cur. cur ! i AND vir ! i = 0)"
  using pristine_any_hit [of cur vir] by (auto simp: novelty_def any_hit_def list_ex_length)

lemma novelty_le_2: "novelty cur vir \<le> 2"
  by (simp add: novelty_def word_le_nat_alt)

lemma has_new_bits_spec_fields:
  assumes "has_new_bits_spec n s vm = (ret, s')"
  shows "ret = novelty (take n (trace_bits s)) (take n (get_virgin s vm))"
    and "get_virgin s' vm' = (if vm' = vm
           then clear_hits (take n (get_virgin s vm)) (take n (trace_bits s)) @ drop n (get_virgin s vm)
           else get_virgin s vm')"
    and "trace_bits s' = trace_bits s" and "real_map_size s' = real_map_size s"
    and "bitmap_changed s' = (if ret \<noteq> 0 \<and> vm = Virgin_Bits then 1 else bitmap_changed s)"
  using assms by (auto simp: has_new_bits_spec_def Let_def simp del: set_virgin.simps get_virgin.simps split: if_splits)

lemma has_new_bits_spec_index:
  assumes "cov_ready n s"
  shows "case has_new_bits_spec n s vm of (ret, s') \<Rightarrow>
     ret \<le> 2
   \<and> (ret = 2 \<longleftrightarrow> (\<exists>i<n. trace_bits s ! i \<noteq> 0 \<and> get_virgin s vm ! i = 0xff))
   \<and> (ret = 0 \<longleftrightarrow> (\<forall>i<n. trace_bits s ! i AND get_virgin s vm ! i = 0))
   \<and> length (get_virgin s' vm) = length (get_virgin s vm)
   \<and> (\<forall>i<length (get_virgin s vm). get_virgin s' vm ! i =
        (if i < n then get_virgin s vm ! i AND NOT (trace_bits s ! i) else get_virgin s vm ! i))
   \<and> (\<forall>vm'. vm' \<noteq> vm \<longrightarrow> get_virgin s' vm' = get_virgin s vm')
   \<and> trace_bits s' = trace_bits s
   \<and> bitmap_changed s' = (if ret \<noteq> 0 \<and> vm = Virgin_Bits then 1 else bitmap_changed s)"
proof (split prod.split, intro allI impI conjI)
  fix ret s' assume sp: "has_new_bits_spec n s vm = (ret, s')"
  have len: "n \<le> length (trace_bits s)" "n \<le> length (get_virgin s vm)"
    using assms cov_ready_virgin [OF assms, of vm] by (simp_all add: cov_ready_def)
  note f = has_new_bits_spec_fields [OF sp]
  show "ret \<le> 2" by (simp add: f(1) novelty_le_2)
  show "ret = 2 \<longleftrightarrow> (\<exists>i<n. trace_bits s ! i \<noteq> 0 \<and> get_virgin s vm ! i = 0xff)"
    unfolding f(1) using len by (subst novelty_eq_2) auto
  show "ret = 0 \<longleftrightarrow> (\<forall>i<n. trace_bits s ! i AND get_virgin s vm ! i = 0)"
    unfolding f(1) using len by (subst novelty_eq_0) auto
  show "length (get_virgin s' vm) = length (get_virgin s vm)"
    using len by (simp add: f(2))
  show "get_virgin s' vm ! i = (if i < n then get_virgin s vm ! i AND NOT (trace_bits s ! i) else get_virgin s vm ! i)"
    if "i < length (get_virgin s vm)" for i
    using len that by (simp add: f(2) clear_hits_def nth_append)
qed (auto simp: has_new_bits_spec_fields)

text \<open>C1. The 64-bit \<open>has_new_bits\<close> is memory safe on buffers that cover the rounded-up map and computes,
  word by word, exactly its byte-level meaning: 2 if some hit byte is still pristine (\<open>0xff\<close>) in the
  virgin map, 0 if no trace bit meets a virgin bit, else 1; the virgin map loses exactly the trace's
  bits, the other maps and the trace stay, and only finds in \<open>virgin_bits\<close> set \<open>bitmap_changed\<close>.\<close>

theorem has_new_bits_64_correct:
  assumes "real_map_size s \<le> 0xfffffff8"
    and "cov_ready ((unat (real_map_size s) + 7) div 8 * 8) s"
  defines "n \<equiv> (unat (real_map_size s) + 7) div 8 * 8"
  shows "\<exists>ret s'. has_new_bits_64 s vm = Some (ret, s')
   \<and> ret \<le> 2
   \<and> (ret = 2 \<longleftrightarrow> (\<exists>i<n. trace_bits s ! i \<noteq> 0 \<and> get_virgin s vm ! i = 0xff))
   \<and> (ret = 0 \<longleftrightarrow> (\<forall>i<n. trace_bits s ! i AND get_virgin s vm ! i = 0))
   \<and> length (get_virgin s' vm) = length (get_virgin s vm)
   \<and> (\<forall>i<length (get_virgin s vm). get_virgin s' vm ! i =
        (if i < n then get_virgin s vm ! i AND NOT (trace_bits s ! i) else get_virgin s vm ! i))
   \<and> (\<forall>vm'. vm' \<noteq> vm \<longrightarrow> get_virgin s' vm' = get_virgin s vm')
   \<and> trace_bits s' = trace_bits s
   \<and> bitmap_changed s' = (if ret \<noteq> 0 \<and> vm = Virgin_Bits then 1 else bitmap_changed s)"
  using has_new_bits_64_spec [of s vm] has_new_bits_spec_index [OF assms(2), of vm] assms(2)
    has_new_bits_64_rounding [OF assms(1)]
  unfolding n_def by (cases "has_new_bits_spec ((unat (real_map_size s) + 7) div 8 * 8) s vm") simp

theorem has_new_bits_64_correct_witness:
  "\<exists>ret s'. has_new_bits_64 cov_example Virgin_Bits = Some (ret, s')
     \<and> (ret = 2 \<longleftrightarrow> (\<exists>i<32. trace_bits cov_example ! i \<noteq> 0 \<and> virgin_bits cov_example ! i = 0xff))
     \<and> bitmap_changed s' = (if ret \<noteq> 0 \<and> Virgin_Bits = Virgin_Bits then 1 else bitmap_changed cov_example)"
proof -
  have r: "real_map_size cov_example \<le> 0xfffffff8" and n: "(unat (real_map_size cov_example) + 7) div 8 * 8 = 32"
    by (simp_all add: cov_example_def)
  have "cov_ready ((unat (real_map_size cov_example) + 7) div 8 * 8) cov_example"
    by (simp add: cov_ready_def cov_example_def)
  from has_new_bits_64_correct [OF r this, of Virgin_Bits] show ?thesis
    unfolding n get_virgin.simps by blast
qed

text \<open>C2. The 64-bit and the 32-bit flavour of \<open>has_new_bits\<close> are interchangeable when the map size is a
  multiple of eight.\<close>

theorem has_new_bits_32_eq_64:
  assumes "real_map_size s \<le> 0xfffffff8" and "unat (real_map_size s) mod 8 = 0"
    and "cov_ready (unat (real_map_size s)) s"
  shows "has_new_bits_32 s vm = has_new_bits_64 s vm"
proof -
  have "(unat (real_map_size s) + 7) div 8 * 8 = unat (real_map_size s)"
    "(unat (real_map_size s) + 3) div 4 * 4 = unat (real_map_size s)"
    using assms(2) by presburger+
  then show ?thesis
    using has_new_bits_64_spec [of s vm] has_new_bits_32_spec [of s vm] assms(1,3)
      has_new_bits_64_rounding [OF assms(1)] has_new_bits_32_rounding [OF assms(1)] by simp
qed

theorem has_new_bits_32_eq_64_witness:
  "has_new_bits_32 (cov_example\<lparr>real_map_size := 24\<rparr>) Virgin_Crash
     = has_new_bits_64 (cov_example\<lparr>real_map_size := 24\<rparr>) Virgin_Crash"
  by (rule has_new_bits_32_eq_64) (simp_all add: cov_example_def cov_ready_def)

text \<open>As its comment promises, a second \<open>has_new_bits\<close> on the same trace always returns 0 and changes
  nothing.\<close>

theorem has_new_bits_64_again:
  assumes "real_map_size s \<le> 0xfffffff8"
    and "cov_ready ((unat (real_map_size s) + 7) div 8 * 8) s"
    and "has_new_bits_64 s vm = Some (ret, s')"
  shows "has_new_bits_64 s' vm = Some (0, s')"
proof -
  let ?n = "(unat (real_map_size s) + 7) div 8 * 8"
  note round = has_new_bits_64_rounding [OF assms(1)]
  have sp: "has_new_bits_spec ?n s vm = (ret, s')"
    using has_new_bits_64_spec [of s vm] assms(2,3) round by simp
  have "real_map_size s' = real_map_size s"
    using sp by (auto simp: has_new_bits_spec_def Let_def split: if_splits)
  then show ?thesis
    using has_new_bits_64_spec [of s' vm] has_new_bits_spec_again [OF assms(2) sp] round by simp
qed

theorem has_new_bits_64_again_witness:
  "\<exists>s'. has_new_bits_64 cov_example Virgin_Bits = Some (2, s') \<and> has_new_bits_64 s' Virgin_Bits = Some (0, s')"
proof -
  have 1: "real_map_size cov_example \<le> 0xfffffff8" by (simp add: cov_example_def)
  have 2: "cov_ready ((unat (real_map_size cov_example) + 7) div 8 * 8) cov_example"
    by (simp add: cov_example_def cov_ready_def)
  obtain s' where 3: "has_new_bits_64 cov_example Virgin_Bits = Some (2, s')"
    using has_new_bits_64_spec [of cov_example Virgin_Bits] 2
    by (simp add: cov_example_def has_new_bits_spec_def Let_def novelty_def pristine_hit_def drop_bit_3_unat)
  from has_new_bits_64_again [OF 1 2 3] 3 show ?thesis by blast
qed

text \<open>C3. \<open>has_new_bits_unclassified\<close> (skim first, classify and compare only on a hit) gives the same verdict
  and the same maps as classifying first and calling \<open>has_new_bits\<close>; when they differ at all, the verdict is 0
  and the state was left as it was, unclassified.\<close>

theorem has_new_bits_unclassified_64_correct:
  assumes "count_class_lookup16 s = init_count_class16 tab0"
    and "unat (map_size s) = 32 * n" and "cov_ready (32 * n) s"
    and "8 * unat (drop_bit 3 (real_map_size s + 7)) \<le> 32 * n"
  shows "\<exists>c r t u. classify_counts_64 s = Some c \<and> has_new_bits_64 c vm = Some (r, t)
     \<and> has_new_bits_unclassified_64 s vm = Some (r, u)
     \<and> (if r = 0 \<and> u \<noteq> t then u = s \<and> t = c else u = t)"
  by (rule unclassified_64_aux [OF assms])

theorem has_new_bits_unclassified_64_witness:
  "\<exists>c r t u. classify_counts_64 cov_example = Some c \<and> has_new_bits_64 c Virgin_Bits = Some (r, t)
     \<and> has_new_bits_unclassified_64 cov_example Virgin_Bits = Some (r, u)
     \<and> (if r = 0 \<and> u \<noteq> t then u = cov_example \<and> t = c else u = t)"
  by (rule has_new_bits_unclassified_64_correct [where n = 1 and ?tab0.0 = "\<lambda>_. 0"])
    (simp_all add: cov_example_def cov_ready_def drop_bit_3_unat)

text \<open>C4. The AVX2 and AVX-512 versions of \<open>skim\<close> return what the portable loop returns, for any classification
  table, whenever the map size is a multiple of 64 bytes and the trace covers it.\<close>

theorem skim_vector_eq:
  assumes "bytes = 64 * n" and "bytes \<le> length current"
  shows "skim_avx2 tab virgin current bytes = skim_64 tab virgin current bytes
       \<and> skim_avx512 tab virgin current bytes = skim_64 tab virgin current bytes"
proof -
  have "(64 * n + 31) div 32 = 2 * n" by simp
  then show ?thesis
    using assms skim_avx2_loop_eq [of 0 "2 * n" current tab virgin] skim_avx512_loop_eq [of 0 n current tab virgin]
    by (simp add: skim_avx2_def skim_avx512_def skim_64_def)
qed

theorem skim_vector_eq_witness:
  "skim_avx2 count_class16 (replicate 64 0xff) (replicate 63 0 @ [1]) 64
     = skim_64 count_class16 (replicate 64 0xff) (replicate 63 0 @ [1]) 64
   \<and> skim_avx512 count_class16 (replicate 64 0xff) (replicate 63 0 @ [1]) 64
     = skim_64 count_class16 (replicate 64 0xff) (replicate 63 0 @ [1]) 64"
  by (rule skim_vector_eq [where n = 1]) simp_all

text \<open>The three counters of the status screen count, over the map rounded up to whole words, the set bits,
  the non-zero bytes and the non-\<open>0xff\<close> bytes, modulo \<open>2 ^ 32\<close>.\<close>

theorem bitmap_counters_correct:
  assumes "real_map_size s \<le> 0xfffffff8" and "(unat (real_map_size s) + 3) div 4 * 4 \<le> length m"
  defines "n \<equiv> (unat (real_map_size s) + 3) div 4 * 4"
  shows "count_bits s m = Some (of_nat (sum_list (map popcount8 (take n m))))
       \<and> count_bytes s m = Some (of_nat (length (filter (\<lambda>b. b \<noteq> 0) (take n m))))
       \<and> count_non_255_bytes s m = Some (of_nat (length (filter (\<lambda>b. b \<noteq> 0xff) (take n m))))"
  using count_bits_correct [of s m] count_bytes_correct [of s m] count_non_255_bytes_correct [of s m]
    assms(2) has_new_bits_32_rounding [OF assms(1)] unfolding n_def by simp

theorem bitmap_counters_witness:
  "count_bits cov_example (virgin_bits cov_example)
     = Some (of_nat (sum_list (map popcount8 (take 28 (virgin_bits cov_example)))))"
proof -
  have "real_map_size cov_example \<le> 0xfffffff8"
    and "(unat (real_map_size cov_example) + 3) div 4 * 4 \<le> length (virgin_bits cov_example)"
    and n: "(unat (real_map_size cov_example) + 3) div 4 * 4 = 28"
    by (simp_all add: cov_example_def)
  from bitmap_counters_correct [OF this(1,2)] show ?thesis unfolding n by blast
qed

text \<open>C5. \<open>minimize_bits\<close> compacts the trace to one bit per byte: it writes no byte outside a buffer of
  \<open>\<lceil>map_size / 8\<rceil>\<close> bytes and sets exactly the bits of the non-zero trace bytes.\<close>

theorem minimize_bits_correct:
  assumes "unat (map_size s) \<le> length src" and "unat (map_size s) \<le> 8 * length dst"
  shows "\<exists>dst'. minimize_bits s dst src = Some dst' \<and> length dst' = length dst \<and>
     (\<forall>q<length dst. \<forall>j<8. bit (dst' ! q) j \<longleftrightarrow>
        bit (dst ! q) j \<or> (8 * q + j < unat (map_size s) \<and> src ! (8 * q + j) \<noteq> 0))"
  using minimize_bits_loop_correct [of 0 "unat (map_size s)" src dst] assms by (simp add: minimize_bits_def)

theorem minimize_bits_witness:
  "\<exists>dst'. minimize_bits cov_example (replicate 4 0) (trace_bits cov_example) = Some dst' \<and> length dst' = 4 \<and>
     (\<forall>q<4. \<forall>j<8. bit (dst' ! q) j \<longleftrightarrow>
        bit (replicate 4 (0 :: u8) ! q) j
          \<or> (8 * q + j < unat (map_size cov_example) \<and> trace_bits cov_example ! (8 * q + j) \<noteq> 0))"
  using minimize_bits_correct [of cov_example "trace_bits cov_example" "replicate 4 0"]
  by (simp add: cov_example_def)

end
