(* ===== verification/Alloc.thy ===== *)
theory Alloc
  imports Prelude
begin

text \<open>
  The growing buffers of \<^verbatim>\<open>include/alloc-inl.h\<close>. A buffer is \<open>None\<close> (the null pointer) or its bytes without the size
  field in front of them, so \<open>complete_size\<close> is the length plus 8. \<open>fails\<close> says whether \<open>realloc\<close> fails.
\<close>

definition AFL_ALLOC_SIZE_OFFSET :: u64 where "AFL_ALLOC_SIZE_OFFSET = 8"

definition INITIAL_GROWTH_SIZE :: u64 where "INITIAL_GROWTH_SIZE = 64"

definition next_pow2 :: "u64 \<Rightarrow> u64" where
  "next_pow2 n =
     (let out = n - 1;
          out = out OR drop_bit 1 out;
          out = out OR drop_bit 2 out;
          out = out OR drop_bit 4 out;
          out = out OR drop_bit 8 out;
          out = out OR drop_bit 16 out
      in out + 1)"

definition complete_size :: "mem option \<Rightarrow> u64" where
  "complete_size buf = (case buf of None \<Rightarrow> 0 | Some m \<Rightarrow> word_of_nat (length m) + AFL_ALLOC_SIZE_OFFSET)"

definition afl_alloc_bufsize :: "mem \<Rightarrow> u64" where
  "afl_alloc_bufsize m = complete_size (Some m) - AFL_ALLOC_SIZE_OFFSET"

text \<open>\<open>realloc\<close> to \<open>n\<close> bytes, the size field included: the common prefix stays, \<open>fill\<close> is behind it.\<close>

definition resize :: "mem option \<Rightarrow> u64 \<Rightarrow> mem \<Rightarrow> mem" where
  "resize buf n fill =
     (let old = (case buf of None \<Rightarrow> [] | Some m \<Rightarrow> m); k = unat (n - AFL_ALLOC_SIZE_OFFSET)
      in take k (old @ take (k - length old) fill))"

definition afl_realloc :: "bool \<Rightarrow> mem option \<Rightarrow> u64 \<Rightarrow> mem option" where
  "afl_realloc fails buf size_needed0 =
     (let size_needed = size_needed0 + AFL_ALLOC_SIZE_OFFSET
      in if complete_size buf \<ge> size_needed then buf
         else
           let next_size =
             (if size_needed < INITIAL_GROWTH_SIZE then INITIAL_GROWTH_SIZE
              else if next_pow2 size_needed = 0 then size_needed else next_pow2 size_needed)
           in if fails then None else Some (resize buf next_size (replicate (unat next_size) 0)))"

text \<open>\<open>garbage\<close> is what \<open>realloc\<close> leaves in memory it has not copied.\<close>

definition afl_realloc_exact :: "bool \<Rightarrow> mem \<Rightarrow> mem option \<Rightarrow> u64 \<Rightarrow> mem option" where
  "afl_realloc_exact fails garbage buf size_needed0 =
     (let size_needed = size_needed0 + AFL_ALLOC_SIZE_OFFSET
      in if complete_size buf = size_needed then buf
         else if fails then None else Some (resize buf size_needed garbage))"

section \<open>Rounding up\<close>

text \<open>Bit \<open>k\<close> of \<open>smear w n\<close>: some bit at \<open>k\<close> up to \<open>k + n - 1\<close> is set.\<close>

definition smear :: "u64 \<Rightarrow> nat \<Rightarrow> u64 \<Rightarrow> bool" where
  "smear w n v \<longleftrightarrow> (\<forall>k. bit v k \<longleftrightarrow> (\<exists>j<n. bit w (k + j)))"

lemma smear_step:
  assumes "smear w n v"
  shows "smear w (2 * n) (v OR drop_bit n v)"
  unfolding smear_def
proof
  fix k
  have "bit (v OR drop_bit n v) k \<longleftrightarrow> (\<exists>j<n. bit w (k + j)) \<or> (\<exists>j<n. bit w (k + n + j))"
    using assms unfolding smear_def by (simp add: bit_or_iff bit_drop_bit_eq add.commute)
  also have "\<dots> \<longleftrightarrow> (\<exists>j<2 * n. bit w (k + j))"
  proof
    assume "\<exists>j<2 * n. bit w (k + j)"
    then obtain j where j: "j < 2 * n" "bit w (k + j)" by blast
    show "(\<exists>j<n. bit w (k + j)) \<or> (\<exists>j<n. bit w (k + n + j))"
    proof (cases "j < n")
      case False
      then have "j - n < n" "k + n + (j - n) = k + j" using j(1) by auto
      with j(2) show ?thesis by metis
    qed (use j in blast)
  next
    assume "(\<exists>j<n. bit w (k + j)) \<or> (\<exists>j<n. bit w (k + n + j))"
    then show "\<exists>j<2 * n. bit w (k + j)"
    proof
      assume "\<exists>j<n. bit w (k + n + j)"
      then obtain j where "j < n" "bit w (k + n + j)" by blast
      then show ?thesis by (intro exI [of _ "n + j"]) (simp add: add.assoc)
    next
      assume "\<exists>j<n. bit w (k + j)"
      then obtain j where "j < n" "bit w (k + j)" by blast
      then show ?thesis by (intro exI [of _ j]) simp
    qed
  qed
  finally show "bit (v OR drop_bit n v) k \<longleftrightarrow> (\<exists>j<2 * n. bit w (k + j))" .
qed

lemma next_pow2_smear: "\<exists>v. next_pow2 n = v + 1 \<and> smear (n - 1) 32 v"
proof -
  have 1: "smear (n - 1) 1 (n - 1)" by (simp add: smear_def)
  have "smear (n - 1) 2 (n - 1 OR drop_bit 1 (n - 1))" using smear_step [OF 1] by simp
  from smear_step [OF this] have "smear (n - 1) 4 (let out = n - 1; out = out OR drop_bit 1 out in out OR drop_bit 2 out)"
    by (simp add: Let_def)
  from smear_step [OF this] have "smear (n - 1) 8 (let out = n - 1; out = out OR drop_bit 1 out; out = out OR drop_bit 2 out
      in out OR drop_bit 4 out)" by (simp add: Let_def)
  from smear_step [OF this] have "smear (n - 1) 16 (let out = n - 1; out = out OR drop_bit 1 out; out = out OR drop_bit 2 out;
      out = out OR drop_bit 4 out in out OR drop_bit 8 out)" by (simp add: Let_def)
  from smear_step [OF this] show ?thesis unfolding next_pow2_def Let_def by (intro exI conjI) (rule refl, simp)
qed

lemma smear_ge:
  assumes "smear w n v" and "0 < n"
  shows "w \<le> v"
proof -
  have "w AND v = w"
    by (rule bit_eqI) (use assms in \<open>fastforce simp: smear_def bit_and_iff\<close>)
  then show ?thesis by (metis word_and_le1)
qed

text \<open>Below \<open>2 ^ 32\<close> the highest set bit is smeared over everything below it.\<close>

lemma smear_mask:
  assumes "smear w 32 v" and "2 ^ p \<le> unat w" and "unat w < 2 ^ Suc p" and "p < 32"
  shows "unat v = 2 ^ Suc p - 1"
proof -
  have bits: "bit w k \<longleftrightarrow> odd (unat w div 2 ^ k)" for k
    by (simp add: bit_iff_odd [symmetric] bit_unsigned_iff)
  have "unat w div 2 ^ p = 1" using assms(2,3) by (simp add: div_nat_eqI)
  then have top: "bit w p" by (simp add: bits)
  have none: "\<not> bit w k" if "p < k" for k
  proof -
    have "(2 :: nat) ^ Suc p \<le> 2 ^ k" using that by (intro power_increasing) simp_all
    then show ?thesis using assms(3) by (simp add: bits)
  qed
  have "bit v k \<longleftrightarrow> k < Suc p" for k
  proof (cases "k \<le> p")
    case True
    then have "p - k < 32" "k + (p - k) = p" using assms(4) by simp_all
    with top assms(1) True show ?thesis unfolding smear_def by (metis less_Suc_eq_le)
  next
    case False
    then show ?thesis using none assms(1) by (simp add: smear_def)
  qed
  then have "unat v = mask (Suc p)" by (intro bit_eqI) (simp add: bit_mask_iff bit_unsigned_iff)
  then show ?thesis by (simp add: mask_eq_exp_minus_1)
qed

lemma exp_bracket: "0 < (x::nat) \<Longrightarrow> \<exists>p. 2 ^ p \<le> x \<and> x < 2 ^ Suc p"
proof (induction x rule: less_induct)
  case (less x)
  show ?case
  proof (cases "x = 1")
    case True
    then show ?thesis by (intro exI [of _ 0]) simp
  next
    case False
    with less.prems have "x div 2 < x" "0 < x div 2" by auto
    with less.IH obtain p where "2 ^ p \<le> x div 2" "x div 2 < 2 ^ Suc p" by blast
    then show ?thesis by (intro exI [of _ "Suc p"]) auto
  qed
qed

lemma next_pow2_least:
  assumes "0 < unat n" and "unat n \<le> 2 ^ 32"
  shows "\<exists>p\<le>32. unat (next_pow2 n) = 2 ^ p \<and> unat n \<le> 2 ^ p \<and> (p = 0 \<or> 2 ^ (p - 1) < unat n)"
proof -
  obtain v where v: "next_pow2 n = v + 1" "smear (n - 1) 32 v" using next_pow2_smear by blast
  have n1: "unat (n - 1) = unat n - 1" using assms(1) by (intro unat_minus_one) (auto simp: unat_eq_0)
  show ?thesis
  proof (cases "unat n = 1")
    case True
    then have "n - 1 = 0" using n1 by (simp add: unat_eq_0)
    then have "v = 0" using v(2) by (intro bit_eqI) (simp add: smear_def)
    then show ?thesis using True v(1) by (intro exI [of _ 0]) simp
  next
    case False
    then have "0 < unat (n - 1)" using n1 assms(1) by simp
    then obtain p where p: "2 ^ p \<le> unat (n - 1)" "unat (n - 1) < 2 ^ Suc p" using exp_bracket by blast
    have "(2 :: nat) ^ p < 2 ^ 32" using p(1) n1 assms by linarith
    then have p32: "p < 32" by (rule power_less_imp_less_exp [rotated]) simp
    have uv: "unat v = 2 ^ Suc p - 1" using smear_mask [OF v(2) p p32] .
    have "(2 :: nat) ^ Suc p \<le> 2 ^ 32" using p32 by (intro power_increasing) simp_all
    then have "unat v + 1 < 2 ^ 64" using uv by simp
    then have "unat (v + 1) = 2 ^ Suc p" using uv by (subst unat_add_lem [THEN iffD1]) simp_all
    moreover have "unat n \<le> 2 ^ Suc p" "2 ^ p < unat n" using p n1 assms(1) by linarith+
    ultimately show ?thesis using v(1) p32 by (intro exI [of _ "Suc p"]) simp
  qed
qed

lemma next_pow2_ge: "next_pow2 n \<noteq> 0 \<Longrightarrow> 0 < n \<Longrightarrow> n \<le> next_pow2 n"
proof -
  assume n: "next_pow2 n \<noteq> 0" "0 < n"
  obtain v where v: "next_pow2 n = v + 1" "smear (n - 1) 32 v" using next_pow2_smear by blast
  have "n - 1 \<le> v" using smear_ge [OF v(2)] by simp
  then have "unat n - 1 \<le> unat v" using n(2) by (simp add: word_le_nat_alt unat_minus_one unat_gt_0)
  moreover have "unat (v + 1) = unat v + 1" using n(1) v(1) unatSuc [of v] by (simp add: add.commute)
  ultimately show ?thesis using v(1) by (simp add: word_le_nat_alt)
qed

section \<open>Properties\<close>

definition contents :: "mem option \<Rightarrow> mem" where
  "contents buf = (case buf of None \<Rightarrow> [] | Some m \<Rightarrow> m)"

lemma resize_grows:
  assumes "length (contents buf) \<le> unat n - 8" and "8 \<le> unat n"
  shows "resize buf n (replicate (unat n) 0) = contents buf @ replicate (unat n - 8 - length (contents buf)) 0"
proof -
  have "unat (n - AFL_ALLOC_SIZE_OFFSET) = unat n - 8"
    using assms(2) by (subst unat_sub) (simp_all add: AFL_ALLOC_SIZE_OFFSET_def word_le_nat_alt)
  then show ?thesis using assms by (simp add: resize_def contents_def Let_def)
qed

lemma growth_size:
  assumes "8 \<le> unat n"
  defines "next_size \<equiv> (if n < INITIAL_GROWTH_SIZE then INITIAL_GROWTH_SIZE
    else if next_pow2 n = 0 then n else next_pow2 n)"
  shows "unat n \<le> unat next_size" and "unat n \<le> 2 ^ 32 \<Longrightarrow> \<exists>p. unat next_size = 2 ^ p"
proof -
  have pos: "0 < n" using assms(1) by (simp add: word_less_nat_alt)
  show "unat n \<le> unat next_size"
    using next_pow2_ge [OF _ pos] by (auto simp: next_size_def word_le_nat_alt word_less_nat_alt)
  assume le: "unat n \<le> 2 ^ 32"
  obtain p where p: "unat (next_pow2 n) = 2 ^ p" using next_pow2_least [OF _ le] assms(1) by auto
  then have nz: "next_pow2 n \<noteq> 0" by (auto simp: unat_eq_0 [symmetric])
  show "\<exists>p. unat next_size = 2 ^ p"
  proof (cases "n < INITIAL_GROWTH_SIZE")
    case True
    then show ?thesis by (intro exI [of _ 6]) (simp add: next_size_def INITIAL_GROWTH_SIZE_def)
  next
    case False
    then show ?thesis using p nz by (intro exI [of _ p]) (simp add: next_size_def)
  qed
qed

lemma afl_realloc_spec:
  assumes "unat size_needed + 8 < 2 ^ 64" and "length (contents buf) + 8 < 2 ^ 64"
  shows "case afl_realloc fails buf size_needed of
           None \<Rightarrow> fails
         | Some m \<Rightarrow> unat size_needed \<le> length m
             \<and> (\<exists>k. m = contents buf @ replicate k 0)
             \<and> (buf \<noteq> None \<and> unat size_needed \<le> length (contents buf) \<longrightarrow> m = contents buf)
             \<and> (buf \<noteq> Some m \<and> unat size_needed + 8 \<le> 2 ^ 32 \<longrightarrow> (\<exists>p. length m + 8 = 2 ^ p))"
proof -
  define n where "n = size_needed + AFL_ALLOC_SIZE_OFFSET"
  have n: "unat n = unat size_needed + 8"
    unfolding n_def using assms(1) by (subst unat_add_lem [THEN iffD1]) (simp_all add: AFL_ALLOC_SIZE_OFFSET_def)
  have cs: "unat (complete_size buf) = (if buf = None then 0 else length (contents buf) + 8)"
  proof (cases buf)
    case (Some m)
    then have "unat (word_of_nat (length m) :: u64) = length m"
      using assms(2) by (simp add: contents_def unsigned_of_nat take_bit_nat_eq_self)
    then show ?thesis using Some assms(2)
      by (simp add: complete_size_def contents_def AFL_ALLOC_SIZE_OFFSET_def) (subst unat_add_lem [THEN iffD1], simp_all)
  qed (simp add: complete_size_def)
  show ?thesis
  proof (cases "n \<le> complete_size buf")
    case True
    then have "buf \<noteq> None" and "unat size_needed \<le> length (contents buf)"
      using n cs by (auto simp: word_le_nat_alt split: if_splits)
    then show ?thesis using True by (auto simp: afl_realloc_def n_def [symmetric] contents_def)
  next
    case False
    define k where "k = (if n < INITIAL_GROWTH_SIZE then INITIAL_GROWTH_SIZE
      else if next_pow2 n = 0 then n else next_pow2 n)"
    have k: "unat n \<le> unat k" "unat n \<le> 2 ^ 32 \<Longrightarrow> \<exists>p. unat k = 2 ^ p"
      using growth_size [of n] n by (simp_all add: k_def)
    have old: "length (contents buf) < unat size_needed \<or> buf = None"
      using False n cs by (auto simp: word_le_nat_alt split: if_splits)
    then have fit: "length (contents buf) \<le> unat k - 8" using k(1) n by (auto simp: contents_def)
    have "afl_realloc fails buf size_needed = (if fails then None else Some (resize buf k (replicate (unat k) 0)))"
      using False by (simp add: afl_realloc_def Let_def n_def [symmetric] k_def)
    moreover have "resize buf k (replicate (unat k) 0) = contents buf @ replicate (unat k - 8 - length (contents buf)) 0"
      using k(1) n by (intro resize_grows [OF fit]) simp
    ultimately show ?thesis using k n fit old by auto
  qed
qed

text \<open>C35. \<open>afl_realloc\<close> never returns a buffer that is too small: it returns null only when
  \<open>realloc\<close> fails, and otherwise the result has at least the requested size, starts with the whole old contents, and
  everything behind them is zero; a buffer that is large enough is returned as it is. A new buffer for a request up to 4 GB has a
  power of two as its size (the size field in front included), so repeated growth is exponential. This includes a request for 0
  bytes, for which the comment above the function announces a null result and a freed buffer: the code has no such case, keeps the
  buffer and returns it, or a new one when there is none.\<close>

theorem afl_realloc_correct:
  assumes "unat size_needed + 8 < 2 ^ 64" and "length (contents buf) + 8 < 2 ^ 64"
  shows "case afl_realloc fails buf size_needed of
           None \<Rightarrow> fails
         | Some m \<Rightarrow> unat size_needed \<le> length m
             \<and> (\<exists>k. m = contents buf @ replicate k 0)
             \<and> (buf \<noteq> None \<and> unat size_needed \<le> length (contents buf) \<longrightarrow> m = contents buf)
             \<and> (buf \<noteq> Some m \<and> unat size_needed + 8 \<le> 2 ^ 32 \<longrightarrow> (\<exists>p. length m + 8 = 2 ^ p))"
  by (rule afl_realloc_spec [OF assms])

theorem afl_realloc_witness: "afl_realloc False (Some [1, 2]) 100 = Some ([1, 2] @ replicate 118 0)"
proof -
  have "case afl_realloc False (Some [1, 2]) 100 of None \<Rightarrow> False
         | Some m \<Rightarrow> (\<exists>k. m = [1, 2] @ replicate k 0) \<and> length m = 120"
    using afl_realloc_correct [of 100 "Some [1, 2]" False]
    by (simp add: contents_def afl_realloc_def complete_size_def AFL_ALLOC_SIZE_OFFSET_def INITIAL_GROWTH_SIZE_def
        next_pow2_def resize_def split: option.splits)
  then obtain k where "afl_realloc False (Some [1, 2]) 100 = Some ([1, 2] @ replicate k 0)" "k = 118"
    by (auto split: option.splits)
  then show ?thesis by simp
qed

text \<open>Past 4 GB the result of \<open>next_pow2\<close> is not a power of two, although its comment promises one: there is no shift
  by 32, so the bits of \<open>2 ^ 40\<close> are not smeared over the lowest nine positions.\<close>

lemma next_pow2_above_4G: "next_pow2 (2 ^ 40 + 1) = 2 ^ 41 - 511"
  by (simp add: next_pow2_def)

end
