(* ===== verification/Queue.thy ===== *)
theory Queue
  imports Coverage Alloc
begin

text \<open>
  The queue of \<^verbatim>\<open>src/afl-fuzz-queue.c\<close> and the contest of its entries for the bytes of the map. A pointer to a queue entry is the index
  of the entry in \<open>queue_buf\<close>. An access outside one of the arrays is \<open>None\<close>, as everywhere in the development.
  \<^item> \<open>update_bitmap_score\<close> offers the map bytes of a trace to an entry; \<open>top_rated\<close> holds the winner of each byte and
    \<open>qe_tc_ref\<close> counts the bytes an entry has won. \<open>update_bitmap_rescore\<close> and \<open>recalculate_all_scores\<close> do the same
    after a change of the schedule.
\<close>

section \<open>Power schedules\<close>

datatype schedule = EXPLORE | MMOPT | EXPLOIT | FAST | COE | LIN | QUAD | RARE | SEEK

primrec schedule_no :: "schedule \<Rightarrow> nat" where
  "schedule_no EXPLORE = 0"
| "schedule_no MMOPT = 1"
| "schedule_no EXPLOIT = 2"
| "schedule_no FAST = 3"
| "schedule_no COE = 4"
| "schedule_no LIN = 5"
| "schedule_no QUAD = 6"
| "schedule_no RARE = 7"
| "schedule_no SEEK = 8"

lemma schedule_no_inject: "schedule_no a = schedule_no b \<longleftrightarrow> a = b"
  by (cases a; cases b) simp_all

instantiation schedule :: linorder
begin

definition less_eq_schedule :: "schedule \<Rightarrow> schedule \<Rightarrow> bool" where
  "less_eq_schedule a b \<longleftrightarrow> schedule_no a \<le> schedule_no b"

definition less_schedule :: "schedule \<Rightarrow> schedule \<Rightarrow> bool" where
  "less_schedule a b \<longleftrightarrow> schedule_no a < schedule_no b"

instance
  by standard (auto simp: less_eq_schedule_def less_schedule_def schedule_no_inject)

end

section \<open>Entries and state\<close>

record queue_entry =
  qe_len :: u32
  qe_id :: u32
  qe_was_fuzzed :: bool
  qe_favored :: bool
  qe_fs_redundant :: bool
  qe_disabled :: bool
  qe_fuzz_level :: u32
  qe_n_fuzz_entry :: u32
  qe_exec_us :: u64
  qe_tc_ref :: u32
  qe_trace_mini :: "mem option"
  qe_cal_failed :: u8
  qe_has_new_cov :: bool
  qe_var_behavior :: bool
  qe_bitmap_size :: u32
  qe_handicap :: u64
  qe_depth :: u64
  qe_exec_cksum :: u64

record afl_queue = afl_cov +
  queue_buf :: "queue_entry list"
  queued_items :: u32
  queued_favored :: u32
  pending_favored :: u32
  smallest_favored :: int
  schedule :: schedule
  fixed_seed :: bool
  non_instrumented_mode :: bool
  afl_disable_redundant :: bool
  n_fuzz :: "u32 list"
  top_rated :: "nat option list"
  map_tmp_buf :: mem
  top_rated_candidates :: "u32 list option list"
  last_scored_idx :: int
  score_changed :: bool
  reinit_table :: bool

text \<open>\<open>q->f = v\<close> for the entry \<open>q\<close> points to.\<close>

definition set_entry :: "'z afl_queue_scheme \<Rightarrow> nat \<Rightarrow> (queue_entry \<Rightarrow> queue_entry) \<Rightarrow> 'z afl_queue_scheme option" where
  "set_entry s q f = do {
     e \<leftarrow> load8 (queue_buf s) q;
     Some (s\<lparr>queue_buf := (queue_buf s)[q := f e]\<rparr>) }"

text \<open>\<open>for (i = lo; k > 0; ++i, --k)\<close>.\<close>

fun for_range :: "nat \<Rightarrow> nat \<Rightarrow> (nat \<Rightarrow> 's \<Rightarrow> 's option) \<Rightarrow> 's \<Rightarrow> 's option" where
  "for_range i 0 f s = Some s"
| "for_range i (Suc k) f s = do { s' \<leftarrow> f i s; for_range (Suc i) k f s' }"

section \<open>Winning a map byte\<close>

definition fuzz_p2_of :: "'z afl_queue_scheme \<Rightarrow> queue_entry \<Rightarrow> u64 option" where
  "fuzz_p2_of s e =
     (if schedule s \<ge> FAST \<and> schedule s < RARE then Some 0
      else if schedule s = RARE then do {
        n \<leftarrow> load8 (n_fuzz s) (unat (qe_n_fuzz_entry e));
        Some (next_pow2 (ucast n)) }
      else Some (ucast (qe_fuzz_level e)))"

definition fav_factor_of :: "'z afl_queue_scheme \<Rightarrow> queue_entry \<Rightarrow> u64" where
  "fav_factor_of s e =
     (if schedule s \<ge> RARE \<or> fixed_seed s then ucast (push_bit 2 (qe_len e))
      else qe_exec_us e * ucast (qe_len e))"

text \<open>\<open>if (!--w->tc_ref) { ck_free(w->trace_mini); w->trace_mini = NULL; }\<close>\<close>

definition drop_ref :: "queue_entry \<Rightarrow> queue_entry" where
  "drop_ref e = (let e = e\<lparr>qe_tc_ref := qe_tc_ref e - 1\<rparr> in if qe_tc_ref e = 0 then e\<lparr>qe_trace_mini := None\<rparr> else e)"

text \<open>Insert ourselves as the new winner; \<open>mini\<close> is the number of bytes allocated for a new compact trace.\<close>

definition take_slot :: "'z afl_queue_scheme \<Rightarrow> nat \<Rightarrow> nat \<Rightarrow> u32 \<Rightarrow> 'z afl_queue_scheme option" where
  "take_slot s q i mini = do {
     tr \<leftarrow> store8 (top_rated s) i (Some q);
     s \<leftarrow> set_entry (s\<lparr>top_rated := tr\<rparr>) q (\<lambda>e. e\<lparr>qe_tc_ref := qe_tc_ref e + 1\<rparr>);
     e \<leftarrow> load8 (queue_buf s) q;
     s \<leftarrow> (case qe_trace_mini e of
              Some m \<Rightarrow> Some s
            | None \<Rightarrow> do {
                m \<leftarrow> minimize_bits s (replicate (unat mini) 0) (trace_bits s);
                set_entry s q (qe_trace_mini_update (\<lambda>_. Some m)) });
     Some (s\<lparr>score_changed := True\<rparr>) }"

text \<open>The contest for one byte: the newcomer loses to a previous winner with a smaller \<open>fuzz_p2\<close> or a smaller
  \<open>fav_factor\<close>.\<close>

definition contest :: "u32 \<Rightarrow> nat \<Rightarrow> u64 \<Rightarrow> u64 \<Rightarrow> nat \<Rightarrow> 'z afl_queue_scheme \<Rightarrow> 'z afl_queue_scheme option" where
  "contest mini q fuzz_p2 fav_factor i s = do {
     t \<leftarrow> load8 (top_rated s) i;
     case t of
       None \<Rightarrow> take_slot s q i mini
     | Some w \<Rightarrow> do {
         e \<leftarrow> load8 (queue_buf s) w;
         top_rated_fuzz_p2 \<leftarrow> fuzz_p2_of s e;
         if fuzz_p2 > top_rated_fuzz_p2 then Some s
         else if fav_factor > fav_factor_of s e then Some s
         else do {
           s \<leftarrow> set_entry s w drop_ref;
           take_slot s q i mini } } }"

definition score_byte :: "nat \<Rightarrow> u64 \<Rightarrow> u64 \<Rightarrow> nat \<Rightarrow> 'z afl_queue_scheme \<Rightarrow> 'z afl_queue_scheme option" where
  "score_byte q fuzz_p2 fav_factor i s = do {
     b \<leftarrow> load8 (trace_bits s) i;
     if b \<noteq> 0 then contest (drop_bit 3 (map_size s + 7)) q fuzz_p2 fav_factor i s else Some s }"

definition update_bitmap_score :: "'z afl_queue_scheme \<Rightarrow> nat \<Rightarrow> bool \<Rightarrow> 'z afl_queue_scheme option" where
  "update_bitmap_score s q have_trace = do {
     e \<leftarrow> load8 (queue_buf s) q;
     fuzz_p2 \<leftarrow> fuzz_p2_of s e;
     if have_trace then
       for_range 0 (unat (map_size s)) (score_byte q fuzz_p2 (fav_factor_of s e)) s
     else Some s }"

definition update_bitmap_rescore :: "'z afl_queue_scheme \<Rightarrow> nat \<Rightarrow> nat \<Rightarrow> 'z afl_queue_scheme option" where
  "update_bitmap_rescore s q i = do {
     e \<leftarrow> load8 (queue_buf s) q;
     fuzz_p2 \<leftarrow> fuzz_p2_of s e;
     contest (drop_bit 3 (map_size s)) q fuzz_p2 (fav_factor_of s e) i s }"

text \<open>The candidates of a byte are \<open>[count, id, ..., id]\<close>. \<open>run i s\<close> is the trace of the target on entry \<open>i\<close>
  (\<open>queue_testcase_get\<close>, \<open>write_to_testcase\<close>, \<open>fuzz_run_target\<close>).\<close>

definition enroll :: "u32 \<Rightarrow> nat \<Rightarrow> 'z afl_queue_scheme \<Rightarrow> 'z afl_queue_scheme option" where
  "enroll qid j s = do {
     b \<leftarrow> load8 (trace_bits s) j;
     if b = 0 then Some s
     else do {
       cand \<leftarrow> load8 (top_rated_candidates s) j;
       cand' \<leftarrow> (case cand of
           None \<Rightarrow> Some [1, qid]
         | Some c \<Rightarrow> do {
             count \<leftarrow> load8 c 0;
             store8 ((take (unat (count + 1)) c)[0 := count + 1] @ [0]) (unat (count + 1)) qid });
       cands \<leftarrow> store8 (top_rated_candidates s) j (Some cand');
       Some (s\<lparr>top_rated_candidates := cands\<rparr>) } }"

definition enroll_entry :: "(nat \<Rightarrow> 'z afl_queue_scheme \<Rightarrow> mem) \<Rightarrow> nat \<Rightarrow> 'z afl_queue_scheme \<Rightarrow> 'z afl_queue_scheme option" where
  "enroll_entry run i s = do {
     e \<leftarrow> load8 (queue_buf s) i;
     s \<leftarrow> (if qe_disabled e then Some s
            else for_range 0 (unat (map_size s)) (enroll (qe_id e)) (s\<lparr>trace_bits := run i s\<rparr>));
     Some (s\<lparr>last_scored_idx := int i\<rparr>) }"

definition rescore_byte :: "nat \<Rightarrow> 'z afl_queue_scheme \<Rightarrow> 'z afl_queue_scheme option" where
  "rescore_byte i s = do {
     cand \<leftarrow> load8 (top_rated_candidates s) i;
     case cand of
       None \<Rightarrow> Some s
     | Some c \<Rightarrow> do {
         count \<leftarrow> load8 c 0;
         for_range 0 (unat count) (\<lambda>k s. do {
           qid \<leftarrow> load8 c (k + 1);
           update_bitmap_rescore s (unat qid) i }) s } }"

definition recalculate_all_scores :: "(nat \<Rightarrow> 'z afl_queue_scheme \<Rightarrow> mem) \<Rightarrow> 'z afl_queue_scheme \<Rightarrow> 'z afl_queue_scheme option" where
  "recalculate_all_scores run s = do {
     let lo = unat (word_of_int (last_scored_idx s + 1) :: u32);
     s \<leftarrow> for_range lo (unat (queued_items s) - lo) (enroll_entry run) s;
     for_range 0 (unat (map_size s)) rescore_byte s }"

section \<open>Loops and reference counts\<close>

lemma for_range_rule:
  assumes "P lo s"
    and "\<And>i s. lo \<le> i \<Longrightarrow> i < lo + k \<Longrightarrow> P i s \<Longrightarrow> \<exists>s'. f i s = Some s' \<and> P (Suc i) s'"
  shows "\<exists>s'. for_range lo k f s = Some s' \<and> P (lo + k) s'"
  using assms
proof (induction k arbitrary: lo s)
  case (Suc k)
  then obtain s1 where s1: "f lo s = Some s1" "P (Suc lo) s1" by (meson less_add_same_cancel1 order_refl zero_less_Suc)
  have "\<exists>s'. for_range (Suc lo) k f s1 = Some s' \<and> P (Suc lo + k) s'"
    by (rule Suc.IH [OF s1(2)]) (use Suc.prems(2) in simp)
  then show ?case using s1(1) by simp
qed simp

definition shape_ok :: "'z afl_queue_scheme \<Rightarrow> bool" where
  "shape_ok s \<longleftrightarrow> length (top_rated s) = unat (map_size s) \<and> unat (map_size s) + 7 < 2 ^ 32
     \<and> unat (map_size s) \<le> length (trace_bits s)
     \<and> (\<forall>w. Some w \<in> set (top_rated s) \<longrightarrow> w < length (queue_buf s))"

definition entry_ok :: "'z afl_queue_scheme \<Rightarrow> nat \<Rightarrow> queue_entry \<Rightarrow> bool" where
  "entry_ok s n e \<longleftrightarrow> unat (qe_tc_ref e) = n
     \<and> (\<forall>m. qe_trace_mini e = Some m \<longrightarrow> 0 < n \<and> length m = (unat (map_size s) + 7) div 8)
     \<and> (schedule s = RARE \<longrightarrow> unat (qe_n_fuzz_entry e) < length (n_fuzz s))"

definition entries_ok :: "'z afl_queue_scheme \<Rightarrow> (nat \<Rightarrow> nat) \<Rightarrow> bool" where
  "entries_ok s c \<longleftrightarrow> (\<forall>w<length (queue_buf s). entry_ok s (c w) (queue_buf s ! w))"

definition wins_of :: "'z afl_queue_scheme \<Rightarrow> nat \<Rightarrow> nat" where
  "wins_of s w = count_list (top_rated s) (Some w)"

definition queue_inv :: "'z afl_queue_scheme \<Rightarrow> bool" where
  "queue_inv s \<longleftrightarrow> shape_ok s \<and> entries_ok s (wins_of s)"

lemma winner_valid: "queue_inv s \<Longrightarrow> i < unat (map_size s) \<Longrightarrow> top_rated s ! i = Some w \<Longrightarrow> w < length (queue_buf s)"
  unfolding queue_inv_def shape_ok_def by (metis nth_mem)

text \<open>A compact trace: bit \<open>i\<close> is set when byte \<open>i\<close> of the trace is not zero.\<close>

definition trace_bit :: "mem \<Rightarrow> nat \<Rightarrow> bool" where
  "trace_bit m i \<longleftrightarrow> i div 8 < length m \<and> bit (m ! (i div 8)) (i mod 8)"

definition compact_trace :: "'z afl_queue_scheme \<Rightarrow> mem \<Rightarrow> bool" where
  "compact_trace s m \<longleftrightarrow> length m = (unat (map_size s) + 7) div 8
     \<and> (\<forall>i. trace_bit m i \<longleftrightarrow> i < unat (map_size s) \<and> trace_bits s ! i \<noteq> 0)"

lemma mini_len: "unat (map_size s) + 7 < 2 ^ 32 \<Longrightarrow> unat (drop_bit 3 (map_size s + 7)) = (unat (map_size s) + 7) div 8"
  by (subst drop_bit_3_unat, subst unat_add_lem [THEN iffD1]) simp_all

lemma minimize_compact:
  assumes "shape_ok s"
  shows "\<exists>m. minimize_bits s (replicate (unat (drop_bit 3 (map_size s + 7))) 0) (trace_bits s) = Some m \<and> compact_trace s m"
proof -
  let ?n = "(unat (map_size s) + 7) div 8"
  have n: "unat (drop_bit 3 (map_size s + 7)) = ?n" using assms by (intro mini_len) (simp add: shape_ok_def)
  have le: "unat (map_size s) \<le> 8 * ?n" by simp
  obtain m where m: "minimize_bits_loop (replicate ?n 0) (trace_bits s) 0 (unat (map_size s)) = Some m" "length m = ?n"
    "\<forall>q<?n. \<forall>j<8. bit (m ! q) j \<longleftrightarrow> 8 * q + j < unat (map_size s) \<and> trace_bits s ! (8 * q + j) \<noteq> 0"
    using minimize_bits_loop_correct [of 0 "unat (map_size s)" "trace_bits s" "replicate ?n 0"] assms le
    by (auto simp: shape_ok_def)
  have "trace_bit m i \<longleftrightarrow> i < unat (map_size s) \<and> trace_bits s ! i \<noteq> 0" for i
  proof (cases "i div 8 < ?n")
    case True
    then show ?thesis using m(2,3) by (simp add: trace_bit_def)
  next
    case False
    then have "\<not> i < unat (map_size s)" by auto
    with False m(2) show ?thesis by (simp add: trace_bit_def)
  qed
  with m(1,2) show ?thesis by (auto simp: minimize_bits_def n compact_trace_def)
qed

section \<open>One contest\<close>

text \<open>The state after \<open>q\<close> has won byte \<open>i\<close> and holds the compact trace \<open>m\<close>.\<close>

definition slot_taken :: "'z afl_queue_scheme \<Rightarrow> nat \<Rightarrow> nat \<Rightarrow> mem \<Rightarrow> 'z afl_queue_scheme" where
  "slot_taken s q i m =
     (let e = queue_buf s ! q
      in s\<lparr>queue_buf := (queue_buf s)[q := e\<lparr>qe_tc_ref := qe_tc_ref e + 1, qe_trace_mini := Some m\<rparr>],
           top_rated := (top_rated s)[i := Some q], score_changed := True\<rparr>)"

lemma slot_taken_simps [simp]:
  "map_size (slot_taken s q i m) = map_size s" "trace_bits (slot_taken s q i m) = trace_bits s"
  "schedule (slot_taken s q i m) = schedule s" "n_fuzz (slot_taken s q i m) = n_fuzz s"
  "fixed_seed (slot_taken s q i m) = fixed_seed s" "top_rated (slot_taken s q i m) = (top_rated s)[i := Some q]"
  "queue_buf (slot_taken s q i m)
     = (queue_buf s)[q := (queue_buf s ! q)\<lparr>qe_tc_ref := qe_tc_ref (queue_buf s ! q) + 1, qe_trace_mini := Some m\<rparr>]"
  by (simp_all add: slot_taken_def Let_def)

lemma entry_ok_cong:
  "map_size s' = map_size s \<Longrightarrow> schedule s' = schedule s \<Longrightarrow> n_fuzz s' = n_fuzz s \<Longrightarrow> entry_ok s' n e = entry_ok s n e"
  by (simp add: entry_ok_def)

lemma keep_mini: "qe_trace_mini e = Some m \<Longrightarrow> e\<lparr>qe_tc_ref := n, qe_trace_mini := Some m\<rparr> = e\<lparr>qe_tc_ref := n\<rparr>"
  by (cases e) simp

lemma take_slot_ok:
  assumes shape: "shape_ok s" and ok: "entries_ok s (\<lambda>w. wins_of s w - of_bool (top_rated s ! i = Some w))"
    and q: "q < length (queue_buf s)" and i: "i < unat (map_size s)"
  shows "\<exists>m. take_slot s q i (drop_bit 3 (map_size s + 7)) = Some (slot_taken s q i m) \<and> queue_inv (slot_taken s q i m)
      \<and> (qe_trace_mini (queue_buf s ! q) = Some m \<or> qe_trace_mini (queue_buf s ! q) = None \<and> compact_trace s m)"
proof -
  let ?e = "queue_buf s ! q"
  obtain m0 where m0: "minimize_bits s (replicate (unat (drop_bit 3 (map_size s + 7))) 0) (trace_bits s) = Some m0"
    "compact_trace s m0" using minimize_compact [OF shape] by blast
  define m where "m = (case qe_trace_mini ?e of Some m \<Rightarrow> m | None \<Rightarrow> m0)"
  have m: "qe_trace_mini ?e = Some m \<or> qe_trace_mini ?e = None \<and> compact_trace s m"
    using m0(2) by (simp add: m_def split: option.splits)
  have i': "i < length (top_rated s)" using i shape by (simp add: shape_ok_def)
  have "take_slot s q i (drop_bit 3 (map_size s + 7)) = Some (slot_taken s q i m)"
    using i' q m0(1) by (cases "qe_trace_mini ?e")
      (simp_all add: take_slot_def set_entry_def slot_taken_def m_def minimize_bits_def Let_def keep_mini)
  moreover have "queue_inv (slot_taken s q i m)"
  proof -
    let ?s = "slot_taken s q i m"
    have cnt: "wins_of ?s w = wins_of s w - of_bool (top_rated s ! i = Some w) + of_bool (w = q)" for w
      using count_list_update [OF i', of "Some q" "Some w"] count_list_pos [OF i']
      by (auto simp: wins_of_def)
    have "shape_ok ?s"
      using shape q by (auto simp: shape_ok_def dest!: set_update_subset_insert [THEN subsetD])
    moreover have "entry_ok ?s (wins_of ?s w) (queue_buf ?s ! w)" if w: "w < length (queue_buf ?s)" for w
    proof -
      have w': "w < length (queue_buf s)" using w by simp
      then have old: "entry_ok s (wins_of s w - of_bool (top_rated s ! i = Some w)) (queue_buf s ! w)"
        using ok by (simp add: entries_ok_def)
      have "wins_of ?s w \<le> length (top_rated ?s)" unfolding wins_of_def by (rule count_le_length)
      then have small: "wins_of ?s w < 2 ^ 32" using shape by (simp add: shape_ok_def)
      have len: "length m = (unat (map_size s) + 7) div 8" if "w = q"
        using m old that by (auto simp: entry_ok_def compact_trace_def)
      show ?thesis
      proof (cases "w = q")
        case True
        have "unat (qe_tc_ref ?e + 1) = wins_of ?s q"
          using old small True by (subst unat_add_lem [THEN iffD1]) (simp_all add: entry_ok_def cnt)
        then show ?thesis using True old len q by (simp add: entry_ok_def cnt)
      next
        case False
        then show ?thesis using old by (simp add: entry_ok_def cnt)
      qed
    qed
    ultimately show ?thesis by (simp add: queue_inv_def entries_ok_def)
  qed
  ultimately show ?thesis using m by blast
qed

text \<open>What scoring may change: the winners, and in the entries the reference count and the compact trace. Only \<open>q\<close> gains
  references; the others lose their trace exactly when they lose their last reference.\<close>

definition rescored :: "'z afl_queue_scheme \<Rightarrow> bool \<Rightarrow> queue_entry \<Rightarrow> queue_entry \<Rightarrow> bool" where
  "rescored s self e e' \<longleftrightarrow>
     e' = e\<lparr>qe_tc_ref := qe_tc_ref e', qe_trace_mini := qe_trace_mini e'\<rparr>
     \<and> (if self then qe_trace_mini e' = qe_trace_mini e \<or> (\<exists>m. qe_trace_mini e' = Some m \<and> compact_trace s m)
        else qe_tc_ref e' \<le> qe_tc_ref e \<and> qe_trace_mini e' = (if qe_tc_ref e' = 0 then None else qe_trace_mini e))"

definition scored :: "nat \<Rightarrow> 'z afl_queue_scheme \<Rightarrow> 'z afl_queue_scheme \<Rightarrow> bool" where
  "scored q s s' \<longleftrightarrow>
     s' = s\<lparr>queue_buf := queue_buf s', top_rated := top_rated s', score_changed := score_changed s'\<rparr>
     \<and> length (queue_buf s') = length (queue_buf s)
     \<and> (\<forall>w<length (queue_buf s). rescored s (w = q) (queue_buf s ! w) (queue_buf s' ! w))"

lemma scored_fields:
  assumes "scored q s s'"
  shows "map_size s' = map_size s" "trace_bits s' = trace_bits s" "schedule s' = schedule s" "n_fuzz s' = n_fuzz s"
    "fixed_seed s' = fixed_seed s" "length (queue_buf s') = length (queue_buf s)"
proof -
  have eq: "s' = s\<lparr>queue_buf := queue_buf s', top_rated := top_rated s', score_changed := score_changed s'\<rparr>"
    and "length (queue_buf s') = length (queue_buf s)"
    using assms unfolding scored_def by blast+
  then show "length (queue_buf s') = length (queue_buf s)" by simp
  show "map_size s' = map_size s" using arg_cong [OF eq, of map_size] by simp
  show "trace_bits s' = trace_bits s" using arg_cong [OF eq, of trace_bits] by simp
  show "schedule s' = schedule s" using arg_cong [OF eq, of schedule] by simp
  show "n_fuzz s' = n_fuzz s" using arg_cong [OF eq, of n_fuzz] by simp
  show "fixed_seed s' = fixed_seed s" using arg_cong [OF eq, of fixed_seed] by simp
qed

lemma compact_trace_cong: "map_size s' = map_size s \<Longrightarrow> trace_bits s' = trace_bits s \<Longrightarrow> compact_trace s' = compact_trace s"
  by (intro ext) (simp add: compact_trace_def)

lemma rescored_trans:
  assumes "rescored s self e e1" and "rescored s self e1 e2"
  shows "rescored s self e e2"
proof -
  have "e1 = e\<lparr>qe_tc_ref := qe_tc_ref e1, qe_trace_mini := qe_trace_mini e1\<rparr>"
    "e2 = e1\<lparr>qe_tc_ref := qe_tc_ref e2, qe_trace_mini := qe_trace_mini e2\<rparr>"
    using assms unfolding rescored_def by blast+
  then have "e2 = e\<lparr>qe_tc_ref := qe_tc_ref e2, qe_trace_mini := qe_trace_mini e2\<rparr>"
    by (cases e; cases e1; cases e2) simp
  moreover have "qe_tc_ref e2 = 0" if "\<not> self" "qe_tc_ref e1 = 0"
    using assms(2) that by (simp add: rescored_def)
  ultimately show ?thesis using assms unfolding rescored_def by (auto split: if_splits intro: order_trans)
qed

lemma scored_trans:
  assumes "scored q s s1" and "scored q s1 s2"
  shows "scored q s s2"
proof -
  have eq: "s1 = s\<lparr>queue_buf := queue_buf s1, top_rated := top_rated s1, score_changed := score_changed s1\<rparr>"
    "s2 = s1\<lparr>queue_buf := queue_buf s2, top_rated := top_rated s2, score_changed := score_changed s2\<rparr>"
    using assms unfolding scored_def by blast+
  have "s2 = s\<lparr>queue_buf := queue_buf s2, top_rated := top_rated s2, score_changed := score_changed s2\<rparr>"
    by (subst eq(2), subst eq(1)) simp
  moreover have "rescored s1 = rescored s"
    using compact_trace_cong [OF scored_fields(1,2) [OF assms(1)]] by (intro ext) (simp add: rescored_def)
  ultimately show ?thesis
    using assms scored_fields(6) [OF assms(1)] unfolding scored_def by (auto intro: rescored_trans)
qed

lemma rescored_refl: "self \<or> entry_ok s n e \<Longrightarrow> rescored s self e e"
  by (cases "qe_trace_mini e") (auto simp: rescored_def entry_ok_def unat_eq_0)

lemma scored_refl: "queue_inv s \<Longrightarrow> scored q s s"
  by (auto simp: scored_def queue_inv_def entries_ok_def intro: rescored_refl)

section \<open>The contest for one byte\<close>

definition beats :: "'z afl_queue_scheme \<Rightarrow> nat \<Rightarrow> nat \<Rightarrow> bool" where
  "beats s q w \<longleftrightarrow>
     the (fuzz_p2_of s (queue_buf s ! q)) \<le> the (fuzz_p2_of s (queue_buf s ! w))
     \<and> fav_factor_of s (queue_buf s ! q) \<le> fav_factor_of s (queue_buf s ! w)"

definition wins :: "'z afl_queue_scheme \<Rightarrow> nat \<Rightarrow> nat option \<Rightarrow> bool" where
  "wins s q t = (case t of None \<Rightarrow> True | Some w \<Rightarrow> beats s q w)"

lemma fuzz_p2_defined:
  "queue_inv s \<Longrightarrow> w < length (queue_buf s) \<Longrightarrow>
     \<exists>p. fuzz_p2_of s (queue_buf s ! w) = Some p"
  by (auto simp: fuzz_p2_of_def queue_inv_def entries_ok_def entry_ok_def)

lemma scored_ranks:
  assumes "scored q s s'" and "w < length (queue_buf s)"
  shows "fuzz_p2_of s' (queue_buf s' ! w) = fuzz_p2_of s (queue_buf s ! w)"
    and "fav_factor_of s' (queue_buf s' ! w) = fav_factor_of s (queue_buf s ! w)"
proof -
  let ?e = "queue_buf s ! w" and ?e' = "queue_buf s' ! w"
  have "?e' = ?e\<lparr>qe_tc_ref := qe_tc_ref ?e', qe_trace_mini := qe_trace_mini ?e'\<rparr>"
    using assms unfolding scored_def rescored_def by blast
  then obtain r m where e': "?e' = ?e\<lparr>qe_tc_ref := r, qe_trace_mini := m\<rparr>" by blast
  show "fuzz_p2_of s' ?e' = fuzz_p2_of s ?e" "fav_factor_of s' ?e' = fav_factor_of s ?e"
    by (simp_all add: e' fuzz_p2_of_def fav_factor_of_def scored_fields [OF assms(1)])
qed

lemma scored_wins:
  assumes "scored q s s'" and "q < length (queue_buf s)" and "\<forall>w. t = Some w \<longrightarrow> w < length (queue_buf s)"
  shows "wins s' q t = wins s q t"
  using assms by (simp add: wins_def beats_def scored_ranks [OF assms(1)] split: option.splits)

text \<open>The state after the previous winner \<open>w\<close> has lost one reference.\<close>

definition ref_dropped :: "'z afl_queue_scheme \<Rightarrow> nat \<Rightarrow> 'z afl_queue_scheme" where
  "ref_dropped s w = s\<lparr>queue_buf := (queue_buf s)[w := drop_ref (queue_buf s ! w)]\<rparr>"

lemma ref_dropped_simps [simp]:
  "map_size (ref_dropped s w) = map_size s" "trace_bits (ref_dropped s w) = trace_bits s"
  "top_rated (ref_dropped s w) = top_rated s" "wins_of (ref_dropped s w) = wins_of s"
  "queue_buf (ref_dropped s w) = (queue_buf s)[w := drop_ref (queue_buf s ! w)]"
  "entry_ok (ref_dropped s w) = entry_ok s"
  by (auto simp: ref_dropped_def wins_of_def entry_ok_def fun_eq_iff)

lemma drop_ref_ok:
  assumes "entry_ok s n e" and "0 < n"
  shows "entry_ok s (n - 1) (drop_ref e)" and "rescored s False e (drop_ref e)"
    and "qe_trace_mini (drop_ref e) = qe_trace_mini e \<or> qe_trace_mini (drop_ref e) = None"
proof -
  have pos: "qe_tc_ref e \<noteq> 0" using assms by (auto simp: entry_ok_def)
  then have u: "unat (qe_tc_ref e - 1) = n - 1" using assms(1) by (simp add: unat_minus_one entry_ok_def)
  then have z: "qe_tc_ref e - 1 = 0 \<longleftrightarrow> n - 1 = 0" by (metis unat_eq_0)
  show "entry_ok s (n - 1) (drop_ref e)" using assms u z by (auto simp: drop_ref_def entry_ok_def Let_def)
  have "qe_tc_ref e - 1 \<le> qe_tc_ref e" using u assms(1) by (simp add: word_le_nat_alt entry_ok_def)
  then show "rescored s False e (drop_ref e)" by (auto simp: drop_ref_def rescored_def Let_def)
  show "qe_trace_mini (drop_ref e) = qe_trace_mini e \<or> qe_trace_mini (drop_ref e) = None"
    by (simp add: drop_ref_def Let_def)
qed

lemma ref_dropped_ok:
  assumes inv: "queue_inv s" and i: "i < unat (map_size s)" and t: "top_rated s ! i = Some w"
  shows "shape_ok (ref_dropped s w)"
    and "entries_ok (ref_dropped s w) (\<lambda>v. wins_of s v - of_bool (top_rated s ! i = Some v))"
    and "w < length (queue_buf s)" and "0 < wins_of s w"
proof -
  have i': "i < length (top_rated s)" using i inv by (simp add: queue_inv_def shape_ok_def)
  show w: "w < length (queue_buf s)" by (rule winner_valid [OF inv i t])
  show pos: "0 < wins_of s w" using count_list_pos [OF i'] t by (simp add: wins_of_def)
  show "shape_ok (ref_dropped s w)" using inv by (simp add: queue_inv_def shape_ok_def)
  show "entries_ok (ref_dropped s w) (\<lambda>v. wins_of s v - of_bool (top_rated s ! i = Some v))"
    using inv t pos w drop_ref_ok(1) [of s "wins_of s w" "queue_buf s ! w"]
    by (auto simp: entries_ok_def queue_inv_def nth_list_update)
qed

text \<open>A newcomer takes a byte from \<open>e\<close>, \<open>e\<close> being the entry after a lost reference if it is the previous winner's.\<close>

lemma taken_rescored:
  assumes "e1 = drop_ref e \<or> e1 = e" and "qe_trace_mini e1 = Some m \<or> qe_trace_mini e1 = None \<and> compact_trace s m"
  shows "rescored s True e (e1\<lparr>qe_tc_ref := r, qe_trace_mini := Some m\<rparr>)"
  using assms by (auto simp: rescored_def drop_ref_def Let_def split: if_splits)

lemma contest_ok:
  fixes s :: "'z afl_queue_scheme"
  assumes inv: "queue_inv s" and q: "q < length (queue_buf s)" and i: "i < unat (map_size s)"
    and p: "fuzz_p2_of s (queue_buf s ! q) = Some p"
  defines "won \<equiv> wins s q (top_rated s ! i)"
  shows "\<exists>s'. contest (drop_bit 3 (map_size s + 7)) q p (fav_factor_of s (queue_buf s ! q)) i s = Some s'
      \<and> queue_inv s' \<and> scored q s s' \<and> top_rated s' = (if won then (top_rated s)[i := Some q] else top_rated s)
      \<and> (won \<longrightarrow> qe_trace_mini (queue_buf s' ! q) \<noteq> None)
      \<and> (\<not> won \<longrightarrow> s' = s)"
proof (cases "top_rated s ! i")
  case None
  have i': "i < length (top_rated s)" using i inv by (simp add: queue_inv_def shape_ok_def)
  have ok: "shape_ok s" "entries_ok s (\<lambda>w. wins_of s w - of_bool (top_rated s ! i = Some w))"
    using inv None by (simp_all add: queue_inv_def)
  obtain m where m: "take_slot s q i (drop_bit 3 (map_size s + 7)) = Some (slot_taken s q i m)"
    "queue_inv (slot_taken s q i m)"
    "qe_trace_mini (queue_buf s ! q) = Some m \<or> qe_trace_mini (queue_buf s ! q) = None \<and> compact_trace s m"
    using take_slot_ok [OF ok q i] by blast
  have "rescored s (w = q) (queue_buf s ! w) (queue_buf (slot_taken s q i m) ! w)" if "w < length (queue_buf s)" for w
  proof (cases "w = q")
    case True
    have "rescored s True (queue_buf s ! q) ((queue_buf s ! q)\<lparr>qe_tc_ref := qe_tc_ref (queue_buf s ! q) + 1, qe_trace_mini := Some m\<rparr>)"
      by (rule taken_rescored [OF _ m(3)]) simp
    then show ?thesis using True q by simp
  next
    case False
    then show ?thesis using inv that by (auto simp: queue_inv_def entries_ok_def intro: rescored_refl)
  qed
  then have "scored q s (slot_taken s q i m)"
    by (auto simp: scored_def slot_taken_def Let_def)
  then show ?thesis using m(1,2) None i' q by (simp add: contest_def won_def wins_def)
next
  case (Some w)
  note d = ref_dropped_ok [OF inv i Some]
  have i': "i < length (top_rated s)" using i inv by (simp add: queue_inv_def shape_ok_def)
  obtain p' where p': "fuzz_p2_of s (queue_buf s ! w) = Some p'" using fuzz_p2_defined [OF inv d(3)] by blast
  have run: "contest (drop_bit 3 (map_size s + 7)) q p (fav_factor_of s (queue_buf s ! q)) i s
      = (if won then take_slot (ref_dropped s w) q i (drop_bit 3 (map_size s + 7)) else Some s)"
    using i' d(3) p p' Some
    by (auto simp: contest_def won_def wins_def beats_def set_entry_def ref_dropped_def)
  show ?thesis
  proof (cases won)
    case False
    then show ?thesis using run inv by (simp add: scored_refl)
  next
    case True
    let ?s = "ref_dropped s w"
    obtain m where m: "take_slot ?s q i (drop_bit 3 (map_size s + 7)) = Some (slot_taken ?s q i m)"
      "queue_inv (slot_taken ?s q i m)"
      "qe_trace_mini (queue_buf ?s ! q) = Some m \<or> qe_trace_mini (queue_buf ?s ! q) = None \<and> compact_trace s m"
      using take_slot_ok [of ?s i q] d q i compact_trace_cong [of ?s s] by auto
    have ok: "entry_ok s (wins_of s v) (queue_buf s ! v)" if "v < length (queue_buf s)" for v
      using inv that by (simp add: queue_inv_def entries_ok_def)
    have "rescored s (v = q) (queue_buf s ! v) (queue_buf (slot_taken ?s q i m) ! v)" if v: "v < length (queue_buf s)" for v
    proof (cases "v = q")
      case True
      have "queue_buf ?s ! q = drop_ref (queue_buf s ! q) \<or> queue_buf ?s ! q = queue_buf s ! q"
        using q by (cases "w = q") simp_all
      then have "rescored s True (queue_buf s ! q) ((queue_buf ?s ! q)\<lparr>qe_tc_ref := qe_tc_ref (queue_buf ?s ! q) + 1, qe_trace_mini := Some m\<rparr>)"
        by (rule taken_rescored [OF _ m(3)])
      then show ?thesis using True q by simp
    next
      case False
      then show ?thesis using v ok [OF v] d(3) drop_ref_ok(2) [OF ok [OF d(3)] d(4)]
        by (auto simp: nth_list_update intro: rescored_refl)
    qed
    then have "scored q s (slot_taken ?s q i m)"
      by (auto simp: scored_def slot_taken_def ref_dropped_def Let_def)
    then show ?thesis using run m(1,2) True q by simp
  qed
qed

section \<open>Scoring a whole trace\<close>

text \<open>The bytes of the trace among the first \<open>k\<close> that \<open>q\<close> wins.\<close>

definition gains :: "'z afl_queue_scheme \<Rightarrow> nat \<Rightarrow> nat \<Rightarrow> nat \<Rightarrow> bool" where
  "gains s q k i \<longleftrightarrow> i < k \<and> trace_bits s ! i \<noteq> 0 \<and> wins s q (top_rated s ! i)"

definition score_upto :: "'z afl_queue_scheme \<Rightarrow> nat \<Rightarrow> nat \<Rightarrow> 'z afl_queue_scheme \<Rightarrow> bool" where
  "score_upto s q k s' \<longleftrightarrow> queue_inv s' \<and> scored q s s'
     \<and> (\<forall>i<unat (map_size s). top_rated s' ! i = (if gains s q k i then Some q else top_rated s ! i))
     \<and> ((\<exists>i. gains s q k i) \<longrightarrow> qe_trace_mini (queue_buf s' ! q) \<noteq> None)"

lemma gains_Suc: "gains s q (Suc k) i \<longleftrightarrow> gains s q k i \<or> i = k \<and> trace_bits s ! i \<noteq> 0 \<and> wins s q (top_rated s ! i)"
  by (auto simp: gains_def)

lemma gains_self: "\<not> gains s q k k"
  by (simp add: gains_def)

lemma score_step:
  assumes inv: "queue_inv s" and q: "q < length (queue_buf s)" and k: "k < unat (map_size s)"
    and p: "fuzz_p2_of s (queue_buf s ! q) = Some p" and at: "score_upto s q k s1"
  shows "\<exists>s'. score_byte q p (fav_factor_of s (queue_buf s ! q)) k s1 = Some s' \<and> score_upto s q (Suc k) s'"
proof -
  have sc: "scored q s s1" and inv1: "queue_inv s1" using at by (simp_all add: score_upto_def)
  note [simp] = scored_fields [OF sc]
  have b: "load8 (trace_bits s1) k = Some (trace_bits s ! k)"
    using inv k by (simp add: queue_inv_def shape_ok_def)
  have t: "top_rated s1 ! k = top_rated s ! k" using at k by (simp add: score_upto_def gains_self)
  show ?thesis
  proof (cases "trace_bits s ! k = 0")
    case True
    then have "score_upto s q (Suc k) s1" using at by (auto simp: score_upto_def gains_Suc)
    then show ?thesis using b True by (simp add: score_byte_def)
  next
    case False
    have p1: "fuzz_p2_of s1 (queue_buf s1 ! q) = Some p" using scored_ranks(1) [OF sc q] p by simp
    have "\<forall>w. top_rated s ! k = Some w \<longrightarrow> w < length (queue_buf s)" using winner_valid [OF inv k] by blast
    then have won: "wins s1 q (top_rated s1 ! k) = wins s q (top_rated s ! k)"
      using scored_wins [OF sc q] t by simp
    obtain s' where s': "contest (drop_bit 3 (map_size s1 + 7)) q p (fav_factor_of s1 (queue_buf s1 ! q)) k s1 = Some s'"
      "queue_inv s'" "scored q s1 s'"
      "top_rated s' = (if wins s q (top_rated s ! k) then (top_rated s1)[k := Some q] else top_rated s1)"
      "wins s q (top_rated s ! k) \<Longrightarrow> qe_trace_mini (queue_buf s' ! q) \<noteq> None"
      "\<not> wins s q (top_rated s ! k) \<Longrightarrow> s' = s1"
      using contest_ok [OF inv1 _ _ p1, of k] q k won by auto
    have len: "length (top_rated s1) = unat (map_size s)" using inv1 by (simp add: queue_inv_def shape_ok_def)
    have "score_upto s q (Suc k) s'"
      using at s' False scored_trans [OF sc s'(3)] len t k
      by (auto simp: score_upto_def gains_Suc gains_self nth_list_update)
    then show ?thesis using b False s'(1) scored_ranks(2) [OF sc q] by (simp add: score_byte_def)
  qed
qed

lemma update_bitmap_score_spec:
  assumes "queue_inv s" and "q < length (queue_buf s)"
  shows "\<exists>s'. update_bitmap_score s q True = Some s' \<and> queue_inv s' \<and> scored q s s'
      \<and> (\<forall>i<unat (map_size s). top_rated s' ! i =
           (if trace_bits s ! i \<noteq> 0 \<and> wins s q (top_rated s ! i) then Some q else top_rated s ! i))
      \<and> ((\<exists>i<unat (map_size s). trace_bits s ! i \<noteq> 0 \<and> wins s q (top_rated s ! i))
           \<longrightarrow> qe_trace_mini (queue_buf s' ! q) \<noteq> None)"
proof -
  obtain p where p: "fuzz_p2_of s (queue_buf s ! q) = Some p" using fuzz_p2_defined [OF assms] by blast
  have start: "score_upto s q 0 s"
    using assms(1) by (simp add: score_upto_def gains_def scored_refl)
  let ?n = "unat (map_size s)"
  obtain s' where s': "update_bitmap_score s q True = Some s'" "score_upto s q ?n s'"
    using for_range_rule [of "score_upto s q" 0 s ?n "score_byte q p (fav_factor_of s (queue_buf s ! q))", OF start]
      score_step [OF assms _ p] assms(2) p by (auto simp: update_bitmap_score_def)
  then show ?thesis unfolding score_upto_def gains_def by (intro exI [of _ s']) auto
qed

text \<open>C36. \<open>update_bitmap_score\<close> makes the entry the winner of exactly those bytes of its trace that had no winner or
  whose winner is better in neither of the two rankings, touches no other slot, and keeps the reference counts exact: every
  entry's \<open>tc_ref\<close> is the number of bytes it has won, a compact trace is kept only while that is positive, has one bit per
  map byte, and a newly built one is the trace of this run. Nothing is accessed out of bounds and no count wraps.\<close>

theorem update_bitmap_score_correct:
  assumes "queue_inv s" and "q < length (queue_buf s)"
  shows "\<exists>s'. update_bitmap_score s q True = Some s' \<and> queue_inv s' \<and> scored q s s'
      \<and> (\<forall>i<unat (map_size s). top_rated s' ! i =
           (if trace_bits s ! i \<noteq> 0 \<and> wins s q (top_rated s ! i) then Some q else top_rated s ! i))
      \<and> ((\<exists>i<unat (map_size s). trace_bits s ! i \<noteq> 0 \<and> wins s q (top_rated s ! i))
           \<longrightarrow> qe_trace_mini (queue_buf s' ! q) \<noteq> None)"
  by (rule update_bitmap_score_spec [OF assms])

end
