(* ===== verification/Cull.thy ===== *)
theory Cull
  imports Queue
begin

text \<open>
  The second half of the favored-entry mechanism of \<^verbatim>\<open>src/afl-fuzz-queue.c\<close>: \<open>cull_queue\<close> walks over the winners of the map
  bytes, favors the winner of each byte no favored entry covers yet, and marks the rest as redundant.
\<close>

section \<open>Culling\<close>

definition mark_as_redundant :: "bool \<Rightarrow> queue_entry \<Rightarrow> bool \<Rightarrow> queue_entry" where
  "mark_as_redundant disable_redundant e state =
     (if state = qe_fs_redundant e then e
      else
        let e = e\<lparr>qe_fs_redundant := state\<rparr>;
            e = (if state then e\<lparr>qe_trace_mini := None\<rparr> else e)
        in if state \<and> disable_redundant then e\<lparr>qe_disabled := True\<rparr> else e)"

text \<open>\<open>while (j--) if (mini[j]) temp_v[j] &= ~mini[j];\<close>\<close>

fun clear_bits :: "mem \<Rightarrow> mem \<Rightarrow> nat \<Rightarrow> mem option" where
  "clear_bits temp_v mini 0 = Some temp_v"
| "clear_bits temp_v mini (Suc j) = do {
     b \<leftarrow> load8 mini j;
     temp_v \<leftarrow> (if b \<noteq> 0 then do {
                   v \<leftarrow> load8 temp_v j;
                   store8 temp_v j (v AND NOT b) }
                 else Some temp_v);
     clear_bits temp_v mini j }"

text \<open>One round of the loop over the map: \<open>map_tmp_buf\<close> is \<open>temp_v\<close>.\<close>

definition favor_entry :: "nat \<Rightarrow> 'z afl_queue_scheme \<Rightarrow> 'z afl_queue_scheme option" where
  "favor_entry w s = do {
     e \<leftarrow> load8 (queue_buf s) w;
     if qe_favored e then Some s
     else do {
       s \<leftarrow> set_entry s w (qe_favored_update (\<lambda>_. True));
       let s = s\<lparr>queued_favored := queued_favored s + 1\<rparr>;
       if qe_was_fuzzed e then Some s
       else
         let s = s\<lparr>pending_favored := pending_favored s + 1\<rparr>
         in Some (if smallest_favored s < 0 then s\<lparr>smallest_favored := uint (qe_id e)\<rparr> else s) } }"

definition cull_byte :: "nat \<Rightarrow> nat \<Rightarrow> 'z afl_queue_scheme \<Rightarrow> 'z afl_queue_scheme option" where
  "cull_byte len i s = do {
     t \<leftarrow> load8 (top_rated s) i;
     case t of
       None \<Rightarrow> Some s
     | Some w \<Rightarrow> do {
         v \<leftarrow> load8 (map_tmp_buf s) (i div 8);
         if v AND push_bit (i mod 8) 1 = 0 then Some s
         else do {
           e \<leftarrow> load8 (queue_buf s) w;
           case qe_trace_mini e of
             None \<Rightarrow> Some s
           | Some mini \<Rightarrow> do {
               temp_v \<leftarrow> clear_bits (map_tmp_buf s) mini len;
               favor_entry w (s\<lparr>map_tmp_buf := temp_v\<rparr>) } } } }"

definition cull_queue :: "'z afl_queue_scheme \<Rightarrow> 'z afl_queue_scheme option" where
  "cull_queue s =
     (if \<not> score_changed s \<or> non_instrumented_mode s then Some s
      else
        let len = unat (drop_bit 3 (map_size s)); s = s\<lparr>score_changed := False\<rparr>
        in if length (map_tmp_buf s) < len then None
        else do {
          let s = s\<lparr>map_tmp_buf := replicate len 255 @ drop len (map_tmp_buf s), queued_favored := 0, pending_favored := 0\<rparr>;
          s \<leftarrow> for_range 0 (unat (queued_items s)) (\<lambda>i s. set_entry s i (qe_favored_update (\<lambda>_. False))) s;
          s \<leftarrow> for_range 0 (unat (map_size s)) (cull_byte len) (s\<lparr>smallest_favored := - 1\<rparr>);
          s \<leftarrow> for_range 0 (unat (queued_items s)) (\<lambda>i s. do {
                 e \<leftarrow> load8 (queue_buf s) i;
                 if \<not> qe_disabled e then set_entry s i (\<lambda>e. mark_as_redundant (afl_disable_redundant s) e (\<not> qe_favored e))
                 else Some s }) s;
          Some (s\<lparr>reinit_table := True\<rparr>) })"

section \<open>The loops\<close>

lemma bit_test: "n < 8 \<Longrightarrow> (v :: u8) AND push_bit n 1 = 0 \<longleftrightarrow> \<not> bit v n"
  by (simp add: push_bit_of_1 and_exp_eq_0_iff_not_bit)

lemma clear_bits_ok:
  assumes "n \<le> length tv" and "n \<le> length m"
  shows "\<exists>tv'. clear_bits tv m n = Some tv' \<and> length tv' = length tv
      \<and> (\<forall>i. trace_bit tv' i \<longleftrightarrow> trace_bit tv i \<and> \<not> (i div 8 < n \<and> trace_bit m i))"
  using assms
proof (induction n arbitrary: tv)
  case (Suc n)
  define tv1 where "tv1 = (if m ! n \<noteq> 0 then tv[n := tv ! n AND NOT (m ! n)] else tv)"
  have run: "clear_bits tv m (Suc n) = clear_bits tv1 m n" and len: "length tv1 = length tv"
    using Suc.prems by (simp_all add: tv1_def)
  have bits: "trace_bit tv1 i \<longleftrightarrow> trace_bit tv i \<and> \<not> (i div 8 = n \<and> trace_bit m i)" for i
    using Suc.prems by (auto simp: tv1_def trace_bit_def bit_and_iff bit_not_iff nth_list_update)
  obtain tv' where "clear_bits tv1 m n = Some tv'" "length tv' = length tv"
    "\<forall>i. trace_bit tv' i \<longleftrightarrow> trace_bit tv1 i \<and> \<not> (i div 8 < n \<and> trace_bit m i)"
    using Suc.IH [of tv1] Suc.prems len by auto
  then show ?case using run bits by (intro exI [of _ tv']) (auto simp: less_Suc_eq)
qed simp

text \<open>A loop over the whole queue that updates each entry on its own.\<close>

lemma each_entry:
  assumes "\<And>i buf. i < length buf \<Longrightarrow> length buf = length (queue_buf s) \<Longrightarrow>
      f i (s\<lparr>queue_buf := buf\<rparr>) = Some (s\<lparr>queue_buf := buf[i := g (buf ! i)]\<rparr>)"
    and "n = length (queue_buf s)"
  shows "for_range 0 n f s = Some (s\<lparr>queue_buf := map g (queue_buf s)\<rparr>)"
proof -
  define P where "P i s' \<longleftrightarrow> s' = s\<lparr>queue_buf := map g (take i (queue_buf s)) @ drop i (queue_buf s)\<rparr>" for i s'
  have "\<exists>s'. f i s1 = Some s' \<and> P (Suc i) s'" if i: "i < 0 + n" and "P i s1" for i s1
  proof -
    have s1: "s1 = s\<lparr>queue_buf := map g (take i (queue_buf s)) @ drop i (queue_buf s)\<rparr>" using that(2) by (simp add: P_def)
    have "drop i (queue_buf s) = queue_buf s ! i # drop (Suc i) (queue_buf s)"
      using i assms(2) by (simp add: Cons_nth_drop_Suc)
    then show ?thesis using i assms(2) unfolding P_def s1
      by (subst assms(1)) (simp_all add: list_update_append nth_append take_Suc_conv_app_nth)
  qed
  then have "\<exists>s'. for_range 0 n f s = Some s' \<and> P (0 + n) s'"
    by (intro for_range_rule) (simp_all add: P_def)
  then show ?thesis using assms(2) by (simp add: P_def)
qed

section \<open>The walk over the map\<close>

definition favored_set :: "'z afl_queue_scheme \<Rightarrow> nat set" where
  "favored_set s = {w. w < length (queue_buf s) \<and> qe_favored (queue_buf s ! w)}"

definition pending_set :: "'z afl_queue_scheme \<Rightarrow> nat set" where
  "pending_set s = {w \<in> favored_set s. \<not> qe_was_fuzzed (queue_buf s ! w)}"

text \<open>The compact trace kept with entry \<open>w\<close> contains byte \<open>i\<close>.\<close>

definition covers :: "'z afl_queue_scheme \<Rightarrow> nat \<Rightarrow> nat \<Rightarrow> bool" where
  "covers s w i \<longleftrightarrow> (\<exists>m. qe_trace_mini (queue_buf s ! w) = Some m \<and> trace_bit m i)"

definition covered :: "'z afl_queue_scheme \<Rightarrow> nat \<Rightarrow> bool" where
  "covered s i \<longleftrightarrow> (\<exists>w\<in>favored_set s. covers s w i)"

lemma finite_favored [simp]: "finite (favored_set s)"
  by (simp add: favored_set_def)

text \<open>What the walk changes: \<open>temp_v\<close>, the counters and the \<open>favored\<close> flags.\<close>

definition refavored :: "'z afl_queue_scheme \<Rightarrow> 'z afl_queue_scheme \<Rightarrow> bool" where
  "refavored s s' \<longleftrightarrow>
     s' = s\<lparr>queue_buf := queue_buf s', map_tmp_buf := map_tmp_buf s', queued_favored := queued_favored s',
            pending_favored := pending_favored s', smallest_favored := smallest_favored s'\<rparr>
     \<and> length (map_tmp_buf s') = length (map_tmp_buf s) \<and> length (queue_buf s') = length (queue_buf s)
     \<and> (\<forall>w<length (queue_buf s). queue_buf s' ! w = (queue_buf s ! w)\<lparr>qe_favored := qe_favored (queue_buf s' ! w)\<rparr>)"

definition counters_ok :: "'z afl_queue_scheme \<Rightarrow> bool" where
  "counters_ok s \<longleftrightarrow> queued_favored s = of_nat (card (favored_set s))
     \<and> pending_favored s = of_nat (card (pending_set s))
     \<and> (if pending_set s = {} then smallest_favored s = - 1
        else \<exists>w\<in>pending_set s. smallest_favored s = uint (qe_id (queue_buf s ! w)))"

definition cull_upto :: "'z afl_queue_scheme \<Rightarrow> nat \<Rightarrow> 'z afl_queue_scheme \<Rightarrow> bool" where
  "cull_upto s k s' \<longleftrightarrow> refavored s s' \<and> counters_ok s'
     \<and> (\<forall>w\<in>favored_set s'. Some w \<in> set (top_rated s) \<and> qe_trace_mini (queue_buf s ! w) \<noteq> None)
     \<and> (\<forall>i<unat (map_size s). trace_bit (map_tmp_buf s') i \<longleftrightarrow> \<not> covered s' i)
     \<and> (\<forall>i<k. \<forall>w. top_rated s ! i = Some w \<and> qe_trace_mini (queue_buf s ! w) \<noteq> None
            \<longrightarrow> w \<in> favored_set s' \<or> covered s' i)"

lemma refavored_fields:
  assumes "refavored s s'"
  shows "map_size s' = map_size s" "top_rated s' = top_rated s" "length (queue_buf s') = length (queue_buf s)"
    "w < length (queue_buf s) \<Longrightarrow> qe_trace_mini (queue_buf s' ! w) = qe_trace_mini (queue_buf s ! w)"
    "w < length (queue_buf s) \<Longrightarrow> qe_was_fuzzed (queue_buf s' ! w) = qe_was_fuzzed (queue_buf s ! w)"
proof -
  have eq: "s' = s\<lparr>queue_buf := queue_buf s', map_tmp_buf := map_tmp_buf s', queued_favored := queued_favored s',
            pending_favored := pending_favored s', smallest_favored := smallest_favored s'\<rparr>"
    and l: "length (queue_buf s') = length (queue_buf s)"
    and e: "\<forall>w<length (queue_buf s). queue_buf s' ! w = (queue_buf s ! w)\<lparr>qe_favored := qe_favored (queue_buf s' ! w)\<rparr>"
    using assms unfolding refavored_def by blast+
  show "length (queue_buf s') = length (queue_buf s)" by (rule l)
  show "map_size s' = map_size s" using arg_cong [OF eq, of map_size] by simp
  show "top_rated s' = top_rated s" using arg_cong [OF eq, of top_rated] by simp
  assume w: "w < length (queue_buf s)"
  then have ew: "queue_buf s' ! w = (queue_buf s ! w)\<lparr>qe_favored := qe_favored (queue_buf s' ! w)\<rparr>" using e by blast
  show "qe_trace_mini (queue_buf s' ! w) = qe_trace_mini (queue_buf s ! w)"
    using arg_cong [OF ew, of qe_trace_mini] by simp
  show "qe_was_fuzzed (queue_buf s' ! w) = qe_was_fuzzed (queue_buf s ! w)"
    using arg_cong [OF ew, of qe_was_fuzzed] by simp
qed

lemma refavored_trans:
  assumes "refavored s s1" and "refavored s1 s2"
  shows "refavored s s2"
proof -
  have eq: "s1 = s\<lparr>queue_buf := queue_buf s1, map_tmp_buf := map_tmp_buf s1, queued_favored := queued_favored s1,
            pending_favored := pending_favored s1, smallest_favored := smallest_favored s1\<rparr>"
    "s2 = s1\<lparr>queue_buf := queue_buf s2, map_tmp_buf := map_tmp_buf s2, queued_favored := queued_favored s2,
            pending_favored := pending_favored s2, smallest_favored := smallest_favored s2\<rparr>"
    using assms unfolding refavored_def by blast+
  have "s2 = s\<lparr>queue_buf := queue_buf s2, map_tmp_buf := map_tmp_buf s2, queued_favored := queued_favored s2,
            pending_favored := pending_favored s2, smallest_favored := smallest_favored s2\<rparr>"
    by (subst eq(2), subst eq(1)) simp
  moreover have "queue_buf s2 ! w = (queue_buf s ! w)\<lparr>qe_favored := qe_favored (queue_buf s2 ! w)\<rparr>"
    if w: "w < length (queue_buf s)" for w
  proof -
    have "w < length (queue_buf s1)" using w refavored_fields(3) [OF assms(1)] by simp
    then have 2: "queue_buf s2 ! w = (queue_buf s1 ! w)\<lparr>qe_favored := qe_favored (queue_buf s2 ! w)\<rparr>"
      using assms(2) unfolding refavored_def by blast
    have 1: "queue_buf s1 ! w = (queue_buf s ! w)\<lparr>qe_favored := qe_favored (queue_buf s1 ! w)\<rparr>"
      using assms(1) w unfolding refavored_def by blast
    show ?thesis by (subst 2, subst 1) simp
  qed
  ultimately show ?thesis using assms unfolding refavored_def by (metis (no_types))
qed

lemma favor_entry_ok:
  assumes w: "w < length (queue_buf s)" and c: "counters_ok s"
  shows "\<exists>s'. favor_entry w s = Some s' \<and> refavored s s' \<and> counters_ok s'
      \<and> favored_set s' = insert w (favored_set s) \<and> map_tmp_buf s' = map_tmp_buf s"
proof (cases "qe_favored (queue_buf s ! w)")
  case True
  then have "favored_set s = insert w (favored_set s)" using w by (auto simp: favored_set_def)
  then show ?thesis using True w c by (intro exI [of _ s]) (simp add: favor_entry_def refavored_def)
next
  case False
  let ?e = "queue_buf s ! w"
  let ?buf = "(queue_buf s)[w := ?e\<lparr>qe_favored := True\<rparr>]"
  define small where "small = (if smallest_favored s < 0 then uint (qe_id ?e) else smallest_favored s)"
  define s' where "s' = (if qe_was_fuzzed ?e then s\<lparr>queue_buf := ?buf, queued_favored := queued_favored s + 1\<rparr>
     else s\<lparr>queue_buf := ?buf, queued_favored := queued_favored s + 1, pending_favored := pending_favored s + 1,
            smallest_favored := small\<rparr>)"
  have run: "favor_entry w s = Some s'"
    using w False by (simp add: favor_entry_def set_entry_def s'_def small_def Let_def)
  have buf: "queue_buf s' = ?buf" by (simp add: s'_def)
  have fav: "favored_set s' = insert w (favored_set s)" and new: "w \<notin> favored_set s"
    using w False by (auto simp: favored_set_def buf nth_list_update)
  have pend: "pending_set s' = (if qe_was_fuzzed ?e then pending_set s else insert w (pending_set s))"
    unfolding pending_set_def fav using w new by (auto simp: buf nth_list_update)
  have new': "w \<notin> pending_set s" and fin: "finite (pending_set s)" using new by (simp_all add: pending_set_def)
  have ids: "qe_id (queue_buf s' ! v) = qe_id (queue_buf s ! v)" for v
    using w by (cases "v = w") (simp_all add: buf)
  have "queued_favored s' = of_nat (card (favored_set s'))"
    using c new unfolding fav by (simp add: s'_def counters_ok_def)
  moreover have "pending_favored s' = of_nat (card (pending_set s'))"
    using c new' fin unfolding pend by (simp add: s'_def counters_ok_def)
  moreover have "if pending_set s' = {} then smallest_favored s' = - 1
        else \<exists>v\<in>pending_set s'. smallest_favored s' = uint (qe_id (queue_buf s' ! v))"
  proof (cases "qe_was_fuzzed ?e")
    case True
    then have "smallest_favored s' = smallest_favored s" by (simp add: s'_def)
    then show ?thesis using c True unfolding pend ids by (simp add: counters_ok_def)
  next
    case False
    then have sm: "smallest_favored s' = small" by (simp add: s'_def)
    have "\<exists>v\<in>insert w (pending_set s). small = uint (qe_id (queue_buf s ! v))"
    proof (cases "pending_set s = {}")
      case True
      then show ?thesis using c by (simp add: counters_ok_def small_def)
    next
      case False
      then obtain v where "v \<in> pending_set s" "smallest_favored s = uint (qe_id (queue_buf s ! v))"
        using c by (auto simp: counters_ok_def)
      then show ?thesis by (intro bexI [of _ v]) (simp_all add: small_def)
    qed
    then show ?thesis using False unfolding pend ids sm by simp
  qed
  ultimately have "counters_ok s'" by (simp add: counters_ok_def)
  moreover have "refavored s s'" using w by (auto simp: refavored_def s'_def nth_list_update)
  ultimately show ?thesis using run fav by (simp add: s'_def)
qed

lemma cull_step:
  assumes inv: "queue_inv s" and len: "unat (map_size s) = 8 * n" and tv: "n \<le> length (map_tmp_buf s)"
    and k: "k < unat (map_size s)" and at: "cull_upto s k s1"
  shows "\<exists>s'. cull_byte n k s1 = Some s' \<and> cull_upto s (Suc k) s'"
proof -
  have ref: "refavored s s1" using at by (simp add: cull_upto_def)
  note f = refavored_fields [OF ref]
  have t: "load8 (top_rated s1) k = Some (top_rated s ! k)"
    using inv k by (simp add: f queue_inv_def shape_ok_def)
  have l: "length (map_tmp_buf s1) = length (map_tmp_buf s)" using ref by (simp add: refavored_def)
  have v: "load8 (map_tmp_buf s1) (k div 8) = Some (map_tmp_buf s1 ! (k div 8))" using tv k len l by simp
  have vb: "map_tmp_buf s1 ! (k div 8) AND push_bit (k mod 8) 1 = 0 \<longleftrightarrow> covered s1 k"
  proof -
    have "trace_bit (map_tmp_buf s1) k \<longleftrightarrow> \<not> covered s1 k" using at k by (simp add: cull_upto_def)
    moreover have "k div 8 < length (map_tmp_buf s1)" using tv k len l by simp
    ultimately show ?thesis by (subst bit_test) (auto simp: trace_bit_def)
  qed
  have stay: "cull_upto s (Suc k) s1" if "\<And>w. top_rated s ! k = Some w \<Longrightarrow> qe_trace_mini (queue_buf s ! w) \<noteq> None \<Longrightarrow> covered s1 k"
    using at that by (auto simp: cull_upto_def less_Suc_eq)
  show ?thesis
  proof (cases "top_rated s ! k")
    case None
    then show ?thesis using t stay by (simp add: cull_byte_def)
  next
    case (Some w)
    have w: "w < length (queue_buf s)" by (rule winner_valid [OF inv k Some])
    have e: "load8 (queue_buf s1) w = Some (queue_buf s1 ! w)" using w f(3) by simp
    show ?thesis
    proof (cases "covered s1 k \<or> qe_trace_mini (queue_buf s ! w) = None")
      case True
      then have "cull_byte n k s1 = Some s1" using t Some v vb e f(4) [OF w] by (auto simp: cull_byte_def)
      then show ?thesis using stay True Some by auto
    next
      case False
      then obtain m where m: "qe_trace_mini (queue_buf s ! w) = Some m" by blast
      have "length m = (unat (map_size s) + 7) div 8"
        using inv w m by (simp add: queue_inv_def entries_ok_def entry_ok_def)
      then have lm: "length m = n" using len by simp
      obtain tv' where tv': "clear_bits (map_tmp_buf s1) m n = Some tv'" "length tv' = length (map_tmp_buf s1)"
        "\<forall>i. trace_bit tv' i \<longleftrightarrow> trace_bit (map_tmp_buf s1) i \<and> \<not> (i div 8 < n \<and> trace_bit m i)"
        using clear_bits_ok [of n "map_tmp_buf s1" m] tv l lm by auto
      let ?s = "s1\<lparr>map_tmp_buf := tv'\<rparr>"
      have r1: "refavored s1 ?s" using tv'(2) by (simp add: refavored_def)
      have "favored_set ?s = favored_set s1" "pending_set ?s = pending_set s1"
        by (simp_all add: favored_set_def pending_set_def)
      then have "counters_ok ?s" using at by (simp add: cull_upto_def counters_ok_def)
      then obtain s' where s': "favor_entry w ?s = Some s'" "refavored ?s s'" "counters_ok s'"
        "favored_set s' = insert w (favored_set s1)" "map_tmp_buf s' = tv'"
        using favor_entry_ok [of w ?s] w f(3) by (auto simp: favored_set_def)
      have ref': "refavored s s'" using refavored_trans [OF ref refavored_trans [OF r1 s'(2)]] .
      have cov: "covered s' i \<longleftrightarrow> covered s1 i \<or> trace_bit m i" for i
      proof -
        have "covers s' x i = covers s x i" "covers s1 x i = covers s x i" if "x < length (queue_buf s)" for x
          using refavored_fields(4) [OF ref' that] f(4) [OF that] by (simp_all add: covers_def)
        moreover have "x < length (queue_buf s)" if "x \<in> favored_set s1" for x
          using that f(3) by (simp add: favored_set_def)
        ultimately show ?thesis unfolding covered_def s'(4) using w m by (auto simp: covers_def)
      qed
      have bits: "trace_bit tv' i \<longleftrightarrow> \<not> covered s' i" if "i < unat (map_size s)" for i
        using tv'(3) cov at that len by (auto simp: cull_upto_def)
      have "Some w \<in> set (top_rated s)"
        using inv k Some nth_mem [of k "top_rated s"] by (simp add: queue_inv_def shape_ok_def)
      then have "cull_upto s (Suc k) s'"
        using at ref' s'(3) bits Some m cov unfolding cull_upto_def s'(4,5) by (auto simp: less_Suc_eq)
      moreover have "cull_byte n k s1 = Some s'"
        using t Some v vb e False m f(4) [OF w] tv'(1) s'(1) by (simp add: cull_byte_def)
      ultimately show ?thesis by blast
    qed
  qed
qed

section \<open>The whole routine\<close>

lemma queue_inv_weaken:
  assumes "queue_inv s" and "map_size s' = map_size s" and "trace_bits s' = trace_bits s" and "schedule s' = schedule s"
    and "n_fuzz s' = n_fuzz s" and "top_rated s' = top_rated s" and "length (queue_buf s') = length (queue_buf s)"
    and "\<And>w. w < length (queue_buf s) \<Longrightarrow> qe_tc_ref (queue_buf s' ! w) = qe_tc_ref (queue_buf s ! w)
      \<and> qe_n_fuzz_entry (queue_buf s' ! w) = qe_n_fuzz_entry (queue_buf s ! w)
      \<and> (qe_trace_mini (queue_buf s' ! w) = qe_trace_mini (queue_buf s ! w) \<or> qe_trace_mini (queue_buf s' ! w) = None)"
  shows "queue_inv s'"
proof -
  have "entry_ok s' (wins_of s' w) (queue_buf s' ! w)" if w: "w < length (queue_buf s)" for w
  proof -
    have "entry_ok s (wins_of s w) (queue_buf s ! w)" using assms(1) w by (simp add: queue_inv_def entries_ok_def)
    then show ?thesis using assms(2,4-6) assms(8) [OF w] by (auto simp: entry_ok_def wins_of_def)
  qed
  then show ?thesis using assms(1-7) by (simp add: queue_inv_def shape_ok_def entries_ok_def)
qed

definition mark_entry :: "bool \<Rightarrow> queue_entry \<Rightarrow> queue_entry" where
  "mark_entry d e = (if qe_disabled e then e else mark_as_redundant d e (\<not> qe_favored e))"

lemma mark_entry_fields [simp]:
  "qe_tc_ref (mark_entry d e) = qe_tc_ref e" "qe_n_fuzz_entry (mark_entry d e) = qe_n_fuzz_entry e"
  "qe_favored (mark_entry d e) = qe_favored e" "qe_was_fuzzed (mark_entry d e) = qe_was_fuzzed e"
  "qe_id (mark_entry d e) = qe_id e" "\<not> qe_disabled e \<Longrightarrow> qe_fs_redundant (mark_entry d e) \<longleftrightarrow> \<not> qe_favored e"
  "qe_trace_mini (mark_entry d e)
     = (if qe_disabled e \<or> qe_favored e \<or> qe_fs_redundant e then qe_trace_mini e else None)"
  by (simp_all add: mark_entry_def mark_as_redundant_def Let_def)

text \<open>Marking changes neither the favored entries nor what they cover.\<close>

definition marked :: "bool \<Rightarrow> 'z afl_queue_scheme \<Rightarrow> 'z afl_queue_scheme" where
  "marked d s = s\<lparr>queue_buf := map (mark_entry d) (queue_buf s), reinit_table := True\<rparr>"

lemma marked_simps [simp]:
  "map_size (marked d s) = map_size s" "trace_bits (marked d s) = trace_bits s" "schedule (marked d s) = schedule s"
  "n_fuzz (marked d s) = n_fuzz s" "top_rated (marked d s) = top_rated s"
  "queue_buf (marked d s) = map (mark_entry d) (queue_buf s)" "queued_favored (marked d s) = queued_favored s"
  "pending_favored (marked d s) = pending_favored s" "smallest_favored (marked d s) = smallest_favored s"
  "favored_set (marked d s) = favored_set s" "pending_set (marked d s) = pending_set s" "covered (marked d s) = covered s"
  by (auto simp: marked_def favored_set_def pending_set_def covered_def covers_def fun_eq_iff)

lemma queue_inv_marked:
  assumes "queue_inv s"
  shows "queue_inv (marked d s)"
  by (rule queue_inv_weaken [OF assms]) simp_all

lemma queue_inv_refavored:
  assumes "queue_inv s" and "refavored s s'"
  shows "queue_inv s'"
proof -
  obtain buf tv qf pf sf where eq: "s' = s\<lparr>queue_buf := buf, map_tmp_buf := tv, queued_favored := qf,
      pending_favored := pf, smallest_favored := sf\<rparr>" and "length buf = length (queue_buf s)"
    and bw: "\<forall>w<length (queue_buf s). buf ! w = (queue_buf s ! w)\<lparr>qe_favored := qe_favored (buf ! w)\<rparr>"
    using assms(2) unfolding refavored_def by fastforce
  moreover have "\<exists>b. buf ! w = (queue_buf s ! w)\<lparr>qe_favored := b\<rparr>" if "w < length (queue_buf s)" for w
    using bw that by blast
  ultimately show ?thesis by (intro queue_inv_weaken [OF assms(1)]) (auto, fastforce+)
qed

lemma counters_marked:
  assumes "counters_ok s"
  shows "counters_ok (marked d s)"
proof -
  have "qe_id (queue_buf (marked d s) ! w) = qe_id (queue_buf s ! w)" if "w \<in> pending_set s" for w
    using that by (simp add: pending_set_def favored_set_def)
  then have "(\<exists>w\<in>pending_set s. sm = uint (qe_id (queue_buf (marked d s) ! w)))
      \<longleftrightarrow> (\<exists>w\<in>pending_set s. sm = uint (qe_id (queue_buf s ! w)))" for sm by (intro bex_cong) simp_all
  with assms show ?thesis unfolding counters_ok_def by (simp del: marked_simps(6))
qed

lemma card_favored:
  assumes "length (queue_buf s) < 2 ^ 32"
  shows "card (favored_set s) < 2 ^ 32" and "card (pending_set s) < 2 ^ 32"
proof -
  have "favored_set s \<subseteq> {..<length (queue_buf s)}" by (auto simp: favored_set_def)
  then have "card (favored_set s) \<le> length (queue_buf s)" using card_mono [of "{..<length (queue_buf s)}"] by fastforce
  moreover have "card (pending_set s) \<le> card (favored_set s)" by (rule card_mono) (auto simp: pending_set_def)
  ultimately show "card (favored_set s) < 2 ^ 32" "card (pending_set s) < 2 ^ 32" using assms by simp_all
qed

text \<open>The state before the walk.\<close>

definition cull_start :: "'z afl_queue_scheme \<Rightarrow> 'z afl_queue_scheme" where
  "cull_start s = (let n = unat (map_size s) div 8 in
     s\<lparr>score_changed := False, map_tmp_buf := replicate n 255 @ drop n (map_tmp_buf s), queued_favored := 0,
       pending_favored := 0, queue_buf := map (qe_favored_update (\<lambda>_. False)) (queue_buf s), smallest_favored := - 1\<rparr>)"

lemma cull_start_simps [simp]:
  "map_size (cull_start s) = map_size s" "top_rated (cull_start s) = top_rated s"
  "queue_buf (cull_start s) = map (qe_favored_update (\<lambda>_. False)) (queue_buf s)"
  "queued_items (cull_start s) = queued_items s"
  "afl_disable_redundant (cull_start s) = afl_disable_redundant s" "favored_set (cull_start s) = {}"
  by (auto simp: cull_start_def Let_def favored_set_def)

lemma cull_start_ok:
  assumes "queue_inv s" and "unat (map_size s) = 8 * n" and "n \<le> length (map_tmp_buf s)"
  shows "queue_inv (cull_start s)" and "cull_upto (cull_start s) 0 (cull_start s)"
    and "length (map_tmp_buf (cull_start s)) = length (map_tmp_buf s)"
proof -
  show "queue_inv (cull_start s)"
    by (rule queue_inv_weaken [OF assms(1)]) (auto simp: cull_start_def Let_def)
  show len: "length (map_tmp_buf (cull_start s)) = length (map_tmp_buf s)"
    using assms(2,3) by (simp add: cull_start_def Let_def)
  have "bit (255 :: u8) j" if "j < 8" for j
  proof -
    have "(255 :: u8) = - 1" by simp
    then show ?thesis using that by (simp only: bit_minus_1_iff) simp
  qed
  then have "trace_bit (map_tmp_buf (cull_start s)) i" if "i < 8 * n" for i
    using that assms(2,3) by (simp add: trace_bit_def cull_start_def Let_def nth_append less_mult_imp_div_less mult.commute)
  then show "cull_upto (cull_start s) 0 (cull_start s)"
    using assms(2) by (simp add: cull_upto_def refavored_def counters_ok_def covered_def pending_set_def)
      (simp add: cull_start_def Let_def)
qed

lemma cull_queue_run:
  assumes "queue_inv s" and "score_changed s" and "\<not> non_instrumented_mode s"
    and "unat (map_size s) = 8 * n" and "n \<le> length (map_tmp_buf s)" and "unat (queued_items s) = length (queue_buf s)"
  shows "\<exists>s2. cull_upto (cull_start s) (unat (map_size s)) s2 \<and>
     cull_queue s = Some (marked (afl_disable_redundant s) s2)"
proof -
  note start = cull_start_ok [OF assms(1,4,5)]
  have n: "unat (drop_bit 3 (map_size s)) = n" using assms(4) by (simp add: drop_bit_3_unat)
  let ?s0 = "s\<lparr>score_changed := False, map_tmp_buf := replicate n 255 @ drop n (map_tmp_buf s), queued_favored := 0,
       pending_favored := 0\<rparr>"
  have reset: "for_range 0 (unat (queued_items s)) (\<lambda>i s. set_entry s i (qe_favored_update (\<lambda>_. False))) ?s0
      = Some (?s0\<lparr>queue_buf := map (qe_favored_update (\<lambda>_. False)) (queue_buf s)\<rparr>)"
    using assms(6) by (subst each_entry [where g = "qe_favored_update (\<lambda>_. False)"]) (auto simp: set_entry_def)
  have s1: "?s0\<lparr>queue_buf := map (qe_favored_update (\<lambda>_. False)) (queue_buf s), smallest_favored := - 1\<rparr> = cull_start s"
    using assms(4) by (simp add: cull_start_def Let_def)
  obtain s2 where s2: "for_range 0 (unat (map_size s)) (cull_byte n) (cull_start s) = Some s2"
    "cull_upto (cull_start s) (unat (map_size s)) s2"
    using for_range_rule [of "cull_upto (cull_start s)" 0 "cull_start s" "unat (map_size s)" "cull_byte n", OF start(2)]
      cull_step [OF start(1), of n] assms(4,5) start(3) by auto
  have ref: "refavored (cull_start s) s2" using s2(2) by (simp add: cull_upto_def)
  then obtain buf tv qf pf sf where eq: "s2 = (cull_start s)\<lparr>queue_buf := buf, map_tmp_buf := tv, queued_favored := qf,
      pending_favored := pf, smallest_favored := sf\<rparr>" "length buf = length (queue_buf s)"
    unfolding refavored_def by fastforce
  have d: "afl_disable_redundant s2 = afl_disable_redundant s" "queued_items s2 = queued_items s"
    using eq(1) by (simp_all add: cull_start_def Let_def)
  have mark: "for_range 0 (unat (queued_items s2)) (\<lambda>i s. do {
                 e \<leftarrow> load8 (queue_buf s) i;
                 if \<not> qe_disabled e then set_entry s i (\<lambda>e. mark_as_redundant (afl_disable_redundant s) e (\<not> qe_favored e))
                 else Some s }) s2 = Some (s2\<lparr>queue_buf := map (mark_entry (afl_disable_redundant s)) (queue_buf s2)\<rparr>)"
    using assms(6) eq(2)
    by (subst each_entry [where g = "mark_entry (afl_disable_redundant s)"]) (auto simp: set_entry_def mark_entry_def d eq(1))
  have "cull_queue s = Some (marked (afl_disable_redundant s) s2)"
    using assms(2,3,5) n reset s1 s2(1) mark by (simp add: cull_queue_def marked_def Let_def)
  with s2(2) show ?thesis by blast
qed

text \<open>Culling keeps or drops compact traces, but never changes one.\<close>

lemma cull_queue_traces:
  assumes inv: "queue_inv s" and "\<not> non_instrumented_mode s" and "unat (map_size s) = 8 * n"
    and "n \<le> length (map_tmp_buf s)" and "unat (queued_items s) = length (queue_buf s)"
  shows "\<exists>s'. cull_queue s = Some s' \<and> queue_inv s' \<and> map_size s' = map_size s \<and> length (queue_buf s') = length (queue_buf s)
      \<and> (\<forall>w<length (queue_buf s). qe_trace_mini (queue_buf s' ! w) = qe_trace_mini (queue_buf s ! w)
            \<or> qe_trace_mini (queue_buf s' ! w) = None)"
proof (cases "score_changed s")
  case False
  then show ?thesis using inv by (simp add: cull_queue_def)
next
  case True
  obtain s2 where at: "cull_upto (cull_start s) (unat (map_size s)) s2"
    and run: "cull_queue s = Some (marked (afl_disable_redundant s) s2)"
    using cull_queue_run [OF inv True assms(2-5)] by blast
  have ref: "refavored (cull_start s) s2" using at by (simp add: cull_upto_def)
  note f = refavored_fields [OF ref]
  have "queue_inv (marked (afl_disable_redundant s) s2)"
    using queue_inv_marked queue_inv_refavored [OF cull_start_ok(1) [OF inv assms(3,4)] ref] by blast
  then show ?thesis unfolding run using f by (intro exI [of _ "marked (afl_disable_redundant s) s2"]) simp
qed

text \<open>C37. \<open>cull_queue\<close> favors enough entries: every map byte whose winner keeps a compact trace with that byte in it is in
  the kept trace of some favored entry afterwards. Only winners with a kept trace are favored, the counters of
  favored and of not yet fuzzed favored entries are exact, the entry fuzzed next is one of the latter (-1 if there is
  none), enabled entries are redundant exactly when they are not favored, the winners stay, and the reference counts
  stay exact.\<close>

theorem cull_queue_correct:
  assumes "queue_inv s" and "score_changed s" and "\<not> non_instrumented_mode s"
    and "8 dvd unat (map_size s)" and "unat (map_size s) div 8 \<le> length (map_tmp_buf s)"
    and "unat (queued_items s) = length (queue_buf s)"
  shows "\<exists>s'. cull_queue s = Some s' \<and> queue_inv s' \<and> top_rated s' = top_rated s
      \<and> (\<forall>i<unat (map_size s). \<forall>w. top_rated s ! i = Some w \<and> covers s w i \<longrightarrow> covered s' i)
      \<and> (\<forall>w\<in>favored_set s'. Some w \<in> set (top_rated s) \<and> qe_trace_mini (queue_buf s ! w) \<noteq> None)
      \<and> unat (queued_favored s') = card (favored_set s') \<and> unat (pending_favored s') = card (pending_set s')
      \<and> (if pending_set s' = {} then smallest_favored s' = - 1
         else \<exists>w\<in>pending_set s'. smallest_favored s' = uint (qe_id (queue_buf s' ! w)))
      \<and> (\<forall>w<length (queue_buf s). \<not> qe_disabled (queue_buf s ! w)
           \<longrightarrow> (qe_fs_redundant (queue_buf s' ! w) \<longleftrightarrow> w \<notin> favored_set s'))"
proof -
  obtain n where n: "unat (map_size s) = 8 * n" using assms(4) by (elim dvdE)
  then have tv: "n \<le> length (map_tmp_buf s)" using assms(5) by simp
  obtain s2 where at: "cull_upto (cull_start s) (unat (map_size s)) s2"
    and run: "cull_queue s = Some (marked (afl_disable_redundant s) s2)"
    using cull_queue_run [OF assms(1-3) n tv assms(6)] by blast
  have ref: "refavored (cull_start s) s2" using at by (simp add: cull_upto_def)
  note f = refavored_fields [OF ref]
  have len: "length (queue_buf s2) = length (queue_buf s)" and top: "top_rated s2 = top_rated s" using f(2,3) by simp_all
  let ?t = "marked (afl_disable_redundant s) s2"
  show ?thesis unfolding run
  proof (intro exI conjI, rule refl)
    show "queue_inv ?t"
      using queue_inv_marked queue_inv_refavored [OF cull_start_ok(1) [OF assms(1) n tv] ref] by blast
    show "top_rated ?t = top_rated s" using top by simp
    show "\<forall>i<unat (map_size s). \<forall>w. top_rated s ! i = Some w \<and> covers s w i \<longrightarrow> covered ?t i"
    proof (intro allI impI, elim conjE)
      fix i w assume i: "i < unat (map_size s)" and w: "top_rated s ! i = Some w" "covers s w i"
      have "w < length (queue_buf s)" by (rule winner_valid [OF assms(1) i w(1)])
      then have "qe_trace_mini (queue_buf (cull_start s) ! w) \<noteq> None" "covers s2 w i"
        using w(2) f(4) [of w] by (auto simp: covers_def)
      then have "w \<in> favored_set s2 \<or> covered s2 i" using at i w(1) by (simp add: cull_upto_def)
      then show "covered ?t i" using \<open>covers s2 w i\<close> by (auto simp: covered_def)
    qed
    show "\<forall>w\<in>favored_set ?t. Some w \<in> set (top_rated s) \<and> qe_trace_mini (queue_buf s ! w) \<noteq> None"
      using at len by (auto simp: cull_upto_def favored_set_def)
    have c: "counters_ok ?t" using at by (simp add: cull_upto_def counters_marked)
    then show "if pending_set ?t = {} then smallest_favored ?t = - 1
         else \<exists>w\<in>pending_set ?t. smallest_favored ?t
           = uint (qe_id (queue_buf ?t ! w))"
      unfolding counters_ok_def by blast
    have "length (queue_buf ?t) < 2 ^ 32"
      using len assms(6) unsigned_less [of "queued_items s", where ?'a = nat] by simp
    from c card_favored [OF this]
    show "unat (queued_favored ?t) = card (favored_set ?t)"
      "unat (pending_favored ?t) = card (pending_set ?t)"
      by (simp_all add: counters_ok_def unsigned_of_nat take_bit_nat_eq_self)
    show "\<forall>w<length (queue_buf s). \<not> qe_disabled (queue_buf s ! w)
           \<longrightarrow> (qe_fs_redundant (queue_buf ?t ! w)
                  \<longleftrightarrow> w \<notin> favored_set ?t)"
      using ref len by (auto simp: favored_set_def refavored_def)
  qed
qed


section \<open>Examples\<close>

definition example_entry :: "u32 \<Rightarrow> u32 \<Rightarrow> queue_entry" where
  "example_entry i n = \<lparr>qe_len = n, qe_id = i, qe_was_fuzzed = False, qe_favored = False, qe_fs_redundant = False,
     qe_disabled = False, qe_fuzz_level = 0, qe_n_fuzz_entry = 0, qe_exec_us = 10, qe_tc_ref = 0, qe_trace_mini = None,
     qe_cal_failed = 0, qe_has_new_cov = False, qe_var_behavior = False, qe_bitmap_size = 0, qe_handicap = 0, qe_depth = 1,
     qe_exec_cksum = 0\<rparr>"

definition queue_example :: afl_queue where
  "queue_example = \<lparr>trace_bits = [1, 1, 0, 0, 0, 0, 0, 0], map_size = 8, real_map_size = 8, virgin_bits = [], virgin_tmout = [],
     virgin_crash = [], bitmap_changed = 0, count_class_lookup16 = id,
     queue_buf = [example_entry 0 10, example_entry 1 2, example_entry 2 2], queued_items = 3, queued_favored = 0,
     pending_favored = 0, smallest_favored = - 1, schedule = EXPLORE, fixed_seed = False, non_instrumented_mode = False,
     afl_disable_redundant = False, n_fuzz = [], top_rated = replicate 8 None, map_tmp_buf = replicate 8 0,
     top_rated_candidates = replicate 8 None, last_scored_idx = - 1, score_changed = True, reinit_table = False\<rparr>"

definition score_run :: "nat \<Rightarrow> mem \<Rightarrow> 'z afl_queue_scheme \<Rightarrow> 'z afl_queue_scheme option" where
  "score_run q trace s = update_bitmap_score (s\<lparr>trace_bits := trace\<rparr>) q True"

definition queue_scored :: afl_queue where
  "queue_scored = queue_example\<lparr>queue_buf := [(example_entry 0 10)\<lparr>qe_tc_ref := 1, qe_trace_mini := Some [3]\<rparr>,
     (example_entry 1 2)\<lparr>qe_tc_ref := 1, qe_trace_mini := Some [2]\<rparr>, example_entry 2 2],
     top_rated := [Some 0, Some 1, None, None, None, None, None, None]\<rparr>"

lemma all_less_3: "(\<forall>w<3. P w) \<longleftrightarrow> P 0 \<and> P 1 \<and> P (2 :: nat)"
  by (auto simp: numeral_3_eq_3 All_less_Suc numeral_2_eq_2)

lemma queue_example_fields [simp]:
  "trace_bits queue_example = [1, 1, 0, 0, 0, 0, 0, 0]" "map_size queue_example = 8" "schedule queue_example = EXPLORE"
  "top_rated queue_example = [None, None, None, None, None, None, None, None]"
  "queue_buf queue_example = [example_entry 0 10, example_entry 1 2, example_entry 2 2]"
  by (simp_all add: queue_example_def eval_nat_numeral)

lemma queue_scored_fields [simp]:
  "trace_bits queue_scored = [1, 1, 0, 0, 0, 0, 0, 0]" "map_size queue_scored = 8" "schedule queue_scored = EXPLORE"
  "top_rated queue_scored = [Some 0, Some 1, None, None, None, None, None, None]"
  "queue_buf queue_scored = [(example_entry 0 10)\<lparr>qe_tc_ref := 1, qe_trace_mini := Some [3]\<rparr>,
     (example_entry 1 2)\<lparr>qe_tc_ref := 1, qe_trace_mini := Some [2]\<rparr>, example_entry 2 2]"
  by (simp_all add: queue_scored_def)

lemma queue_inv_example: "queue_inv queue_example"
  unfolding queue_inv_def entries_ok_def
proof
  show "shape_ok queue_example" by (simp add: shape_ok_def)
  have "length (queue_buf queue_example) = 3" by simp
  then show "\<forall>w<length (queue_buf queue_example). entry_ok queue_example (wins_of queue_example w) (queue_buf queue_example ! w)"
    by (simp only: all_less_3) (simp add: entry_ok_def wins_of_def example_entry_def)
qed

lemma queue_inv_scored: "queue_inv queue_scored"
  unfolding queue_inv_def entries_ok_def
proof
  show "shape_ok queue_scored" by (simp add: shape_ok_def)
  have "length (queue_buf queue_scored) = 3" by simp
  then show "\<forall>w<length (queue_buf queue_scored). entry_ok queue_scored (wins_of queue_scored w) (queue_buf queue_scored ! w)"
    by (simp only: all_less_3) (simp add: entry_ok_def wins_of_def example_entry_def)
qed

theorem update_bitmap_score_witness:
  "\<exists>s'. update_bitmap_score queue_example 0 True = Some s' \<and> queue_inv s' \<and> top_rated s' ! 1 = Some 0"
  using update_bitmap_score_correct [OF queue_inv_example, of 0] by (auto simp: wins_def)

theorem cull_queue_witness:
  "\<exists>s'. cull_queue queue_scored = Some s' \<and> queue_inv s' \<and> covered s' 0 \<and> covered s' 1"
proof -
  have cov: "covers queue_scored 0 0" "covers queue_scored 1 1"
    by (simp_all add: covers_def trace_bit_def bit_numeral_rec)
  have "score_changed queue_scored" "\<not> non_instrumented_mode queue_scored" "length (map_tmp_buf queue_scored) = 8"
    "queued_items queue_scored = 3"
    by (simp_all add: queue_scored_def queue_example_def)
  then obtain s' where "cull_queue queue_scored = Some s'" "queue_inv s'"
    "\<forall>i<8. \<forall>w. top_rated queue_scored ! i = Some w \<and> covers queue_scored w i \<longrightarrow> covered s' i"
    using cull_queue_correct [OF queue_inv_scored] by auto
  with cov show ?thesis by (intro exI [of _ s']) simp
qed

text \<open>The favored entries can lose a byte for good. The first culling finds the winner of byte 1 covered by entry 0 and
  marks it redundant, which throws its compact trace away; when entry 0 later loses byte 0 to a faster entry, the second
  culling skips byte 1 because its winner has no trace: afterwards the only favored entry is 2, which never reached
  byte 1.\<close>

lemma cull_loses_byte:
  "map_option (\<lambda>s. (map qe_favored (queue_buf s), top_rated s ! 1))
     (do { s \<leftarrow> score_run 0 [1, 1, 0, 0, 0, 0, 0, 0] queue_example;
           s \<leftarrow> score_run 1 [0, 1, 0, 0, 0, 0, 0, 0] s;
           s \<leftarrow> cull_queue s;
           s \<leftarrow> score_run 2 [1, 0, 0, 0, 0, 0, 0, 0] s;
           cull_queue s })
   = Some ([False, False, True], Some 1)"
  by code_simp

text \<open>Rescoring gives entries the trace of another entry. Three entries reach byte 0, 1 and 2 only and are all favored;
  \<open>recalculate_all_scores\<close> runs all of them and only then compares, so the compact traces it builds here are the trace of the
  last entry it ran, and the next culling no longer favors entry 2, the only one that reaches byte 2.\<close>

lemma rescore_mixes_traces:
  "map_option (\<lambda>(s, s'). (map qe_favored (queue_buf s), map qe_trace_mini (queue_buf s'), map qe_favored (queue_buf s')))
     (do { s \<leftarrow> score_run 0 [1, 0, 0, 0, 0, 0, 0, 0] queue_example;
           s \<leftarrow> score_run 1 [0, 1, 0, 0, 0, 0, 0, 0] s;
           s \<leftarrow> score_run 2 [0, 0, 1, 0, 0, 0, 0, 0] s;
           s1 \<leftarrow> cull_queue s;
           s \<leftarrow> recalculate_all_scores (\<lambda>i s. (replicate 8 0)[i := 1]) s1;
           s2 \<leftarrow> cull_queue s;
           Some (s1, s2) })
   = Some ([True, True, True], [Some [4], Some [4], None], [True, True, False])"
  by code_simp

end
