(* ===== verification/Cache.thy ===== *)
theory Cache
  imports Complex_Main Alloc Rand
begin

text \<open>
  The cache of test cases of \<^verbatim>\<open>src/afl-fuzz-queue.c\<close>. A queue entry is its index; of \<open>struct queue_entry\<close> only the fields the
  cache uses are here. \<open>fs\<close> maps file names to contents, \<open>malloc_ok n\<close> says whether an allocation of \<open>n\<close> bytes succeeds,
  \<open>draw\<close> is \<open>rand_below\<close> (interface \<open>rng\<close>). \<open>None\<close> is a fatal error, an access outside an array or a loop that does not end.
\<close>

record testcase =
  te_fname :: string
  te_len :: u32
  te_weight :: rat
  te_testcase_buf :: "mem option"

record 'r afl_cache =
  entries :: "testcase list"
  queue_cur :: "nat option"
  q_testcase_max_cache_size :: u64
  q_testcase_max_cache_entries :: u32
  q_testcase_cache_size :: u64
  q_testcase_max_cache_count :: u32
  q_testcase_cache_count :: u32
  q_testcase_smallest_free :: u32
  q_testcase_evictions :: u32
  q_testcase_cache :: "nat option list"
  do_once :: bool
  testcase_buf :: "mem option"
  splicecase_buf :: "mem option"
  rng_state :: 'r

type_synonym files = "string \<Rightarrow> mem option"

text \<open>\<open>open\<close> and \<open>ck_read\<close>: a missing file and a short read are fatal. The count is an \<open>s32\<close>.\<close>

definition ck_read :: "files \<Rightarrow> string \<Rightarrow> u32 \<Rightarrow> mem option" where
  "ck_read fs fname len = do {
     f \<leftarrow> fs fname;
     if unat len < 2 ^ 31 \<and> unat len \<le> length f then Some (take (unat len) f) else None }"

definition set_testcase :: "nat \<Rightarrow> mem option \<Rightarrow> 'r afl_cache \<Rightarrow> 'r afl_cache" where
  "set_testcase q b s = s\<lparr>entries := (entries s)[q := (entries s ! q)\<lparr>te_testcase_buf := b\<rparr>]\<rparr>"

section \<open>Making room\<close>



text \<open>Once the cache is filled by size, the number of entries it then has becomes its maximum. \<open>ck_realloc\<close> may make the array
  longer; what it adds is not initialized and counts as outside the array here.\<close>

definition learn_max :: "'r afl_cache \<Rightarrow> u32 \<Rightarrow> 'r afl_cache" where
  "learn_max s len =
     (if q_testcase_cache_size s + ucast len \<ge> q_testcase_max_cache_size s
         \<and> (q_testcase_cache_count s < q_testcase_max_cache_entries s
            \<and> q_testcase_max_cache_count s < q_testcase_max_cache_entries s) \<and> \<not> do_once s
      then
        let m = (if q_testcase_max_cache_count s > q_testcase_cache_count s then q_testcase_max_cache_count s + 1
                 else q_testcase_cache_count s + 1);
            n = unat (m + 1)
        in s\<lparr>q_testcase_max_cache_entries := m, do_once := True,
             q_testcase_cache := take n (q_testcase_cache s)\<rparr>
      else s)"



section \<open>Filling a slot\<close>

text \<open>\<open>while (cache[tid] != NULL) ++tid;\<close>\<close>

function find_free :: "nat option list \<Rightarrow> nat \<Rightarrow> nat option" where
  "find_free cache tid = do {
     c \<leftarrow> load8 cache tid;
     if c \<noteq> None then find_free cache (Suc tid) else Some tid }"
  by pat_completeness auto
termination by (relation "measure (\<lambda>(cache, tid). length cache - tid)") (auto simp: load8_def split: if_splits)

definition register :: "nat \<Rightarrow> nat \<Rightarrow> mem \<Rightarrow> 'r afl_cache \<Rightarrow> 'r afl_cache" where
  "register q tid b s =
     (let len = te_len (entries s ! q);
          s = set_testcase q (Some b) s;
          s = s\<lparr>q_testcase_cache := (q_testcase_cache s)[tid := Some q],
                q_testcase_cache_size := q_testcase_cache_size s + ucast len,
                q_testcase_cache_count := q_testcase_cache_count s + 1\<rparr>
      in if tid \<ge> unat (q_testcase_max_cache_count s) then s\<lparr>q_testcase_max_cache_count := word_of_nat tid + 1\<rparr>
         else if tid = unat (q_testcase_smallest_free s) then s\<lparr>q_testcase_smallest_free := word_of_nat tid + 1\<rparr>
         else s)"

text \<open>Writing \<open>d\<close> to the start of the buffer \<open>b\<close>.\<close>

definition overwrite :: "mem \<Rightarrow> mem \<Rightarrow> mem option" where
  "overwrite b d = (if length d \<le> length b then Some (d @ drop (length d) b) else None)"



definition queue_testcase_store_mem :: "(u32 \<Rightarrow> bool) \<Rightarrow> nat \<Rightarrow> mem \<Rightarrow> 'r afl_cache \<Rightarrow> 'r afl_cache option" where
  "queue_testcase_store_mem malloc_ok q m s = do {
     e \<leftarrow> load8 (entries s) q;
     if te_weight e < 1 \<or> q_testcase_cache_size s + ucast (te_len e) \<ge> q_testcase_max_cache_size s
        \<or> q_testcase_cache_count s \<ge> q_testcase_max_cache_entries s - 1 then Some s
     else do {
       let tid = (if q_testcase_max_cache_count s \<ge> q_testcase_max_cache_entries s then q_testcase_smallest_free s
                  else q_testcase_max_cache_count s);
       t \<leftarrow> find_free (q_testcase_cache s) (unat tid);
       if malloc_ok (te_len e) \<and> unat (te_len e) \<le> length m then Some (register q t (take (unat (te_len e)) m) s)
       else None } }"

section \<open>Trimmed test cases\<close>

text \<open>\<open>len\<close> and \<open>old_len\<close> are \<open>u32\<close>, so \<open>len - old_len\<close> wraps before it is added to the 64-bit size. \<open>realloc\<close> keeps the
  common prefix; \<open>garbage\<close> is what is behind it.\<close>

definition resize_buf :: "mem \<Rightarrow> nat \<Rightarrow> mem \<Rightarrow> mem" where
  "resize_buf b n garbage = take n (b @ garbage)"

definition queue_testcase_retake ::
  "(u32 \<Rightarrow> bool) \<Rightarrow> mem \<Rightarrow> files \<Rightarrow> nat \<Rightarrow> u32 \<Rightarrow> 'r afl_cache \<Rightarrow> 'r afl_cache option" where
  "queue_testcase_retake malloc_ok garbage fs q old_len s = do {
     e \<leftarrow> load8 (entries s) q;
     case te_testcase_buf e of
       None \<Rightarrow> Some s
     | Some b \<Rightarrow> do {
         let len = te_len e;
         (b, s) \<leftarrow> (if len > old_len \<or> len + 1024 < old_len then
             let s = s\<lparr>q_testcase_cache_size := q_testcase_cache_size s + ucast (len - old_len)\<rparr>
             in if malloc_ok len then Some (resize_buf b (unat len) garbage, s) else None
           else Some (b, s));
         d \<leftarrow> ck_read fs (te_fname e) len;
         b \<leftarrow> overwrite b d;
         Some (set_testcase q (Some b) s) } }"


section \<open>The invariant\<close>

definition slot_size :: "'r afl_cache \<Rightarrow> nat option \<Rightarrow> u64" where
  "slot_size s c = (case c of None \<Rightarrow> 0 | Some q \<Rightarrow> ucast (te_len (entries s ! q)))"

definition cached :: "'r afl_cache \<Rightarrow> nat \<Rightarrow> bool" where
  "cached s q \<longleftrightarrow> q < length (entries s) \<and> te_testcase_buf (entries s ! q) \<noteq> None"

definition slots_ok :: "'r afl_cache \<Rightarrow> bool" where
  "slots_ok s \<longleftrightarrow> unat (q_testcase_max_cache_entries s) + 2 < 2 ^ 32 \<and> 3 \<le> unat (q_testcase_max_cache_entries s)
     \<and> length (q_testcase_cache s) \<le> unat (q_testcase_max_cache_entries s) + 1
     \<and> unat (q_testcase_max_cache_entries s) \<le> length (q_testcase_cache s)
     \<and> q_testcase_max_cache_count s \<le> q_testcase_max_cache_entries s
     \<and> q_testcase_smallest_free s \<le> q_testcase_max_cache_count s
     \<and> (\<forall>t<length (q_testcase_cache s). unat (q_testcase_max_cache_count s) \<le> t \<longrightarrow> q_testcase_cache s ! t = None)
     \<and> (\<forall>t<unat (q_testcase_smallest_free s). q_testcase_cache s ! t \<noteq> None)"

text \<open>Every entry with a buffer is in exactly one slot, the counters count, and a buffer holds the entry's file.\<close>

definition cache_inv :: "files \<Rightarrow> 'r afl_cache \<Rightarrow> bool" where
  "cache_inv fs s \<longleftrightarrow> slots_ok s
     \<and> (\<forall>q. count_list (q_testcase_cache s) (Some q) = of_bool (cached s q))
     \<and> unat (q_testcase_cache_count s) + count_list (q_testcase_cache s) None = length (q_testcase_cache s)
     \<and> q_testcase_cache_size s = sum_list (map (slot_size s) (q_testcase_cache s))
     \<and> (\<forall>q b. q < length (entries s) \<and> te_testcase_buf (entries s ! q) = Some b \<longrightarrow>
          ck_read fs (te_fname (entries s ! q)) (te_len (entries s ! q)) = Some (take (unat (te_len (entries s ! q))) b))"

lemma cache_count:
  "cache_inv fs s \<Longrightarrow> unat (q_testcase_cache_count s) + count_list (q_testcase_cache s) None = length (q_testcase_cache s)"
  by (simp add: cache_inv_def)

lemma sum_list_replace:
  fixes f :: "'a \<Rightarrow> 'b::ab_group_add"
  shows "i < length xs \<Longrightarrow> sum_list (map f (xs[i := v])) = sum_list (map f xs) - f (xs ! i) + f v"
proof (induction xs arbitrary: i)
  case (Cons x xs)
  then show ?case by (cases i) (simp_all add: algebra_simps)
qed simp

lemma set_testcase_simps [simp]:
  "length (entries (set_testcase q b s)) = length (entries s)"
  "v < length (entries s) \<Longrightarrow> entries (set_testcase q b s) ! v
     = (if v = q then (entries s ! v)\<lparr>te_testcase_buf := b\<rparr> else entries s ! v)"
  by (simp_all add: set_testcase_def nth_list_update)

section \<open>Eviction\<close>




section \<open>Making room ends\<close>












lemma learn_max_fields [simp]:
  "entries (learn_max s len) = entries s" "queue_cur (learn_max s len) = queue_cur s"
  "q_testcase_max_cache_count (learn_max s len) = q_testcase_max_cache_count s"
  "q_testcase_cache_count (learn_max s len) = q_testcase_cache_count s" "rng_state (learn_max s len) = rng_state s"
  "q_testcase_max_cache_size (learn_max s len) = q_testcase_max_cache_size s"
  by (simp_all add: learn_max_def Let_def)

lemma cache_inv_rng [simp]: "cache_inv fs (s\<lparr>rng_state := r\<rparr>) = cache_inv fs s"
proof -
  have "slot_size (s\<lparr>rng_state := r\<rparr>) = slot_size s" by (simp add: slot_size_def fun_eq_iff split: option.splits)
  then show ?thesis by (simp add: cache_inv_def slots_ok_def cached_def)
qed




section \<open>Filling a slot keeps the invariant\<close>

declare find_free.simps [simp del]

lemma find_free_ok:
  assumes "lo \<le> t" and "t < length c" and "c ! t = None"
  shows "\<exists>t'. find_free c lo = Some t' \<and> t' \<le> t \<and> c ! t' = None"
  using assms
proof (induction c lo rule: find_free.induct)
  case (1 c lo)
  show ?case
  proof (cases "c ! lo = None")
    case False
    then have "Suc lo \<le> t" using "1.prems" by (metis le_eq_less_or_eq Suc_leI)
    moreover have "load8 c lo = Some (c ! lo)" using "1.prems" by simp
    ultimately show ?thesis using "1.IH" [of "c ! lo"] False "1.prems" by (subst find_free.simps) simp
  qed (use 1 in \<open>simp add: find_free.simps [of c lo]\<close>)
qed

lemma free_slot:
  assumes inv: "cache_inv fs s" and room: "q_testcase_cache_count s < q_testcase_max_cache_entries s - 1"
    and start: "tid < unat (q_testcase_max_cache_entries s) \<and> q_testcase_cache s ! tid = None
      \<or> tid = unat (q_testcase_smallest_free s)"
  shows "\<exists>t. find_free (q_testcase_cache s) tid = Some t \<and> t < unat (q_testcase_max_cache_entries s) \<and> q_testcase_cache s ! t = None"
proof -
  let ?c = "q_testcase_cache s" and ?m = "unat (q_testcase_max_cache_entries s)"
  have ml: "?m \<le> length ?c" and m3: "3 \<le> ?m" and low: "\<forall>t<unat (q_testcase_smallest_free s). ?c ! t \<noteq> None"
    using inv by (simp_all add: cache_inv_def slots_ok_def)
  have "unat (q_testcase_max_cache_entries s - 1) = ?m - 1" using m3 by (intro unat_minus_one) auto
  then have lt: "unat (q_testcase_cache_count s) < ?m" using room by (simp add: word_less_nat_alt)
  have "\<exists>t\<ge>tid. t < ?m \<and> ?c ! t = None"
    using start
  proof
    assume tid: "tid = unat (q_testcase_smallest_free s)"
    have "\<exists>t<?m. ?c ! t = None"
    proof (rule ccontr)
      assume "\<not> ?thesis"
      then have "None \<notin> set (take ?m ?c)" using ml by (auto simp: in_set_conv_nth)
      then have "count_list ?c None = count_list (drop ?m ?c) None"
        by (metis append_take_drop_id count_list_append count_list_0_iff add_0)
      also have "\<dots> \<le> length ?c - ?m" using count_le_length [of "drop ?m ?c" None] by simp
      finally show False using cache_count [OF inv] lt ml by simp
    qed
    then show ?thesis using low tid by (meson linorder_not_le)
  qed auto
  then obtain t where t: "tid \<le> t" "t < ?m" "?c ! t = None" by blast
  then show ?thesis using find_free_ok [of tid t ?c] ml by fastforce
qed

lemma register_ok:
  fixes s :: "'r afl_cache"
  assumes inv: "cache_inv fs s" and q: "q < length (entries s)" "te_testcase_buf (entries s ! q) = None"
    and t: "t < unat (q_testcase_max_cache_entries s)" "q_testcase_cache s ! t = None"
    and b: "ck_read fs (te_fname (entries s ! q)) (te_len (entries s ! q)) = Some (take (unat (te_len (entries s ! q))) b)"
  shows "cache_inv fs (register q t b s)"
proof -
  let ?s = "register q t b s" and ?c = "q_testcase_cache s"
  have tl: "t < length ?c" and small: "unat (q_testcase_max_cache_entries s) + 2 < 2 ^ 32"
    "length ?c \<le> unat (q_testcase_max_cache_entries s) + 1"
    using inv t(1) by (simp_all add: cache_inv_def slots_ok_def)
  have f: "q_testcase_cache ?s = ?c[t := Some q]" "q_testcase_cache_count ?s = q_testcase_cache_count s + 1"
    "q_testcase_cache_size ?s = q_testcase_cache_size s + ucast (te_len (entries s ! q))"
    "entries ?s = (entries s)[q := (entries s ! q)\<lparr>te_testcase_buf := Some b\<rparr>]"
    "q_testcase_max_cache_entries ?s = q_testcase_max_cache_entries s"
    by (simp_all add: register_def set_testcase_def Let_def)
  have w: "unat (word_of_nat t + 1 :: u32) = t + 1"
  proof -
    have "unat (word_of_nat t :: u32) = t" using t(1) small by (simp add: unsigned_of_nat take_bit_nat_eq_self)
    then show ?thesis using t(1) small by (subst unat_add_lem [THEN iffD1]) simp_all
  qed
  have cnt: "count_list (q_testcase_cache ?s) x + of_bool (x = None) = count_list ?c x + of_bool (x = Some q)" for x
    using count_list_update [OF tl, of "Some q" x] t(2) by (simp add: f eq_commute)
  have size: "slot_size ?s = slot_size s" using q(1) by (auto simp: slot_size_def f fun_eq_iff nth_list_update split: option.splits)
  have slots: "slots_ok ?s"
    using inv t tl w by (auto simp: cache_inv_def slots_ok_def register_def set_testcase_def Let_def word_le_nat_alt
        nth_list_update less_Suc_eq)
  have cs: "cached ?s x \<longleftrightarrow> cached s x \<or> x = q" for x using q(1) by (auto simp: cached_def f nth_list_update)
  have nq: "\<not> cached s q" using q by (simp add: cached_def)
  show ?thesis unfolding cache_inv_def
  proof (intro conjI allI impI)
    show "slots_ok ?s" by (rule slots)
    show "q_testcase_cache_size ?s = sum_list (map (slot_size ?s) (q_testcase_cache ?s))"
      using inv sum_list_replace [OF tl, of "slot_size s" "Some q"] t(2) unfolding size
      by (simp add: cache_inv_def f slot_size_def)
    have "unat (q_testcase_cache_count s) + 1 \<le> length ?c" using cache_count [OF inv] cnt [of None] tl
      by (cases "count_list ?c None") (simp_all add: f)
    then have "unat (q_testcase_cache_count ?s) = unat (q_testcase_cache_count s) + 1"
      unfolding f using small by (subst unat_add_lem [THEN iffD1]) simp_all
    then show "unat (q_testcase_cache_count ?s) + count_list (q_testcase_cache ?s) None = length (q_testcase_cache ?s)"
      using cnt [of None] cache_count [OF inv] by (simp add: f)
    show "count_list (q_testcase_cache ?s) (Some x) = of_bool (cached ?s x)" for x
      using cnt [of "Some x"] inv nq by (cases "x = q") (simp_all add: cache_inv_def cs)
    show "ck_read fs (te_fname (entries ?s ! x)) (te_len (entries ?s ! x)) = Some (take (unat (te_len (entries ?s ! x))) b')"
      if "x < length (entries ?s) \<and> te_testcase_buf (entries ?s ! x) = Some b'" for x b'
      using that inv q(1) b unfolding f by (cases "x = q") (simp_all add: cache_inv_def)
  qed
qed

section \<open>Properties\<close>

lemma ck_read_length: "ck_read fs f len = Some d \<Longrightarrow> length d = unat len"
  by (auto simp: ck_read_def split: bind_splits if_splits)





text \<open>Storing a new entry keeps the bookkeeping exact as well.\<close>

lemma queue_testcase_store_mem_ok:
  assumes inv: "cache_inv fs s" and q: "q < length (entries s)" "te_testcase_buf (entries s ! q) = None"
    and d: "ck_read fs (te_fname (entries s ! q)) (te_len (entries s ! q)) = Some d"
    and m: "take (length d) m = d" "length d \<le> length m" and ok: "malloc_ok (te_len (entries s ! q))"
  shows "\<exists>s'. queue_testcase_store_mem malloc_ok q m s = Some s' \<and> cache_inv fs s'"
proof (cases "te_weight (entries s ! q) < 1 \<or> q_testcase_cache_size s + ucast (te_len (entries s ! q)) \<ge> q_testcase_max_cache_size s
        \<or> q_testcase_cache_count s \<ge> q_testcase_max_cache_entries s - 1")
  case True
  then show ?thesis using inv q(1) by (simp add: queue_testcase_store_mem_def)
next
  case False
  let ?k = "q_testcase_max_cache_count s"
  let ?tid = "if ?k \<ge> q_testcase_max_cache_entries s then q_testcase_smallest_free s else ?k"
  have "unat ?tid < unat (q_testcase_max_cache_entries s) \<and> q_testcase_cache s ! unat ?tid = None
      \<or> unat ?tid = unat (q_testcase_smallest_free s)"
    using inv by (auto simp: cache_inv_def slots_ok_def not_le word_less_nat_alt word_le_nat_alt)
  then obtain t where t: "find_free (q_testcase_cache s) (unat ?tid) = Some t"
    "t < unat (q_testcase_max_cache_entries s)" "q_testcase_cache s ! t = None"
    using free_slot [OF inv, of "unat ?tid"] False by (auto simp: not_le)
  have len: "length d = unat (te_len (entries s ! q))" by (rule ck_read_length [OF d])
  then have "cache_inv fs (register q t d s)"
    using d by (intro register_ok [OF inv q t(2,3)]) simp
  then show ?thesis using q(1) False t(1) m ok len by (simp add: queue_testcase_store_mem_def Let_def)
qed

text \<open>A full cache of two entries: with the generator that counts, loading entry 2 evicts one of them.\<close>

definition cache_example :: "nat afl_cache" where
  "cache_example = \<lparr>entries = [\<lparr>te_fname = ''a'', te_len = 2, te_weight = 1, te_testcase_buf = Some [1, 2]\<rparr>,
       \<lparr>te_fname = ''b'', te_len = 1, te_weight = 1, te_testcase_buf = Some [3]\<rparr>,
       \<lparr>te_fname = ''c'', te_len = 3, te_weight = 1, te_testcase_buf = None\<rparr>],
     queue_cur = Some 0, q_testcase_max_cache_size = 100, q_testcase_max_cache_entries = 3, q_testcase_cache_size = 3,
     q_testcase_max_cache_count = 2, q_testcase_cache_count = 2, q_testcase_smallest_free = 0, q_testcase_evictions = 0,
     q_testcase_cache = [Some 0, Some 1, None], do_once = False, testcase_buf = None, splicecase_buf = None, rng_state = 0\<rparr>"


lemma cache_example_fields [simp]:
  "entries cache_example = [\<lparr>te_fname = ''a'', te_len = 2, te_weight = 1, te_testcase_buf = Some [1, 2]\<rparr>,
       \<lparr>te_fname = ''b'', te_len = 1, te_weight = 1, te_testcase_buf = Some [3]\<rparr>,
       \<lparr>te_fname = ''c'', te_len = 3, te_weight = 1, te_testcase_buf = None\<rparr>]"
  "q_testcase_cache cache_example = [Some 0, Some 1, None]" "q_testcase_max_cache_entries cache_example = 3"
  "q_testcase_max_cache_count cache_example = 2" "q_testcase_cache_count cache_example = 2"
  "q_testcase_smallest_free cache_example = 0" "q_testcase_cache_size cache_example = 3"
  "testcase_buf cache_example = None" "splicecase_buf cache_example = None" "q_testcase_max_cache_size cache_example = 100"
  by (simp_all add: cache_example_def)






end
