(* ===== verification/Havoc.thy ===== *)
theory Havoc
  imports Det Alloc Rand
begin

text \<open>
  The havoc stage of \<open>fuzz_one_original\<close> (\<^verbatim>\<open>src/afl-fuzz-one.c\<close>): the random mutations that are stacked on one input.
  \<open>hv_out\<close> is the whole output buffer, of which the first \<open>hv_len\<close> (\<open>temp_len\<close>) bytes are the input; \<open>hv_scratch\<close> is the
  second growing buffer it is swapped with. Lengths are natural numbers: they stay far below \<open>2 ^ 32\<close>.
  \<open>None\<close> is an access outside a buffer, an allocation that fails or a loop that does not end.
\<close>

section \<open>Mutations and their weights\<close>

datatype mutation
    = MUT_FLIPBIT | MUT_INTERESTING8 | MUT_INTERESTING16 | MUT_INTERESTING16BE | MUT_INTERESTING32
    | MUT_INTERESTING32BE | MUT_ARITH8_SUB | MUT_ARITH8 | MUT_ARITH16_SUB | MUT_ARITH16BE_SUB | MUT_ARITH16
    | MUT_ARITH16BE | MUT_ARITH32_SUB | MUT_ARITH32BE_SUB | MUT_ARITH32 | MUT_ARITH32BE | MUT_RAND8
    | MUT_CLONE_COPY | MUT_CLONE_FIXED | MUT_OVERWRITE_COPY | MUT_OVERWRITE_FIXED | MUT_BYTEADD | MUT_BYTESUB
    | MUT_FLIP8 | MUT_SWITCH | MUT_DEL | MUT_SHUFFLE | MUT_DELONE | MUT_INSERTONE | MUT_ASCIINUM
    | MUT_INSERTASCIINUM | MUT_EXTRA_OVERWRITE | MUT_EXTRA_INSERT | MUT_AUTO_EXTRA_OVERWRITE
    | MUT_AUTO_EXTRA_INSERT | MUT_SPLICE_OVERWRITE | MUT_SPLICE_INSERT

text \<open>The tables are given by runs of equal elements.\<close>

definition runs :: "('a \<times> nat) list \<Rightarrow> 'a list" where
  "runs rs = concat (map (\<lambda>(x, n). replicate n x) rs)"

definition text_array :: "mutation list" where
  "text_array = runs [
     (MUT_FLIPBIT, 8), (MUT_INTERESTING8, 4), (MUT_INTERESTING16, 2), (MUT_INTERESTING16BE, 2),
     (MUT_INTERESTING32, 2), (MUT_INTERESTING32BE, 2), (MUT_ARITH8_SUB, 6), (MUT_ARITH8, 6), (MUT_ARITH16_SUB, 5),
     (MUT_ARITH16BE_SUB, 5), (MUT_ARITH16, 5), (MUT_ARITH16BE, 5), (MUT_ARITH32_SUB, 5), (MUT_ARITH32BE_SUB, 5),
     (MUT_ARITH32, 5), (MUT_ARITH32BE, 5), (MUT_RAND8, 8), (MUT_CLONE_COPY, 16), (MUT_CLONE_FIXED, 8),
     (MUT_OVERWRITE_COPY, 10), (MUT_OVERWRITE_FIXED, 5), (MUT_BYTEADD, 5), (MUT_BYTESUB, 5), (MUT_FLIP8, 4),
     (MUT_SWITCH, 7), (MUT_DEL, 10), (MUT_EXTRA_OVERWRITE, 7), (MUT_EXTRA_INSERT, 9), (MUT_AUTO_EXTRA_OVERWRITE, 4),
     (MUT_AUTO_EXTRA_INSERT, 5), (MUT_SPLICE_OVERWRITE, 12), (MUT_SPLICE_INSERT, 13)]"

definition binary_array :: "mutation list" where
  "binary_array = runs [
     (MUT_FLIPBIT, 11), (MUT_INTERESTING8, 9), (MUT_INTERESTING16, 6), (MUT_INTERESTING16BE, 6),
     (MUT_INTERESTING32, 6), (MUT_INTERESTING32BE, 6), (MUT_ARITH8_SUB, 9), (MUT_ARITH8, 10), (MUT_ARITH16_SUB, 6),
     (MUT_ARITH16BE_SUB, 6), (MUT_ARITH16, 6), (MUT_ARITH16BE, 6), (MUT_ARITH32_SUB, 6), (MUT_ARITH32BE_SUB, 6),
     (MUT_ARITH32, 6), (MUT_ARITH32BE, 6), (MUT_RAND8, 9), (MUT_CLONE_COPY, 14), (MUT_CLONE_FIXED, 7),
     (MUT_OVERWRITE_COPY, 10), (MUT_OVERWRITE_FIXED, 5), (MUT_BYTEADD, 6), (MUT_BYTESUB, 6), (MUT_FLIP8, 4),
     (MUT_SWITCH, 6), (MUT_DEL, 9), (MUT_EXTRA_OVERWRITE, 10), (MUT_EXTRA_INSERT, 12), (MUT_AUTO_EXTRA_OVERWRITE, 9),
     (MUT_AUTO_EXTRA_INSERT, 11), (MUT_SPLICE_OVERWRITE, 13), (MUT_SPLICE_INSERT, 14)]"

definition mutation_strategy_exploration_binary :: "mutation list" where
  "mutation_strategy_exploration_binary = runs [
     (MUT_FLIPBIT, 7), (MUT_INTERESTING8, 6), (MUT_INTERESTING16, 6), (MUT_INTERESTING16BE, 6),
     (MUT_INTERESTING32, 6), (MUT_INTERESTING32BE, 6), (MUT_ARITH8_SUB, 7), (MUT_ARITH8, 7), (MUT_ARITH16_SUB, 6),
     (MUT_ARITH16BE_SUB, 6), (MUT_ARITH16, 6), (MUT_ARITH16BE, 6), (MUT_ARITH32_SUB, 6), (MUT_ARITH32BE_SUB, 6),
     (MUT_ARITH32, 7), (MUT_ARITH32BE, 6), (MUT_RAND8, 6), (MUT_CLONE_COPY, 14), (MUT_CLONE_FIXED, 9),
     (MUT_OVERWRITE_COPY, 9), (MUT_OVERWRITE_FIXED, 7), (MUT_BYTEADD, 7), (MUT_BYTESUB, 7), (MUT_FLIP8, 10),
     (MUT_SWITCH, 7), (MUT_DEL, 6), (MUT_SHUFFLE, 6), (MUT_DELONE, 6), (MUT_INSERTONE, 6), (MUT_ASCIINUM, 6),
     (MUT_INSERTASCIINUM, 6), (MUT_EXTRA_OVERWRITE, 7), (MUT_EXTRA_INSERT, 7), (MUT_AUTO_EXTRA_OVERWRITE, 6),
     (MUT_AUTO_EXTRA_INSERT, 6), (MUT_SPLICE_OVERWRITE, 8), (MUT_SPLICE_INSERT, 10)]"

definition mutation_strategy_exploitation_binary :: "mutation list" where
  "mutation_strategy_exploitation_binary = runs [
     (MUT_FLIPBIT, 7), (MUT_INTERESTING8, 7), (MUT_INTERESTING16, 7), (MUT_INTERESTING16BE, 7),
     (MUT_INTERESTING32, 8), (MUT_INTERESTING32BE, 8), (MUT_ARITH8_SUB, 6), (MUT_ARITH8, 7), (MUT_ARITH16_SUB, 6),
     (MUT_ARITH16BE_SUB, 7), (MUT_ARITH16, 7), (MUT_ARITH16BE, 7), (MUT_ARITH32_SUB, 6), (MUT_ARITH32BE_SUB, 7),
     (MUT_ARITH32, 7), (MUT_ARITH32BE, 7), (MUT_RAND8, 7), (MUT_CLONE_COPY, 9), (MUT_CLONE_FIXED, 8),
     (MUT_OVERWRITE_COPY, 6), (MUT_OVERWRITE_FIXED, 6), (MUT_BYTEADD, 7), (MUT_BYTESUB, 6), (MUT_FLIP8, 10),
     (MUT_SWITCH, 7), (MUT_DEL, 6), (MUT_SHUFFLE, 6), (MUT_DELONE, 5), (MUT_INSERTONE, 6), (MUT_ASCIINUM, 5),
     (MUT_INSERTASCIINUM, 7), (MUT_EXTRA_OVERWRITE, 7), (MUT_EXTRA_INSERT, 7), (MUT_AUTO_EXTRA_OVERWRITE, 7),
     (MUT_AUTO_EXTRA_INSERT, 7), (MUT_SPLICE_OVERWRITE, 7), (MUT_SPLICE_INSERT, 9)]"

text \<open>The table for the input mode (1 text, 2 binary) and the fuzz mode (0 exploration).\<close>

definition mutation_array :: "nat \<Rightarrow> nat \<Rightarrow> mutation list" where
  "mutation_array input_mode fuzz_mode =
     (if input_mode = 1 then if fuzz_mode = 0 then binary_array else text_array
      else if input_mode = 2 then
        if fuzz_mode = 0 then mutation_strategy_exploration_binary else mutation_strategy_exploitation_binary
      else if fuzz_mode = 0 then binary_array else text_array)"

section \<open>State and environment\<close>

record 'r havoc =
  hv_out :: mem
  hv_scratch :: "mem option"
  hv_len :: nat
  hv_rng :: 'r

text \<open>\<open>hv_queue\<close>: what \<open>queue_testcase_get\<close> returns for each entry, and \<open>hv_fetch\<close>: what that call does to the generator, from
  which it draws when it evicts an entry of the cache. \<open>hv_garbage\<close>: the uninitialized bytes of a local buffer.\<close>

record 'r havoc_env =
  hv_draw :: "'r drawing"
  hv_next :: "'r \<Rightarrow> u64 \<times> 'r"
  hv_oom :: bool
  hv_queue_cycle :: nat
  hv_run_over10m :: bool
  hv_extras :: "mem list"
  hv_a_extras :: "mem list"
  hv_ready_for_splicing :: nat
  hv_current_entry :: nat
  hv_queue :: "mem list"
  hv_fetch :: "nat \<Rightarrow> 'r \<Rightarrow> 'r"
  hv_garbage :: mem
  hv_havoc_div :: u32
  hv_max_mult :: u32
  hv_stack_pow2 :: nat
  hv_use_splicing :: bool

definition below :: "'r havoc_env \<Rightarrow> nat \<Rightarrow> 'r havoc \<Rightarrow> (nat \<times> 'r havoc) option" where
  "below h n s = do {
     (x, r) \<leftarrow> hv_draw h (hv_rng s) (word_of_nat n);
     Some (unat x, s\<lparr>hv_rng := r\<rparr>) }"

definition HAVOC_BLK_SMALL :: nat where "HAVOC_BLK_SMALL = 32"
definition HAVOC_BLK_MEDIUM :: nat where "HAVOC_BLK_MEDIUM = 128"
definition HAVOC_BLK_LARGE :: nat where "HAVOC_BLK_LARGE = 1500"
definition HAVOC_BLK_XL :: nat where "HAVOC_BLK_XL = 32768"

definition choose_block_len :: "'r havoc_env \<Rightarrow> nat \<Rightarrow> 'r havoc \<Rightarrow> (nat \<times> 'r havoc) option" where
  "choose_block_len h limit s = do {
     let rlim = (if \<not> hv_run_over10m h then 1 else min (hv_queue_cycle h) 3);
     (k, s) \<leftarrow> below h rlim s;
     (min_value, max_value, s) \<leftarrow>
       (if k = 0 then Some (1, HAVOC_BLK_SMALL, s)
        else if k = 1 then Some (HAVOC_BLK_SMALL, HAVOC_BLK_MEDIUM, s)
        else do {
          (x, s) \<leftarrow> below h 10 s;
          Some (if x \<noteq> 0 then (HAVOC_BLK_MEDIUM, HAVOC_BLK_LARGE, s) else (HAVOC_BLK_LARGE, HAVOC_BLK_XL, s)) });
     let min_value = (if min_value \<ge> limit then 1 else min_value);
     (x, s) \<leftarrow> below h (min max_value limit + 1 - min_value) s;
     Some (min_value + x, s) }"

text \<open>Writes to the output buffer, and \<open>do v = rand_below(n); while (v == x);\<close>\<close>

definition put :: "nat \<Rightarrow> mem \<Rightarrow> 'r havoc \<Rightarrow> 'r havoc option" where
  "put off bs s = do {
     m \<leftarrow> memcpy_at (hv_out s) off bs;
     Some (s\<lparr>hv_out := m\<rparr>) }"

definition upd_byte :: "nat \<Rightarrow> (u8 \<Rightarrow> u8) \<Rightarrow> 'r havoc \<Rightarrow> 'r havoc option" where
  "upd_byte off f s = do {
     b \<leftarrow> load8 (hv_out s) off;
     put off [f b] s }"

definition upd_word :: "nat \<Rightarrow> nat \<Rightarrow> ('w::len word \<Rightarrow> 'w word) \<Rightarrow> 'r havoc \<Rightarrow> 'r havoc option" where
  "upd_word nb off f s = do {
     w \<leftarrow> load_le nb (hv_out s) off;
     put off (le_bytes nb (f w)) s }"

partial_function (option) pick_other :: "'r havoc_env \<Rightarrow> nat \<Rightarrow> nat \<Rightarrow> 'r havoc \<Rightarrow> (nat \<times> 'r havoc) option" where
  "pick_other h x n s = do {
     (v, s) \<leftarrow> below h n s;
     if v = x then pick_other h x n s else Some (v, s) }"

text \<open>Bytes \<open>off .. off2 - 1\<close> are replaced by \<open>bs\<close> in the scratch buffer, which becomes the output buffer.\<close>

definition replace_block :: "'r havoc_env \<Rightarrow> nat \<Rightarrow> nat \<Rightarrow> nat \<Rightarrow> mem \<Rightarrow> 'r havoc \<Rightarrow> 'r havoc option" where
  "replace_block h spare off off2 bs s = do {
     let n = hv_len s + length bs - (off2 - off);
     new_buf \<leftarrow> afl_realloc (hv_oom h) (hv_scratch s) (word_of_nat (n + spare));
     head \<leftarrow> read_block (hv_out s) 0 off;
     new_buf \<leftarrow> memcpy_at new_buf 0 head;
     new_buf \<leftarrow> memcpy_at new_buf off bs;
     tail \<leftarrow> read_block (hv_out s) off2 (hv_len s - off2);
     new_buf \<leftarrow> memcpy_at new_buf (off + length bs) tail;
     Some (s\<lparr>hv_out := new_buf, hv_scratch := Some (hv_out s), hv_len := n\<rparr>) }"

section \<open>The mutations\<close>

text \<open>The result is the new state and whether the step has to be repeated (\<open>goto retry_havoc_step\<close>).\<close>

definition done_step :: "'r havoc option \<Rightarrow> (bool \<times> 'r havoc) option" where
  "done_step r = map_option (Pair False) r"

definition random_byte :: "'r havoc_env \<Rightarrow> (u8 \<Rightarrow> u8) \<Rightarrow> 'r havoc \<Rightarrow> 'r havoc option" where
  "random_byte h f s = do {
     (off, s) \<leftarrow> below h (hv_len s) s;
     upd_byte off f s }"

definition mut_flipbit :: "'r havoc_env \<Rightarrow> 'r havoc \<Rightarrow> 'r havoc option" where
  "mut_flipbit h s = do {
     (k, s) \<leftarrow> below h 8 s;
     random_byte h (\<lambda>b. b XOR push_bit k 1) s }"

definition mut_interesting8 :: "'r havoc_env \<Rightarrow> 'r havoc \<Rightarrow> 'r havoc option" where
  "mut_interesting8 h s = do {
     (item, s) \<leftarrow> below h (length interesting_8) s;
     v \<leftarrow> load8 interesting_8 item;
     random_byte h (\<lambda>_. word_of_int v) s }"

text \<open>Words of two bytes (\<open>swap\<close>: big endian).\<close>

definition mut_interesting16 :: "(u16 \<Rightarrow> u16) \<Rightarrow> 'r havoc_env \<Rightarrow> 'r havoc \<Rightarrow> 'r havoc option" where
  "mut_interesting16 swap h s =
     (if hv_len s < 2 then Some s
      else do {
        (item, s) \<leftarrow> below h (length interesting_16) s;
        v \<leftarrow> load8 interesting_16 item;
        (off, s) \<leftarrow> below h (hv_len s - 1) s;
        put off (le_bytes 2 (swap (word_of_int v))) s })"

definition mut_interesting32 :: "(u32 \<Rightarrow> u32) \<Rightarrow> 'r havoc_env \<Rightarrow> 'r havoc \<Rightarrow> 'r havoc option" where
  "mut_interesting32 swap h s =
     (if hv_len s < 4 then Some s
      else do {
        (item, s) \<leftarrow> below h (length interesting_32) s;
        v \<leftarrow> load8 interesting_32 item;
        (off, s) \<leftarrow> below h (hv_len s - 3) s;
        put off (le_bytes 4 (swap (word_of_int v))) s })"

definition mut_arith8 :: "(u8 \<Rightarrow> u8 \<Rightarrow> u8) \<Rightarrow> 'r havoc_env \<Rightarrow> 'r havoc \<Rightarrow> 'r havoc option" where
  "mut_arith8 f h s = do {
     (x, s) \<leftarrow> below h ARITH_MAX s;
     random_byte h (\<lambda>b. f b (word_of_nat (1 + x))) s }"

definition mut_arith16 :: "(u16 \<Rightarrow> u16 \<Rightarrow> u16) \<Rightarrow> 'r havoc_env \<Rightarrow> 'r havoc \<Rightarrow> 'r havoc option" where
  "mut_arith16 f h s =
     (if hv_len s < 2 then Some s
      else do {
        (pos, s) \<leftarrow> below h (hv_len s - 1) s;
        (x, s) \<leftarrow> below h ARITH_MAX s;
        upd_word 2 pos (\<lambda>w. f w (word_of_nat (1 + x))) s })"

definition mut_arith32 :: "(u32 \<Rightarrow> u32 \<Rightarrow> u32) \<Rightarrow> 'r havoc_env \<Rightarrow> 'r havoc \<Rightarrow> 'r havoc option" where
  "mut_arith32 f h s =
     (if hv_len s < 4 then Some s
      else do {
        (pos, s) \<leftarrow> below h (hv_len s - 3) s;
        (x, s) \<leftarrow> below h ARITH_MAX s;
        upd_word 4 pos (\<lambda>w. f w (word_of_nat (1 + x))) s })"

definition mut_rand8 :: "'r havoc_env \<Rightarrow> 'r havoc \<Rightarrow> 'r havoc option" where
  "mut_rand8 h s = do {
     (pos, s) \<leftarrow> below h (hv_len s) s;
     (x, s) \<leftarrow> below h 255 s;
     upd_byte pos (\<lambda>b. b XOR word_of_nat (1 + x)) s }"

text \<open>A byte of the input in front of \<open>pos\<close> or a random one.\<close>

definition fill_byte :: "'r havoc_env \<Rightarrow> nat \<Rightarrow> 'r havoc \<Rightarrow> (u8 \<times> 'r havoc) option" where
  "fill_byte h pos s = do {
     (strat, s) \<leftarrow> below h 2 s;
     if strat \<noteq> 0 then do {
       (x, s) \<leftarrow> below h 256 s;
       Some (word_of_nat x, s) }
     else do {
       b \<leftarrow> load8 (hv_out s) (if pos \<noteq> 0 then pos - 1 else 0);
       Some (b, s) } }"

text \<open>The guard of the inserting mutations: there is room, or the step is given up or repeated.\<close>

definition with_room :: "'r havoc option \<Rightarrow> 'r havoc \<Rightarrow> (bool \<times> 'r havoc) option" where
  "with_room ins s =
     (if hv_len s + HAVOC_BLK_XL < MAX_FILE then done_step ins
      else if hv_len s < 8 then Some (False, s) else Some (True, s))"

definition mut_clone_copy :: "'r havoc_env \<Rightarrow> 'r havoc \<Rightarrow> (bool \<times> 'r havoc) option" where
  "mut_clone_copy h s = with_room (do {
     (clone_len, s) \<leftarrow> choose_block_len h (hv_len s) s;
     (clone_from, s) \<leftarrow> below h (hv_len s - clone_len + 1) s;
     (clone_to, s) \<leftarrow> below h (hv_len s) s;
     bs \<leftarrow> read_block (hv_out s) clone_from clone_len;
     replace_block h 0 clone_to clone_to bs s }) s"

definition mut_clone_fixed :: "'r havoc_env \<Rightarrow> 'r havoc \<Rightarrow> (bool \<times> 'r havoc) option" where
  "mut_clone_fixed h s = with_room (do {
     (clone_len, s) \<leftarrow> choose_block_len h HAVOC_BLK_XL s;
     (clone_to, s) \<leftarrow> below h (hv_len s) s;
     (item, s) \<leftarrow> fill_byte h clone_to s;
     replace_block h 0 clone_to clone_to (replicate clone_len item) s }) s"

partial_function (option) pick_pair :: "'r havoc_env \<Rightarrow> nat \<Rightarrow> 'r havoc \<Rightarrow> (nat \<times> nat \<times> 'r havoc) option" where
  "pick_pair h n s = do {
     (copy_from, s) \<leftarrow> below h n s;
     (copy_to, s) \<leftarrow> below h n s;
     if copy_from = copy_to then pick_pair h n s else Some (copy_from, copy_to, s) }"

definition mut_overwrite_copy :: "'r havoc_env \<Rightarrow> 'r havoc \<Rightarrow> 'r havoc option" where
  "mut_overwrite_copy h s =
     (if hv_len s < 2 then Some s
      else do {
        (copy_len, s) \<leftarrow> choose_block_len h (hv_len s - 1) s;
        (copy_from, copy_to, s) \<leftarrow> pick_pair h (hv_len s - copy_len + 1) s;
        bs \<leftarrow> read_block (hv_out s) copy_from copy_len;
        put copy_to bs s })"

definition mut_overwrite_fixed :: "'r havoc_env \<Rightarrow> 'r havoc \<Rightarrow> 'r havoc option" where
  "mut_overwrite_fixed h s =
     (if hv_len s < 2 then Some s
      else do {
        (copy_len, s) \<leftarrow> choose_block_len h (hv_len s - 1) s;
        (copy_to, s) \<leftarrow> below h (hv_len s - copy_len + 1) s;
        (item, s) \<leftarrow> fill_byte h copy_to s;
        put copy_to (replicate copy_len item) s })"

text \<open>\<open>memcpy\<close> inside one buffer: overlapping blocks are undefined.\<close>

definition memcpy_in :: "nat \<Rightarrow> nat \<Rightarrow> nat \<Rightarrow> 'r havoc \<Rightarrow> 'r havoc option" where
  "memcpy_in dst src n s =
     (if src + n \<le> dst \<or> dst + n \<le> src then do {
        bs \<leftarrow> read_block (hv_out s) src n;
        put dst bs s }
      else None)"

definition mut_switch :: "'r havoc_env \<Rightarrow> 'r havoc \<Rightarrow> 'r havoc option" where
  "mut_switch h s =
     (if hv_len s < 4 then Some s
      else do {
        (switch_from, s) \<leftarrow> below h (hv_len s) s;
        (switch_to, s) \<leftarrow> pick_other h switch_from (hv_len s) s;
        let (switch_len, to_end) =
          (if switch_from < switch_to then (switch_to - switch_from, hv_len s - switch_to)
           else (switch_from - switch_to, hv_len s - switch_from));
        (switch_len, s) \<leftarrow> choose_block_len h (min switch_len to_end) s;
        new_buf \<leftarrow> afl_realloc (hv_oom h) (hv_scratch s) (word_of_nat switch_len);
        backup \<leftarrow> read_block (hv_out s) switch_from switch_len;
        new_buf \<leftarrow> memcpy_at new_buf 0 backup;
        s \<leftarrow> memcpy_in switch_from switch_to switch_len (s\<lparr>hv_scratch := Some new_buf\<rparr>);
        backup \<leftarrow> read_block new_buf 0 switch_len;
        put switch_to backup s })"

definition delete_block :: "nat \<Rightarrow> nat \<Rightarrow> 'r havoc \<Rightarrow> 'r havoc option" where
  "delete_block del_from del_len s = do {
     tail \<leftarrow> read_block (hv_out s) (del_from + del_len) (hv_len s - del_from - del_len);
     s \<leftarrow> put del_from tail s;
     Some (s\<lparr>hv_len := hv_len s - del_len\<rparr>) }"

definition mut_del :: "'r havoc_env \<Rightarrow> 'r havoc \<Rightarrow> 'r havoc option" where
  "mut_del h s =
     (if hv_len s < 2 then Some s
      else do {
        (del_len, s) \<leftarrow> choose_block_len h (hv_len s - 1) s;
        (del_from, s) \<leftarrow> below h (hv_len s - del_len + 1) s;
        delete_block del_from del_len s })"

fun shuffle_loop :: "'r havoc_env \<Rightarrow> nat \<Rightarrow> nat \<Rightarrow> 'r havoc \<Rightarrow> 'r havoc option" where
  "shuffle_loop h off 0 s = Some s"
| "shuffle_loop h off (Suc i) s = do {
     (j, s) \<leftarrow> pick_other h (Suc i) (Suc i + 1) s;
     temp \<leftarrow> load8 (hv_out s) (off + Suc i);
     b \<leftarrow> load8 (hv_out s) (off + j);
     s \<leftarrow> put (off + Suc i) [b] s;
     s \<leftarrow> put (off + j) [temp] s;
     shuffle_loop h off i s }"

definition mut_shuffle :: "'r havoc_env \<Rightarrow> 'r havoc \<Rightarrow> 'r havoc option" where
  "mut_shuffle h s =
     (if hv_len s < 4 then Some s
      else do {
        (len, s) \<leftarrow> choose_block_len h (hv_len s - 1) s;
        (off, s) \<leftarrow> below h (hv_len s - len + 1) s;
        shuffle_loop h off (len - 1) s })"

definition mut_delone :: "'r havoc_env \<Rightarrow> 'r havoc \<Rightarrow> 'r havoc option" where
  "mut_delone h s =
     (if hv_len s < 2 then Some s
      else do {
        (del_from, s) \<leftarrow> below h (hv_len s - 1 + 1) s;
        delete_block del_from 1 s })"

definition mut_insertone :: "'r havoc_env \<Rightarrow> 'r havoc \<Rightarrow> 'r havoc option" where
  "mut_insertone h s =
     (if hv_len s < 2 then Some s
      else do {
        (clone_to, s) \<leftarrow> below h (hv_len s) s;
        (item, s) \<leftarrow> fill_byte h clone_to s;
        replace_block h 0 clone_to clone_to [item] s })"

section \<open>Numbers, dictionaries and splicing\<close>

text \<open>The first index from \<open>i\<close> on, at most \<open>i + k\<close>, where \<open>P\<close> fails.\<close>

fun scan :: "(u8 \<Rightarrow> bool) \<Rightarrow> mem \<Rightarrow> nat \<Rightarrow> nat \<Rightarrow> nat option" where
  "scan P m i 0 = Some i"
| "scan P m i (Suc k) = do {
     b \<leftarrow> load8 m i;
     if P b then scan P m (Suc i) k else Some i }"

function dec :: "nat \<Rightarrow> mem" where
  "dec n = (if n < 10 then [48 + word_of_nat n] else dec (n div 10) @ [48 + word_of_nat (n mod 10)])"
  by pat_completeness auto
termination by (relation "measure id") auto

declare dec.simps [simp del]

text \<open>\<open>snprintf(buf, 20, ..)\<close> cuts the number after 19 characters.\<close>

definition print_s64 :: "u64 \<Rightarrow> mem" where
  "print_s64 v = take 19 (let x = sint v in if x < 0 then 45 # dec (nat (- x)) else dec (nat x))"

definition half_s64 :: "u64 \<Rightarrow> u64" where
  "half_s64 v = (let x = sint v in word_of_int (if x < 0 then - ((- x) div 2) else x div 2))"

text \<open>\<open>val = (val * 10) + buf[i] - '0'\<close>; the overflow of long numbers wraps.\<close>

definition read_number :: "mem \<Rightarrow> u64" where
  "read_number ds = foldl (\<lambda>v b. v * 10 + ucast b - 48) 0 ds"

definition new_number :: "'r havoc_env \<Rightarrow> u64 \<Rightarrow> 'r havoc \<Rightarrow> (u64 \<times> 'r havoc) option" where
  "new_number h val s = do {
     (strat, s) \<leftarrow> below h 8 s;
     if strat = 0 then Some (val + 1, s)
     else if strat = 1 then Some (val - 1, s)
     else if strat = 2 then Some (val * 2, s)
     else if strat = 3 then Some (half_s64 val, s)
     else if strat = 4 then
       if val \<noteq> 0 \<and> val < 0x19999999 then
         case hv_next h (hv_rng s) of (x, r) \<Rightarrow> Some (x mod (val * 10), s\<lparr>hv_rng := r\<rparr>)
       else do {
         (x, s) \<leftarrow> below h 256 s;
         Some (word_of_nat x, s) }
     else if strat = 5 then do {
       (x, s) \<leftarrow> below h 256 s;
       Some (val + word_of_nat x, s) }
     else if strat = 6 then do {
       (x, s) \<leftarrow> below h 256 s;
       Some (val - word_of_nat x, s) }
     else if strat = 7 then Some (NOT val, s)
     else Some (val, s) }"

definition rewrite_number :: "'r havoc_env \<Rightarrow> nat \<Rightarrow> 'r havoc \<Rightarrow> 'r havoc option" where
  "rewrite_number h off s = do {
     off2 \<leftarrow> scan isdigit (hv_out s) (off + 1) (hv_len s - (off + 1));
     ds \<leftarrow> read_block (hv_out s) off (off2 - off);
     let val = read_number ds;
     neg \<leftarrow> (if off \<noteq> 0 then map_option (\<lambda>b. b = 45) (load8 (hv_out s) (off - 1)) else Some False);
     (val, s) \<leftarrow> new_number h (if neg then - val else val) s;
     let buf = print_s64 val;
     if off2 - off = length buf then put off buf s else replace_block h 0 off off2 buf s }"

definition mut_asciinum :: "'r havoc_env \<Rightarrow> 'r havoc \<Rightarrow> (bool \<times> 'r havoc) option" where
  "mut_asciinum h s =
     (if hv_len s < 4 then Some (False, s)
      else do {
        (off, s) \<leftarrow> below h (hv_len s) s;
        e \<leftarrow> scan (\<lambda>b. \<not> isdigit b) (hv_out s) off (hv_len s - off);
        if e = hv_len s then do {
          e \<leftarrow> scan (\<lambda>b. \<not> isdigit b) (hv_out s) 0 off;
          if e = off then Some (\<not> hv_len s < 8, s) else done_step (rewrite_number h e s) }
        else done_step (rewrite_number h e s) })"

text \<open>At most eight bytes of a 20 byte buffer with the digits of a random number, a zero byte and whatever was there.\<close>

definition mut_insertasciinum :: "'r havoc_env \<Rightarrow> 'r havoc \<Rightarrow> (bool \<times> 'r havoc) option" where
  "mut_insertasciinum h s = do {
     (x, s) \<leftarrow> below h 8 s;
     let len = 1 + x;
     (pos, s) \<leftarrow> below h (hv_len s) s;
     if hv_len s < pos + len then Some (\<not> hv_len s < 8, s)
     else
       case hv_next h (hv_rng s) of (val, r) \<Rightarrow> do {
         bs \<leftarrow> read_block (take 20 (take 19 (dec (unat val)) @ 0 # hv_garbage h)) 0 len;
         done_step (put pos bs (s\<lparr>hv_rng := r\<rparr>)) } }"

definition mut_extra_overwrite :: "mem list \<Rightarrow> 'r havoc_env \<Rightarrow> 'r havoc \<Rightarrow> (bool \<times> 'r havoc) option" where
  "mut_extra_overwrite dict h s =
     (if dict = [] then Some (True, s)
      else do {
        (use_extra, s) \<leftarrow> below h (length dict) s;
        tok \<leftarrow> load8 dict use_extra;
        if length tok > hv_len s then Some (True, s)
        else do {
          (insert_at, s) \<leftarrow> below h (hv_len s - length tok + 1) s;
          done_step (put insert_at tok s) } })"

definition mut_extra_insert :: "mem list \<Rightarrow> 'r havoc_env \<Rightarrow> 'r havoc \<Rightarrow> (bool \<times> 'r havoc) option" where
  "mut_extra_insert dict h s =
     (if dict = [] then Some (True, s)
      else do {
        (use_extra, s) \<leftarrow> below h (length dict) s;
        tok \<leftarrow> load8 dict use_extra;
        if hv_len s + length tok \<ge> MAX_FILE then Some (True, s)
        else do {
          (insert_at, s) \<leftarrow> below h (hv_len s + 1) s;
          m \<leftarrow> afl_realloc (hv_oom h) (Some (hv_out s)) (word_of_nat (hv_len s + length tok));
          tail \<leftarrow> read_block m insert_at (hv_len s - insert_at);
          m \<leftarrow> memcpy_at m (insert_at + length tok) tail;
          m \<leftarrow> memcpy_at m insert_at tok;
          Some (False, s\<lparr>hv_out := m, hv_len := hv_len s + length tok\<rparr>) } })"

partial_function (option) pick_target :: "'r havoc_env \<Rightarrow> 'r havoc \<Rightarrow> (mem \<times> 'r havoc) option" where
  "pick_target h s = do {
     (tid, s) \<leftarrow> below h (length (hv_queue h)) s;
     t \<leftarrow> load8 (hv_queue h) tid;
     if tid = hv_current_entry h \<or> length t < 4 then pick_target h s
     else Some (t, s\<lparr>hv_rng := hv_fetch h tid (hv_rng s)\<rparr>) }"

definition mut_splice_overwrite :: "'r havoc_env \<Rightarrow> 'r havoc \<Rightarrow> (bool \<times> 'r havoc) option" where
  "mut_splice_overwrite h s =
     (if hv_ready_for_splicing h \<le> 1 then Some (True, s)
      else do {
        (new_buf, s) \<leftarrow> pick_target h s;
        (n, s) \<leftarrow> choose_block_len h (length new_buf - 1) s;
        let copy_len = min n (hv_len s);
        (copy_from, s) \<leftarrow> below h (length new_buf - copy_len + 1) s;
        (copy_to, s) \<leftarrow> below h (hv_len s - copy_len + 1) s;
        bs \<leftarrow> read_block new_buf copy_from copy_len;
        done_step (put copy_to bs s) })"

definition mut_splice_insert :: "'r havoc_env \<Rightarrow> 'r havoc \<Rightarrow> (bool \<times> 'r havoc) option" where
  "mut_splice_insert h s =
     (if hv_ready_for_splicing h \<le> 1 then Some (True, s)
      else if hv_len s + HAVOC_BLK_XL \<ge> MAX_FILE then Some (True, s)
      else do {
        (new_buf, s) \<leftarrow> pick_target h s;
        (clone_len, s) \<leftarrow> choose_block_len h (length new_buf) s;
        (clone_from, s) \<leftarrow> below h (length new_buf - clone_len + 1) s;
        (clone_to, s) \<leftarrow> below h (hv_len s + 1) s;
        bs \<leftarrow> read_block new_buf clone_from clone_len;
        done_step (replace_block h 1 clone_to clone_to bs s) })"

section \<open>One step, and the stack of steps\<close>

fun mutate :: "mutation \<Rightarrow> 'r havoc_env \<Rightarrow> 'r havoc \<Rightarrow> (bool \<times> 'r havoc) option" where
  "mutate MUT_FLIPBIT h s = done_step (mut_flipbit h s)"
| "mutate MUT_INTERESTING8 h s = done_step (mut_interesting8 h s)"
| "mutate MUT_INTERESTING16 h s = done_step (mut_interesting16 id h s)"
| "mutate MUT_INTERESTING16BE h s = done_step (mut_interesting16 SWAP16 h s)"
| "mutate MUT_INTERESTING32 h s = done_step (mut_interesting32 id h s)"
| "mutate MUT_INTERESTING32BE h s = done_step (mut_interesting32 SWAP32 h s)"
| "mutate MUT_ARITH8_SUB h s = done_step (mut_arith8 (\<lambda>b x. b - x) h s)"
| "mutate MUT_ARITH8 h s = done_step (mut_arith8 (\<lambda>b x. b + x) h s)"
| "mutate MUT_ARITH16_SUB h s = done_step (mut_arith16 (\<lambda>w x. w - x) h s)"
| "mutate MUT_ARITH16BE_SUB h s = done_step (mut_arith16 (\<lambda>w x. SWAP16 (SWAP16 w - x)) h s)"
| "mutate MUT_ARITH16 h s = done_step (mut_arith16 (\<lambda>w x. w + x) h s)"
| "mutate MUT_ARITH16BE h s = done_step (mut_arith16 (\<lambda>w x. SWAP16 (SWAP16 w + x)) h s)"
| "mutate MUT_ARITH32_SUB h s = done_step (mut_arith32 (\<lambda>w x. w - x) h s)"
| "mutate MUT_ARITH32BE_SUB h s = done_step (mut_arith32 (\<lambda>w x. SWAP32 (SWAP32 w - x)) h s)"
| "mutate MUT_ARITH32 h s = done_step (mut_arith32 (\<lambda>w x. w + x) h s)"
| "mutate MUT_ARITH32BE h s = done_step (mut_arith32 (\<lambda>w x. SWAP32 (SWAP32 w + x)) h s)"
| "mutate MUT_RAND8 h s = done_step (mut_rand8 h s)"
| "mutate MUT_CLONE_COPY h s = mut_clone_copy h s"
| "mutate MUT_CLONE_FIXED h s = mut_clone_fixed h s"
| "mutate MUT_OVERWRITE_COPY h s = done_step (mut_overwrite_copy h s)"
| "mutate MUT_OVERWRITE_FIXED h s = done_step (mut_overwrite_fixed h s)"
| "mutate MUT_BYTEADD h s = done_step (random_byte h (\<lambda>b. b + 1) s)"
| "mutate MUT_BYTESUB h s = done_step (random_byte h (\<lambda>b. b - 1) s)"
| "mutate MUT_FLIP8 h s = done_step (random_byte h (\<lambda>b. b XOR 0xff) s)"
| "mutate MUT_SWITCH h s = done_step (mut_switch h s)"
| "mutate MUT_DEL h s = done_step (mut_del h s)"
| "mutate MUT_SHUFFLE h s = done_step (mut_shuffle h s)"
| "mutate MUT_DELONE h s = done_step (mut_delone h s)"
| "mutate MUT_INSERTONE h s = done_step (mut_insertone h s)"
| "mutate MUT_ASCIINUM h s = mut_asciinum h s"
| "mutate MUT_INSERTASCIINUM h s = mut_insertasciinum h s"
| "mutate MUT_EXTRA_OVERWRITE h s = mut_extra_overwrite (hv_extras h) h s"
| "mutate MUT_EXTRA_INSERT h s = mut_extra_insert (hv_extras h) h s"
| "mutate MUT_AUTO_EXTRA_OVERWRITE h s = mut_extra_overwrite (hv_a_extras h) h s"
| "mutate MUT_AUTO_EXTRA_INSERT h s = mut_extra_insert (hv_a_extras h) h s"
| "mutate MUT_SPLICE_OVERWRITE h s = mut_splice_overwrite h s"
| "mutate MUT_SPLICE_INSERT h s = mut_splice_insert h s"

definition havoc_attempt :: "mutation list \<Rightarrow> 'r havoc_env \<Rightarrow> 'r havoc \<Rightarrow> (bool \<times> 'r havoc) option" where
  "havoc_attempt tbl h s = do {
     (r, s) \<leftarrow> below h (length tbl) s;
     m \<leftarrow> load8 tbl r;
     mutate m h s }"

partial_function (option) havoc_step :: "mutation list \<Rightarrow> 'r havoc_env \<Rightarrow> 'r havoc \<Rightarrow> 'r havoc option" where
  "havoc_step tbl h s = do {
     (again, s) \<leftarrow> havoc_attempt tbl h s;
     if again then havoc_step tbl h s else Some s }"

primrec havoc_stack :: "mutation list \<Rightarrow> 'r havoc_env \<Rightarrow> nat \<Rightarrow> 'r havoc \<Rightarrow> 'r havoc option" where
  "havoc_stack tbl h 0 s = Some s"
| "havoc_stack tbl h (Suc i) s = do {
     s \<leftarrow> havoc_step tbl h s;
     havoc_stack tbl h i s }"

text \<open>One round up to the run of the target on the bytes that are returned.\<close>

definition havoc_round :: "mutation list \<Rightarrow> 'r havoc_env \<Rightarrow> nat \<Rightarrow> 'r havoc \<Rightarrow> (mem \<times> 'r havoc) option" where
  "havoc_round tbl h stack_max s = do {
     (x, s) \<leftarrow> below h stack_max s;
     s \<leftarrow> havoc_stack tbl h (1 + x) s;
     fuzzed \<leftarrow> read_block (hv_out s) 0 (hv_len s);
     Some (fuzzed, s) }"

text \<open>The output buffer is filled with the input again.\<close>

definition refill :: "'r havoc_env \<Rightarrow> mem \<Rightarrow> 'r havoc \<Rightarrow> 'r havoc option" where
  "refill h in_buf s = do {
     m \<leftarrow> afl_realloc (hv_oom h) (Some (hv_out s)) (word_of_nat (length in_buf));
     m \<leftarrow> memcpy_at m 0 in_buf;
     Some (s\<lparr>hv_out := m, hv_len := length in_buf\<rparr>) }"

section \<open>The stage and its repetitions on spliced inputs\<close>

text \<open>\<open>run\<close> is \<open>common_fuzz_stuff\<close>: it receives the bytes the target is run on and the generator, may change both the generator
  and the fuzzer (the environment and the rest of its state) and says whether the entry is abandoned. The numbers of rounds and
  the score are 32-bit words, which wrap.\<close>

type_synonym ('r, 'e) fuzzer = "'r havoc_env \<times> 'e"
type_synonym ('r, 'e) runner = "mem \<Rightarrow> 'r \<Rightarrow> ('r, 'e) fuzzer \<Rightarrow> bool \<times> 'r \<times> ('r, 'e) fuzzer"

partial_function (option) havoc_loop ::
    "mutation list \<Rightarrow> ('r, 'e) runner \<Rightarrow> nat \<Rightarrow> mem \<Rightarrow> u32 \<Rightarrow> u32 \<Rightarrow> u32 \<Rightarrow> nat \<Rightarrow> 'r havoc \<Rightarrow> ('r, 'e) fuzzer
     \<Rightarrow> (bool \<times> 'r havoc \<times> ('r, 'e) fuzzer) option" where
  "havoc_loop tbl run stack_max in_buf cur rounds perf_score havoc_queued s e =
     (if \<not> cur < rounds then Some (False, s, e)
      else do {
        (fuzzed, s) \<leftarrow> havoc_round tbl (fst e) stack_max s;
        let (stop, r, e) = run fuzzed (hv_rng s) e;
        let s = s\<lparr>hv_rng := r\<rparr>;
        if stop then Some (True, s, e)
        else do {
          s \<leftarrow> refill (fst e) in_buf s;
          let queued = length (hv_queue (fst e));
          let more = (queued \<noteq> havoc_queued \<and> perf_score \<le> hv_max_mult (fst e) * 100);
          havoc_loop tbl run stack_max in_buf (cur + 1) (if more then rounds * 2 else rounds)
            (if more then perf_score * 2 else perf_score) queued s e } })"

definition HAVOC_CYCLES :: u32 where "HAVOC_CYCLES = 256"
definition HAVOC_CYCLES_INIT :: u32 where "HAVOC_CYCLES_INIT = 1024"
definition SPLICE_HAVOC :: u32 where "SPLICE_HAVOC = 32"
definition HAVOC_MIN :: u32 where "HAVOC_MIN = 12"
definition SPLICE_CYCLES :: nat where "SPLICE_CYCLES = 15"

text \<open>\<open>cycles\<close>: one of the three constants. The table is chosen by the mode of the input and of the fuzzer.\<close>

definition havoc_stage :: "mutation list \<Rightarrow> ('r, 'e) runner \<Rightarrow> u32 \<Rightarrow> u32 \<Rightarrow> mem \<Rightarrow> 'r havoc \<Rightarrow> ('r, 'e) fuzzer
    \<Rightarrow> (bool \<times> 'r havoc \<times> ('r, 'e) fuzzer) option" where
  "havoc_stage tbl run cycles perf_score in_buf s e =
     (if hv_havoc_div (fst e) = 0 then None
      else do {
        let rounds = drop_bit 8 (cycles * perf_score div hv_havoc_div (fst e));
        (x, s) \<leftarrow> below (fst e) (hv_stack_pow2 (fst e)) s;
        havoc_loop tbl run (2 ^ (1 + x)) in_buf 0 (max rounds HAVOC_MIN) perf_score (length (hv_queue (fst e))) s e })"

text \<open>One try to splice: \<open>None\<close> inside when the inputs do not differ enough. The bytes behind the split point are the first ones of
  the other input. The result of \<open>afl_realloc\<close> for the scratch buffer is not checked: when it fails, the first copy is to address 0.\<close>

definition splice_once :: "'r havoc_env \<Rightarrow> mem \<Rightarrow> 'r havoc \<Rightarrow> (mem option \<times> 'r havoc) option" where
  "splice_once h in_buf s = do {
     (new_buf, s) \<leftarrow> pick_target h s;
     (f_diff, l_diff) \<leftarrow> locate_diffs in_buf new_buf (min (length in_buf) (length new_buf));
     if f_diff < 0 \<or> l_diff < 2 \<or> f_diff = l_diff then Some (None, s)
     else do {
       (x, s) \<leftarrow> below h (nat (l_diff - f_diff)) s;
       let split_at = nat f_diff + x;
       _ \<leftarrow> (if hv_oom h then None else Some ());
       head \<leftarrow> read_block in_buf 0 split_at;
       tail \<leftarrow> read_block new_buf 0 (length new_buf - split_at);
       Some (Some (head @ tail), s) } }"

fun splice_cycles :: "mutation list \<Rightarrow> ('r, 'e) runner \<Rightarrow> u32 \<Rightarrow> mem \<Rightarrow> nat \<Rightarrow> 'r havoc \<Rightarrow> ('r, 'e) fuzzer
    \<Rightarrow> (bool \<times> 'r havoc \<times> ('r, 'e) fuzzer) option" where
  "splice_cycles tbl run perf_score orig_in 0 s e = Some (False, s, e)"
| "splice_cycles tbl run perf_score orig_in (Suc n) s e =
     (if \<not> hv_use_splicing (fst e) \<or> hv_ready_for_splicing (fst e) \<le> 1 \<or> length orig_in < 4 then Some (False, s, e)
      else do {
        (spliced, s) \<leftarrow> splice_once (fst e) orig_in s;
        case spliced of
          None \<Rightarrow> splice_cycles tbl run perf_score orig_in n s e
        | Some in_buf \<Rightarrow> do {
            s \<leftarrow> refill (fst e) in_buf s;
            (stop, s, e) \<leftarrow> havoc_stage tbl run SPLICE_HAVOC perf_score in_buf s e;
            if stop then Some (True, s, e) else splice_cycles tbl run perf_score orig_in n s e } })"

text \<open>Everything from the label \<open>havoc_stage\<close> on, when there is no custom mutator.\<close>

definition havoc_and_splice :: "mutation list \<Rightarrow> ('r, 'e) runner \<Rightarrow> bool \<Rightarrow> u32 \<Rightarrow> mem \<Rightarrow> 'r havoc \<Rightarrow> ('r, 'e) fuzzer
    \<Rightarrow> (bool \<times> 'r havoc \<times> ('r, 'e) fuzzer) option" where
  "havoc_and_splice tbl run doing_det perf_score in_buf s e = do {
     (stop, s, e) \<leftarrow> havoc_stage tbl run (if doing_det then HAVOC_CYCLES_INIT else HAVOC_CYCLES) perf_score in_buf s e;
     if stop then Some (True, s, e) else splice_cycles tbl run perf_score in_buf SPLICE_CYCLES s e }"

declare pick_other.simps [code] pick_pair.simps [code] pick_target.simps [code] havoc_step.simps [code] havoc_loop.simps [code]

lemma table_lengths:
  "length (mutation_array input_mode fuzz_mode) = (if input_mode \<noteq> 2 \<and> fuzz_mode \<noteq> 0 then 200 else 256)"
  by (simp add: mutation_array_def runs_def text_array_def binary_array_def mutation_strategy_exploration_binary_def
      mutation_strategy_exploitation_binary_def)

end
