(* ===== verification/Havoc_Safe.thy ===== *)
theory Havoc_Safe
  imports Havoc Det_Safe
begin

text \<open>
  Total correctness of the havoc mutations. \<open>wp r Q\<close> says that \<open>r\<close> returns a result with \<open>Q\<close>; there is one rule for each primitive
  of \<open>Havoc\<close>. The input is \<open>content s\<close>, the used part of the output buffer; \<open>effect\<close> describes each mutation on it, and
  \<open>wp_mutate\<close> shows that the code on the buffers implements that description.
\<close>

section \<open>Allocation\<close>

text \<open>A request below 4 GB that does not fail gives a buffer that is large enough and starts with the old bytes.\<close>

lemma resize_length: "8 \<le> unat n \<Longrightarrow> length (resize buf n fill) + 8 < 2 ^ 64"
proof -
  assume "8 \<le> unat n"
  then have "unat (n - AFL_ALLOC_SIZE_OFFSET) = unat n - 8"
    by (subst unat_sub) (simp_all add: AFL_ALLOC_SIZE_OFFSET_def word_le_nat_alt)
  then have "length (resize buf n fill) \<le> unat n - 8" by (simp add: resize_def Let_def)
  then show ?thesis using unsigned_less [of n, where ?'a = nat] \<open>8 \<le> unat n\<close> by simp
qed

lemma wp_afl_realloc:
  assumes "n + 8 < 2 ^ 32" and old: "length (contents buf) + 8 < 2 ^ 64"
    and Q: "\<And>m. n \<le> length m \<Longrightarrow> length m + 8 < 2 ^ 64 \<Longrightarrow> length (contents buf) \<le> length m
      \<Longrightarrow> take (length (contents buf)) m = contents buf \<Longrightarrow> Q m"
  shows "wp (afl_realloc False buf (word_of_nat n)) Q"
proof -
  have n: "unat (word_of_nat n :: u64) = n" using assms(1) by (simp add: unsigned_of_nat take_bit_nat_eq_self)
  let ?size = "word_of_nat n + AFL_ALLOC_SIZE_OFFSET :: u64"
  have size: "8 \<le> unat ?size"
    using n assms(1) by (subst unat_add_lem [THEN iffD1]) (simp_all add: AFL_ALLOC_SIZE_OFFSET_def)
  obtain m where m: "afl_realloc False buf (word_of_nat n) = Some m" "n \<le> length m" "\<exists>k. m = contents buf @ replicate k 0"
    using afl_realloc_spec [of "word_of_nat n" buf False] n assms(1) old by (auto split: option.splits)
  define k where "k = (if ?size < INITIAL_GROWTH_SIZE then INITIAL_GROWTH_SIZE
    else if next_pow2 ?size = 0 then ?size else next_pow2 ?size)"
  have k: "8 \<le> unat k" using growth_size(1) [OF size] size unfolding k_def by linarith
  have "length m + 8 < 2 ^ 64"
  proof (cases "?size \<le> complete_size buf")
    case True
    then have "buf = Some m" using m(1) by (simp add: afl_realloc_def)
    then show ?thesis using old by (simp add: contents_def)
  next
    case False
    then have "m = resize buf k (replicate (unat k) 0)" using m(1) by (simp add: afl_realloc_def Let_def k_def)
    then show ?thesis using resize_length [OF k] by simp
  qed
  with m show ?thesis by (auto intro: Q)
qed

section \<open>States and environments\<close>

definition content :: "'r havoc \<Rightarrow> mem" where
  "content s = take (hv_len s) (hv_out s)"

definition hv_ok :: "'r havoc \<Rightarrow> bool" where
  "hv_ok s \<longleftrightarrow> 0 < hv_len s \<and> hv_len s < 2 ^ 31 \<and> hv_len s \<le> length (hv_out s) \<and> length (hv_out s) + 8 < 2 ^ 64
     \<and> length (contents (hv_scratch s)) + 8 < 2 ^ 64"

text \<open>Two consecutive draws that differ come at some time.\<close>

fun draw_pairs :: "'r drawing \<Rightarrow> u32 \<Rightarrow> nat \<Rightarrow> 'r \<Rightarrow> (u32 \<times> u32) option" where
  "draw_pairs draw n 0 r = do { (a, r) \<leftarrow> draw r n; (b, r) \<leftarrow> draw r n; Some (a, b) }"
| "draw_pairs draw n (Suc k) r = do { (a, r) \<leftarrow> draw r n; (b, r) \<leftarrow> draw r n; draw_pairs draw n k r }"

definition fair_pairs :: "'r drawing \<Rightarrow> bool" where
  "fair_pairs draw \<longleftrightarrow> (\<forall>r n. 1 < n \<longrightarrow> (\<exists>k a b. draw_pairs draw n k r = Some (a, b) \<and> a \<noteq> b))"

definition splice_target :: "'r havoc_env \<Rightarrow> mem \<Rightarrow> bool" where
  "splice_target h t \<longleftrightarrow> (\<exists>i<length (hv_queue h). i \<noteq> hv_current_entry h \<and> t = hv_queue h ! i \<and> 4 \<le> length t)"

definition henv_ok :: "'r havoc_env \<Rightarrow> bool" where
  "henv_ok h \<longleftrightarrow> rng (hv_draw h) \<and> (\<forall>r n. hv_draw h r n \<noteq> None) \<and> fair_draw (hv_draw h) \<and> fair_pairs (hv_draw h)
     \<and> \<not> hv_oom h \<and> 19 \<le> length (hv_garbage h)
     \<and> (\<forall>t\<in>set (hv_extras h) \<union> set (hv_a_extras h) \<union> set (hv_queue h). length t < 2 ^ 30)
     \<and> length (hv_extras h) < 2 ^ 31 \<and> length (hv_a_extras h) < 2 ^ 31 \<and> length (hv_queue h) < 2 ^ 31
     \<and> (1 < hv_ready_for_splicing h \<longrightarrow> Ex (splice_target h))"

lemma hv_ok_rng [simp]: "hv_ok (s\<lparr>hv_rng := r\<rparr>) = hv_ok s"
  by (simp add: hv_ok_def)

lemma content_rng [simp]: "content (s\<lparr>hv_rng := r\<rparr>) = content s"
  by (simp add: content_def)

lemma length_content [simp]: "hv_ok s \<Longrightarrow> length (content s) = hv_len s"
  by (simp add: hv_ok_def content_def)

lemma wp_below0:
  assumes "henv_ok h" and "n < 2 ^ 32"
    and "\<And>x r. 0 < n \<longrightarrow> x < n \<Longrightarrow> Q (x, s\<lparr>hv_rng := r\<rparr>)"
  shows "wp (below h n s) Q"
proof -
  obtain x r where x: "hv_draw h (hv_rng s) (word_of_nat n) = Some (x, r)" using assms(1) by (fastforce simp: henv_ok_def)
  have "x < word_of_nat n" if "0 < n"
  proof -
    have "0 < (word_of_nat n :: u32)" using that assms(2)
      by (simp add: word_less_nat_alt unsigned_of_nat take_bit_nat_eq_self)
    then show ?thesis using rng.draw_less [of "hv_draw h"] x assms(1) by (auto simp: henv_ok_def)
  qed
  then have "0 < n \<longrightarrow> unat x < n" using assms(2) by (simp add: word_less_nat_alt unsigned_of_nat take_bit_nat_eq_self)
  then show ?thesis using x assms(3) by (simp add: below_def)
qed

lemma wp_below:
  assumes "henv_ok h" and "0 < n" and "n < 2 ^ 32" and "\<And>x r. x < n \<Longrightarrow> Q (x, s\<lparr>hv_rng := r\<rparr>)"
  shows "wp (below h n s) Q"
  using assms by (intro wp_below0) auto


section \<open>Drawing until a number fits\<close>

lemma fair_induct:
  assumes "henv_ok h" and "t < n" and "n < 2 ^ 32"
    and step: "\<And>r. wp (below h n (s\<lparr>hv_rng := r\<rparr>)) (\<lambda>(x, s'). x < n \<and> (\<exists>r. s' = s\<lparr>hv_rng := r\<rparr> \<and> (x = t \<or> P r))) \<Longrightarrow> P r"
  shows "P r"
proof -
  let ?n = "word_of_nat n :: u32" and ?t = "word_of_nat t :: u32"
  have n: "unat ?n = n" "unat ?t = t"
    using assms(2,3) by (simp_all add: unsigned_of_nat take_bit_nat_eq_self)
  have less: "x < ?n" if "hv_draw h r ?n = Some (x, r')" for r x r'
    using rng.draw_less [of "hv_draw h" r ?n x r'] that assms(1,2) n by (simp add: henv_ok_def word_less_nat_alt)
  obtain k r' where "draws (hv_draw h) ?n k r = Some (?t, r')"
    using assms(1,2) n unfolding henv_ok_def fair_draw_def by (metis word_less_nat_alt)
  then show ?thesis
  proof (induction k arbitrary: r)
    case 0
    then show ?case using assms(2) n by (intro step) (auto simp: below_def)
  next
    case (Suc k)
    then obtain x r1 where x: "hv_draw h r ?n = Some (x, r1)" "draws (hv_draw h) ?n k r1 = Some (?t, r')"
      by (auto split: Option.bind_splits)
    then show ?case using Suc.IH [OF x(2)] less [OF x(1)] n by (intro step) (auto simp: below_def word_less_nat_alt)
  qed
qed

lemma wp_pick_other:
  assumes h: "henv_ok h" and n: "1 < n" "n < 2 ^ 32" and Q: "\<And>v r. v < n \<Longrightarrow> v \<noteq> x \<Longrightarrow> Q (v, s\<lparr>hv_rng := r\<rparr>)"
  shows "wp (pick_other h x n s) Q"
proof -
  obtain t where t: "t < n" "t \<noteq> x" using n(1) by (metis less_trans zero_less_one zero_neq_one)
  have "wp (pick_other h x n (s\<lparr>hv_rng := r\<rparr>)) Q" for r
  proof (rule fair_induct [OF h t(1) n(2), where s = s])
    fix r
    assume "wp (below h n (s\<lparr>hv_rng := r\<rparr>)) (\<lambda>(v, s'). v < n \<and> (\<exists>r. s' = s\<lparr>hv_rng := r\<rparr>
      \<and> (v = t \<or> wp (pick_other h x n (s\<lparr>hv_rng := r\<rparr>)) Q)))"
    then show "wp (pick_other h x n (s\<lparr>hv_rng := r\<rparr>)) Q"
      using t by (subst pick_other.simps) (auto elim!: wp_mono intro: Q)
  qed
  from this [of "hv_rng s"] show ?thesis by simp
qed

lemma splice_targetI:
  "i < length (hv_queue h) \<Longrightarrow> i \<noteq> hv_current_entry h \<Longrightarrow> \<not> length (hv_queue h ! i) < 4 \<Longrightarrow> splice_target h (hv_queue h ! i)"
  unfolding splice_target_def by (intro exI [of _ i]) simp

lemma splice_target_length:
  assumes "henv_ok h" and "splice_target h t"
  shows "length t < 2 ^ 30" and "4 \<le> length t"
proof -
  have "\<forall>t\<in>set (hv_queue h). length t < 2 ^ 30" using assms(1) by (simp add: henv_ok_def)
  then show "length t < 2 ^ 30" using assms(2) by (auto simp: splice_target_def)
  show "4 \<le> length t" using assms(2) by (auto simp: splice_target_def)
qed

lemma wp_pick_target:
  assumes h: "henv_ok h" and ready: "1 < hv_ready_for_splicing h"
    and Q: "\<And>t r. splice_target h t \<Longrightarrow> Q (t, s\<lparr>hv_rng := r\<rparr>)"
  shows "wp (pick_target h s) Q"
proof -
  let ?n = "length (hv_queue h)"
  obtain t where t: "t < ?n" "t \<noteq> hv_current_entry h" "4 \<le> length (hv_queue h ! t)"
    using h ready by (auto simp: henv_ok_def splice_target_def)
  have n: "?n < 2 ^ 32" using h by (simp add: henv_ok_def)
  have "wp (pick_target h (s\<lparr>hv_rng := r\<rparr>)) Q" for r
  proof (rule fair_induct [OF h t(1) n, where s = s])
    fix r
    assume "wp (below h ?n (s\<lparr>hv_rng := r\<rparr>)) (\<lambda>(v, s'). v < ?n \<and> (\<exists>r. s' = s\<lparr>hv_rng := r\<rparr>
      \<and> (v = t \<or> wp (pick_target h (s\<lparr>hv_rng := r\<rparr>)) Q)))"
    then show "wp (pick_target h (s\<lparr>hv_rng := r\<rparr>)) Q"
      using t by (subst pick_target.simps) (auto elim!: wp_mono intro!: wp_load8 Q splice_targetI)
  qed
  from this [of "hv_rng s"] show ?thesis by simp
qed

lemma wp_pick_pair:
  assumes h: "henv_ok h" and n: "1 < n" "n < 2 ^ 32"
    and Q: "\<And>a b r. a < n \<Longrightarrow> b < n \<Longrightarrow> a \<noteq> b \<Longrightarrow> Q (a, b, s\<lparr>hv_rng := r\<rparr>)"
  shows "wp (pick_pair h n s) Q"
proof -
  let ?n = "word_of_nat n :: u32"
  have un: "unat ?n = n" using n(2) by (simp add: unsigned_of_nat take_bit_nat_eq_self)
  have less: "unat x < n" if "hv_draw h r ?n = Some (x, r')" for r x r'
    using rng.draw_less [of "hv_draw h" r ?n x r'] that h n un by (simp add: henv_ok_def word_less_nat_alt)
  have pair: "wp (pick_pair h n s) Q"
    if "hv_draw h (hv_rng s) ?n = Some (a, r1)" "hv_draw h r1 ?n = Some (b, r2)"
      "unat a = unat b \<Longrightarrow> wp (pick_pair h n (s\<lparr>hv_rng := r2\<rparr>)) Q" "\<And>a b r. a < n \<Longrightarrow> b < n \<Longrightarrow> a \<noteq> b \<Longrightarrow> Q (a, b, s\<lparr>hv_rng := r\<rparr>)" for s a r1 b r2
    using that less [OF that(1)] less [OF that(2)] by (subst pick_pair.simps) (auto simp: below_def)
  obtain k a b where "draw_pairs (hv_draw h) ?n k (hv_rng s) = Some (a, b)" "a \<noteq> b"
    using h n un unfolding henv_ok_def fair_pairs_def by (metis unat_1 word_less_nat_alt)
  then show ?thesis using Q
  proof (induction k arbitrary: s)
    case 0
    then obtain r1 r2 where "hv_draw h (hv_rng s) ?n = Some (a, r1)" "hv_draw h r1 ?n = Some (b, r2)"
      by (auto split: Option.bind_splits)
    from pair [OF this _ 0(3)] 0(2) show ?case by (simp add: word_unat_eq_iff)
  next
    case (Suc k)
    then obtain a' r1 b' r2 where d: "hv_draw h (hv_rng s) ?n = Some (a', r1)" "hv_draw h r1 ?n = Some (b', r2)"
      "draw_pairs (hv_draw h) ?n k r2 = Some (a, b)"
      by (auto split: Option.bind_splits)
    have "wp (pick_pair h n (s\<lparr>hv_rng := r2\<rparr>)) Q" using Suc.IH [of "s\<lparr>hv_rng := r2\<rparr>"] Suc.prems(2,3) d(3) by simp
    from pair [OF d(1,2) this Suc.prems(3)] show ?case .
  qed
qed

text \<open>The length of a block is at least 1 and at most the limit, unless that is 0, and at most 32 kB.\<close>

lemma wp_choose_block_len:
  assumes h: "henv_ok h" and n: "0 < n" "n < 2 ^ 31"
    and Q: "\<And>v r. 1 \<le> v \<Longrightarrow> v \<le> n \<Longrightarrow> v \<le> HAVOC_BLK_XL \<Longrightarrow> Q (v, s\<lparr>hv_rng := r\<rparr>)"
  shows "wp (choose_block_len h n s) Q"
proof -
  let ?rlim = "if \<not> hv_run_over10m h then 1 else min (hv_queue_cycle h) 3"
  have sel: "wp (if k = 0 then Some (1, HAVOC_BLK_SMALL, s') else if k = 1 then Some (HAVOC_BLK_SMALL, HAVOC_BLK_MEDIUM, s')
      else do { (x, s) \<leftarrow> below h 10 s'; Some (if x \<noteq> 0 then (HAVOC_BLK_MEDIUM, HAVOC_BLK_LARGE, s)
        else (HAVOC_BLK_LARGE, HAVOC_BLK_XL, s)) })
      (\<lambda>(lo, hi, s'). 1 \<le> lo \<and> lo \<le> hi \<and> hi \<le> HAVOC_BLK_XL \<and> (\<exists>r. s' = s\<lparr>hv_rng := r\<rparr>))"
    if "s' = s\<lparr>hv_rng := r\<rparr>" for k r s'
    using that by (auto intro!: wp_below [OF h]
      simp: HAVOC_BLK_SMALL_def HAVOC_BLK_MEDIUM_def HAVOC_BLK_LARGE_def HAVOC_BLK_XL_def)
  show ?thesis unfolding choose_block_len_def Let_def wp_bind
  proof (rule wp_below0 [OF h])
    fix k r
    show "wp (case (k, s\<lparr>hv_rng := r\<rparr>) of (k, s) \<Rightarrow> do {
        (min_value, max_value, s) \<leftarrow>
          (if k = 0 then Some (1, HAVOC_BLK_SMALL, s) else if k = 1 then Some (HAVOC_BLK_SMALL, HAVOC_BLK_MEDIUM, s)
           else do { (x, s) \<leftarrow> below h 10 s; Some (if x \<noteq> 0 then (HAVOC_BLK_MEDIUM, HAVOC_BLK_LARGE, s)
             else (HAVOC_BLK_LARGE, HAVOC_BLK_XL, s)) });
        (x, s) \<leftarrow> below h (min max_value n + 1 - (if n \<le> min_value then 1 else min_value)) s;
        Some ((if n \<le> min_value then 1 else min_value) + x, s) }) Q"
      unfolding prod.case wp_bind using n
      by (intro wp_mono [OF sel]) (auto intro!: wp_below0 [OF h] Q simp: HAVOC_BLK_XL_def)
  qed (simp add: min_def)
qed


section \<open>What a mutation does to the input\<close>

definition replaced :: "mem \<Rightarrow> nat \<Rightarrow> nat \<Rightarrow> mem \<Rightarrow> mem" where
  "replaced xs i j bs = take i xs @ bs @ drop j xs"

text \<open>Inputs below this size are left alone.\<close>

fun min_size :: "mutation \<Rightarrow> nat" where
  "min_size MUT_INTERESTING16 = 2"
| "min_size MUT_INTERESTING16BE = 2"
| "min_size MUT_INTERESTING32 = 4"
| "min_size MUT_INTERESTING32BE = 4"
| "min_size MUT_ARITH16_SUB = 2"
| "min_size MUT_ARITH16BE_SUB = 2"
| "min_size MUT_ARITH16 = 2"
| "min_size MUT_ARITH16BE = 2"
| "min_size MUT_ARITH32_SUB = 4"
| "min_size MUT_ARITH32BE_SUB = 4"
| "min_size MUT_ARITH32 = 4"
| "min_size MUT_ARITH32BE = 4"
| "min_size MUT_OVERWRITE_COPY = 2"
| "min_size MUT_OVERWRITE_FIXED = 2"
| "min_size MUT_SWITCH = 4"
| "min_size MUT_DEL = 2"
| "min_size MUT_SHUFFLE = 4"
| "min_size MUT_DELONE = 2"
| "min_size MUT_INSERTONE = 2"
| "min_size MUT_ASCIINUM = 4"
| "min_size _ = 1"

text \<open>The number that replaces \<open>v\<close>.\<close>

definition next_number :: "u64 \<Rightarrow> u64 \<Rightarrow> bool" where
  "next_number v w \<longleftrightarrow> w \<in> {v + 1, v - 1, v * 2, half_s64 v, NOT v}
     \<or> (\<exists>x<256. w \<in> {word_of_nat x, v + word_of_nat x, v - word_of_nat x})
     \<or> v \<noteq> 0 \<and> v < 0x19999999 \<and> w < v * 10"

definition number_at :: "mem \<Rightarrow> nat \<Rightarrow> nat \<Rightarrow> u64" where
  "number_at xs i j = (let v = read_number (take (j - i) (drop i xs)) in if i \<noteq> 0 \<and> xs ! (i - 1) = 45 then - v else v)"

inductive effect :: "'r havoc_env \<Rightarrow> mutation \<Rightarrow> mem \<Rightarrow> mem \<Rightarrow> bool" for h where
  short: "length xs < min_size m \<Longrightarrow> effect h m xs xs"
| flipbit: "i < length xs \<Longrightarrow> k < 8 \<Longrightarrow> effect h MUT_FLIPBIT xs (xs[i := xs ! i XOR 2 ^ k])"
| interesting8: "i < length xs \<Longrightarrow> v \<in> set interesting_8 \<Longrightarrow> effect h MUT_INTERESTING8 xs (xs[i := word_of_int v])"
| interesting16: "i + 2 \<le> length xs \<Longrightarrow> v \<in> set interesting_16
    \<Longrightarrow> (m, f) \<in> {(MUT_INTERESTING16, id), (MUT_INTERESTING16BE, SWAP16)}
    \<Longrightarrow> effect h m xs (upd_at xs i (le_bytes 2 (f (word_of_int v))))"
| interesting32: "i + 4 \<le> length xs \<Longrightarrow> v \<in> set interesting_32
    \<Longrightarrow> (m, f) \<in> {(MUT_INTERESTING32, id), (MUT_INTERESTING32BE, SWAP32)}
    \<Longrightarrow> effect h m xs (upd_at xs i (le_bytes 4 (f (word_of_int v))))"
| arith8: "i < length xs \<Longrightarrow> 1 \<le> x \<Longrightarrow> x \<le> ARITH_MAX
    \<Longrightarrow> (m, f) \<in> {(MUT_ARITH8_SUB, \<lambda>b x. b - x), (MUT_ARITH8, \<lambda>b x. b + x)}
    \<Longrightarrow> effect h m xs (xs[i := f (xs ! i) (word_of_nat x)])"
| arith16: "i + 2 \<le> length xs \<Longrightarrow> 1 \<le> x \<Longrightarrow> x \<le> ARITH_MAX
    \<Longrightarrow> (m, f) \<in> {(MUT_ARITH16_SUB, \<lambda>w x. w - x), (MUT_ARITH16BE_SUB, \<lambda>w x. SWAP16 (SWAP16 w - x)),
          (MUT_ARITH16, \<lambda>w x. w + x), (MUT_ARITH16BE, \<lambda>w x. SWAP16 (SWAP16 w + x))}
    \<Longrightarrow> effect h m xs (upd_at xs i (le_bytes 2 (f (le_word (take 2 (drop i xs))) (word_of_nat x))))"
| arith32: "i + 4 \<le> length xs \<Longrightarrow> 1 \<le> x \<Longrightarrow> x \<le> ARITH_MAX
    \<Longrightarrow> (m, f) \<in> {(MUT_ARITH32_SUB, \<lambda>w x. w - x), (MUT_ARITH32BE_SUB, \<lambda>w x. SWAP32 (SWAP32 w - x)),
          (MUT_ARITH32, \<lambda>w x. w + x), (MUT_ARITH32BE, \<lambda>w x. SWAP32 (SWAP32 w + x))}
    \<Longrightarrow> effect h m xs (upd_at xs i (le_bytes 4 (f (le_word (take 4 (drop i xs))) (word_of_nat x))))"
| rand8: "i < length xs \<Longrightarrow> b \<noteq> xs ! i \<Longrightarrow> effect h MUT_RAND8 xs (xs[i := b])"
| clone_copy: "1 \<le> n \<Longrightarrow> n \<le> HAVOC_BLK_XL \<Longrightarrow> j + n \<le> length xs \<Longrightarrow> i < length xs
    \<Longrightarrow> effect h MUT_CLONE_COPY xs (replaced xs i i (take n (drop j xs)))"
| clone_fixed: "1 \<le> n \<Longrightarrow> n \<le> HAVOC_BLK_XL \<Longrightarrow> i < length xs \<Longrightarrow> effect h MUT_CLONE_FIXED xs (replaced xs i i (replicate n b))"
| overwrite_copy: "1 \<le> n \<Longrightarrow> i + n \<le> length xs \<Longrightarrow> j + n \<le> length xs \<Longrightarrow> i \<noteq> j
    \<Longrightarrow> effect h MUT_OVERWRITE_COPY xs (upd_at xs i (take n (drop j xs)))"
| overwrite_fixed: "1 \<le> n \<Longrightarrow> i + n \<le> length xs \<Longrightarrow> effect h MUT_OVERWRITE_FIXED xs (upd_at xs i (replicate n b))"
| byteadd: "i < length xs \<Longrightarrow> effect h MUT_BYTEADD xs (xs[i := xs ! i + 1])"
| bytesub: "i < length xs \<Longrightarrow> effect h MUT_BYTESUB xs (xs[i := xs ! i - 1])"
| flip8: "i < length xs \<Longrightarrow> effect h MUT_FLIP8 xs (xs[i := xs ! i XOR 0xff])"
| switch: "1 \<le> n \<Longrightarrow> i + n \<le> length xs \<Longrightarrow> j + n \<le> length xs \<Longrightarrow> i + n \<le> j \<or> j + n \<le> i
    \<Longrightarrow> effect h MUT_SWITCH xs (upd_at (upd_at xs i (take n (drop j xs))) j (take n (drop i xs)))"
| del: "1 \<le> n \<Longrightarrow> n < length xs \<Longrightarrow> i + n \<le> length xs \<Longrightarrow> effect h MUT_DEL xs (replaced xs i (i + n) [])"
| shuffle: "1 \<le> n \<Longrightarrow> i + n \<le> length xs \<Longrightarrow> mset ys = mset (take n (drop i xs))
    \<Longrightarrow> effect h MUT_SHUFFLE xs (upd_at xs i ys)"
| delone: "i < length xs \<Longrightarrow> 1 < length xs \<Longrightarrow> effect h MUT_DELONE xs (replaced xs i (i + 1) [])"
| insertone: "i < length xs \<Longrightarrow> effect h MUT_INSERTONE xs (replaced xs i i [b])"
| asciinum: "i < j \<Longrightarrow> j \<le> length xs \<Longrightarrow> \<forall>k\<in>{i..<j}. isdigit (xs ! k) \<Longrightarrow> j = length xs \<or> \<not> isdigit (xs ! j)
    \<Longrightarrow> next_number (number_at xs i j) v \<Longrightarrow> effect h MUT_ASCIINUM xs (replaced xs i j (print_s64 v))"
| no_number: "length xs < 8 \<Longrightarrow> \<forall>b\<in>set xs. \<not> isdigit b \<Longrightarrow> effect h MUT_ASCIINUM xs xs"
| insertasciinum: "1 \<le> length bs \<Longrightarrow> length bs \<le> 8 \<Longrightarrow> i + length bs \<le> length xs
    \<Longrightarrow> bs = take (length bs) (take 19 (dec (unat (v::u64))) @ 0 # hv_garbage h)
    \<Longrightarrow> effect h MUT_INSERTASCIINUM xs (upd_at xs i bs)"
| no_room: "length xs < 8 \<Longrightarrow> effect h MUT_INSERTASCIINUM xs xs"
| extra_overwrite: "t \<in> set ts \<Longrightarrow> i + length t \<le> length xs
    \<Longrightarrow> (m, ts) \<in> {(MUT_EXTRA_OVERWRITE, hv_extras h), (MUT_AUTO_EXTRA_OVERWRITE, hv_a_extras h)}
    \<Longrightarrow> effect h m xs (upd_at xs i t)"
| extra_insert: "t \<in> set ts \<Longrightarrow> i \<le> length xs \<Longrightarrow> length xs + length t < MAX_FILE
    \<Longrightarrow> (m, ts) \<in> {(MUT_EXTRA_INSERT, hv_extras h), (MUT_AUTO_EXTRA_INSERT, hv_a_extras h)}
    \<Longrightarrow> effect h m xs (replaced xs i i t)"
| splice_overwrite: "splice_target h t \<Longrightarrow> 1 \<le> n \<Longrightarrow> j + n \<le> length t \<Longrightarrow> i + n \<le> length xs
    \<Longrightarrow> effect h MUT_SPLICE_OVERWRITE xs (upd_at xs i (take n (drop j t)))"
| splice_insert: "splice_target h t \<Longrightarrow> 1 \<le> n \<Longrightarrow> n \<le> HAVOC_BLK_XL \<Longrightarrow> j + n \<le> length t \<Longrightarrow> i \<le> length xs
    \<Longrightarrow> effect h MUT_SPLICE_INSERT xs (replaced xs i i (take n (drop j t)))"

text \<open>The mutations that may send the step back to its beginning, with the input as it was.\<close>

definition retry_kinds :: "mutation set" where
  "retry_kinds = {MUT_CLONE_COPY, MUT_CLONE_FIXED, MUT_ASCIINUM, MUT_INSERTASCIINUM, MUT_EXTRA_OVERWRITE, MUT_EXTRA_INSERT,
     MUT_AUTO_EXTRA_OVERWRITE, MUT_AUTO_EXTRA_INSERT, MUT_SPLICE_OVERWRITE, MUT_SPLICE_INSERT}"

definition step_post :: "'r havoc_env \<Rightarrow> mutation \<Rightarrow> 'r havoc \<Rightarrow> bool \<times> 'r havoc \<Rightarrow> bool" where
  "step_post h m s = (\<lambda>(again, s'). hv_ok s' \<and> hv_len s' \<le> max MAX_FILE (hv_len s + 18)
     \<and> (if again then m \<in> retry_kinds \<and> content s' = content s else effect h m (content s) (content s')))"

section \<open>Reading and writing\<close>

lemma wp_done_step [simp]: "wp (done_step r) Q = wp r (\<lambda>s. Q (False, s))"
  by (simp add: done_step_def)

lemma wp_get: "hv_ok s \<Longrightarrow> i < hv_len s \<Longrightarrow> Q (content s ! i) \<Longrightarrow> wp (load8 (hv_out s) i) Q"
  by (simp add: hv_ok_def content_def)

lemma wp_get_slice: "hv_ok s \<Longrightarrow> i + n \<le> hv_len s \<Longrightarrow> Q (take n (drop i (content s))) \<Longrightarrow> wp (read_block (hv_out s) i n) Q"
  by (simp add: hv_ok_def content_def read_block_def drop_take min_absorb1)

lemma wp_put:
  assumes "hv_ok s" and "i + length bs \<le> hv_len s"
    and "\<And>s'. hv_ok s' \<Longrightarrow> hv_len s' = hv_len s \<Longrightarrow> content s' = upd_at (content s) i bs \<Longrightarrow> Q s'"
  shows "wp (put i bs s) Q"
proof -
  have "i + length bs \<le> length (hv_out s)" using assms(1,2) by (simp add: hv_ok_def)
  moreover have "take (hv_len s) (upd_at (hv_out s) i bs) = upd_at (content s) i bs"
    using assms(1,2) by (simp add: upd_at_def content_def hv_ok_def drop_take)
  ultimately show ?thesis using assms(1)
    by (auto simp: put_def memcpy_at_upd hv_ok_def content_def intro!: assms(3))
qed

lemma wp_upd_byte:
  assumes "hv_ok s" and "i < hv_len s"
    and "\<And>s'. hv_ok s' \<Longrightarrow> hv_len s' = hv_len s \<Longrightarrow> content s' = (content s)[i := f (content s ! i)] \<Longrightarrow> Q s'"
  shows "wp (upd_byte i f s) Q"
  using assms by (auto simp: upd_byte_def upd_at_single intro!: wp_get wp_put)

lemma wp_upd_word:
  fixes f :: "'w::len word \<Rightarrow> 'w word"
  assumes "hv_ok s" and "i + nb \<le> hv_len s"
    and "\<And>s'. hv_ok s' \<Longrightarrow> hv_len s' = hv_len s
      \<Longrightarrow> content s' = upd_at (content s) i (le_bytes nb (f (le_word (take nb (drop i (content s)))))) \<Longrightarrow> Q s'"
  shows "wp (upd_word nb i f s) Q"
proof -
  have "load_le nb (hv_out s) i = Some (le_word (take nb (drop i (content s))) :: 'w word)"
    using assms(1,2) by (subst load_le_Some) (simp_all add: hv_ok_def content_def drop_take min_absorb1)
  then show ?thesis using assms by (auto simp: upd_word_def intro!: wp_put)
qed

lemma wp_replace_block:
  assumes s: "hv_ok s" and oom: "\<not> hv_oom h" and ij: "i \<le> j" "j \<le> hv_len s"
    and len: "0 < hv_len s + length bs - (j - i)" "hv_len s + length bs - (j - i) < 2 ^ 31" "spare < 2 ^ 30"
    and Q: "\<And>s'. hv_ok s' \<Longrightarrow> hv_len s' = hv_len s + length bs - (j - i)
      \<Longrightarrow> content s' = replaced (content s) i j bs \<Longrightarrow> Q s'"
  shows "wp (replace_block h spare i j bs s) Q"
proof -
  let ?head = "take i (content s)" and ?tail = "drop j (content s)"
  define n where "n = hv_len s + length bs - (j - i)"
  have n: "0 < n" "n < 2 ^ 31" using len by (simp_all add: n_def)
  have size: "n + spare + 8 < 2 ^ 32" using n(2) len(3) by simp
  have sizes: "length ?head = i" "length ?tail = hv_len s - j" "i + length bs + (hv_len s - j) = n"
    using s ij by (simp_all add: n_def)
  have fill: "upd_at (upd_at (upd_at m 0 ?head) i bs) (i + length bs) ?tail = ?head @ bs @ ?tail @ drop n m"
    if "n + spare \<le> length m" for m
  proof -
    have "upd_at m 0 ?head = ?head @ drop i m" using sizes by (simp add: upd_at_def)
    moreover have "upd_at (?head @ drop i m) i bs = ?head @ bs @ drop (i + length bs) m"
      using sizes by (simp add: upd_at_def add.commute)
    ultimately show ?thesis using sizes by (simp add: upd_at_def)
  qed
  have "wp (afl_realloc False (hv_scratch s) (word_of_nat (n + spare))) (\<lambda>m. Q (s\<lparr>hv_out := ?head @ bs @ ?tail @ drop n m,
      hv_scratch := Some (hv_out s), hv_len := n\<rparr>) \<and> n + spare \<le> length m)"
  proof (rule wp_afl_realloc [OF size])
    show "length (contents (hv_scratch s)) + 8 < 2 ^ 64" using s by (simp add: hv_ok_def)
  next
    fix m :: mem
    assume m: "n + spare \<le> length m" "length m + 8 < 2 ^ 64"
    have "hv_ok (s\<lparr>hv_out := ?head @ bs @ ?tail @ drop n m, hv_scratch := Some (hv_out s), hv_len := n\<rparr>)"
    proof -
      have "length (?head @ bs @ ?tail @ drop n m) = length m" using m(1) sizes by simp
      then show ?thesis using s m n unfolding hv_ok_def by (simp add: contents_def del: length_append)
    qed
    then show "Q (s\<lparr>hv_out := ?head @ bs @ ?tail @ drop n m, hv_scratch := Some (hv_out s), hv_len := n\<rparr>) \<and> n + spare \<le> length m"
      using m(1) sizes by (auto intro!: Q simp: n_def [symmetric] content_def replaced_def)
  qed
  then show ?thesis unfolding replace_block_def Let_def wp_bind n_def [symmetric] using oom
  proof (simp, elim wp_mono conjE)
    fix m
    assume m: "Q (s\<lparr>hv_out := ?head @ bs @ ?tail @ drop n m, hv_scratch := Some (hv_out s), hv_len := n\<rparr>)" "n + spare \<le> length m"
    have len: "length (upd_at m 0 ?head) = length m" "length (upd_at (upd_at m 0 ?head) i bs) = length m"
      using m(2) sizes by simp_all
    have "take (hv_len s - j) (drop j (content s)) = ?tail" "take i (drop 0 (content s)) = ?head" using sizes by simp_all
    then show "wp (read_block (hv_out s) 0 i) (\<lambda>head. wp (memcpy_at m 0 head) (\<lambda>m. wp (memcpy_at m i bs) (\<lambda>m.
        wp (read_block (hv_out s) j (hv_len s - j)) (\<lambda>tail. wp (memcpy_at m (i + length bs) tail) (\<lambda>m.
        Q (s\<lparr>hv_out := m, hv_scratch := Some (hv_out s), hv_len := n\<rparr>))))))"
      using m len sizes ij by (intro wp_get_slice [OF s] wp_memcpy_at) (simp_all add: fill [OF m(2)])
  qed
qed


section \<open>One mutation\<close>

lemma step_post_same:
  "hv_ok s' \<Longrightarrow> hv_len s' = hv_len s \<Longrightarrow> effect h m (content s) (content s') \<Longrightarrow> step_post h m s (False, s')"
  by (simp add: step_post_def)

lemma step_post_short: "hv_ok s \<Longrightarrow> hv_len s < min_size m \<Longrightarrow> step_post h m s (False, s)"
  by (auto simp: step_post_def intro: effect.short)

lemma step_post_again:
  "hv_ok s' \<Longrightarrow> hv_len s' = hv_len s \<Longrightarrow> content s' = content s \<Longrightarrow> m \<in> retry_kinds \<Longrightarrow> step_post h m s (True, s')"
  by (simp add: step_post_def)

lemma step_post_grown:
  "hv_ok s' \<Longrightarrow> hv_len s' \<le> max MAX_FILE (hv_len s + 18) \<Longrightarrow> effect h m (content s) (content s') \<Longrightarrow> step_post h m s (False, s')"
  by (simp add: step_post_def)

lemma hv_ok_len: "hv_ok s \<Longrightarrow> 0 < hv_len s" "hv_ok s \<Longrightarrow> hv_len s < 2 ^ 31"
  by (simp_all add: hv_ok_def)

lemma wp_random_byte:
  assumes "henv_ok h" and s: "hv_ok s"
    and "\<And>i s'. i < hv_len s \<Longrightarrow> hv_ok s' \<Longrightarrow> hv_len s' = hv_len s \<Longrightarrow> content s' = (content s)[i := f (content s ! i)] \<Longrightarrow> Q s'"
  shows "wp (random_byte h f s) Q"
  using assms hv_ok_len [OF s] by (auto simp: random_byte_def intro!: wp_below wp_upd_byte)

lemma post_flipbit: "henv_ok h \<Longrightarrow> hv_ok s \<Longrightarrow> wp (mutate MUT_FLIPBIT h s) (step_post h MUT_FLIPBIT s)"
  by (auto simp: mut_flipbit_def intro!: wp_below wp_random_byte step_post_same effect.flipbit)

lemma table_sizes [simp]:
  "interesting_8 \<noteq> []" "interesting_16 \<noteq> []" "interesting_32 \<noteq> []" "0 < ARITH_MAX" "ARITH_MAX < 4294967296"
  "length interesting_8 < 4294967296" "length interesting_16 < 4294967296" "length interesting_32 < 4294967296"
  by (simp_all add: interesting_8_def interesting_16_def interesting_32_def ARITH_MAX_def)

lemma post_interesting8: "henv_ok h \<Longrightarrow> hv_ok s \<Longrightarrow> wp (mutate MUT_INTERESTING8 h s) (step_post h MUT_INTERESTING8 s)"
  by (auto simp: mut_interesting8_def intro!: wp_below wp_load8 wp_random_byte step_post_same effect.interesting8)

lemma wp_mut_interesting16:
  assumes h: "henv_ok h" and s: "hv_ok s" and m: "(m, f) \<in> {(MUT_INTERESTING16, id), (MUT_INTERESTING16BE, SWAP16)}"
  shows "wp (mut_interesting16 f h s) (\<lambda>s'. step_post h m s (False, s'))"
proof (cases "hv_len s < 2")
  case True
  then show ?thesis using s m by (auto simp: mut_interesting16_def intro!: step_post_short)
next
  case False
  have "step_post h m s (False, s')" if "hv_ok s'" "hv_len s' = hv_len s" "i < hv_len s - 1" "x < length interesting_16"
    "content s' = upd_at (content s) i (le_bytes 2 (f (word_of_int (interesting_16 ! x))))" for i x s'
    using that s effect.interesting16 [where h = h, OF _ nth_mem m, of i "content s" x] by (intro step_post_same) auto
  then show ?thesis using False s hv_ok_len [OF s]
    by (auto simp: mut_interesting16_def intro!: wp_below [OF h] wp_load8 wp_put)
qed

lemma wp_mut_interesting32:
  assumes h: "henv_ok h" and s: "hv_ok s" and m: "(m, f) \<in> {(MUT_INTERESTING32, id), (MUT_INTERESTING32BE, SWAP32)}"
  shows "wp (mut_interesting32 f h s) (\<lambda>s'. step_post h m s (False, s'))"
proof (cases "hv_len s < 4")
  case True
  then show ?thesis using s m by (auto simp: mut_interesting32_def intro!: step_post_short)
next
  case False
  have "step_post h m s (False, s')" if "hv_ok s'" "hv_len s' = hv_len s" "i < hv_len s - 3" "x < length interesting_32"
    "content s' = upd_at (content s) i (le_bytes 4 (f (word_of_int (interesting_32 ! x))))" for i x s'
    using that s effect.interesting32 [where h = h, OF _ nth_mem m, of i "content s" x] by (intro step_post_same) auto
  then show ?thesis using False s hv_ok_len [OF s]
    by (auto simp: mut_interesting32_def intro!: wp_below [OF h] wp_load8 wp_put)
qed

lemma wp_mut_arith8:
  assumes h: "henv_ok h" and s: "hv_ok s" and m: "(m, f) \<in> {(MUT_ARITH8_SUB, \<lambda>b x. b - x), (MUT_ARITH8, \<lambda>b x. b + x)}"
  shows "wp (mut_arith8 f h s) (\<lambda>s'. step_post h m s (False, s'))"
proof -
  have "step_post h m s (False, s')" if "hv_ok s'" "hv_len s' = hv_len s" "i < hv_len s" "x < ARITH_MAX"
    "content s' = (content s)[i := f (content s ! i) (word_of_nat (1 + x))]" for i x s'
    using that s effect.arith8 [where h = h, OF _ _ _ m, of i "content s" "1 + x"] by (intro step_post_same) auto
  then show ?thesis using s unfolding mut_arith8_def by (auto intro!: wp_below [OF h] wp_random_byte [OF h])
qed

lemma wp_mut_arith16:
  assumes h: "henv_ok h" and s: "hv_ok s"
    and m: "(m, f) \<in> {(MUT_ARITH16_SUB, \<lambda>w x. w - x), (MUT_ARITH16BE_SUB, \<lambda>w x. SWAP16 (SWAP16 w - x)),
      (MUT_ARITH16, \<lambda>w x. w + x), (MUT_ARITH16BE, \<lambda>w x. SWAP16 (SWAP16 w + x))}"
  shows "wp (mut_arith16 f h s) (\<lambda>s'. step_post h m s (False, s'))"
proof (cases "hv_len s < 2")
  case True
  then show ?thesis using s m by (auto simp: mut_arith16_def intro!: step_post_short)
next
  case False
  have "step_post h m s (False, s')" if "hv_ok s'" "hv_len s' = hv_len s" "i < hv_len s - 1" "x < ARITH_MAX"
    "content s' = upd_at (content s) i (le_bytes 2 (f (le_word (take 2 (drop i (content s)))) (word_of_nat (1 + x))))"
    for i x s'
    using that s effect.arith16 [where h = h, OF _ _ _ m, of i "content s" "1 + x"] by (intro step_post_same) auto
  then show ?thesis using False s hv_ok_len [OF s]
    by (auto simp: mut_arith16_def intro!: wp_below [OF h] wp_upd_word)
qed

lemma wp_mut_arith32:
  assumes h: "henv_ok h" and s: "hv_ok s"
    and m: "(m, f) \<in> {(MUT_ARITH32_SUB, \<lambda>w x. w - x), (MUT_ARITH32BE_SUB, \<lambda>w x. SWAP32 (SWAP32 w - x)),
      (MUT_ARITH32, \<lambda>w x. w + x), (MUT_ARITH32BE, \<lambda>w x. SWAP32 (SWAP32 w + x))}"
  shows "wp (mut_arith32 f h s) (\<lambda>s'. step_post h m s (False, s'))"
proof (cases "hv_len s < 4")
  case True
  then show ?thesis using s m by (auto simp: mut_arith32_def intro!: step_post_short)
next
  case False
  have "step_post h m s (False, s')" if "hv_ok s'" "hv_len s' = hv_len s" "i < hv_len s - 3" "x < ARITH_MAX"
    "content s' = upd_at (content s) i (le_bytes 4 (f (le_word (take 4 (drop i (content s)))) (word_of_nat (1 + x))))"
    for i x s'
    using that s effect.arith32 [where h = h, OF _ _ _ m, of i "content s" "1 + x"] by (intro step_post_same) auto
  then show ?thesis using False s hv_ok_len [OF s]
    by (auto simp: mut_arith32_def intro!: wp_below [OF h] wp_upd_word)
qed

lemma post_rand8:
  assumes h: "henv_ok h" and s: "hv_ok s"
  shows "wp (mutate MUT_RAND8 h s) (step_post h MUT_RAND8 s)"
proof -
  have other: "b XOR word_of_nat (1 + x) \<noteq> b" if "x < 255" for b :: u8 and x
  proof
    assume "b XOR word_of_nat (1 + x) = b"
    then have "(word_of_nat (1 + x) :: u8) = 0" by (metis xor.left_neutral xor.assoc xor_self_eq)
    then have "unat (word_of_nat (1 + x) :: u8) = 0" by simp
    then show False using that by (simp add: unsigned_of_nat take_bit_nat_eq_self del: of_nat_Suc)
  qed
  have "step_post h MUT_RAND8 s (False, s')" if "hv_ok s'" "hv_len s' = hv_len s" "i < hv_len s" "x < 255"
    "content s' = (content s)[i := content s ! i XOR word_of_nat (1 + x)]" for i x s'
    using that s effect.rand8 [where h = h and i = i and xs = "content s", OF _ other] by (intro step_post_same) auto
  then show ?thesis using s hv_ok_len [OF s]
    by (auto simp: mut_rand8_def simp del: of_nat_Suc intro!: wp_below [OF h] wp_upd_byte)
qed


lemma henv_ok_oom: "henv_ok h \<Longrightarrow> \<not> hv_oom h"
  by (simp add: henv_ok_def)

lemma wp_fill_byte:
  assumes "henv_ok h" and "hv_ok s" and "pos \<le> hv_len s" and "\<And>b r. Q (b, s\<lparr>hv_rng := r\<rparr>)"
  shows "wp (fill_byte h pos s) Q"
  using assms hv_ok_len [OF assms(2)] by (auto simp: fill_byte_def intro!: wp_below wp_get)

lemma wp_with_room:
  assumes "hv_ok s" and "m \<in> {MUT_CLONE_COPY, MUT_CLONE_FIXED}"
    and "hv_len s + HAVOC_BLK_XL < MAX_FILE \<Longrightarrow> wp ins (\<lambda>s'. step_post h m s (False, s'))"
  shows "wp (with_room ins s) (step_post h m s)"
  using assms by (auto simp: with_room_def retry_kinds_def MAX_FILE_def HAVOC_BLK_XL_def intro!: step_post_again)

lemma post_clone_copy:
  assumes h: "henv_ok h" and s: "hv_ok s"
  shows "wp (mutate MUT_CLONE_COPY h s) (step_post h MUT_CLONE_COPY s)"
  unfolding mutate.simps mut_clone_copy_def
proof (rule wp_with_room [OF s], goal_cases)
  case room: 2
  have "step_post h MUT_CLONE_COPY s (False, s')" if "1 \<le> n" "n \<le> HAVOC_BLK_XL" "j < hv_len s - n + 1" "n \<le> hv_len s" "i < hv_len s"
    "hv_ok s'" "hv_len s' = hv_len s + n" "content s' = replaced (content s) i i (take n (drop j (content s)))" for i j n s'
    using that room s effect.clone_copy [where h = h and n = n and i = i and j = j and xs = "content s"]
    by (intro step_post_grown) (auto simp: MAX_FILE_def HAVOC_BLK_XL_def)
  then show ?case
    using s room hv_ok_len [OF s] henv_ok_oom [OF h]
    by (auto simp: MAX_FILE_def HAVOC_BLK_XL_def min_absorb2
        intro!: wp_choose_block_len [OF h] wp_below [OF h] wp_get_slice wp_replace_block)
qed simp


lemma post_clone_fixed:
  assumes h: "henv_ok h" and s: "hv_ok s"
  shows "wp (mutate MUT_CLONE_FIXED h s) (step_post h MUT_CLONE_FIXED s)"
  unfolding mutate.simps mut_clone_fixed_def
proof (rule wp_with_room [OF s], goal_cases)
  case room: 2
  have "step_post h MUT_CLONE_FIXED s (False, s')" if "1 \<le> n" "n \<le> HAVOC_BLK_XL" "i < hv_len s"
    "hv_ok s'" "hv_len s' = hv_len s + n" "content s' = replaced (content s) i i (replicate n b)" for i n b s'
    using that room s effect.clone_fixed [where h = h and n = n and i = i and b = b and xs = "content s"]
    by (intro step_post_grown) (auto simp: MAX_FILE_def HAVOC_BLK_XL_def)
  then show ?case
    using s room hv_ok_len [OF s] henv_ok_oom [OF h]
    by (auto simp: MAX_FILE_def HAVOC_BLK_XL_def
        intro!: wp_choose_block_len [OF h] wp_below [OF h] wp_fill_byte [OF h] wp_replace_block)
qed simp

lemma post_overwrite_copy:
  assumes h: "henv_ok h" and s: "hv_ok s"
  shows "wp (mutate MUT_OVERWRITE_COPY h s) (step_post h MUT_OVERWRITE_COPY s)"
proof (cases "hv_len s < 2")
  case True
  then show ?thesis using s by (auto simp: mut_overwrite_copy_def intro!: step_post_short)
next
  case False
  have "step_post h MUT_OVERWRITE_COPY s (False, s')" if "1 \<le> n" "n \<le> hv_len s - 1" "i < hv_len s - n + 1" "j < hv_len s - n + 1"
    "j \<noteq> i" "hv_ok s'" "hv_len s' = hv_len s" "content s' = upd_at (content s) i (take n (drop j (content s)))" for i j n s'
    using that s effect.overwrite_copy [where h = h and n = n and i = i and j = j and xs = "content s"]
    by (intro step_post_same) auto
  then show ?thesis using False s hv_ok_len [OF s]
    by (auto simp: mut_overwrite_copy_def min_absorb2
        intro!: wp_choose_block_len [OF h] wp_pick_pair [OF h] wp_get_slice wp_put)
qed

lemma post_overwrite_fixed:
  assumes h: "henv_ok h" and s: "hv_ok s"
  shows "wp (mutate MUT_OVERWRITE_FIXED h s) (step_post h MUT_OVERWRITE_FIXED s)"
proof (cases "hv_len s < 2")
  case True
  then show ?thesis using s by (auto simp: mut_overwrite_fixed_def intro!: step_post_short)
next
  case False
  have "step_post h MUT_OVERWRITE_FIXED s (False, s')" if "1 \<le> n" "n \<le> hv_len s - 1" "i < hv_len s - n + 1"
    "hv_ok s'" "hv_len s' = hv_len s" "content s' = upd_at (content s) i (replicate n b)" for i n b s'
    using that s effect.overwrite_fixed [where h = h and n = n and i = i and b = b and xs = "content s"]
    by (intro step_post_same) auto
  then show ?thesis using False s hv_ok_len [OF s]
    by (auto simp: mut_overwrite_fixed_def
        intro!: wp_choose_block_len [OF h] wp_below [OF h] wp_fill_byte [OF h] wp_put)
qed

lemma post_byte:
  assumes "henv_ok h" and "hv_ok s"
  shows "wp (mutate MUT_BYTEADD h s) (step_post h MUT_BYTEADD s)"
    and "wp (mutate MUT_BYTESUB h s) (step_post h MUT_BYTESUB s)"
    and "wp (mutate MUT_FLIP8 h s) (step_post h MUT_FLIP8 s)"
  using assms
  by (auto intro!: wp_random_byte step_post_same effect.byteadd effect.bytesub effect.flip8 simp del: word_not_simps)

lemma wp_memcpy_in:
  assumes "hv_ok s" and "i + n \<le> hv_len s" and "j + n \<le> hv_len s" and "j + n \<le> i \<or> i + n \<le> j"
    and "\<And>s'. hv_ok s' \<Longrightarrow> hv_len s' = hv_len s \<Longrightarrow> content s' = upd_at (content s) i (take n (drop j (content s))) \<Longrightarrow> Q s'"
  shows "wp (memcpy_in i j n s) Q"
  using assms by (auto simp: memcpy_in_def min_absorb2 intro!: wp_get_slice wp_put)

text \<open>Two blocks exchanged through the scratch buffer.\<close>

lemma post_switch:
  assumes h: "henv_ok h" and s: "hv_ok s"
  shows "wp (mutate MUT_SWITCH h s) (step_post h MUT_SWITCH s)"
proof (cases "hv_len s < 4")
  case True
  then show ?thesis using s by (auto simp: mut_switch_def intro!: step_post_short)
next
  case False
  have exchange: "wp (do {
      new_buf \<leftarrow> afl_realloc (hv_oom h) (hv_scratch s) (word_of_nat n);
      backup \<leftarrow> read_block (hv_out s) i n;
      new_buf \<leftarrow> memcpy_at new_buf 0 backup;
      s \<leftarrow> memcpy_in i j n (s\<lparr>hv_rng := r, hv_scratch := Some new_buf\<rparr>);
      backup \<leftarrow> read_block new_buf 0 n;
      put j backup s }) (\<lambda>s'. step_post h MUT_SWITCH s (False, s'))"
    if ij: "1 \<le> n" "i + n \<le> hv_len s" "j + n \<le> hv_len s" "i + n \<le> j \<or> j + n \<le> i" for i j n r
  proof -
    let ?c = "content s"
    have post: "step_post h MUT_SWITCH s (False, s')" if "hv_ok s'" "hv_len s' = hv_len s"
      "content s' = upd_at (upd_at ?c i (take n (drop j ?c))) j (take n (drop i ?c))" for s'
      using that ij s effect.switch [where h = h and n = n and i = i and j = j and xs = ?c] by (intro step_post_same) auto
    have copy: "wp (memcpy_in i j n (s\<lparr>hv_rng := r, hv_scratch := Some m\<rparr>)) (\<lambda>s'.
        wp (put j (take n (drop i ?c)) s') (\<lambda>s'. step_post h MUT_SWITCH s (False, s')))" if "length m + 8 < 2 ^ 64" for m
    proof -
      have "hv_ok (s\<lparr>hv_rng := r, hv_scratch := Some m\<rparr>)" "content (s\<lparr>hv_rng := r, hv_scratch := Some m\<rparr>) = ?c"
        using s that by (simp_all add: hv_ok_def content_def contents_def)
      then show ?thesis using ij s by (intro wp_memcpy_in wp_put post) (auto simp: min_absorb2)
    qed
    show ?thesis unfolding wp_bind using henv_ok_oom [OF h]
    proof (simp, intro wp_afl_realloc wp_get_slice [OF s])
      fix m :: mem
      assume m: "n \<le> length m" "length m + 8 < 2 ^ 64"
      let ?m = "upd_at m 0 (take n (drop i ?c))"
      have len: "length (take n (drop i ?c)) = n" using ij s by simp
      then have "length ?m = length m" "take n ?m = take n (drop i ?c)" using m(1) by (simp_all add: upd_at_def)
      then show "wp (memcpy_at m 0 (take n (drop i ?c))) (\<lambda>m'. wp (memcpy_in i j n (s\<lparr>hv_rng := r, hv_scratch := Some m'\<rparr>)) (\<lambda>s'.
          wp (read_block m' 0 n) (\<lambda>bs. wp (put j bs s') (\<lambda>s'. step_post h MUT_SWITCH s (False, s')))))"
        using m len copy [of ?m] by (intro wp_memcpy_at) (simp_all add: read_block_def)
    qed (use ij hv_ok_len [OF s] s in \<open>auto simp: hv_ok_def\<close>)
  qed
  then show ?thesis using False s hv_ok_len [OF s]
    by (auto simp: mut_switch_def
        intro!: wp_pick_other [OF h] wp_choose_block_len [OF h] wp_below [OF h])
qed


lemma wp_delete_block:
  assumes s: "hv_ok s" and n: "i + n \<le> hv_len s" "n < hv_len s"
    and Q: "\<And>s'. hv_ok s' \<Longrightarrow> hv_len s' = hv_len s - n \<Longrightarrow> content s' = replaced (content s) i (i + n) [] \<Longrightarrow> Q s'"
  shows "wp (delete_block i n s) Q"
proof -
  have fin: "Q (s'\<lparr>hv_len := hv_len s' - n\<rparr>)"
    if s': "hv_ok s'" "hv_len s' = hv_len s" "content s' = upd_at (content s) i (drop (i + n) (content s))" for s'
  proof (rule Q)
    have "content (s'\<lparr>hv_len := hv_len s' - n\<rparr>) = take (hv_len s - n) (content s')"
      unfolding content_def using s'(2) by (simp add: min_absorb1)
    also have "\<dots> = replaced (content s) i (i + n) []"
      unfolding s'(3) using n s by (simp add: upd_at_def replaced_def)
    finally show "content (s'\<lparr>hv_len := hv_len s' - n\<rparr>) = replaced (content s) i (i + n) []" .
  qed (use s' n in \<open>auto simp: hv_ok_def\<close>)
  show ?thesis using n s unfolding delete_block_def by (auto intro!: wp_get_slice [OF s] wp_put [OF s] fin)
qed

lemma post_del:
  assumes h: "henv_ok h" and s: "hv_ok s"
  shows "wp (mutate MUT_DEL h s) (step_post h MUT_DEL s)"
proof (cases "hv_len s < 2")
  case True
  then show ?thesis using s by (auto simp: mut_del_def intro!: step_post_short)
next
  case False
  have "step_post h MUT_DEL s (False, s')" if "1 \<le> n" "n \<le> hv_len s - 1" "i < hv_len s - n + 1"
    "hv_ok s'" "hv_len s' = hv_len s - n" "content s' = replaced (content s) i (i + n) []" for i n s'
    using that False s effect.del [where h = h and n = n and i = i and xs = "content s"]
    by (intro step_post_grown) auto
  then show ?thesis using False s hv_ok_len [OF s]
    by (auto simp: mut_del_def intro!: wp_choose_block_len [OF h] wp_below [OF h] wp_delete_block)
qed

lemma post_delone:
  assumes h: "henv_ok h" and s: "hv_ok s"
  shows "wp (mutate MUT_DELONE h s) (step_post h MUT_DELONE s)"
proof (cases "hv_len s < 2")
  case True
  then show ?thesis using s by (auto simp: mut_delone_def intro!: step_post_short)
next
  case False
  have "step_post h MUT_DELONE s (False, s')" if "i < hv_len s" "hv_ok s'" "hv_len s' = hv_len s - 1"
    "content s' = replaced (content s) i (i + 1) []" for i s'
    using that False s effect.delone [where h = h and i = i and xs = "content s"] by (intro step_post_grown) auto
  then show ?thesis using False s hv_ok_len [OF s]
    by (auto simp: mut_delone_def intro!: wp_below [OF h] wp_delete_block)
qed

lemma post_insertone:
  assumes h: "henv_ok h" and s: "hv_ok s" "hv_len s + 18 < 2 ^ 31"
  shows "wp (mutate MUT_INSERTONE h s) (step_post h MUT_INSERTONE s)"
proof (cases "hv_len s < 2")
  case True
  then show ?thesis using s by (auto simp: mut_insertone_def intro!: step_post_short)
next
  case False
  have "step_post h MUT_INSERTONE s (False, s')" if "i < hv_len s" "hv_ok s'" "hv_len s' = hv_len s + 1"
    "content s' = replaced (content s) i i [b]" for i b s'
    using that s effect.insertone [where h = h and i = i and b = b and xs = "content s"] by (intro step_post_grown) auto
  then show ?thesis using False s hv_ok_len [OF s(1)] henv_ok_oom [OF h]
    by (auto simp: mut_insertone_def intro!: wp_below [OF h] wp_fill_byte [OF h] wp_replace_block)
qed

text \<open>Shuffling permutes a block and leaves the rest alone.\<close>

definition shuffled :: "nat \<Rightarrow> nat \<Rightarrow> mem \<Rightarrow> mem \<Rightarrow> bool" where
  "shuffled i n xs ys \<longleftrightarrow> length ys = length xs \<and> take i ys = take i xs \<and> drop (i + n) ys = drop (i + n) xs \<and> mset ys = mset xs"

lemma shuffled_swap:
  assumes "shuffled i n xs ys" and "i \<le> a" "a < i + n" "i \<le> b" "b < i + n" and "i + n \<le> length xs"
  shows "shuffled i n xs (ys[a := ys ! b, b := ys ! a])"
proof -
  have "mset (ys[a := ys ! b, b := ys ! a]) = mset ys"
    using mset_swap [of b ys a] assms by (simp add: shuffled_def)
  then show ?thesis using assms by (simp add: shuffled_def)
qed

lemma shuffled_block:
  assumes "shuffled i n xs ys" and "i + n \<le> length xs"
  shows "ys = upd_at xs i (take n (drop i ys))" and "mset (take n (drop i ys)) = mset (take n (drop i xs))"
proof -
  have split: "zs = take i zs @ take n (drop i zs) @ drop (i + n) zs" for zs :: mem
    by (metis append_take_drop_id drop_drop add.commute)
  have len: "length ys = length xs" "take i ys = take i xs" "drop (i + n) ys = drop (i + n) xs"
    using assms(1) by (simp_all add: shuffled_def)
  show "ys = upd_at xs i (take n (drop i ys))"
    using split [of ys] len assms(2) by (simp add: upd_at_def)
  have "mset (take i ys) + mset (take n (drop i ys)) + mset (drop (i + n) ys)
      = mset (take i xs) + mset (take n (drop i xs)) + mset (drop (i + n) xs)"
    using assms(1) split [of xs] split [of ys] unfolding shuffled_def by (metis mset_append add.assoc)
  then show "mset (take n (drop i ys)) = mset (take n (drop i xs))" using len by simp
qed

lemma wp_shuffle_loop:
  assumes h: "henv_ok h" and "hv_ok s" and "k < n" and "i + n \<le> hv_len s0" and "hv_ok s0"
    and "hv_len s = hv_len s0" and "shuffled i n (content s0) (content s)"
  shows "wp (shuffle_loop h i k s) (\<lambda>s'. hv_ok s' \<and> hv_len s' = hv_len s0 \<and> shuffled i n (content s0) (content s'))"
  using assms(2-)
proof (induction k arbitrary: s)
  case (Suc k)
  let ?c = "content s"
  have "wp (shuffle_loop h i k s'') (\<lambda>s'. hv_ok s' \<and> hv_len s' = hv_len s0 \<and> shuffled i n (content s0) (content s'))"
    if "j < Suc k + 1" "hv_ok s''" "hv_len s'' = hv_len s"
      "content s'' = ?c[i + Suc k := ?c ! (i + j), i + j := ?c ! (i + Suc k)]" for j s''
    using that Suc.prems shuffled_swap [of i n "content s0" ?c "i + Suc k" "i + j"] by (intro Suc.IH) auto
  then show ?case using Suc.prems hv_ok_len [OF Suc.prems(1)]
    by (auto simp: upd_at_single [symmetric] intro!: wp_pick_other [OF h] wp_get wp_put)
qed simp

lemma post_shuffle:
  assumes h: "henv_ok h" and s: "hv_ok s"
  shows "wp (mutate MUT_SHUFFLE h s) (step_post h MUT_SHUFFLE s)"
proof (cases "hv_len s < 4")
  case True
  then show ?thesis using s by (auto simp: mut_shuffle_def intro!: step_post_short)
next
  case False
  have "step_post h MUT_SHUFFLE s (False, s')" if "1 \<le> n" "n \<le> hv_len s - 1" "i < hv_len s - n + 1"
    "hv_ok s'" "hv_len s' = hv_len s" "shuffled i n (content s) (content s')" for i n s'
  proof -
    have i: "i + n \<le> length (content s)" using that False s by simp
    show ?thesis using that effect.shuffle [where h = h, OF that(1) i shuffled_block(2) [OF that(6) i]] shuffled_block(1) [OF that(6) i]
      by (intro step_post_same) simp_all
  qed
  then have "wp (shuffle_loop h i (n - Suc 0) (s\<lparr>hv_rng := r\<rparr>)) (\<lambda>s'. step_post h MUT_SHUFFLE s (False, s'))"
    if "1 \<le> n" "n \<le> hv_len s - 1" "i < hv_len s - n + 1" for i n r
    using that s by (intro wp_mono [OF wp_shuffle_loop [OF h, of _ _ n i s]]) (auto simp: shuffled_def)
  then show ?thesis using False s hv_ok_len [OF s]
    by (auto simp: mut_shuffle_def intro!: wp_choose_block_len [OF h] wp_below [OF h])
qed


subsection \<open>Numbers\<close>

lemma wp_scan:
  assumes "i + k \<le> length m"
  shows "wp (scan P m i k) (\<lambda>e. i \<le> e \<and> e \<le> i + k \<and> (\<forall>x\<in>{i..<e}. P (m ! x)) \<and> (e = i + k \<or> \<not> P (m ! e)))"
  using assms
proof (induction k arbitrary: i)
  case (Suc k)
  show ?case
  proof (cases "P (m ! i)")
    case True
    have "wp (scan P m (Suc i) k) (\<lambda>e. Suc i \<le> e \<and> e \<le> Suc i + k \<and> (\<forall>x\<in>{Suc i..<e}. P (m ! x))
      \<and> (e = Suc i + k \<or> \<not> P (m ! e)))" using Suc.IH [of "Suc i"] Suc.prems by simp
    then have "wp (scan P m (Suc i) k) (\<lambda>e. i \<le> e \<and> e \<le> i + Suc k \<and> (\<forall>x\<in>{i..<e}. P (m ! x))
      \<and> (e = i + Suc k \<or> \<not> P (m ! e)))"
      by (rule wp_mono) (use True in \<open>auto simp: Ball_def elim: le_neq_implies_less [THEN Suc_leI]\<close>)
    then show ?thesis using True Suc.prems by simp
  qed (use Suc.prems in simp)
qed simp

lemma wp_scan_content:
  assumes "hv_ok s" and "i + k \<le> hv_len s"
    and Q: "\<And>e. i \<le> e \<Longrightarrow> e \<le> i + k \<Longrightarrow> \<forall>x\<in>{i..<e}. P (content s ! x) \<Longrightarrow> e = i + k \<or> \<not> P (content s ! e) \<Longrightarrow> Q e"
  shows "wp (scan P (hv_out s) i k) Q"
proof -
  have "hv_out s ! x = content s ! x" if "x < hv_len s" for x using that assms(1) by (simp add: content_def)
  moreover have "i + k \<le> length (hv_out s)" using assms(1,2) by (simp add: hv_ok_def)
  ultimately show ?thesis using assms(2) by (intro wp_mono [OF wp_scan] Q) (auto simp: order_less_le_trans)
qed

lemma length_dec: "0 < length (dec n)"
  by (cases n rule: dec.cases) (subst dec.simps, simp)

lemma length_print_s64: "1 \<le> length (print_s64 v)" "length (print_s64 v) \<le> 19"
  using length_dec by (auto simp: print_s64_def Let_def Suc_le_eq)

lemma next_numberI:
  "next_number v (v + 1)" "next_number v (v - 1)" "next_number v (v * 2)" "next_number v (half_s64 v)" "next_number v (NOT v)"
  "x < 256 \<Longrightarrow> next_number v (word_of_nat x)" "x < 256 \<Longrightarrow> next_number v (v + word_of_nat x)"
  "x < 256 \<Longrightarrow> next_number v (v - word_of_nat x)"
  unfolding next_number_def by blast+

lemma wp_new_number:
  assumes h: "henv_ok h" and Q: "\<And>w r. next_number v w \<Longrightarrow> Q (w, s\<lparr>hv_rng := r\<rparr>)"
  shows "wp (new_number h v s) Q"
proof -
  have "x mod (v * 10) < v * 10" if "v \<noteq> 0" "v < 0x19999999" for x
  proof -
    have "unat v < 0x19999999" "0 < unat v" using that by (simp_all add: word_less_nat_alt unat_gt_0)
    then have "unat (v * 10) = unat v * 10" by (subst unat_mult_lem [THEN iffD1]) simp_all
    then show ?thesis using \<open>0 < unat v\<close> by (simp add: word_less_nat_alt unat_mod)
  qed
  then have "next_number v (x mod (v * 10))" if "v \<noteq> 0" "v < 0x19999999" for x
    using that by (simp add: next_number_def)
  then show ?thesis
    unfolding new_number_def by (auto intro!: wp_below [OF h] Q next_numberI next_numberI [where v = 0, simplified] split: prod.splits)
qed

lemma wp_rewrite_number:
  assumes h: "henv_ok h" and s: "hv_ok s" "hv_len s + 18 < 2 ^ 31" and i: "i < hv_len s" "isdigit (content s ! i)"
  shows "wp (rewrite_number h i s) (\<lambda>s'. step_post h MUT_ASCIINUM s (False, s'))"
proof -
  let ?c = "content s"
  have post: "step_post h MUT_ASCIINUM s (False, s')"
    if j: "i < j" "j \<le> hv_len s" "\<forall>k\<in>{Suc i..<j}. isdigit (?c ! k)" "j = hv_len s \<or> \<not> isdigit (?c ! j)"
      and v: "next_number (number_at ?c i j) v" and s': "hv_ok s'" "hv_len s' = hv_len s + length (print_s64 v) - (j - i)"
      "content s' = replaced ?c i j (print_s64 v)" for j v s'
  proof (rule step_post_grown [OF s'(1)])
    show "hv_len s' \<le> max MAX_FILE (hv_len s + 18)" using s'(2) j(1) length_print_s64(2) [of v] by simp
    have "{i..<j} = insert i {Suc i..<j}" using j(1) by auto
    then have "\<forall>k\<in>{i..<j}. isdigit (?c ! k)" using j(3) i(2) by simp
    then show "effect h MUT_ASCIINUM ?c (content s')" unfolding s'(3) using j v s(1) by (intro effect.asciinum) auto
  qed
  have "wp (if j - i = length (print_s64 v) then put i (print_s64 v) (s\<lparr>hv_rng := r\<rparr>)
      else replace_block h 0 i j (print_s64 v) (s\<lparr>hv_rng := r\<rparr>)) (\<lambda>s'. step_post h MUT_ASCIINUM s (False, s'))"
    if j: "i < j" "j \<le> hv_len s" "\<forall>k\<in>{Suc i..<j}. isdigit (?c ! k)" "j = hv_len s \<or> \<not> isdigit (?c ! j)"
      and v: "next_number (number_at ?c i j) v" for j v r
  proof (rule wp_if)
    assume eq: "j - i = length (print_s64 v)"
    then have "i + length (print_s64 v) = j" using j(1) by simp
    then have "upd_at ?c i (print_s64 v) = replaced ?c i j (print_s64 v)" by (simp add: upd_at_def replaced_def)
    then show "wp (put i (print_s64 v) (s\<lparr>hv_rng := r\<rparr>)) (\<lambda>s'. step_post h MUT_ASCIINUM s (False, s'))"
      using j v s eq by (intro wp_put post [OF j v]) auto
  next
    show "wp (replace_block h 0 i j (print_s64 v) (s\<lparr>hv_rng := r\<rparr>)) (\<lambda>s'. step_post h MUT_ASCIINUM s (False, s'))"
      using j v s henv_ok_oom [OF h] length_print_s64 [of v] by (intro wp_replace_block post [OF j v]) auto
  qed
  then have number: "wp (new_number h (number_at ?c i j) s) (\<lambda>(v, s). wp (if j - i = length (print_s64 v)
      then put i (print_s64 v) s else replace_block h 0 i j (print_s64 v) s) (\<lambda>s'. step_post h MUT_ASCIINUM s0 (False, s')))"
    if "i < j" "j \<le> hv_len s" "\<forall>k\<in>{Suc i..<j}. isdigit (?c ! k)" "j = hv_len s \<or> \<not> isdigit (?c ! j)" "s0 = s" for j s0
    using that by (intro wp_new_number [OF h]) simp
  have sign: "wp (if i \<noteq> 0 then map_option (\<lambda>b. b = 45) (load8 (hv_out s) (i - 1)) else Some False) Q"
    if "Q (i \<noteq> 0 \<and> ?c ! (i - 1) = 45)" for Q
    using that i(1) by (auto intro!: wp_get [OF s(1)])
  show ?thesis unfolding rewrite_number_def Let_def wp_bind
  proof (rule wp_scan_content [OF s(1)])
    fix j
    assume j: "i + 1 \<le> j" "j \<le> i + 1 + (hv_len s - (i + 1))" "\<forall>k\<in>{i + 1..<j}. isdigit (?c ! k)"
      "j = i + 1 + (hv_len s - (i + 1)) \<or> \<not> isdigit (?c ! j)"
    show "wp (read_block (hv_out s) i (j - i)) (\<lambda>ds. wp (if i \<noteq> 0 then map_option (\<lambda>b. b = 45) (load8 (hv_out s) (i - 1)) else Some False)
      (\<lambda>neg. wp (new_number h (if neg then - read_number ds else read_number ds) s) (\<lambda>x. wp (case x of (val, s) \<Rightarrow>
        if j - i = length (print_s64 val) then put i (print_s64 val) s else replace_block h 0 i j (print_s64 val) s)
        (\<lambda>s'. step_post h MUT_ASCIINUM s (False, s')))))"
      using number [of j s] j i by (intro wp_get_slice [OF s(1)] sign) (simp_all add: number_at_def Let_def)
  qed (use i in simp)
qed


lemma post_asciinum:
  assumes h: "henv_ok h" and s: "hv_ok s" "hv_len s + 18 < 2 ^ 31"
  shows "wp (mutate MUT_ASCIINUM h s) (step_post h MUT_ASCIINUM s)"
proof (cases "hv_len s < 4")
  case True
  then show ?thesis using s by (auto simp: mut_asciinum_def intro!: step_post_short)
next
  case False
  let ?c = "content s"
  have found: "wp (rewrite_number h i (s\<lparr>hv_rng := r\<rparr>)) (\<lambda>s'. step_post h MUT_ASCIINUM s (False, s'))"
    if "i < hv_len s" "isdigit (?c ! i)" for i r
    using wp_rewrite_number [OF h, of "s\<lparr>hv_rng := r\<rparr>"] that s by (simp add: step_post_def)
  have none: "step_post h MUT_ASCIINUM s (\<not> hv_len s < 8, s\<lparr>hv_rng := r\<rparr>)"
    if "\<forall>k\<in>{i..<hv_len s}. \<not> isdigit (?c ! k)" "\<forall>k\<in>{0..<i}. \<not> isdigit (?c ! k)" for i r
  proof -
    have "\<not> isdigit (?c ! k)" if "k < hv_len s" for k
      using that \<open>\<forall>k\<in>{i..<hv_len s}. \<not> isdigit (?c ! k)\<close> \<open>\<forall>k\<in>{0..<i}. \<not> isdigit (?c ! k)\<close>
      by (cases "k < i") simp_all
    then have "\<forall>b\<in>set ?c. \<not> isdigit b" using s by (auto simp: in_set_conv_nth)
    then show ?thesis using s effect.no_number [where h = h and xs = ?c] by (auto simp: step_post_def retry_kinds_def)
  qed
  show ?thesis using False hv_ok_len [OF s(1)]
    by (auto simp: mut_asciinum_def s(1) intro!: wp_below [OF h] wp_scan_content found none)
qed

lemma post_insertasciinum:
  assumes h: "henv_ok h" and s: "hv_ok s"
  shows "wp (mutate MUT_INSERTASCIINUM h s) (step_post h MUT_INSERTASCIINUM s)"
proof -
  let ?c = "content s"
  have none: "step_post h MUT_INSERTASCIINUM s (\<not> hv_len s < 8, s\<lparr>hv_rng := r\<rparr>)" for r
    using s effect.no_room [where h = h and xs = ?c] by (auto simp: step_post_def retry_kinds_def)
  define buf where "buf v = take 20 (take 19 (dec (unat v)) @ 0 # hv_garbage h)" for v :: u64
  have "19 \<le> length (hv_garbage h)" using h by (simp add: henv_ok_def)
  then have len: "8 \<le> length (buf v)" for v by (simp add: buf_def)
  have post: "step_post h MUT_INSERTASCIINUM s (False, s')"
    if "content s' = upd_at ?c i (take n (buf v))" "n \<le> 8" "i + n \<le> hv_len s" "hv_ok s'" "hv_len s' = hv_len s" "1 \<le> n"
    for i n s' v
  proof -
    have n: "length (take n (buf v)) = n" using that(2) len [of v] by simp
    have "min n 20 = n" using that(2) by simp
    then have bs: "take n (buf v) = take (length (take n (buf v))) (take 19 (dec (unat v)) @ 0 # hv_garbage h)"
      unfolding n by (simp only: take_take buf_def)
    have "effect h MUT_INSERTASCIINUM ?c (upd_at ?c i (take n (buf v)))"
      by (rule effect.insertasciinum [OF _ _ _ bs]) (simp_all only: n length_content [OF s] that)
    then show ?thesis using that(4,5) unfolding that(1) [symmetric] by (intro step_post_same)
  qed
  have room: "Suc n \<le> length (buf v)" if "n < 8" for n v using len [of v] that by simp
  show ?thesis unfolding mutate.simps mut_insertasciinum_def Let_def buf_def [symmetric] using hv_ok_len [OF s] s
    by (auto simp: room min_absorb2 split: prod.splits intro!: wp_below [OF h] wp_read_block wp_put none elim!: post)
qed


subsection \<open>Dictionaries and other inputs\<close>

lemma wp_extra_overwrite:
  assumes h: "henv_ok h" and s: "hv_ok s"
    and m: "(m, ts) \<in> {(MUT_EXTRA_OVERWRITE, hv_extras h), (MUT_AUTO_EXTRA_OVERWRITE, hv_a_extras h)}"
  shows "wp (mut_extra_overwrite ts h s) (step_post h m s)"
proof -
  have ts: "length ts < 2 ^ 31" "m \<in> retry_kinds" using h m by (auto simp: henv_ok_def retry_kinds_def)
  have again: "step_post h m s (True, s\<lparr>hv_rng := r\<rparr>)" "step_post h m s (True, s)" for r
    using s ts(2) by (auto intro!: step_post_again)
  have "step_post h m s (False, s')" if "content s' = upd_at (content s) i (ts ! k)" "k < length ts" "i + length (ts ! k) \<le> hv_len s"
    "hv_ok s'" "hv_len s' = hv_len s" for i k s'
    using that s effect.extra_overwrite [where h = h, OF nth_mem _ m, of k i "content s"] by (intro step_post_same) auto
  then show ?thesis using ts(1) s hv_ok_len [OF s] again
    by (auto simp: mut_extra_overwrite_def intro!: wp_below [OF h] wp_load8 wp_put)
qed

lemma wp_extra_insert:
  assumes h: "henv_ok h" and s: "hv_ok s"
    and m: "(m, ts) \<in> {(MUT_EXTRA_INSERT, hv_extras h), (MUT_AUTO_EXTRA_INSERT, hv_a_extras h)}"
  shows "wp (mut_extra_insert ts h s) (step_post h m s)"
proof -
  let ?c = "content s"
  have ts: "length ts < 2 ^ 31" "m \<in> retry_kinds" using h m by (auto simp: henv_ok_def retry_kinds_def)
  have again: "step_post h m s (True, s\<lparr>hv_rng := r\<rparr>)" "step_post h m s (True, s)" for r
    using s ts(2) by (auto intro!: step_post_again)
  have ins: "wp (do {
      m \<leftarrow> afl_realloc (hv_oom h) (Some (hv_out s)) (word_of_nat (hv_len s + length (ts ! k)));
      tail \<leftarrow> read_block m i (hv_len s - i);
      m \<leftarrow> memcpy_at m (i + length (ts ! k)) tail;
      m \<leftarrow> memcpy_at m i (ts ! k);
      Some (False, s\<lparr>hv_rng := r, hv_out := m, hv_len := hv_len s + length (ts ! k)\<rparr>) }) (step_post h m s)"
    if k: "k < length ts" "i \<le> hv_len s" "hv_len s + length (ts ! k) < MAX_FILE" for i k r
  proof -
    let ?t = "ts ! k" and ?tail = "drop i ?c"
    define n where "n = hv_len s + length ?t"
    have n: "n + 8 < 2 ^ 32" "n < 2 ^ 31" "i + length ?t + (hv_len s - i) = n" using k by (simp_all add: n_def MAX_FILE_def)
    have out: "length (contents (Some (hv_out s))) + 8 < 2 ^ 64" "hv_len s \<le> length (hv_out s)"
      using s by (simp_all add: contents_def hv_ok_def)
    have post: "step_post h m s (False, s\<lparr>hv_rng := r, hv_out := upd_at (upd_at b (i + length ?t) ?tail) i ?t, hv_len := n\<rparr>)"
      if b: "n \<le> length b" "length b + 8 < 2 ^ 64" "take (hv_len s) b = ?c" for b
    proof (rule step_post_grown)
      have eq: "upd_at (upd_at b (i + length ?t) ?tail) i ?t = take i ?c @ ?t @ ?tail @ drop n b"
      proof -
        have "take i b = take i ?c" using k(2) by (simp flip: b(3) add: min_absorb1)
        then show ?thesis using b(1) n(3) k s by (simp add: upd_at_def)
      qed
      have len: "length (upd_at (upd_at b (i + length ?t) ?tail) i ?t) = length b" using b(1) n(3) s k by simp
      show "hv_ok (s\<lparr>hv_rng := r, hv_out := upd_at (upd_at b (i + length ?t) ?tail) i ?t, hv_len := n\<rparr>)"
        using s n b unfolding hv_ok_def by (simp add: len n_def)
      have "content (s\<lparr>hv_rng := r, hv_out := upd_at (upd_at b (i + length ?t) ?tail) i ?t, hv_len := n\<rparr>) = replaced ?c i i ?t"
        using n(3) s k(2) by (simp add: content_def [of "s\<lparr>hv_rng := r, hv_out := _, hv_len := n\<rparr>"] eq replaced_def)
      then show "effect h m ?c (content (s\<lparr>hv_rng := r, hv_out := upd_at (upd_at b (i + length ?t) ?tail) i ?t, hv_len := n\<rparr>))"
        using effect.extra_insert [where h = h, OF nth_mem _ _ m, of k i ?c] k s by simp
    qed (use k in \<open>simp add: n_def\<close>)
    show ?thesis unfolding wp_bind n_def [symmetric] using henv_ok_oom [OF h]
    proof (simp, intro wp_afl_realloc [OF n(1) out(1)])
      fix b
      assume b: "n \<le> length b" "length b + 8 < 2 ^ 64" "take (length (contents (Some (hv_out s)))) b = contents (Some (hv_out s))"
      then have c: "take (hv_len s) b = ?c" using out(2) by (simp add: contents_def content_def) (metis min_absorb1 take_take)
      then have "take (hv_len s - i) (drop i b) = ?tail" by (simp flip: c add: drop_take)
      then show "wp (read_block b i (hv_len s - i)) (\<lambda>tail. wp (memcpy_at b (i + length ?t) tail) (\<lambda>b. wp (memcpy_at b i ?t) (\<lambda>b.
          step_post h m s (False, s\<lparr>hv_rng := r, hv_out := b, hv_len := n\<rparr>))))"
        using b(1,2) n(3) k s post [OF b(1,2) c] by (intro wp_read_block wp_memcpy_at) simp_all
    qed
  qed
  show ?thesis using ts(1) s hv_ok_len [OF s] again
    by (auto simp: mut_extra_insert_def not_le simp del: of_nat_add intro!: wp_below [OF h] wp_load8 ins [unfolded wp_bind wp_Some])
qed

lemma post_splice_overwrite:
  assumes h: "henv_ok h" and s: "hv_ok s"
  shows "wp (mutate MUT_SPLICE_OVERWRITE h s) (step_post h MUT_SPLICE_OVERWRITE s)"
proof (cases "hv_ready_for_splicing h \<le> 1")
  case True
  then show ?thesis using s by (simp add: mut_splice_overwrite_def step_post_again retry_kinds_def)
next
  case False
  have "step_post h MUT_SPLICE_OVERWRITE s (False, s')"
    if "content s' = upd_at (content s) i (take n (drop j t))" "splice_target h t" "1 \<le> n" "j + n \<le> length t" "i + n \<le> hv_len s"
    "hv_ok s'" "hv_len s' = hv_len s" for i j n t s'
    using that s effect.splice_overwrite [where h = h and t = t and n = n and j = j and i = i and xs = "content s"]
    by (intro step_post_same) auto
  then show ?thesis using False s hv_ok_len [OF s]
    by (auto simp: mut_splice_overwrite_def Let_def dest: splice_target_length [OF h]
        intro!: wp_pick_target [OF h] wp_choose_block_len [OF h] wp_below [OF h] wp_read_block wp_put)
qed

lemma post_splice_insert:
  assumes h: "henv_ok h" and s: "hv_ok s"
  shows "wp (mutate MUT_SPLICE_INSERT h s) (step_post h MUT_SPLICE_INSERT s)"
proof (cases "hv_ready_for_splicing h \<le> 1 \<or> MAX_FILE \<le> hv_len s + HAVOC_BLK_XL")
  case True
  then show ?thesis using s by (auto simp: mut_splice_insert_def step_post_again retry_kinds_def)
next
  case False
  have "step_post h MUT_SPLICE_INSERT s (False, s')"
    if "content s' = replaced (content s) i i (take n (drop j t))" "splice_target h t" "1 \<le> n" "n \<le> HAVOC_BLK_XL"
    "j + n \<le> length t" "i \<le> hv_len s" "hv_ok s'" "hv_len s' = hv_len s + n" for i j n t s'
    using that False s effect.splice_insert [where h = h and t = t and n = n and j = j and i = i and xs = "content s"]
    by (intro step_post_grown) auto
  then show ?thesis using False s hv_ok_len [OF s] henv_ok_oom [OF h]
    by (auto simp: mut_splice_insert_def HAVOC_BLK_XL_def MAX_FILE_def dest: splice_target_length [OF h]
        intro!: wp_pick_target [OF h] wp_choose_block_len [OF h] wp_below [OF h] wp_read_block wp_replace_block)
qed


lemmas posts = post_flipbit post_interesting8 post_rand8 post_clone_copy post_clone_fixed post_overwrite_copy
  post_overwrite_fixed post_byte post_switch post_del post_shuffle post_delone post_insertone post_asciinum
  post_insertasciinum post_splice_overwrite post_splice_insert

lemma wp_mutate:
  assumes h: "henv_ok h" and s: "hv_ok s" "hv_len s + 18 < 2 ^ 31"
  shows "wp (mutate m h s) (step_post h m s)"
proof (cases m)
  case MUT_INTERESTING16
  then show ?thesis using wp_mut_interesting16 [OF h s(1), of m id] by simp
next
  case MUT_INTERESTING16BE
  then show ?thesis using wp_mut_interesting16 [OF h s(1), of m SWAP16] by simp
next
  case MUT_INTERESTING32
  then show ?thesis using wp_mut_interesting32 [OF h s(1), of m id] by simp
next
  case MUT_INTERESTING32BE
  then show ?thesis using wp_mut_interesting32 [OF h s(1), of m SWAP32] by simp
qed (use posts [OF h s(1)] post_insertone [OF h s] post_asciinum [OF h s] in \<open>simp_all only:\<close>,
     simp_all add: wp_mut_arith8 [OF h s(1)] wp_mut_arith16 [OF h s(1)] wp_mut_arith32 [OF h s(1)]
       wp_extra_overwrite [OF h s(1)] wp_extra_insert [OF h s(1)])

end
