(* ===== verification/Havoc_Run.thy ===== *)
theory Havoc_Run
  imports Havoc_Safe
begin

text \<open>
  The loops around the mutations: a step that is repeated until a mutation applies, the stack of steps, the rounds of the stage and its
  repetitions on spliced inputs. \<open>havoc_contract\<close> is what they rely on in the rest of the fuzzer.
\<close>

section \<open>One step and a stack of steps\<close>

definition tweak :: "'r havoc_env \<Rightarrow> mutation list \<Rightarrow> mem \<Rightarrow> mem \<Rightarrow> bool" where
  "tweak h tbl xs ys \<longleftrightarrow> (\<exists>m\<in>set tbl. effect h m xs ys)"

text \<open>What the retry loop needs of the random generator. A round draws once below \<open>n\<close> and then at most two more numbers, below any
  limits and to any purpose. \<open>t\<close> comes up from the state \<open>r\<close> when there is no endless sequence of rounds from there in which the
  first draw is never \<open>t\<close>; in a fair generator every number comes up from every state. It is a property of the generator
  alone: neither mutations nor tables occur in it.\<close>

fun few_draws :: "'r drawing \<Rightarrow> nat \<Rightarrow> 'r \<Rightarrow> 'r \<Rightarrow> bool" where
  "few_draws draw 0 r r' \<longleftrightarrow> r' = r"
| "few_draws draw (Suc k) r r' \<longleftrightarrow> r' = r \<or> (\<exists>n x r1. draw r n = Some (x, r1) \<and> few_draws draw k r1 r')"

inductive comes_up :: "'r drawing \<Rightarrow> u32 \<Rightarrow> u32 \<Rightarrow> 'r \<Rightarrow> bool" for draw n t where
  "(\<And>x r1 r2. draw r n = Some (x, r1) \<Longrightarrow> x \<noteq> t \<Longrightarrow> few_draws draw 2 r1 r2 \<Longrightarrow> comes_up draw n t r2) \<Longrightarrow> comes_up draw n t r"

definition fair_rounds :: "'r drawing \<Rightarrow> bool" where
  "fair_rounds draw \<longleftrightarrow> (\<forall>r n t. t < n \<longrightarrow> comes_up draw n t r)"

text \<open>A mutation that sends the step back has drawn at most twice.\<close>

lemma few_draws_refl [simp]: "few_draws draw k r r"
  by (cases k) simp_all

lemma few_draws_step: "draw r n = Some (x, r1) \<Longrightarrow> few_draws draw k r1 r' \<Longrightarrow> few_draws draw (Suc k) r r'"
  by auto

lemma below_SomeD: "below h n s = Some (x, s') \<Longrightarrow> \<exists>y r. hv_draw h (hv_rng s) (word_of_nat n) = Some (y, r) \<and> x = unat y \<and> s' = s\<lparr>hv_rng := r\<rparr>"
  by (auto simp: below_def split: Option.bind_splits)

lemma retry_draws:
  assumes "mutate m h s = Some (True, s')"
  shows "few_draws (hv_draw h) 2 (hv_rng s) (hv_rng s')"
  using assms
  by (cases m) (fastforce simp: numeral_2_eq_2 done_step_def with_room_def mut_clone_copy_def mut_clone_fixed_def mut_asciinum_def
      mut_insertasciinum_def mut_extra_overwrite_def mut_extra_insert_def mut_splice_overwrite_def mut_splice_insert_def Let_def
      split: if_splits Option.bind_splits prod.splits dest!: below_SomeD)+

lemma wp_havoc_attempt:
  assumes h: "henv_ok h" and s: "hv_ok s" "hv_len s + 18 < 2 ^ 31" and tbl: "tbl \<noteq> []" "length tbl < 2 ^ 32"
  shows "wp (havoc_attempt tbl h s) (\<lambda>r. \<exists>m\<in>set tbl. step_post h m s r)"
proof -
  have "wp (mutate (tbl ! i) h (s\<lparr>hv_rng := r\<rparr>)) (\<lambda>x. \<exists>m\<in>set tbl. step_post h m s x)" if "i < length tbl" for i r
    by (rule wp_mono [OF wp_mutate [OF h, of "s\<lparr>hv_rng := r\<rparr>" "tbl ! i"]])
       (use s nth_mem [OF that] in \<open>auto simp: step_post_def\<close>)
  then show ?thesis using tbl by (auto simp: havoc_attempt_def intro!: wp_below [OF h] wp_load8)
qed

text \<open>A table in which some mutation never sends the step back.\<close>

definition table_ok :: "mutation list \<Rightarrow> bool" where
  "table_ok tbl \<longleftrightarrow> length tbl < 2 ^ 32 \<and> \<not> set tbl \<subseteq> retry_kinds"

lemma table_okD: "table_ok tbl \<Longrightarrow> tbl \<noteq> []" "table_ok tbl \<Longrightarrow> length tbl < 2 ^ 32"
  by (auto simp: table_ok_def)

lemma wp_havoc_step:
  assumes h: "henv_ok h" and f: "fair_rounds (hv_draw h)" and tbl: "table_ok tbl" and "hv_ok s" "hv_len s + 18 < 2 ^ 31"
  shows "wp (havoc_step tbl h s) (\<lambda>s'. hv_ok s' \<and> hv_len s' \<le> max MAX_FILE (hv_len s + 18) \<and> tweak h tbl (content s) (content s'))"
proof -
  obtain i where i: "i < length tbl" "tbl ! i \<notin> retry_kinds" using tbl unfolding table_ok_def by (metis in_set_conv_nth subsetI)
  let ?n = "word_of_nat (length tbl) :: u32" and ?t = "word_of_nat i :: u32"
  have n: "unat ?n = length tbl" "unat ?t = i"
    using i(1) table_okD(2) [OF tbl] by (simp_all add: unsigned_of_nat take_bit_nat_eq_self)
  then have "comes_up (hv_draw h) ?n ?t (hv_rng s)" using f i(1) by (simp add: fair_rounds_def word_less_nat_alt)
  then show ?thesis using assms(4,5)
  proof (induction "hv_rng s" arbitrary: s)
    case 1
    obtain again s' m where a: "havoc_attempt tbl h s = Some (again, s')" and m: "m \<in> set tbl" "step_post h m s (again, s')"
      using wp_havoc_attempt [OF h "1.prems" table_okD [OF tbl]] by (auto simp: wp_iff)
    show ?case
    proof (cases again)
      case True
      then have s': "hv_ok s'" "content s' = content s" using m(2) by (simp_all add: step_post_def)
      then have len: "hv_len s' = hv_len s" using "1.prems"(1) by (metis length_content)
      obtain y r where d: "hv_draw h (hv_rng s) ?n = Some (y, r)" and mut: "mutate (tbl ! unat y) h (s\<lparr>hv_rng := r\<rparr>) = Some (True, s')"
        using a True by (auto simp: havoc_attempt_def load8_def split: Option.bind_splits if_splits dest!: below_SomeD)
      have "tbl ! unat y \<in> retry_kinds"
        using wp_mutate [OF h, of "s\<lparr>hv_rng := r\<rparr>" "tbl ! unat y"] "1.prems" mut by (simp add: step_post_def)
      then have "y \<noteq> ?t" using i(2) n(2) by metis
      moreover have "few_draws (hv_draw h) 2 r (hv_rng s')" using retry_draws [OF mut] by simp
      ultimately have "wp (havoc_step tbl h s') (\<lambda>s''. hv_ok s'' \<and> hv_len s'' \<le> max MAX_FILE (hv_len s' + 18)
          \<and> tweak h tbl (content s') (content s''))"
        using "1.prems"(2) len by (intro "1.hyps"(2) [OF d _ _ s'(1)]) simp_all
      then show ?thesis using s' len a True by (subst havoc_step.simps) simp
    next
      case False
      then show ?thesis using a m by (subst havoc_step.simps) (auto simp: step_post_def tweak_def)
    qed
  qed
qed

lemma wp_havoc_stack:
  fixes h :: "'r havoc_env"
  assumes h: "henv_ok h" and f: "fair_rounds (hv_draw h)" and tbl: "table_ok tbl"
    and "hv_ok s" and "max MAX_FILE (hv_len s) + 18 * n < 2 ^ 31"
  shows "wp (havoc_stack tbl h n s) (\<lambda>s'. hv_ok s' \<and> hv_len s' \<le> max MAX_FILE (hv_len s) + 18 * n
    \<and> (tweak h tbl ^^ n) (content s) (content s'))"
  using assms(4-)
proof (induction n arbitrary: s)
  case (Suc n)
  have "wp (havoc_step tbl h s) (\<lambda>s'. hv_ok s' \<and> hv_len s' \<le> max MAX_FILE (hv_len s + 18) \<and> tweak h tbl (content s) (content s'))"
    using Suc.prems by (intro wp_havoc_step [OF h f tbl]) auto
  then show ?case unfolding havoc_stack.simps wp_bind
  proof (rule wp_mono)
    fix s' :: "'r havoc"
    assume s': "hv_ok s' \<and> hv_len s' \<le> max MAX_FILE (hv_len s + 18) \<and> tweak h tbl (content s) (content s')"
    then have len: "max MAX_FILE (hv_len s') \<le> max MAX_FILE (hv_len s) + 18" by auto
    then have "max MAX_FILE (hv_len s') + 18 * n < 2 ^ 31" using Suc.prems(2) unfolding mult_Suc_right by linarith
    with s' have "wp (havoc_stack tbl h n s') (\<lambda>s''. hv_ok s'' \<and> hv_len s'' \<le> max MAX_FILE (hv_len s') + 18 * n
      \<and> (tweak h tbl ^^ n) (content s') (content s''))" by (intro Suc.IH) auto
    then show "wp (havoc_stack tbl h n s') (\<lambda>s''. hv_ok s'' \<and> hv_len s'' \<le> max MAX_FILE (hv_len s) + 18 * Suc n
      \<and> (tweak h tbl ^^ Suc n) (content s) (content s''))"
    proof (rule wp_mono)
      fix s'' :: "'r havoc"
      assume "hv_ok s'' \<and> hv_len s'' \<le> max MAX_FILE (hv_len s') + 18 * n \<and> (tweak h tbl ^^ n) (content s') (content s'')"
      then show "hv_ok s'' \<and> hv_len s'' \<le> max MAX_FILE (hv_len s) + 18 * Suc n \<and> (tweak h tbl ^^ Suc n) (content s) (content s'')"
        using s' len relpowp_Suc_I2 [of "tweak h tbl" "content s" "content s'" n "content s''"] by (auto simp del: relpowp.simps)
    qed
  qed
qed simp

lemma wp_refill:
  assumes s: "hv_ok s" and h: "\<not> hv_oom h" and b: "b \<noteq> []" "length b < 2 ^ 31"
    and Q: "\<And>s'. hv_ok s' \<Longrightarrow> content s' = b \<Longrightarrow> hv_len s' = length b \<Longrightarrow> Q s'"
  shows "wp (refill h b s) Q"
proof -
  have "Q (s\<lparr>hv_out := upd_at m 0 b, hv_len := length b\<rparr>)" if m: "length b \<le> length m" "length m + 8 < 2 ^ 64" for m
    using s b m by (intro Q) (auto simp: hv_ok_def content_def upd_at_def)
  then show ?thesis using s b h
    by (auto simp: refill_def hv_ok_def contents_def intro!: wp_afl_realloc wp_memcpy_at)
qed

section \<open>The stage\<close>

text \<open>What the stage runs the target on: stacked mutations of the input.\<close>

definition stacked :: "'r havoc_env \<Rightarrow> mutation list \<Rightarrow> mem \<Rightarrow> mem \<Rightarrow> bool" where
  "stacked h tbl b xs \<longleftrightarrow> (\<exists>n. 0 < n \<and> n \<le> 2 ^ hv_stack_pow2 h \<and> (tweak h tbl ^^ n) b xs)
     \<and> length xs \<le> max MAX_FILE (length b) + 18 * 2 ^ hv_stack_pow2 h"

text \<open>What the stage needs of the environment: sound buffers and lists and a fair generator that always returns, no allocation that
  fails, and settings in their ranges.\<close>

definition stage_env :: "'r havoc_env \<Rightarrow> bool" where
  "stage_env h \<longleftrightarrow> henv_ok h \<and> fair_rounds (hv_draw h) \<and> hv_max_mult h \<le> 2 ^ 20 \<and> 0 < hv_stack_pow2 h \<and> hv_stack_pow2 h \<le> 16
     \<and> hv_havoc_div h \<noteq> 0"

text \<open>What it needs of \<open>common_fuzz_stuff\<close>: \<open>good\<close> is an invariant of the fuzzer under which the environment is as above, and a run
  of the target on an input that \<open>A\<close> allows keeps it and does not change the bound on the stack.\<close>

definition havoc_contract ::
    "('r, 'e) runner \<Rightarrow> (('r, 'e) fuzzer \<Rightarrow> bool) \<Rightarrow> ('r havoc_env \<Rightarrow> mem \<Rightarrow> bool) \<Rightarrow> bool" where
  "havoc_contract run good A \<longleftrightarrow>
     (\<forall>h e. good (h, e) \<longrightarrow> stage_env h)
     \<and> (\<forall>h e xs r stop r' h' e'. good (h, e) \<longrightarrow> A h xs \<longrightarrow> run xs r (h, e) = (stop, r', h', e')
        \<longrightarrow> good (h', e') \<and> hv_stack_pow2 h' = hv_stack_pow2 h)"

definition stage_post :: "(('r, 'e) fuzzer \<Rightarrow> bool) \<Rightarrow> mem \<Rightarrow> bool \<times> 'r havoc \<times> ('r, 'e) fuzzer \<Rightarrow> bool" where
  "stage_post good b = (\<lambda>(stop, s, e). good e \<and> hv_ok s \<and> (\<not> stop \<longrightarrow> content s = b))"


lemma contractD:
  assumes "havoc_contract run good A" and "good e"
  shows "henv_ok (fst e)" and "hv_max_mult (fst e) \<le> 2 ^ 20" and "0 < hv_stack_pow2 (fst e)" and "hv_stack_pow2 (fst e) \<le> 16"
    and "hv_havoc_div (fst e) \<noteq> 0" and "fair_rounds (hv_draw (fst e))"
    and "A (fst e) xs \<Longrightarrow> run xs r e = (stop, r', e') \<Longrightarrow> good e'"
    and "A (fst e) xs \<Longrightarrow> run xs r e = (stop, r', e') \<Longrightarrow> hv_stack_pow2 (fst e') = hv_stack_pow2 (fst e)"
  using assms unfolding havoc_contract_def stage_env_def by (cases e; cases e'; force)+

lemma stack_max_bound:
  assumes "havoc_contract run good A" and "good e"
  shows "(2 :: nat) ^ hv_stack_pow2 (fst e) \<le> 65536"
proof -
  have "(2 :: nat) ^ hv_stack_pow2 (fst e) \<le> 2 ^ 16" using contractD(4) [OF assms] by (intro power_increasing) simp_all
  then show ?thesis by simp
qed

lemma wp_havoc_round:
  fixes e :: "('r, 'e) fuzzer"
  assumes c: "havoc_contract run good A" and tbl: "table_ok tbl"
    and b: "length b < 2 ^ 30" and e: "good e" and s: "hv_ok s" "content s = b"
    and max: "0 < stack_max" "stack_max \<le> 2 ^ hv_stack_pow2 (fst e)"
    and Q: "\<And>s'. hv_ok s' \<Longrightarrow> stacked (fst e) tbl b (content s') \<Longrightarrow> Q (content s', s')"
  shows "wp (havoc_round tbl (fst e) stack_max s) Q"
proof -
  note h = contractD(1) [OF c e]
  note p = stack_max_bound [OF c e]
  have len: "hv_len s = length b" using s by (metis length_content)
  have "wp (havoc_stack tbl (fst e) (Suc x) (s\<lparr>hv_rng := r\<rparr>)) (\<lambda>s'. wp (read_block (hv_out s') 0 (hv_len s')) (\<lambda>xs. Q (xs, s')))"
    if "x < stack_max" for x r
  proof (rule wp_mono)
    have x: "Suc x \<le> 65536" "Suc x \<le> 2 ^ hv_stack_pow2 (fst e)" using that max(2) p by linarith+
    show "wp (havoc_stack tbl (fst e) (Suc x) (s\<lparr>hv_rng := r\<rparr>)) (\<lambda>s'. hv_ok s' \<and> hv_len s' \<le> max MAX_FILE (length b) + 18 * Suc x
        \<and> (tweak (fst e) tbl ^^ Suc x) b (content s'))"
      using wp_havoc_stack [OF h contractD(6) [OF c e] tbl, of "s\<lparr>hv_rng := r\<rparr>" "Suc x"] s len b x(1)
      by (simp add: MAX_FILE_def del: havoc_stack.simps relpowp.simps)
    fix s' :: "'r havoc"
    assume s': "hv_ok s' \<and> hv_len s' \<le> max MAX_FILE (length b) + 18 * Suc x \<and> (tweak (fst e) tbl ^^ Suc x) b (content s')"
    have "stacked (fst e) tbl b (content s')" unfolding stacked_def
    proof (intro conjI exI [of _ "Suc x"])
      show "length (content s') \<le> max MAX_FILE (length b) + 18 * 2 ^ hv_stack_pow2 (fst e)" using s' x(2) by simp
    qed (use s' x in simp_all)
    then show "wp (read_block (hv_out s') 0 (hv_len s')) (\<lambda>xs. Q (xs, s'))"
      using s' Q [of s'] by (auto intro!: wp_get_slice)
  qed
  then show ?thesis using max p unfolding havoc_round_def by (auto simp del: havoc_stack.simps intro!: wp_below [OF h])
qed

text \<open>The stage ends: the score doubles with the number of rounds and soon passes its limit, and then the rounds are counted.\<close>

definition loop_pre :: "(('r, 'e) fuzzer \<Rightarrow> bool) \<Rightarrow> nat \<Rightarrow> mem \<Rightarrow> 'r havoc \<Rightarrow> ('r, 'e) fuzzer \<Rightarrow> bool" where
  "loop_pre good stack_max b s e \<longleftrightarrow> good e \<and> hv_ok s \<and> content s = b \<and> 0 < stack_max \<and> stack_max \<le> 2 ^ hv_stack_pow2 (fst e)"

lemma wp_havoc_loop_step:
  fixes e :: "('r, 'e) fuzzer"
  assumes c: "havoc_contract run good A" and tbl: "table_ok tbl"
    and b: "b \<noteq> []" "length b < 2 ^ 30" and A: "\<And>h xs. stacked h tbl b xs \<Longrightarrow> A h xs"
    and pre: "loop_pre good stack_max b s e" and "cur < rounds"
    and nxt: "\<And>s e n more. loop_pre good stack_max b s e \<Longrightarrow> more \<longrightarrow> perf \<le> hv_max_mult (fst e) * 100
      \<Longrightarrow> wp (havoc_loop tbl run stack_max b (cur + 1) (if more then rounds * 2 else rounds) (if more then perf * 2 else perf) n s e)
        (stage_post good b)"
  shows "wp (havoc_loop tbl run stack_max b cur rounds perf queued s e) (stage_post good b)"
proof -
  have e: "good e" and s: "hv_ok s" "content s = b" and max: "0 < stack_max" "stack_max \<le> 2 ^ hv_stack_pow2 (fst e)"
    using pre by (simp_all add: loop_pre_def)
  have rest: "wp (case run xs (hv_rng s) e of (stop, r, e) \<Rightarrow> let s = s\<lparr>hv_rng := r\<rparr> in
      if stop then Some (True, s, e)
      else do {
        s \<leftarrow> refill (fst e) b s;
        let queued' = length (hv_queue (fst e));
        let more = (queued' \<noteq> queued \<and> perf \<le> hv_max_mult (fst e) * 100);
        havoc_loop tbl run stack_max b (cur + 1) (if more then rounds * 2 else rounds)
          (if more then perf * 2 else perf) queued' s e }) (stage_post good b)"
    if "hv_ok s" "stacked (fst e) tbl b xs" for s xs
  proof -
    obtain stop r e' where run: "run xs (hv_rng s) e = (stop, r, e')" by (cases "run xs (hv_rng s) e") auto
    have e': "good e'" "hv_stack_pow2 (fst e') = hv_stack_pow2 (fst e)"
      using contractD(7,8) [OF c e A [OF that(2)] run] by simp_all
    let ?more = "length (hv_queue (fst e')) \<noteq> queued \<and> perf \<le> hv_max_mult (fst e') * 100"
    have next': "wp (refill (fst e') b (s\<lparr>hv_rng := r\<rparr>)) (\<lambda>s'. wp (havoc_loop tbl run stack_max b (cur + 1)
        (if ?more then rounds * 2 else rounds) (if ?more then perf * 2 else perf) (length (hv_queue (fst e'))) s' e') (stage_post good b))"
    proof (rule wp_refill)
      fix s' :: "'r havoc"
      assume "hv_ok s'" "content s' = b"
      then have "loop_pre good stack_max b s' e'" using e' max by (simp add: loop_pre_def)
      then show "wp (havoc_loop tbl run stack_max b (cur + 1) (if ?more then rounds * 2 else rounds)
          (if ?more then perf * 2 else perf) (length (hv_queue (fst e'))) s' e') (stage_post good b)"
        by (rule nxt) simp
    qed (use that(1) henv_ok_oom [OF contractD(1) [OF c e'(1)]] b in simp_all)
    show ?thesis
    proof (cases stop)
      case True
      then show ?thesis using run that(1) e'(1) by (simp add: stage_post_def)
    next
      case False
      then show ?thesis using next' unfolding run prod.case Let_def by (simp only: if_False wp_bind)
    qed
  qed
  have "wp (havoc_round tbl (fst e) stack_max s) (\<lambda>(xs, s). wp (case run xs (hv_rng s) e of (stop, r, e) \<Rightarrow> let s = s\<lparr>hv_rng := r\<rparr> in
      if stop then Some (True, s, e)
      else do {
        s \<leftarrow> refill (fst e) b s;
        let queued' = length (hv_queue (fst e));
        let more = (queued' \<noteq> queued \<and> perf \<le> hv_max_mult (fst e) * 100);
        havoc_loop tbl run stack_max b (cur + 1) (if more then rounds * 2 else rounds)
          (if more then perf * 2 else perf) queued' s e }) (stage_post good b))"
    by (rule wp_havoc_round [OF c tbl b(2) e s max], unfold prod.case, rule rest)
  then show ?thesis using assms(7) by (subst havoc_loop.simps) simp
qed


lemma wp_havoc_loop_rounds:
  fixes e :: "('r, 'e) fuzzer"
  assumes c: "havoc_contract run good A" and tbl: "table_ok tbl"
    and b: "b \<noteq> []" "length b < 2 ^ 30" and A: "\<And>h xs. stacked h tbl b xs \<Longrightarrow> A h xs"
    and pre: "loop_pre good stack_max b s e"
    and more: "\<And>s e cur n. loop_pre good stack_max b s e \<Longrightarrow> perf \<le> hv_max_mult (fst e) * 100
      \<Longrightarrow> wp (havoc_loop tbl run stack_max b cur (rounds * 2) (perf * 2) n s e) (stage_post good b)"
  shows "wp (havoc_loop tbl run stack_max b cur rounds perf queued s e) (stage_post good b)"
  using pre
proof (induction "unat rounds - unat cur" arbitrary: cur queued s e rule: less_induct)
  case less
  show ?case
  proof (cases "cur < rounds")
    case False
    then show ?thesis using less.prems by (subst havoc_loop.simps) (simp add: stage_post_def loop_pre_def)
  next
    case True
    then have "unat cur + 1 < 2 ^ 32" using unsigned_less [of rounds, where ?'a = nat] by (simp add: word_less_nat_alt)
    then have "unat (cur + 1) = unat cur + 1" by (subst unat_add_lem [THEN iffD1]) simp_all
    then have "unat rounds - unat (cur + 1) < unat rounds - unat cur" using True by (simp add: word_less_nat_alt)
    then show ?thesis using more less.hyps by (intro wp_havoc_loop_step [OF c tbl b A less.prems True]) auto
  qed
qed

lemma unat_limit:
  assumes "havoc_contract run good A" and "loop_pre good stack_max b s e"
  shows "unat (hv_max_mult (fst e) * 100) \<le> 104857600"
proof -
  have "hv_max_mult (fst e) \<le> 2 ^ 20" using contractD(2) [OF assms(1), of e] assms(2) by (simp add: loop_pre_def)
  then have "unat (hv_max_mult (fst e)) \<le> 1048576" by (simp add: word_le_nat_alt)
  moreover from this have "unat (hv_max_mult (fst e) * 100) = unat (hv_max_mult (fst e)) * 100"
    by (subst unat_mult_lem [THEN iffD1]) simp_all
  ultimately show ?thesis by simp
qed

lemma wp_havoc_loop:
  fixes e :: "('r, 'e) fuzzer"
  assumes c: "havoc_contract run good A" and tbl: "table_ok tbl"
    and b: "b \<noteq> []" "length b < 2 ^ 30" and A: "\<And>h xs. stacked h tbl b xs \<Longrightarrow> A h xs"
    and "104857600 < unat perf * 2 ^ d" and "loop_pre good stack_max b s e"
  shows "wp (havoc_loop tbl run stack_max b cur rounds perf queued s e) (stage_post good b)"
  using assms(6-)
proof (induction d arbitrary: cur rounds perf queued s e)
  case (0 cur rounds perf queued s e)
  show ?case
  proof (rule wp_havoc_loop_rounds [OF c tbl b A 0(2)])
    fix s e cur n
    assume pre: "loop_pre good stack_max b s e" and le: "perf \<le> hv_max_mult (fst e) * 100"
    have False using le unat_limit [OF c pre] 0(1) by (simp add: word_le_nat_alt)
    then show "wp (havoc_loop tbl run stack_max b cur (rounds * 2) (perf * 2) n s e) (stage_post good b)" ..
  qed
next
  case (Suc d cur rounds perf queued s e)
  show ?case
  proof (rule wp_havoc_loop_rounds [OF c tbl b A Suc.prems(2)])
    fix s e cur n
    assume pre: "loop_pre good stack_max b s e" and le: "perf \<le> hv_max_mult (fst e) * 100"
    then have "unat perf \<le> 104857600" using unat_limit [OF c pre] by (simp add: word_le_nat_alt)
    then have "unat (perf * 2) = unat perf * 2" by (subst unat_mult_lem [THEN iffD1]) simp_all
    then have "104857600 < unat (perf * 2) * 2 ^ d" using Suc.prems(1) by simp
    then show "wp (havoc_loop tbl run stack_max b cur (rounds * 2) (perf * 2) n s e) (stage_post good b)"
      using pre by (rule Suc.IH)
  qed
qed

lemma wp_havoc_stage:
  fixes e :: "('r, 'e) fuzzer"
  assumes c: "havoc_contract run good A" and tbl: "table_ok tbl"
    and b: "b \<noteq> []" "length b < 2 ^ 30" and A: "\<And>h xs. stacked h tbl b xs \<Longrightarrow> A h xs"
    and e: "good e" and s: "hv_ok s" "content s = b" and perf: "perf \<noteq> 0"
  shows "wp (havoc_stage tbl run cycles perf b s e) (stage_post good b)"
proof -
  have "(1 :: nat) * 2 ^ 27 \<le> unat perf * 2 ^ 27" using perf by (intro mult_le_mono) (simp_all add: Suc_le_eq unat_gt_0)
  then have d: "104857600 < unat perf * 2 ^ 27" by simp
  have "loop_pre good (2 ^ Suc x) b (s\<lparr>hv_rng := r\<rparr>) e" if "x < hv_stack_pow2 (fst e)" for x r
  proof -
    have "(2 :: nat) ^ Suc x \<le> 2 ^ hv_stack_pow2 (fst e)" using that by (intro power_increasing) simp_all
    then show ?thesis using e s by (simp add: loop_pre_def)
  qed
  then show ?thesis using contractD [OF c e]
    unfolding havoc_stage_def Let_def by (auto intro!: wp_below wp_havoc_loop [OF c tbl b A d])
qed


section \<open>Splicing\<close>

text \<open>The spliced input: the first input up to the split point, which is at the first difference or behind it and in front of the
  last one, and behind it the first bytes of the other input, so many that it has the length of the other input.\<close>

definition spliced :: "'r havoc_env \<Rightarrow> mem \<Rightarrow> mem \<Rightarrow> bool" where
  "spliced h b z \<longleftrightarrow> (\<exists>t i j k. splice_target h t \<and> locate_diffs b t (min (length b) (length t)) = Some (int i, int j)
     \<and> 2 \<le> j \<and> j < min (length b) (length t) \<and> i \<le> k \<and> k < j \<and> z = take k b @ take (length t - k) t)"

lemma wp_splice:
  assumes h: "henv_ok h" and ready: "1 < hv_ready_for_splicing h" and b: "length b < 2 ^ 30"
    and none: "\<And>r. Q (None, s\<lparr>hv_rng := r\<rparr>)" and some: "\<And>z r. spliced h b z \<Longrightarrow> Q (Some z, s\<lparr>hv_rng := r\<rparr>)"
  shows "wp (splice_once h b s) Q"
proof -
  have main: "wp (locate_diffs b t (min (length b) (length t))) (\<lambda>(f, l).
      wp (if f < 0 \<or> l < 2 \<or> f = l then Some (None, s\<lparr>hv_rng := r\<rparr>)
        else do {
          (x, s) \<leftarrow> below h (nat (l - f)) (s\<lparr>hv_rng := r\<rparr>);
          _ \<leftarrow> (if hv_oom h then None else Some ());
          head \<leftarrow> read_block b 0 (nat f + x);
          tail \<leftarrow> read_block t 0 (length t - (nat f + x));
          Some (Some (head @ tail), s) }) Q)" if t: "splice_target h t" for t r
  proof -
    let ?n = "min (length b) (length t)"
    obtain f l where fl: "locate_diffs b t ?n = Some (f, l)" and d: "if take ?n b = take ?n t then f = -1 \<and> l = -1
        else \<exists>i j. f = int i \<and> l = int j \<and> i \<le> j \<and> j < ?n \<and> b ! i \<noteq> t ! i \<and> b ! j \<noteq> t ! j \<and> (\<forall>k<?n. b ! k \<noteq> t ! k \<longrightarrow> i \<le> k \<and> k \<le> j)"
      using locate_diffs_spec [of ?n b t] by auto
    have "wp (if f < 0 \<or> l < 2 \<or> f = l then Some (None, s\<lparr>hv_rng := r\<rparr>)
        else do {
          (x, s) \<leftarrow> below h (nat (l - f)) (s\<lparr>hv_rng := r\<rparr>);
          _ \<leftarrow> (if hv_oom h then None else Some ());
          head \<leftarrow> read_block b 0 (nat f + x);
          tail \<leftarrow> read_block t 0 (length t - (nat f + x));
          Some (Some (head @ tail), s) }) Q"
    proof (rule wp_if)
      assume "\<not> (f < 0 \<or> l < 2 \<or> f = l)"
      then obtain i j where ij: "f = int i" "l = int j" "i < j" "2 \<le> j" "j < ?n" "b ! i \<noteq> t ! i" "b ! j \<noteq> t ! j"
          "\<forall>k<?n. b ! k \<noteq> t ! k \<longrightarrow> i \<le> k \<and> k \<le> j"
        using d by (auto split: if_splits)
      then have "spliced h b (take (i + x) b @ take (length t - (i + x)) t)" if "x < j - i" for x
        unfolding spliced_def by (intro exI [of _ t] exI [of _ i] exI [of _ j] exI [of _ "i + x"]) (use that t fl in auto)
      then show "wp (do {
          (x, s) \<leftarrow> below h (nat (l - f)) (s\<lparr>hv_rng := r\<rparr>);
          _ \<leftarrow> (if hv_oom h then None else Some ());
          head \<leftarrow> read_block b 0 (nat f + x);
          tail \<leftarrow> read_block t 0 (length t - (nat f + x));
          Some (Some (head @ tail), s) }) Q"
        using ij b some henv_ok_oom [OF h] by (auto intro!: wp_below [OF h] wp_read_block)
    qed (simp add: none)
    then show ?thesis by (simp only: fl wp_Some prod.case)
  qed
  show ?thesis unfolding splice_once_def Let_def wp_bind wp_case_prod
    by (rule wp_pick_target [OF h ready], unfold prod.case, rule main)
qed

lemma spliced_length:
  assumes h: "henv_ok h" and "spliced h b z"
  shows "length z < 2 ^ 30" and "z \<noteq> []"
proof -
  obtain t j k where t: "splice_target h t" "j < min (length b) (length t)" "k < j" "z = take k b @ take (length t - k) t"
    using assms(2) by (auto simp: spliced_def)
  then have "length z = length t" by simp
  then show "length z < 2 ^ 30" "z \<noteq> []" using splice_target_length [OF h t(1)] by auto
qed

definition cycles_post :: "(('r, 'e) fuzzer \<Rightarrow> bool) \<Rightarrow> bool \<times> 'r havoc \<times> ('r, 'e) fuzzer \<Rightarrow> bool" where
  "cycles_post good = (\<lambda>(stop, s, e). good e \<and> hv_ok s)"

lemma wp_splice_cycles:
  fixes e :: "('r, 'e) fuzzer"
  assumes c: "havoc_contract run good (\<lambda>h xs. \<exists>z. stacked h tbl z xs)" and tbl: "table_ok tbl"
    and b: "length b < 2 ^ 30" and perf: "perf \<noteq> 0" and "good e" and "hv_ok s"
  shows "wp (splice_cycles tbl run perf b n s e) (cycles_post good)"
  using assms(5,6)
proof (induction n arbitrary: s e)
  case (Suc n)
  note h = contractD(1) [OF c Suc.prems(1)]
  have more: "wp (do {
      s \<leftarrow> refill (fst e) z (s\<lparr>hv_rng := r\<rparr>);
      (stop, s, e) \<leftarrow> havoc_stage tbl run SPLICE_HAVOC perf z s e;
      if stop then Some (True, s, e) else splice_cycles tbl run perf b n s e }) (cycles_post good)"
    if z: "spliced (fst e) b z" for z r
  proof -
    note z = spliced_length [OF h z]
    have "wp (havoc_stage tbl run SPLICE_HAVOC perf z s' e) (\<lambda>(stop, s, e).
        wp (if stop then Some (True, s, e) else splice_cycles tbl run perf b n s e) (cycles_post good))"
      if "hv_ok s'" "content s' = z" for s'
      using Suc.IH z that Suc.prems(1)
      by (intro wp_mono [OF wp_havoc_stage [OF c tbl z(2,1) _ Suc.prems(1) that perf]]) (auto simp: stage_post_def cycles_post_def)
    with z Suc.prems(2) henv_ok_oom [OF h] show ?thesis unfolding wp_bind wp_case_prod by (intro wp_refill) simp_all
  qed
  show ?case
  proof (cases "\<not> hv_use_splicing (fst e) \<or> hv_ready_for_splicing (fst e) \<le> 1 \<or> length b < 4")
    case True
    then show ?thesis using Suc.prems by (auto simp: cycles_post_def)
  next
    case False
    then have "wp (splice_once (fst e) b s) (\<lambda>(spliced, s). wp (case spliced of
          None \<Rightarrow> splice_cycles tbl run perf b n s e
        | Some z \<Rightarrow> do {
            s \<leftarrow> refill (fst e) z s;
            (stop, s, e) \<leftarrow> havoc_stage tbl run SPLICE_HAVOC perf z s e;
            if stop then Some (True, s, e) else splice_cycles tbl run perf b n s e }) (cycles_post good))"
      using Suc.IH [OF Suc.prems(1)] Suc.prems(2) more by (intro wp_splice [OF h _ b]) simp_all
    then show ?thesis using False by simp
  qed
qed (simp add: cycles_post_def)

lemma wp_havoc_and_splice:
  fixes e :: "('r, 'e) fuzzer"
  assumes c: "havoc_contract run good (\<lambda>h xs. \<exists>z. stacked h tbl z xs)" and tbl: "table_ok tbl"
    and b: "b \<noteq> []" "length b < 2 ^ 30" and perf: "perf \<noteq> 0" and e: "good e" and s: "hv_ok s" "content s = b"
  shows "wp (havoc_and_splice tbl run det perf b s e) (cycles_post good)"
proof -
  have "wp (havoc_stage tbl run cycles perf b s e) (\<lambda>(stop, s, e).
      wp (if stop then Some (True, s, e) else splice_cycles tbl run perf b SPLICE_CYCLES s e) (cycles_post good))" for cycles
    by (rule wp_mono [OF wp_havoc_stage [OF c tbl b _ e s perf]])
       (use b(2) in \<open>auto simp: stage_post_def cycles_post_def intro!: wp_splice_cycles [OF c tbl _ perf, unfolded cycles_post_def]\<close>)
  then show ?thesis unfolding havoc_and_splice_def by simp
qed


section \<open>An environment\<close>

lemma counting_pairs: "fair_pairs counting"
  unfolding fair_pairs_def
proof (intro allI impI)
  fix r and n :: u32
  assume n: "1 < n"
  then have n1: "1 < unat n" by (simp add: word_less_nat_alt)
  let ?a = "word_of_nat (r mod unat n) :: u32" and ?b = "word_of_nat (Suc r mod unat n) :: u32"
  have "0 < n" using n by (rule less_trans [rotated]) simp
  then have "unat ?a = r mod unat n" "unat ?b = Suc r mod unat n" by (simp_all only: unat_mod_less)
  moreover have "r mod unat n \<noteq> Suc r mod unat n" using n1 by (simp add: mod_Suc split: if_splits)
  ultimately have "?a \<noteq> ?b" by metis
  then show "\<exists>k a b. draw_pairs counting n k r = Some (a, b) \<and> a \<noteq> b"
    by (intro exI [of _ 0] exI [of _ ?a] exI [of _ ?b]) (simp add: counting_def)
qed

definition henv_example :: "nat havoc_env" where
  "henv_example = \<lparr>hv_draw = counting, hv_next = (\<lambda>r. (word_of_nat r, Suc r)), hv_oom = False, hv_queue_cycle = 1,
     hv_run_over10m = True, hv_extras = [], hv_a_extras = [], hv_ready_for_splicing = 2, hv_current_entry = 0,
     hv_queue = [[1, 2, 3, 4, 5], [1, 9, 3, 4, 9, 9]], hv_fetch = (\<lambda>_ r. r), hv_garbage = replicate 19 0, hv_havoc_div = 1,
     hv_max_mult = 64, hv_stack_pow2 = 4, hv_use_splicing = True\<rparr>"

lemma henv_example_fields [simp]:
  "hv_draw henv_example = counting" "hv_extras henv_example = []" "hv_a_extras henv_example = []"
  "hv_max_mult henv_example = 64" "hv_stack_pow2 henv_example = 4" "hv_havoc_div henv_example = 1"
  "hv_oom henv_example = False"
  by (simp_all add: henv_example_def)

lemma henv_example_ok: "henv_ok henv_example"
proof -
  have "splice_target henv_example [1, 9, 3, 4, 9, 9]"
    unfolding splice_target_def by (intro exI [of _ 1]) (simp add: henv_example_def)
  then show ?thesis
    using counting_rng counting_fair counting_pairs unfolding henv_ok_def henv_example_def
    by (auto simp: counting_def)
qed

text \<open>The tables of the source.\<close>

lemma table_ok_source: "table_ok (mutation_array input_mode fuzz_mode)"
proof -
  have "MUT_FLIPBIT \<in> set (mutation_array input_mode fuzz_mode)"
    by (simp add: mutation_array_def runs_def text_array_def binary_array_def mutation_strategy_exploration_binary_def
        mutation_strategy_exploitation_binary_def)
  moreover have "MUT_FLIPBIT \<notin> retry_kinds" by (simp add: retry_kinds_def)
  ultimately show ?thesis using table_lengths [of input_mode fuzz_mode] by (auto simp: table_ok_def)
qed

text \<open>A generator that counts in thirds: it draws every number three times in a row, so that a round of up to three draws cannot
  step over one.\<close>

definition slow :: "nat drawing" where
  "slow r limit = Some (word_of_nat (r div 3 mod unat limit), Suc r)"

lemma draws_slow: "draws slow limit k r = Some (word_of_nat ((r + k) div 3 mod unat limit), Suc (r + k))"
  by (induction k arbitrary: r) (simp_all add: slow_def)

lemma slow_rng: "rng slow"
proof
  fix s s' :: nat and limit r :: u32
  assume "slow s limit = Some (r, s')" "0 < limit"
  then show "r < limit" using unat_mod_less [of limit "s div 3"] by (auto simp: slow_def word_less_nat_alt)
qed

lemma residue_above:
  assumes "t < limit"
  shows "\<exists>q\<ge>r. word_of_nat (q mod unat limit) = (t :: u32)"
proof -
  have t: "unat t < unat limit" using assms by (simp add: word_less_nat_alt)
  then have "r * 1 \<le> r * unat limit" by (intro mult_le_mono) simp_all
  then have "r \<le> unat t + r * unat limit" by linarith
  then show ?thesis using t by (intro exI [of _ "unat t + r * unat limit"]) simp
qed

lemma slow_fair: "fair_draw slow"
  unfolding fair_draw_def
proof (intro allI impI)
  fix r :: nat and limit t :: u32
  assume "t < limit"
  then obtain q where q: "r \<le> q" "word_of_nat (q mod unat limit) = t" using residue_above by blast
  then have "draws slow limit (3 * q - r) r = Some (t, Suc (3 * q))" by (simp add: draws_slow)
  then show "\<exists>k r'. draws slow limit k r = Some (t, r')" by blast
qed

lemma draw_pairs_slow:
  "draw_pairs slow n k r = Some (word_of_nat ((r + 2 * k) div 3 mod unat n), word_of_nat (Suc (r + 2 * k) div 3 mod unat n))"
  by (induction k arbitrary: r) (simp_all add: slow_def)

lemma slow_pairs: "fair_pairs slow"
  unfolding fair_pairs_def
proof (intro allI impI)
  fix r :: nat and n :: u32
  assume n: "1 < n"
  then have n1: "1 < unat n" by (simp add: word_less_nat_alt)
  have n0: "0 < n" using n by (rule less_trans [rotated]) simp
  let ?a = "word_of_nat (r mod unat n) :: u32" and ?b = "word_of_nat (Suc r mod unat n) :: u32"
  have "(r + 2 * Suc r) div 3 = r" "Suc (r + 2 * Suc r) div 3 = Suc r" by presburger+
  then have "draw_pairs slow n (Suc r) r = Some (?a, ?b)" unfolding draw_pairs_slow by simp
  moreover have "unat ?a = r mod unat n" "unat ?b = Suc r mod unat n" using n0 by (simp_all only: unat_mod_less)
  moreover have "r mod unat n \<noteq> Suc r mod unat n" using n1 by (simp add: mod_Suc split: if_splits)
  ultimately show "\<exists>k a b. draw_pairs slow n k r = Some (a, b) \<and> a \<noteq> b" by metis
qed

lemma few_draws_slow: "few_draws slow k r r' \<Longrightarrow> r' \<le> r + k"
  by (induction k arbitrary: r) (auto simp: slow_def, force)

lemma comes_up_slow:
  assumes "word_of_nat (q mod unat n) = t" and "r < 3 * q + 3"
  shows "comes_up slow n t r"
  using assms(2)
proof (induction "3 * q + 3 - r" arbitrary: r rule: less_induct)
  case less
  show ?case
  proof (rule comes_up.intros)
    fix x r1 r2
    assume d: "slow r n = Some (x, r1)" "x \<noteq> t" "few_draws slow 2 r1 r2"
    then have r2: "r2 \<le> r + 3" using few_draws_slow [OF d(3)] by (simp add: slow_def)
    have "r < 3 * q"
    proof (rule ccontr)
      assume "\<not> r < 3 * q"
      then have "r div 3 = q" using less.prems by presburger
      then show False using d assms(1) by (simp add: slow_def)
    qed
    moreover have "r < r2" using d by (cases "r2 \<le> r1") (auto simp: slow_def numeral_2_eq_2)
    ultimately show "comes_up slow n t r2" using less.hyps [of r2] r2 by simp
  qed
qed

lemma slow_rounds: "fair_rounds slow"
  unfolding fair_rounds_def
proof (intro allI impI)
  fix r and n t :: u32
  assume "t < n"
  then obtain q where "r \<le> q" "word_of_nat (q mod unat n) = t" using residue_above by blast
  then show "comes_up slow n t r" by (intro comes_up_slow) auto
qed

definition henv_slow :: "nat havoc_env" where
  "henv_slow = henv_example\<lparr>hv_draw := slow\<rparr>"

lemma henv_slow_ok: "stage_env henv_slow"
proof -
  have "splice_target henv_slow [1, 9, 3, 4, 9, 9]"
    unfolding splice_target_def by (intro exI [of _ 1]) (simp add: henv_slow_def henv_example_def)
  then show ?thesis
    using slow_rng slow_fair slow_pairs slow_rounds unfolding stage_env_def henv_ok_def henv_slow_def henv_example_def
    by (auto simp: slow_def word_le_nat_alt)
qed

definition logging :: "(nat, mem list) runner" where
  "logging xs r e = (False, Suc r, fst e, snd e @ [xs])"

lemma contract_example:
  "havoc_contract logging (\<lambda>(h, log). h = henv_slow \<and> (\<forall>xs\<in>set log. A henv_slow xs)) A"
  unfolding havoc_contract_def by (auto simp: logging_def henv_slow_ok)

definition hv_example :: "nat havoc" where
  "hv_example = \<lparr>hv_out = [1, 2, 3, 4, 5], hv_scratch = None, hv_len = 5, hv_rng = 0\<rparr>"

lemma hv_example_ok: "hv_ok hv_example" "content hv_example = [1, 2, 3, 4, 5]" "hv_len hv_example = 5"
  by (simp_all add: hv_ok_def hv_example_def content_def contents_def)

section \<open>Properties\<close>

text \<open>C17. Every havoc mutation is memory safe and does what its name says: on a sound state and a sound environment it
  returns (the drawing loops inside it end), the buffers stay sound, the input grows at most to \<open>MAX_FILE\<close> or by 18
  bytes, and either the step is sent back with the input unchanged, which only some mutations do, or the new input is related to the
  old one by \<open>effect\<close>, the description of that mutation on the bytes of the input alone.\<close>

theorem mutate_correct:
  assumes "henv_ok h" and "hv_ok s" and "hv_len s + 18 < 2 ^ 31"
  shows "\<exists>again s'. mutate m h s = Some (again, s') \<and> hv_ok s' \<and> hv_len s' \<le> max MAX_FILE (hv_len s + 18)
     \<and> (if again then m \<in> retry_kinds \<and> content s' = content s else effect h m (content s) (content s'))"
  using wp_mutate [OF assms, of m] by (auto simp: wp_iff step_post_def)

theorem mutate_witness:
  "\<exists>s'. mutate MUT_SWITCH henv_example hv_example = Some (False, s') \<and> effect henv_example MUT_SWITCH [1, 2, 3, 4, 5] (content s')"
  using mutate_correct [OF henv_example_ok hv_example_ok(1), of MUT_SWITCH] by (auto simp: hv_example_ok retry_kinds_def split: if_splits)

text \<open>C18. The havoc stage with any of the four tables of the source ends: a step that cannot be applied is drawn again, but
  in the end some mutation can; the number of rounds is doubled when the queue grows, but so is the score, which soon reaches its
  limit. Every input that the target is run on is a stack of at least one and at most \<open>2 ^ havoc_stack_pow2\<close> mutations
  of the input of the stage (the runner is only obliged to keep its invariant on those), every access stays inside the buffers, and
  unless the entry was abandoned the output buffer holds the input again in the end. This is so for any target, under the conditions
  of \<open>havoc_contract\<close>, which every run of the target must keep: the environment is sound, the generator always returns
  and is fair (no number below the limit is avoided for ever by draws, by pairs of draws or by rounds of up to three draws), no
  allocation fails, at least one other input of four bytes is in the queue when splicing is on, and \<open>havoc_div\<close>,
  \<open>havoc_max_mult\<close> and \<open>havoc_stack_pow2\<close> are in their ranges. The score of the entry is not 0 and the
  input has between 1 and \<open>2 ^ 30\<close> bytes.\<close>

theorem havoc_stage_correct:
  fixes input_mode fuzz_mode :: nat
  defines "tbl \<equiv> mutation_array input_mode fuzz_mode"
  assumes "havoc_contract run good (\<lambda>h. stacked h tbl b)"
    and "b \<noteq> []" and "length b < 2 ^ 30" and "good e" and "hv_ok s" and "content s = b" and "perf \<noteq> 0"
  shows "\<exists>stop s' e'. havoc_stage tbl run cycles perf b s e = Some (stop, s', e') \<and> good e' \<and> hv_ok s' \<and> (\<not> stop \<longrightarrow> content s' = b)"
  using wp_havoc_stage [OF assms(2) table_ok_source [of input_mode fuzz_mode, folded tbl_def] assms(3,4) _ assms(5-8), of cycles]
  by (auto simp: wp_iff stage_post_def)

theorem havoc_stage_witness:
  "\<exists>stop s' h' log. havoc_stage (mutation_array 2 0) logging HAVOC_CYCLES 100 [1, 2, 3, 4, 5] hv_example (henv_slow, []) = Some (stop, s', h', log)
     \<and> (\<forall>xs\<in>set log. stacked henv_slow (mutation_array 2 0) [1, 2, 3, 4, 5] xs)"
  using havoc_stage_correct [OF contract_example [of "\<lambda>h. stacked h (mutation_array 2 0) [1, 2, 3, 4, 5]"], of "(henv_slow, [])" hv_example
      100 HAVOC_CYCLES] by (auto simp: hv_example_ok)

text \<open>C19. From the havoc stage to its last repetition on spliced inputs, \<open>fuzz_one\<close> comes to an end without
  leaving its buffers and keeps the invariant of the fuzzer, for any of the tables of the source and any target, under the same
  conditions: a sound environment with a fair generator and no allocation that fails, which every run of the target keeps, a score
  other than 0 and an input of 1 to \<open>2 ^ 30\<close> bytes.\<close>

theorem havoc_and_splice_ends:
  fixes input_mode fuzz_mode :: nat
  defines "tbl \<equiv> mutation_array input_mode fuzz_mode"
  assumes "havoc_contract run good (\<lambda>h xs. \<exists>z. stacked h tbl z xs)"
    and "b \<noteq> []" and "length b < 2 ^ 30" and "perf \<noteq> 0" and "good e" and "hv_ok s" and "content s = b"
  shows "\<exists>stop s' e'. havoc_and_splice tbl run det perf b s e = Some (stop, s', e') \<and> good e' \<and> hv_ok s'"
  using wp_havoc_and_splice [OF assms(2) table_ok_source [of input_mode fuzz_mode, folded tbl_def] assms(3-), of det]
  by (auto simp: wp_iff cycles_post_def)

theorem havoc_and_splice_witness:
  "\<exists>stop s' log. havoc_and_splice (mutation_array 2 0) logging False 100 [1, 2, 3, 4, 5] hv_example (henv_slow, [])
     = Some (stop, s', henv_slow, log) \<and> hv_ok s'"
  using havoc_and_splice_ends [OF contract_example [of "\<lambda>h xs. \<exists>z. stacked h (mutation_array 2 0) z xs"], of "[1, 2, 3, 4, 5]" 100
      "(henv_slow, [])" hv_example False]
  by (auto simp: hv_example_ok)

text \<open>C20. One attempt to splice, in a sound environment (\<open>henv_ok\<close>: a fair generator that returns, no
  allocation that fails, another input of four bytes or more) with more than one entry ready for splicing, comes to an end and
  leaves the output buffer alone. A spliced input does not continue with the other input at the split point: it has the first input
  up to a split point that lies at or behind the first difference of the two inputs and in front of the last one, and behind it the
  other input from its beginning, cut so that the result has the length of the other input. So the last bytes of the other input, as
  many as were taken from the first one, are not used.\<close>

theorem splice_restarts_target:
  assumes "henv_ok h" and "1 < hv_ready_for_splicing h" and "length b < 2 ^ 30"
  shows "\<exists>z s'. splice_once h b s = Some (z, s') \<and> hv_out s' = hv_out s
     \<and> (\<forall>y. z = Some y \<longrightarrow> (\<exists>t i j k. splice_target h t \<and> locate_diffs b t (min (length b) (length t)) = Some (int i, int j)
          \<and> i \<le> k \<and> k < j \<and> j < min (length b) (length t) \<and> length y = length t
          \<and> take k y = take k b \<and> drop k y = take (length t - k) t))"
proof -
  have "wp (splice_once h b s) (\<lambda>(z, s'). hv_out s' = hv_out s \<and> (\<forall>y. z = Some y \<longrightarrow> spliced h b y))"
    by (rule wp_splice [OF assms]) simp_all
  moreover have "\<exists>t i j k. splice_target h t \<and> locate_diffs b t (min (length b) (length t)) = Some (int i, int j)
      \<and> i \<le> k \<and> k < j \<and> j < min (length b) (length t) \<and> length y = length t \<and> take k y = take k b \<and> drop k y = take (length t - k) t"
    if "spliced h b y" for y
    using that unfolding spliced_def by force
  ultimately show ?thesis by (fastforce simp: wp_iff)
qed

theorem splice_restarts_witness:
  "splice_once henv_example [1, 2, 3, 4, 5] hv_example = Some (Some [1, 2, 3, 1, 9, 3], hv_example\<lparr>hv_rng := 3\<rparr>)
     \<and> (\<exists>t k. splice_target henv_example t \<and> k < length t \<and> drop k [1, 2, 3, 1, 9, 3] = take (length t - k) t)"
proof -
  have e: "splice_once henv_example [1, 2, 3, 4, 5] hv_example = Some (Some [1, 2, 3, 1, 9, 3], hv_example\<lparr>hv_rng := 3\<rparr>)" by code_simp
  have r: "1 < hv_ready_for_splicing henv_example" by (simp add: henv_example_def)
  have "length [1, 2, 3, 4, 5 :: u8] < 2 ^ 30" by simp
  from splice_restarts_target [OF henv_example_ok r this, of hv_example]
  obtain t i j k where "splice_target henv_example t" "k < j" "j < min (length [1, 2, 3, 4, 5 :: u8]) (length t)"
      "drop k [1, 2, 3, 1, 9, 3] = take (length t - k) t"
    unfolding e by (elim exE conjE) blast
  then show ?thesis using e by (intro conjI exI [of _ t] exI [of _ k]) simp_all
qed

text \<open>A negative number is read with its sign but written behind it: \<open>a-10bc\<close> becomes \<open>a--11bc\<close>.\<close>

lemma asciinum_doubles_sign:
  "map_option (\<lambda>(_, s). content s)
     (mutate MUT_ASCIINUM henv_example \<lparr>hv_out = [97, 45, 49, 48, 98, 99], hv_scratch = None, hv_len = 6, hv_rng = 0\<rparr>)
   = Some [97, 45, 45, 49, 49, 98, 99]"
  by code_simp

end
