(* ===== verification/Trim.thy ===== *)
theory Trim
  imports Coverage Alloc "HOL-Library.Sublist"
begin

text \<open>
  Trimming (\<open>trim_case\<close> of \<^verbatim>\<open>src/afl-fuzz-run.c\<close>): blocks of a queue entry are removed as long as the classified trace keeps its
  checksum. \<open>tr_in_buf\<close> is the buffer of the entry, of which the first \<open>tr_len\<close> bytes are its input, and \<open>tr_file\<close> the file of the entry.
  \<open>None\<close> is an access outside a buffer or a loop that does not end. The model has no custom mutators and a file descriptor that can
  be opened.
\<close>

definition TRIM_MIN_BYTES :: nat where "TRIM_MIN_BYTES = 4"
definition TRIM_START_STEPS :: nat where "TRIM_START_STEPS = 16"
definition TRIM_END_STEPS :: nat where "TRIM_END_STEPS = 1024"

record 'e afl_trim = afl_cov +
  tr_in_buf :: mem
  tr_len :: nat
  tr_exec_cksum :: u64
  tr_needs_write :: bool
  tr_clean_trace :: mem
  tr_execs :: nat
  tr_bytes_in :: nat
  tr_bytes_out :: nat
  tr_fault :: fault
  tr_file :: mem
  tr_env :: 'e

text \<open>The rest of the fuzzer: \<open>tg_run\<close> is the run of the target on some bytes (its outcome, whether the user wants to stop, and the
  trace), \<open>tg_hash\<close> the hash of a trace, \<open>tg_write\<close> how many of the requested bytes a \<open>write\<close> takes, \<open>tg_unlink\<close> whether the old file is
  removed before, and \<open>tg_rescore\<close> the two calls after the file was written, \<open>queue_testcase_retake_mem\<close> and \<open>update_bitmap_score\<close>.\<close>

record 'e trim_ops =
  tg_run :: "mem \<Rightarrow> 'e \<Rightarrow> fault \<times> bool \<times> mem \<times> 'e"
  tg_hash :: "mem \<Rightarrow> u64"
  tg_write :: "nat \<Rightarrow> 'e \<Rightarrow> nat \<times> 'e"
  tg_unlink :: bool
  tg_rescore :: "mem \<Rightarrow> nat \<Rightarrow> nat \<Rightarrow> mem \<Rightarrow> 'e \<Rightarrow> 'e"

text \<open>The bytes the target gets: the input without a gap.\<close>

definition write_with_gap :: "mem \<Rightarrow> nat \<Rightarrow> nat \<Rightarrow> nat \<Rightarrow> mem option" where
  "write_with_gap m len skip_at skip_len = do {
     head \<leftarrow> read_block m 0 skip_at;
     tail \<leftarrow> read_block m (skip_at + skip_len) (len - skip_at - skip_len);
     Some (head @ tail) }"

definition len_p2 :: "'e afl_trim \<Rightarrow> nat" where
  "len_p2 s = unat (next_pow2 (word_of_nat (tr_len s)))"

text \<open>The deletion is made permanent.\<close>

definition trim_keep :: "nat \<Rightarrow> nat \<Rightarrow> 'e afl_trim \<Rightarrow> 'e afl_trim option" where
  "trim_keep remove_pos trim_avail s = do {
     tail \<leftarrow> read_block (tr_in_buf s) (remove_pos + trim_avail) (tr_len s - remove_pos - trim_avail);
     m \<leftarrow> memcpy_at (tr_in_buf s) remove_pos tail;
     trace \<leftarrow> read_block (trace_bits s) 0 (unat (map_size s));
     Some (s\<lparr>tr_in_buf := m, tr_len := tr_len s - trim_avail, tr_needs_write := True,
       tr_clean_trace := (if tr_needs_write s then tr_clean_trace s else trace)\<rparr>) }"

text \<open>One try: whether trimming is aborted, the next position, the state.\<close>

definition trim_try :: "'e trim_ops \<Rightarrow> nat \<Rightarrow> nat \<Rightarrow> 'e afl_trim \<Rightarrow> (bool \<times> nat \<times> 'e afl_trim) option" where
  "trim_try ops remove_len remove_pos s = do {
     let trim_avail = min remove_len (tr_len s - remove_pos);
     input \<leftarrow> write_with_gap (tr_in_buf s) (tr_len s) remove_pos trim_avail;
     let (fault, stop_soon, trace, e) = tg_run ops input (tr_env s);
     let s = s\<lparr>tr_fault := fault, trace_bits := trace, tr_env := e\<rparr>;
     if stop_soon \<or> fault = FSRV_RUN_ERROR then Some (True, remove_pos, s)
     else do {
       s \<leftarrow> classify_counts_64 (s\<lparr>tr_execs := tr_execs s + 1\<rparr>);
       trace \<leftarrow> read_block (trace_bits s) 0 (unat (map_size s));
       if tg_hash ops trace = tr_exec_cksum s then do {
         s \<leftarrow> trim_keep remove_pos trim_avail s;
         Some (False, remove_pos, s) }
       else Some (False, remove_pos + remove_len, s) } }"

partial_function (option) trim_pass :: "'e trim_ops \<Rightarrow> nat \<Rightarrow> nat \<Rightarrow> 'e afl_trim \<Rightarrow> (bool \<times> 'e afl_trim) option" where
  "trim_pass ops remove_len remove_pos s =
     (if remove_pos < tr_len s then do {
        (abort, remove_pos, s) \<leftarrow> trim_try ops remove_len remove_pos s;
        if abort then Some (True, s) else trim_pass ops remove_len remove_pos s }
      else Some (False, s))"

partial_function (option) trim_passes :: "'e trim_ops \<Rightarrow> nat \<Rightarrow> 'e afl_trim \<Rightarrow> (bool \<times> 'e afl_trim) option" where
  "trim_passes ops remove_len s =
     (if remove_len \<ge> max (len_p2 s div TRIM_END_STEPS) TRIM_MIN_BYTES then do {
        (abort, s) \<leftarrow> trim_pass ops remove_len remove_len s;
        if abort then Some (True, s) else trim_passes ops (remove_len div 2) s }
      else Some (False, s))"

text \<open>Without removing the file first, the bytes are written in a loop, which starts again at the beginning of the buffer after a write
  that took fewer bytes. Otherwise \<open>ck_write\<close> writes all of them.\<close>

partial_function (option) write_loop :: "'e trim_ops \<Rightarrow> mem \<Rightarrow> nat \<Rightarrow> nat \<Rightarrow> mem \<Rightarrow> 'e \<Rightarrow> (mem \<times> 'e) option" where
  "write_loop ops m len written file e =
     (if written < len then
        case tg_write ops (len - written) e of (n, e) \<Rightarrow> do {
          bs \<leftarrow> read_block m 0 n;
          write_loop ops m len (written + n) (file @ bs) e }
      else Some (file, e))"

definition trim_save :: "'e trim_ops \<Rightarrow> nat \<Rightarrow> 'e afl_trim \<Rightarrow> 'e afl_trim option" where
  "trim_save ops orig_len s = do {
     (file, e) \<leftarrow> (if tg_unlink ops then do {
         bs \<leftarrow> read_block (tr_in_buf s) 0 (tr_len s);
         Some (bs, tr_env s) }
       else write_loop ops (tr_in_buf s) (tr_len s) 0 [] (tr_env s));
     m \<leftarrow> memcpy_at (trace_bits s) 0 (tr_clean_trace s);
     Some (s\<lparr>tr_file := file, trace_bits := m, tr_env := tg_rescore ops (tr_in_buf s) (tr_len s) orig_len m e\<rparr>) }"

definition trim_case :: "'e trim_ops \<Rightarrow> 'e afl_trim \<Rightarrow> 'e afl_trim option" where
  "trim_case ops s = do {
     let orig_len = tr_len s;
     let s = s\<lparr>tr_needs_write := False, tr_fault := FSRV_RUN_OK\<rparr>;
     s \<leftarrow> (if tr_len s < 5 then Some s
       else do {
         let s = s\<lparr>tr_bytes_in := tr_bytes_in s + tr_len s\<rparr>;
         (abort, s) \<leftarrow> trim_passes ops (max (len_p2 s div TRIM_START_STEPS) TRIM_MIN_BYTES) s;
         if \<not> abort \<and> tr_needs_write s then trim_save ops orig_len s else Some s });
     Some (s\<lparr>tr_bytes_out := tr_bytes_out s + tr_len s\<rparr>) }"


declare trim_pass.simps [code] trim_passes.simps [code] write_loop.simps [code]

section \<open>Invariant\<close>

definition tr_input :: "'e afl_trim \<Rightarrow> mem" where
  "tr_input s = take (tr_len s) (tr_in_buf s)"

definition classified :: "nat \<Rightarrow> mem \<Rightarrow> mem" where
  "classified k t = take k (map count_class_lookup8 (take (8 * (k div 8)) t) @ drop (8 * (k div 8)) t)"

text \<open>The target writes a whole map; \<open>runs_as\<close>: its trace is a function of the input.\<close>

definition traces_ok :: "'e trim_ops \<Rightarrow> nat \<Rightarrow> bool" where
  "traces_ok ops k \<longleftrightarrow> (\<forall>xs e. k \<le> length (fst (snd (snd (tg_run ops xs e)))))"

definition runs_as :: "'e trim_ops \<Rightarrow> (mem \<Rightarrow> mem) \<Rightarrow> bool" where
  "runs_as ops f \<longleftrightarrow> (\<forall>xs e. fst (snd (snd (tg_run ops xs e))) = f xs)"

text \<open>No run fails and the user does not stop the fuzzer.\<close>

definition smooth :: "'e trim_ops \<Rightarrow> bool" where
  "smooth ops \<longleftrightarrow> (\<forall>xs e. case tg_run ops xs e of (fault, stop_soon, _, _) \<Rightarrow> \<not> stop_soon \<and> fault \<noteq> FSRV_RUN_ERROR)"

definition trim_pre :: "'e afl_trim \<Rightarrow> bool" where
  "trim_pre s \<longleftrightarrow> tr_len s \<le> length (tr_in_buf s) \<and> tr_len s < 2 ^ 30 \<and> count_class_lookup16 s = count_class16"

text \<open>The bytes in front of \<open>TRIM_MIN_BYTES\<close> are never removed.\<close>

definition trim_inv :: "'e trim_ops \<Rightarrow> 'e afl_trim \<Rightarrow> 'e afl_trim \<Rightarrow> bool" where
  "trim_inv ops s0 s \<longleftrightarrow> trim_pre s \<and> subseq (tr_input s) (tr_input s0) \<and> TRIM_MIN_BYTES \<le> tr_len s
     \<and> take TRIM_MIN_BYTES (tr_input s) = take TRIM_MIN_BYTES (tr_input s0)
     \<and> map_size s = map_size s0 \<and> tr_exec_cksum s = tr_exec_cksum s0 \<and> tr_file s = tr_file s0
     \<and> (if tr_needs_write s
        then length (tr_clean_trace s) = unat (map_size s) \<and> tg_hash ops (tr_clean_trace s) = tr_exec_cksum s
          \<and> unat (map_size s) \<le> length (trace_bits s)
          \<and> (\<forall>f. runs_as ops f \<longrightarrow> tg_hash ops (classified (unat (map_size s)) (f (tr_input s))) = tr_exec_cksum s)
        else tr_input s = tr_input s0)"

lemma length_tr_input [simp]: "trim_pre s \<Longrightarrow> length (tr_input s) = tr_len s"
  by (simp add: tr_input_def trim_pre_def)

lemma tr_input_simps [simp]:
  "tr_input (s\<lparr>tr_fault := x1\<rparr>) = tr_input s" "tr_input (s\<lparr>trace_bits := x2\<rparr>) = tr_input s"
  "tr_input (s\<lparr>tr_env := x3\<rparr>) = tr_input s" "tr_input (s\<lparr>tr_execs := x4\<rparr>) = tr_input s"
  "tr_input (s\<lparr>tr_needs_write := x5\<rparr>) = tr_input s" "tr_input (s\<lparr>tr_bytes_in := x6\<rparr>) = tr_input s"
  "tr_input (s\<lparr>tr_bytes_out := x7\<rparr>) = tr_input s" "tr_input (s\<lparr>tr_file := x8\<rparr>) = tr_input s"
  by (simp_all add: tr_input_def)

lemma trim_inv_pre: "trim_inv ops s0 s \<Longrightarrow> trim_pre s"
  by (simp add: trim_inv_def)

lemma take_exact: "length xs = n \<Longrightarrow> take n (xs @ ys) = xs"
  by simp

lemma subseq_gap: "subseq (take i xs @ drop (i + n) xs) xs"
proof -
  have "subseq (drop (i + n) xs) (drop i xs)" by (metis add.commute drop_drop suffix_drop suffix_imp_subseq)
  then show ?thesis using list_emb_append_mono [of "(=)" "take i xs" "take i xs" "drop (i + n) xs" "drop i xs"] by simp
qed

lemma wp_classify_trim:
  assumes "count_class_lookup16 s = count_class16" and "unat (map_size s) \<le> length (trace_bits s)"
    and Q: "\<And>t. take (unat (map_size s)) t = classified (unat (map_size s)) (trace_bits s) \<Longrightarrow> unat (map_size s) \<le> length t
      \<Longrightarrow> Q (s\<lparr>trace_bits := t\<rparr>)"
  shows "wp (classify_counts_64 s) Q"
proof -
  have n: "8 * unat (drop_bit 3 (map_size s)) = 8 * (unat (map_size s) div 8)" by (simp add: drop_bit_3_unat)
  then have "8 * unat (drop_bit 3 (map_size s)) \<le> length (trace_bits s)" using assms(2) by simp
  from classify_counts_64_bytes [OF assms(1) this] show ?thesis using assms(2) by (auto intro!: Q simp: n classified_def)
qed

text \<open>One try removes a block or moves behind it.\<close>

definition try_post :: "'e trim_ops \<Rightarrow> nat \<Rightarrow> nat \<Rightarrow> 'e afl_trim \<Rightarrow> 'e afl_trim \<Rightarrow> bool \<times> nat \<times> 'e afl_trim \<Rightarrow> bool" where
  "try_post ops remove_len remove_pos s0 s = (\<lambda>(abort, pos, s'). trim_inv ops s0 s' \<and> remove_pos \<le> pos
     \<and> (if abort then tr_execs s' = tr_execs s \<and> \<not> smooth ops
        else tr_execs s' = tr_execs s + 1 \<and> tr_len s' - pos = tr_len s - remove_pos - remove_len))"

lemma wp_trim_keep:
  assumes "trim_inv ops s0 s" and "TRIM_MIN_BYTES \<le> i" and "i + n \<le> tr_len s"
    and trace: "unat (map_size s) \<le> length (trace_bits s)" "tg_hash ops (take (unat (map_size s)) (trace_bits s)) = tr_exec_cksum s"
      "\<And>f. runs_as ops f \<Longrightarrow> tg_hash ops (classified (unat (map_size s)) (f (take i (tr_input s) @ drop (i + n) (tr_input s)))) = tr_exec_cksum s"
    and Q: "\<And>s'. trim_inv ops s0 s' \<Longrightarrow> tr_len s' = tr_len s - n \<Longrightarrow> tr_execs s' = tr_execs s \<Longrightarrow> Q s'"
  shows "wp (trim_keep i n s) Q"
proof -
  let ?t = "take (tr_len s - i - n) (drop (i + n) (tr_in_buf s))"
  let ?s = "s\<lparr>tr_in_buf := upd_at (tr_in_buf s) i ?t, tr_len := tr_len s - n, tr_needs_write := True,
      tr_clean_trace := (if tr_needs_write s then tr_clean_trace s else take (unat (map_size s)) (trace_bits s))\<rparr>"
  have "tr_len s \<le> length (tr_in_buf s)" using assms(1) by (simp add: trim_inv_def trim_pre_def)
  then have len: "tr_len s \<le> length (tr_in_buf s)" "i + length ?t = tr_len s - n" using assms(3) by simp_all
  have input: "tr_input ?s = take i (tr_input s) @ drop (i + n) (tr_input s)"
  proof -
    have "length (take i (tr_in_buf s) @ ?t) = tr_len s - n" using len assms(3) by simp
    then have "take (tr_len s - n) (upd_at (tr_in_buf s) i ?t) = take i (tr_in_buf s) @ ?t"
      unfolding upd_at_def append_assoc [symmetric] by (rule take_exact)
    then have "tr_input ?s = take i (tr_in_buf s) @ ?t" unfolding tr_input_def by simp
    moreover have "take i (tr_input s) = take i (tr_in_buf s)" "drop (i + n) (tr_input s) = ?t"
      using assms(3) by (simp_all add: tr_input_def drop_take min_absorb1)
    ultimately show ?thesis by simp
  qed
  have "subseq (tr_input ?s) (tr_input s0)"
    unfolding input using subseq_gap [of i "tr_input s" n] assms(1) by (auto simp: trim_inv_def intro: subseq_order.order_trans)
  moreover have "take TRIM_MIN_BYTES (tr_input ?s) = take TRIM_MIN_BYTES (tr_input s)"
    unfolding input using assms(2,3) trim_inv_pre [OF assms(1)] by (simp add: min_absorb1)
  moreover have "tr_len s - n \<le> length (tr_in_buf s)" "tr_len s - n < 2 ^ 30" "TRIM_MIN_BYTES \<le> tr_len s - n"
    using len(1) assms(2,3) trim_inv_pre [OF assms(1)] by (auto simp: trim_pre_def)
  ultimately have "trim_inv ops s0 ?s"
    using assms(1) trace len input unfolding trim_inv_def trim_pre_def
    by (simp add: min_absorb2 split: if_splits)
  then show ?thesis unfolding trim_keep_def using len assms(3) trace(1)
    by (auto intro!: wp_read_block wp_memcpy_at Q)
qed


lemma wp_trim_try:
  assumes inv: "trim_inv ops s0 s" and run: "traces_ok ops (unat (map_size s0))"
    and i: "TRIM_MIN_BYTES \<le> i" "i < tr_len s" and n: "0 < n"
  shows "wp (trim_try ops n i s) (try_post ops n i s0 s)"
proof -
  define a where "a = min n (tr_len s - i)"
  let ?x = "take i (tr_input s) @ drop (i + a) (tr_input s)"
  have a: "i + a \<le> tr_len s" using i by (simp add: a_def)
  have m: "map_size s = map_size s0" "trim_pre s" using inv by (simp_all add: trim_inv_def)
  have gap: "wp (write_with_gap (tr_in_buf s) (tr_len s) i a) (\<lambda>x. x = ?x)"
    using a m(2) unfolding write_with_gap_def
    by (auto simp: trim_pre_def tr_input_def drop_take min_absorb1 intro!: wp_read_block)
  obtain fault stop t e where r: "tg_run ops ?x (tr_env s) = (fault, stop, t, e)" by (cases "tg_run ops ?x (tr_env s)") auto
  have t: "unat (map_size s) \<le> length t" using run r m by (metis traces_ok_def fst_conv snd_conv)
  let ?s = "\<lambda>t. s\<lparr>tr_fault := fault, trace_bits := t, tr_env := e, tr_execs := tr_execs s + 1\<rparr>"
  have same: "?s t\<lparr>trace_bits := u\<rparr> = ?s u" for t u by simp
  have keeps: "trim_inv ops s0 (s\<lparr>tr_fault := fault, trace_bits := u, tr_env := e, tr_execs := k\<rparr>)" if "unat (map_size s) \<le> length u" for k u
    using inv that unfolding trim_inv_def trim_pre_def by (auto split: if_splits)
  have as: "runs_as ops f \<Longrightarrow> f ?x = t" for f using r by (metis runs_as_def fst_conv snd_conv)
  have rest: "wp (classify_counts_64 (?s t)) (\<lambda>s. wp (read_block (trace_bits s) 0 (unat (map_size s))) (\<lambda>trace.
      wp (if tg_hash ops trace = tr_exec_cksum s then do { s \<leftarrow> trim_keep i a s; Some (False, i, s) } else Some (False, i + n, s))
        (try_post ops n i s0 s1)))" if s1: "tr_execs s1 = tr_execs s" "tr_len s1 = tr_len s" for s1
  proof (rule wp_classify_trim)
    fix u
    assume u: "take (unat (map_size (?s t))) u = classified (unat (map_size (?s t))) (trace_bits (?s t))" "unat (map_size (?s t)) \<le> length u"
    have inv': "trim_inv ops s0 (?s u)" using keeps u(2) by simp
    have "wp (if tg_hash ops (take (unat (map_size s)) u) = tr_exec_cksum s then do { s \<leftarrow> trim_keep i a (?s u); Some (False, i, s) }
        else Some (False, i + n, ?s u)) (try_post ops n i s0 s1)"
    proof (rule wp_if)
      assume "tg_hash ops (take (unat (map_size s)) u) = tr_exec_cksum s"
      then have "wp (trim_keep i a (?s u)) (\<lambda>s. try_post ops n i s0 s1 (False, i, s))"
        using a u as i s1 by (intro wp_trim_keep [OF inv' i(1)])
          (auto simp: try_post_def tr_input_def a_def min_def split: if_splits)
      then show "wp (do { s \<leftarrow> trim_keep i a (?s u); Some (False, i, s) }) (try_post ops n i s0 s1)" by simp
    qed (use inv' s1 in \<open>simp add: try_post_def\<close>)
    then show "wp (read_block (trace_bits (?s t\<lparr>trace_bits := u\<rparr>)) 0 (unat (map_size (?s t\<lparr>trace_bits := u\<rparr>)))) (\<lambda>trace.
      wp (if tg_hash ops trace = tr_exec_cksum (?s t\<lparr>trace_bits := u\<rparr>) then do { s \<leftarrow> trim_keep i a (?s t\<lparr>trace_bits := u\<rparr>); Some (False, i, s) }
        else Some (False, i + n, ?s t\<lparr>trace_bits := u\<rparr>)) (try_post ops n i s0 s1))"
      using u(2) unfolding same by (intro wp_read_block) simp_all
  qed (use t m(2) in \<open>simp_all add: trim_pre_def\<close>)
  have abort: "try_post ops n i s0 s (True, i, s\<lparr>tr_fault := fault, trace_bits := t, tr_env := e\<rparr>)"
    if "stop \<or> fault = FSRV_RUN_ERROR"
  proof -
    have "\<not> smooth ops" unfolding smooth_def using r that by (metis (mono_tags, lifting) case_prod_conv)
    then show ?thesis using keeps [OF t, of "tr_execs s"] by (simp add: try_post_def)
  qed
  show ?thesis
    unfolding trim_try_def Let_def a_def [symmetric] wp_bind
    by (rule wp_mono [OF gap]) (use r abort rest [of s] in \<open>simp\<close>)
qed


section \<open>Passes\<close>

text \<open>A pass over what is left behind position \<open>i\<close> runs the target once for each block.\<close>

lemma wp_trim_pass:
  assumes run: "traces_ok ops (unat (map_size s0))" and n: "0 < n"
    and "trim_inv ops s0 s" and "TRIM_MIN_BYTES \<le> i" and "tr_len s - i \<le> n * k"
  shows "wp (trim_pass ops n i s) (\<lambda>(abort, s'). (abort \<longrightarrow> \<not> smooth ops) \<and> trim_inv ops s0 s' \<and> tr_execs s' \<le> tr_execs s + k)"
  using assms(3-)
proof (induction k arbitrary: i s)
  case 0
  then show ?case by (subst trim_pass.simps) simp
next
  case (Suc k)
  show ?case
  proof (cases "i < tr_len s")
    case True
    have "wp (trim_try ops n i s) (\<lambda>(abort, i', s'). wp (if abort then Some (True, s') else trim_pass ops n i' s')
        (\<lambda>(abort, s'). (abort \<longrightarrow> \<not> smooth ops) \<and> trim_inv ops s0 s' \<and> tr_execs s' \<le> tr_execs s + Suc k))"
    proof (rule wp_mono [OF wp_trim_try [OF Suc.prems(1) run Suc.prems(2) True n]], clarify)
      fix abort i' s'
      assume post: "try_post ops n i s0 s (abort, i', s')"
      show "wp (if abort then Some (True, s') else trim_pass ops n i' s') (\<lambda>(abort, s'). (abort \<longrightarrow> \<not> smooth ops) \<and> trim_inv ops s0 s' \<and> tr_execs s' \<le> tr_execs s + Suc k)"
      proof (rule wp_if)
        assume "\<not> abort"
        then have s': "trim_inv ops s0 s'" "TRIM_MIN_BYTES \<le> i'" "tr_execs s' = tr_execs s + 1" "tr_len s' - i' \<le> n * k"
          using post Suc.prems(2,3) by (auto simp: try_post_def)
        from wp_mono [OF Suc.IH [OF s'(1,2,4)]] s'(3)
        show "wp (trim_pass ops n i' s') (\<lambda>(abort, s'). (abort \<longrightarrow> \<not> smooth ops) \<and> trim_inv ops s0 s' \<and> tr_execs s' \<le> tr_execs s + Suc k)" by fastforce
      qed (use post in \<open>auto simp: try_post_def\<close>)
    qed
    then show ?thesis using True by (subst trim_pass.simps) simp
  next
    case False
    then show ?thesis using Suc.prems by (subst trim_pass.simps) simp
  qed
qed

text \<open>When a pass is made, the input has at most 1024 blocks.\<close>

lemma len_p2_bounds:
  assumes "0 < tr_len s" and "tr_len s \<le> 2 ^ p" and "p \<le> 30"
  shows "tr_len s \<le> len_p2 s" and "len_p2 s \<le> 2 ^ p" and "\<exists>q. len_p2 s = 2 ^ q"
proof -
  have "(2 :: nat) ^ p \<le> 2 ^ 30" using assms(3) by (intro power_increasing) simp_all
  then have n: "unat (word_of_nat (tr_len s) :: u64) = tr_len s" using assms(2)
    by (subst unsigned_of_nat) (simp add: take_bit_nat_eq_self)
  have "unat (word_of_nat (tr_len s) :: u64) \<le> 2 ^ 32" using n \<open>(2 :: nat) ^ p \<le> 2 ^ 30\<close> assms(2) by simp
  then obtain q where q: "unat (next_pow2 (word_of_nat (tr_len s))) = 2 ^ q" "tr_len s \<le> 2 ^ q" "q = 0 \<or> 2 ^ (q - 1) < tr_len s"
    using next_pow2_least [of "word_of_nat (tr_len s)"] n assms(1) by auto
  show "tr_len s \<le> len_p2 s" "\<exists>q. len_p2 s = 2 ^ q" using q by (auto simp: len_p2_def)
  have "q \<le> p"
  proof (rule ccontr)
    assume "\<not> q \<le> p"
    then have "(2 :: nat) ^ p \<le> 2 ^ (q - 1)" by (intro power_increasing) simp_all
    moreover have "2 ^ (q - 1) < tr_len s" using q(3) \<open>\<not> q \<le> p\<close> by auto
    ultimately show False using assms(2) by linarith
  qed
  then show "len_p2 s \<le> 2 ^ p" using q(1) by (simp add: len_p2_def)
qed

lemma steps_bound:
  assumes "max (len_p2 s div TRIM_END_STEPS) TRIM_MIN_BYTES \<le> n" and "0 < tr_len s" and "tr_len s < 2 ^ 30"
  shows "tr_len s \<le> n * 1024"
proof -
  obtain q where q: "len_p2 s = 2 ^ q" "tr_len s \<le> 2 ^ q" using len_p2_bounds [of s 30] assms(2,3) by auto
  have "(2 :: nat) ^ q \<le> n * 1024"
  proof (cases "q \<ge> 10")
    case True
    then have "(2 :: nat) ^ q = 2 ^ (q - 10 + 10)" by simp
    then have "(2 :: nat) ^ q = 2 ^ (q - 10) * 1024" unfolding power_add by simp
    then show ?thesis using assms(1) q(1) by (simp add: TRIM_END_STEPS_def)
  next
    case False
    then have "(2 :: nat) ^ q \<le> 2 ^ 10" by (intro power_increasing) simp_all
    then show ?thesis using assms(1) by (simp add: TRIM_MIN_BYTES_def)
  qed
  with q(2) show ?thesis by simp
qed

lemma wp_trim_passes:
  assumes run: "traces_ok ops (unat (map_size s0))" and "trim_inv ops s0 s" and "n < 2 ^ j"
  shows "wp (trim_passes ops n s) (\<lambda>(abort, s'). (abort \<longrightarrow> \<not> smooth ops) \<and> trim_inv ops s0 s' \<and> tr_execs s' \<le> tr_execs s + 1024 * j)"
  using assms(2-)
proof (induction j arbitrary: n s)
  case 0
  then show ?case by (subst trim_passes.simps) (simp add: TRIM_MIN_BYTES_def)
next
  case (Suc j)
  show ?case
  proof (cases "max (len_p2 s div TRIM_END_STEPS) TRIM_MIN_BYTES \<le> n")
    case True
    then have n: "0 < n" "TRIM_MIN_BYTES \<le> n" by (simp_all add: TRIM_MIN_BYTES_def)
    have "0 < tr_len s" "tr_len s < 2 ^ 30" using Suc.prems(1) by (simp_all add: trim_inv_def trim_pre_def TRIM_MIN_BYTES_def)
    from steps_bound [OF True this] have steps: "tr_len s - n \<le> n * 1024" by simp
    have "wp (trim_pass ops n n s) (\<lambda>(abort, s'). wp (if abort then Some (True, s') else trim_passes ops (n div 2) s')
        (\<lambda>(abort, s'). (abort \<longrightarrow> \<not> smooth ops) \<and> trim_inv ops s0 s' \<and> tr_execs s' \<le> tr_execs s + 1024 * Suc j))"
    proof (rule wp_mono [OF wp_trim_pass [OF run n(1) Suc.prems(1) n(2) steps]], clarify, intro wp_if)
      fix abort s'
      assume s': "trim_inv ops s0 s'" "tr_execs s' \<le> tr_execs s + 1024"
      have "n div 2 < 2 ^ j" using Suc.prems(2) by simp
      from wp_mono [OF Suc.IH [OF s'(1) this]] s'(2)
      show "wp (trim_passes ops (n div 2) s') (\<lambda>(abort, s'). (abort \<longrightarrow> \<not> smooth ops) \<and> trim_inv ops s0 s' \<and> tr_execs s' \<le> tr_execs s + 1024 * Suc j)" by fastforce
    qed simp
    then show ?thesis using True by (subst trim_passes.simps) simp
  next
    case False
    then show ?thesis using Suc.prems by (subst trim_passes.simps) auto
  qed
qed


section \<open>The file\<close>

definition full_writes :: "'e trim_ops \<Rightarrow> bool" where
  "full_writes ops \<longleftrightarrow> (\<forall>n e. fst (tg_write ops n e) = n)"

lemma write_loop_full:
  assumes "full_writes ops" and "len \<le> length m"
  shows "wp (write_loop ops m len 0 [] e) (\<lambda>(file, _). file = take len m)"
proof (cases "len = 0")
  case True
  then show ?thesis by (subst write_loop.simps) simp
next
  case False
  obtain e' where "tg_write ops len e = (len, e')" using assms(1) by (metis full_writes_def prod.collapse)
  moreover have "write_loop ops m len len (take len m) e' = Some (take len m, e')" by (subst write_loop.simps) simp
  ultimately show ?thesis using False assms(2) by (subst write_loop.simps) (simp add: read_block_def)
qed

lemma wp_trim_save:
  assumes inv: "trim_inv ops s0 s" and w: "tr_needs_write s" and ops: "tg_unlink ops \<or> full_writes ops"
    and Q: "\<And>m e. Q (s\<lparr>tr_file := tr_input s, trace_bits := m, tr_env := e\<rparr>)"
  shows "wp (trim_save ops orig_len s) Q"
proof -
  have len: "tr_len s \<le> length (tr_in_buf s)" "length (tr_clean_trace s) \<le> length (trace_bits s)"
    using inv w by (auto simp: trim_inv_def trim_pre_def)
  have "wp (if tg_unlink ops then do { bs \<leftarrow> read_block (tr_in_buf s) 0 (tr_len s); Some (bs, tr_env s) }
      else write_loop ops (tr_in_buf s) (tr_len s) 0 [] (tr_env s)) (\<lambda>(file, _). file = tr_input s)"
    using len(1) ops write_loop_full [of ops "tr_len s" "tr_in_buf s" "tr_env s"] by (auto simp: tr_input_def intro!: wp_read_block)
  then show ?thesis unfolding trim_save_def wp_bind
    by (rule wp_mono) (use len(2) in \<open>auto intro!: wp_memcpy_at Q\<close>)
qed

section \<open>Properties\<close>

lemma trim_start:
  assumes "trim_pre s" and "5 \<le> tr_len s"
  shows "trim_inv ops s (s\<lparr>tr_needs_write := False, tr_fault := x, tr_bytes_in := n\<rparr>)"
  using assms by (simp add: trim_inv_def trim_pre_def TRIM_MIN_BYTES_def)

lemma start_len:
  assumes "tr_len s \<le> 2 ^ p" and "0 < tr_len s" and "3 \<le> p" and "p \<le> 30"
  shows "max (len_p2 s div TRIM_START_STEPS) TRIM_MIN_BYTES < 2 ^ p"
proof -
  have "len_p2 s div 16 \<le> 2 ^ p div 16" using len_p2_bounds(2) [OF assms(2,1,4)] by (rule div_le_mono)
  also have "\<dots> < 2 ^ p" by simp
  finally have "len_p2 s div TRIM_START_STEPS < 2 ^ p" by (simp add: TRIM_START_STEPS_def)
  moreover have "(2 :: nat) ^ 3 \<le> 2 ^ p" using assms(3) by (intro power_increasing) simp_all
  ultimately show ?thesis by (simp add: TRIM_MIN_BYTES_def)
qed

text \<open>C21. Trimming ends after at most 1024 runs of the target for each power of two in the length of the input, whatever
  the target does, when the file is unlinked before it is written again or every write is complete. The trimmed input is a
  subsequence of the input with its first four bytes. When no run fails and writes are complete, the file holds the trimmed input in
  the end, and when the trace of the target is a function of the input, that trace has, for a changed input, the checksum of the
  queue entry.\<close>

theorem trim_case_correct:
  assumes "trim_pre s" and "traces_ok ops (unat (map_size s))" and "tg_unlink ops \<or> full_writes ops"
    and "tr_len s \<le> 2 ^ p" and "3 \<le> p" and "p \<le> 30"
  shows "\<exists>s'. trim_case ops s = Some s' \<and> subseq (tr_input s') (tr_input s) \<and> take 4 (tr_input s') = take 4 (tr_input s)
     \<and> tr_execs s' \<le> tr_execs s + 1024 * p
     \<and> (smooth ops \<and> tr_file s = tr_input s \<longrightarrow> tr_file s' = tr_input s')
     \<and> (\<forall>f. runs_as ops f \<and> tr_input s' \<noteq> tr_input s \<longrightarrow>
          tg_hash ops (classified (unat (map_size s)) (f (tr_input s'))) = tr_exec_cksum s)"
proof (cases "tr_len s < 5")
  case True
  then show ?thesis by (simp add: trim_case_def Let_def)
next
  case False
  let ?s = "s\<lparr>tr_needs_write := False, tr_fault := FSRV_RUN_OK, tr_bytes_in := tr_bytes_in s + tr_len s\<rparr>"
  let ?n = "max (len_p2 ?s div TRIM_START_STEPS) TRIM_MIN_BYTES"
  have n: "?n < 2 ^ p" using start_len [of ?s p] assms(4-6) False by simp
  have "wp (trim_passes ops ?n ?s) (\<lambda>(abort, s'). wp (if \<not> abort \<and> tr_needs_write s' then trim_save ops (tr_len s) s' else Some s')
      (\<lambda>s'. subseq (tr_input s') (tr_input s) \<and> take 4 (tr_input s') = take 4 (tr_input s) \<and> tr_execs s' \<le> tr_execs s + 1024 * p
     \<and> (smooth ops \<and> tr_file s = tr_input s \<longrightarrow> tr_file s' = tr_input s')
     \<and> (\<forall>f. runs_as ops f \<and> tr_input s' \<noteq> tr_input s \<longrightarrow>
          tg_hash ops (classified (unat (map_size s)) (f (tr_input s'))) = tr_exec_cksum s)))"
  proof (rule wp_mono [OF wp_trim_passes [OF assms(2) trim_start [OF assms(1)] n]], use False in simp, clarify)
    fix abort s'
    assume s': "abort \<longrightarrow> \<not> smooth ops" "trim_inv ops s s'" "tr_execs s' \<le> tr_execs ?s + 1024 * p"
    show "wp (if \<not> abort \<and> tr_needs_write s' then trim_save ops (tr_len s) s' else Some s') (\<lambda>s'. subseq (tr_input s') (tr_input s)
     \<and> take 4 (tr_input s') = take 4 (tr_input s) \<and> tr_execs s' \<le> tr_execs s + 1024 * p
     \<and> (smooth ops \<and> tr_file s = tr_input s \<longrightarrow> tr_file s' = tr_input s')
     \<and> (\<forall>f. runs_as ops f \<and> tr_input s' \<noteq> tr_input s \<longrightarrow>
          tg_hash ops (classified (unat (map_size s)) (f (tr_input s'))) = tr_exec_cksum s))"
      by (rule wp_if; (rule wp_trim_save [OF s'(2) _ assms(3)])?)
         (use s' in \<open>auto simp: trim_inv_def TRIM_MIN_BYTES_def split: if_splits\<close>)
  qed
  then show ?thesis using False unfolding trim_case_def Let_def
    by (simp add: wp_iff split_def) fastforce
qed


text \<open>A target whose trace is the number of bytes 7 in the input, in a map of eight bytes.\<close>

definition sevens :: "mem \<Rightarrow> mem" where
  "sevens xs = word_of_nat (count_list xs 7) # replicate 7 0"

definition sevens_ops :: "bool \<Rightarrow> nat trim_ops" where
  "sevens_ops unlinked = \<lparr>tg_run = (\<lambda>xs e. (FSRV_RUN_OK, False, sevens xs, e)), tg_hash = (\<lambda>t. le_word t),
     tg_write = (\<lambda>n e. (if e = 0 then n div 2 else n, Suc e)), tg_unlink = unlinked, tg_rescore = (\<lambda>_ _ _ _ e. e)\<rparr>"

definition trim_example :: "nat afl_trim" where
  "trim_example = \<lparr>trace_bits = replicate 8 0, map_size = 8, real_map_size = 8, virgin_bits = replicate 8 255,
     virgin_tmout = replicate 8 255, virgin_crash = replicate 8 255, bitmap_changed = 0, count_class_lookup16 = count_class16,
     tr_in_buf = [1, 2, 3, 4, 5, 6, 7, 8, 9, 10, 11, 12, 13, 14, 15, 16, 0, 0], tr_len = 16, tr_exec_cksum = 1, tr_needs_write = False,
     tr_clean_trace = [], tr_execs = 0, tr_bytes_in = 0, tr_bytes_out = 0, tr_fault = FSRV_RUN_OK,
     tr_file = [1, 2, 3, 4, 5, 6, 7, 8, 9, 10, 11, 12, 13, 14, 15, 16], tr_env = 0\<rparr>"

lemma sevens_ops_ok: "traces_ok (sevens_ops u) 8" "smooth (sevens_ops u)" "runs_as (sevens_ops u) sevens"
  by (simp_all add: traces_ok_def smooth_def runs_as_def sevens_ops_def sevens_def)

lemma trim_example_pre: "trim_pre trim_example" "tr_file trim_example = tr_input trim_example"
  by (simp_all add: trim_pre_def trim_example_def tr_input_def)

lemma trim_example_run:
  "map_option (\<lambda>s. (tr_input s, tr_file s, tr_execs s)) (trim_case (sevens_ops True) trim_example)
     = Some ([1, 2, 3, 4, 5, 6, 7, 8], [1, 2, 3, 4, 5, 6, 7, 8], 3)"
  by code_simp

theorem trim_case_witness:
  "\<exists>s'. trim_case (sevens_ops True) trim_example = Some s' \<and> tr_input s' = [1, 2, 3, 4, 5, 6, 7, 8] \<and> tr_file s' = tr_input s'
     \<and> tr_execs s' \<le> 4096 \<and> tg_hash (sevens_ops True) (classified 8 (sevens (tr_input s'))) = 1"
proof -
  have "tg_unlink (sevens_ops True) \<or> full_writes (sevens_ops True)" by (simp add: sevens_ops_def)
  moreover have "map_size trim_example = 8" "tr_len trim_example \<le> 2 ^ 4" "tr_execs trim_example = 0" "tr_exec_cksum trim_example = 1"
    by (simp_all add: trim_example_def)
  moreover have "tr_input trim_example \<noteq> [1, 2, 3, 4, 5, 6, 7, 8]" by (simp add: trim_example_def tr_input_def)
  ultimately show ?thesis
    using trim_case_correct [of trim_example "sevens_ops True" 4] trim_example_run trim_example_pre sevens_ops_ok [of True]
    by (auto simp: sevens_ops_ok)
qed

text \<open>Without unlinking, a short write makes the loop write the head of the buffer again: the file has the right length, but its tail is not
  the tail of the input.\<close>

lemma short_write_repeats_head:
  assumes "tg_write ops len e = (k, e')" and "tg_write ops (len - k) e' = (len - k, e'')" and "k < len" and "len \<le> length m"
  shows "write_loop ops m len 0 [] e = Some (take k m @ take (len - k) m, e'')"
proof -
  have "write_loop ops m len len (take k m @ take (len - k) m) e'' = Some (take k m @ take (len - k) m, e'')"
    by (subst write_loop.simps) simp
  then have "write_loop ops m len k (take k m) e' = Some (take k m @ take (len - k) m, e'')"
    using assms by (subst write_loop.simps) (simp add: read_block_def)
  then show ?thesis using assms by (subst write_loop.simps) (simp add: read_block_def)
qed

lemma trim_example_short_write:
  "map_option (\<lambda>s. (tr_input s, tr_file s)) (trim_case (sevens_ops False) trim_example)
     = Some ([1, 2, 3, 4, 5, 6, 7, 8], [1, 2, 3, 4, 1, 2, 3, 4])"
  by code_simp

end
