(* ===== verification/Calibrate.thy ===== *)
theory Calibrate
  imports Cull
begin

text \<open>
  Running the target and calibration (\<open>write_to_testcase\<close>, \<open>fuzz_run_target\<close> and \<open>calibrate_case\<close> of \<^verbatim>\<open>src/afl-fuzz-run.c\<close>). A new queue
  entry is run a few times; bytes of the trace that differ between the runs are variable, and are marked as discovered. The model has
  no custom mutators and a fork server that is up. A run of the target, the hash of a trace and the clock are parameters.
\<close>

definition CAL_CYCLES_FAST :: nat where "CAL_CYCLES_FAST = 3"
definition CAL_CYCLES :: nat where "CAL_CYCLES = 7"
definition CAL_CYCLES_LONG :: nat where "CAL_CYCLES_LONG = 12"
definition CAL_TMOUT_PERC :: u32 where "CAL_TMOUT_PERC = 125"
definition CAL_TMOUT_ADD :: u32 where "CAL_TMOUT_ADD = 50"

record 'e afl_run = afl_queue +
  exec_tmout :: u32
  total_execs :: nat
  stop_soon :: bool
  min_length :: nat
  max_length :: nat
  crash_mode :: fault
  cmplog_mode :: bool
  resuming_fuzz :: bool
  cal_fast :: bool
  stage_no :: nat
  first_trace :: mem
  var_bytes :: mem
  var_byte_count :: u32
  queued_with_cov :: u32
  queued_variable :: u32
  total_cal_us :: u64
  total_cal_cycles :: u64
  total_bitmap_size :: u64
  total_bitmap_entries :: u64
  run_env :: 'e

text \<open>\<open>op_run\<close> is \<open>afl_fsrv_run_target\<close>: from the timeout and the bytes, the outcome, the new value of \<open>stop_soon\<close> and the trace.
  \<open>op_hash\<close> is \<open>hash64\<close>, \<open>op_time\<close> is \<open>get_cur_time_us\<close>.\<close>

record 'e run_ops =
  op_run :: "u32 \<Rightarrow> mem \<Rightarrow> 'e \<Rightarrow> fault \<times> bool \<times> mem \<times> 'e"
  op_hash :: "mem \<Rightarrow> u64"
  op_time :: "'e \<Rightarrow> u64 \<times> 'e"

section \<open>Running the target\<close>

text \<open>The bytes given to the target, and how many.\<close>

definition write_to_testcase :: "('e, 'z) afl_run_scheme \<Rightarrow> mem \<Rightarrow> nat \<Rightarrow> bool \<Rightarrow> (mem \<times> nat) option" where
  "write_to_testcase s m len fix = do {
     let len = (if len < min_length s \<and> \<not> fix then min_length s else if len > max_length s then max_length s else len);
     bs \<leftarrow> read_block m 0 len;
     Some (bs, len) }"

definition fuzz_run_target ::
  "'e run_ops \<Rightarrow> u32 \<Rightarrow> mem \<Rightarrow> ('e, 'z) afl_run_scheme \<Rightarrow> fault \<times> ('e, 'z) afl_run_scheme" where
  "fuzz_run_target ops tmout bs s =
     (case op_run ops tmout bs (run_env s) of (fault, stop, trace, e) \<Rightarrow>
        (fault, s\<lparr>trace_bits := trace, stop_soon := stop, total_execs := total_execs s + 1, run_env := e\<rparr>))"

definition get_time :: "'e run_ops \<Rightarrow> ('e, 'z) afl_run_scheme \<Rightarrow> u64 \<times> ('e, 'z) afl_run_scheme" where
  "get_time ops s = (case op_time ops (run_env s) of (t, e) \<Rightarrow> (t, s\<lparr>run_env := e\<rparr>))"

text \<open>\<open>hash64(afl->fsrv.trace_bits, afl->fsrv.map_size, HASH_CONST)\<close>\<close>

definition hash_trace :: "'e run_ops \<Rightarrow> ('e, 'z) afl_run_scheme \<Rightarrow> u64 option" where
  "hash_trace ops s = map_option (op_hash ops) (read_block (trace_bits s) 0 (unat (map_size s)))"

section \<open>Calibration\<close>

text \<open>The local variables \<open>new_bits\<close>, \<open>var_detected\<close> and the field \<open>stage_max\<close> of a calibration.\<close>

record cal =
  cal_new_bits :: u8
  cal_var :: bool
  cal_max :: nat

definition note_bits :: "('e, 'z) afl_run_scheme \<Rightarrow> cal \<Rightarrow> (cal \<times> ('e, 'z) afl_run_scheme) option" where
  "note_bits s c = do {
     (hnb, s) \<leftarrow> has_new_bits_64 s Virgin_Bits;
     Some (if hnb > cal_new_bits c then c\<lparr>cal_new_bits := hnb\<rparr> else c, s) }"

definition save_first :: "('e, 'z) afl_run_scheme \<Rightarrow> ('e, 'z) afl_run_scheme option" where
  "save_first s = do {
     bs \<leftarrow> read_block (trace_bits s) 0 (unat (map_size s));
     m \<leftarrow> memcpy_at (first_trace s) 0 bs;
     Some (s\<lparr>first_trace := m\<rparr>) }"

definition mark_variable :: "nat \<Rightarrow> ('e, 'z) afl_run_scheme \<Rightarrow> ('e, 'z) afl_run_scheme option" where
  "mark_variable i s = do {
     v \<leftarrow> load8 (var_bytes s) i;
     if v = 0 then do {
       a \<leftarrow> load8 (first_trace s) i;
       b \<leftarrow> load8 (trace_bits s) i;
       if a \<noteq> b then do {
         vs \<leftarrow> store8 (var_bytes s) i 1;
         ws \<leftarrow> store8 (virgin_bits s) i 0;
         Some (s\<lparr>var_bytes := vs, virgin_bits := ws\<rparr>) }
       else Some s }
     else Some s }"

text \<open>The part of a round after a good run.\<close>

definition cal_compare :: "'e run_ops \<Rightarrow> nat \<Rightarrow> cal \<Rightarrow> ('e, 'z) afl_run_scheme \<Rightarrow> (cal \<times> ('e, 'z) afl_run_scheme) option" where
  "cal_compare ops q c s = do {
     s \<leftarrow> classify_counts_64 s;
     cksum \<leftarrow> hash_trace ops s;
     e \<leftarrow> load8 (queue_buf s) q;
     if qe_exec_cksum e \<noteq> cksum then do {
       (c, s) \<leftarrow> note_bits s c;
       if qe_exec_cksum e \<noteq> 0 then do {
         s \<leftarrow> for_range 0 (unat (map_size s)) mark_variable s;
         Some (c\<lparr>cal_var := True, cal_max := (if cal_fast s then CAL_CYCLES else CAL_CYCLES_LONG)\<rparr>, s) }
       else do {
         s \<leftarrow> set_entry s q (\<lambda>e. e\<lparr>qe_exec_cksum := cksum\<rparr>);
         s \<leftarrow> save_first s;
         Some (c, s) } }
     else Some (c, s) }"

text \<open>A run and its checks; \<open>Some fault\<close> in the result is a jump to \<open>abort_calibration\<close>.\<close>

definition cal_run ::
  "'e run_ops \<Rightarrow> nat \<Rightarrow> mem \<Rightarrow> u32 \<Rightarrow> bool \<Rightarrow> ('e, 'z) afl_run_scheme \<Rightarrow> (fault option \<times> fault \<times> ('e, 'z) afl_run_scheme) option" where
  "cal_run ops q use_mem use_tmout first s = do {
     e \<leftarrow> load8 (queue_buf s) q;
     (bs, _) \<leftarrow> write_to_testcase s use_mem (unat (qe_len e)) True;
     let (fault, s) = fuzz_run_target ops use_tmout bs s;
     if stop_soon s \<or> fault \<noteq> crash_mode s then Some (Some fault, fault, s)
     else if \<not> non_instrumented_mode s \<and> first then do {
       n \<leftarrow> count_bytes s (trace_bits s);
       Some (if n = 0 then Some FSRV_RUN_NOINST else None, fault, s) }
     else Some (None, fault, s) }"

partial_function (option) cal_loop ::
  "'e run_ops \<Rightarrow> nat \<Rightarrow> mem \<Rightarrow> u32 \<Rightarrow> nat \<Rightarrow> fault \<Rightarrow> cal \<Rightarrow> ('e, 'z) afl_run_scheme
    \<Rightarrow> (fault option \<times> fault \<times> cal \<times> ('e, 'z) afl_run_scheme) option" where
  "cal_loop ops q use_mem use_tmout cur fault c s =
     (if cur < cal_max c then do {
        (abort, fault, s) \<leftarrow> cal_run ops q use_mem use_tmout (cur = 0) s;
        if abort \<noteq> None then Some (abort, fault, c, s)
        else do {
          (c, s) \<leftarrow> cal_compare ops q c s;
          cal_loop ops q use_mem use_tmout (cur + 1) fault c s } }
      else Some (None, fault, c, s))"

declare cal_loop.simps [code]

text \<open>The statistics and the score of an entry whose runs were all good.\<close>

definition cal_score ::
  "'e run_ops \<Rightarrow> nat \<Rightarrow> u32 \<Rightarrow> u64 \<Rightarrow> cal \<Rightarrow> ('e, 'z) afl_run_scheme \<Rightarrow> ('e, 'z) afl_run_scheme option" where
  "cal_score ops q handicap start_us c s = do {
     let (diff_us, s) =
       (if fixed_seed s then (ucast (exec_tmout s - 1) * word_of_nat (cal_max c), s)
        else case get_time ops s of (stop_us, s) \<Rightarrow> (let d = stop_us - start_us in if d = 0 then 1 else d, s));
     let s = s\<lparr>total_cal_us := total_cal_us s + diff_us, total_cal_cycles := total_cal_cycles s + word_of_nat (cal_max c)\<rparr>;
     let us = diff_us div word_of_nat (cal_max c);
     n \<leftarrow> count_bytes s (trace_bits s);
     s \<leftarrow> set_entry s q (\<lambda>e. e\<lparr>qe_exec_us := (if us = 0 then 1 else us), qe_bitmap_size := n, qe_handicap := ucast handicap, qe_cal_failed := 0\<rparr>);
     let s = s\<lparr>total_bitmap_size := total_bitmap_size s + ucast n, total_bitmap_entries := total_bitmap_entries s + 1\<rparr>;
     update_bitmap_score s q True }"

text \<open>The code behind \<open>abort_calibration\<close>.\<close>

definition cal_finish :: "nat \<Rightarrow> cal \<Rightarrow> ('e, 'z) afl_run_scheme \<Rightarrow> ('e, 'z) afl_run_scheme option" where
  "cal_finish q c s = do {
     e \<leftarrow> load8 (queue_buf s) q;
     s \<leftarrow> (if cal_new_bits c = 2 \<and> \<not> qe_has_new_cov e then do {
         s \<leftarrow> set_entry s q (\<lambda>e. e\<lparr>qe_has_new_cov := True\<rparr>);
         Some (s\<lparr>queued_with_cov := queued_with_cov s + 1\<rparr>) }
       else Some s);
     if cal_var c then do {
       n \<leftarrow> count_bytes s (var_bytes s);
       Some (s\<lparr>var_byte_count := n, queued_variable := (if qe_var_behavior e then queued_variable s else queued_variable s + 1)\<rparr>) }
     else Some s }"

definition cal_tmout :: "bool \<Rightarrow> ('e, 'z) afl_run_scheme \<Rightarrow> u32" where
  "cal_tmout from_queue s =
     (if \<not> from_queue \<or> resuming_fuzz s
      then max (exec_tmout s + CAL_TMOUT_ADD) (exec_tmout s * CAL_TMOUT_PERC div 100) else exec_tmout s)"

text \<open>The rounds and the score; the result is the fault with which \<open>abort_calibration\<close> is reached.\<close>

definition cal_main ::
  "'e run_ops \<Rightarrow> nat \<Rightarrow> mem \<Rightarrow> u32 \<Rightarrow> u32 \<Rightarrow> bool \<Rightarrow> fault \<Rightarrow> cal \<Rightarrow> ('e, 'z) afl_run_scheme
    \<Rightarrow> (fault \<times> cal \<times> ('e, 'z) afl_run_scheme) option" where
  "cal_main ops q use_mem handicap use_tmout first_run fault c s = do {
     e \<leftarrow> load8 (queue_buf s) q;
     (c, s) \<leftarrow> (if qe_exec_cksum e \<noteq> 0 then do { s \<leftarrow> save_first s; note_bits s c } else Some (c, s));
     let (start_us, s) = get_time ops s;
     (abort, fault, c, s) \<leftarrow> cal_loop ops q use_mem use_tmout 0 fault c s;
     (case abort of
        Some fault \<Rightarrow> Some (fault, c, s)
      | None \<Rightarrow> do {
          s \<leftarrow> cal_score ops q handicap start_us c s;
          Some (if \<not> non_instrumented_mode s \<and> first_run \<and> fault = FSRV_RUN_OK \<and> cal_new_bits c = 0
            then FSRV_RUN_NOBITS else fault, c, s) }) }"

definition calibrate_case ::
  "'e run_ops \<Rightarrow> nat \<Rightarrow> mem \<Rightarrow> u32 \<Rightarrow> bool \<Rightarrow> ('e, 'z) afl_run_scheme \<Rightarrow> (fault \<times> ('e, 'z) afl_run_scheme) option" where
  "calibrate_case ops q use_mem handicap from_queue s = do {
     e \<leftarrow> load8 (queue_buf s) q;
     let first_run = (qe_exec_cksum e = 0);
     let use_tmout = cal_tmout from_queue s;
     s \<leftarrow> set_entry s q (\<lambda>e. e\<lparr>qe_exec_cksum := (if cmplog_mode s then 0 else qe_exec_cksum e), qe_cal_failed := qe_cal_failed e + 1\<rparr>);
     let c = \<lparr>cal_new_bits = 0, cal_var = False, cal_max = (if cal_fast s then CAL_CYCLES_FAST else CAL_CYCLES)\<rparr>;
     (abort, fault, s) \<leftarrow> (if cmplog_mode s then cal_run ops q use_mem use_tmout (stage_no s = 0) s else Some (None, FSRV_RUN_OK, s));
     (fault, c, s) \<leftarrow> (case abort of
         Some fault \<Rightarrow> Some (fault, c, s)
       | None \<Rightarrow> cal_main ops q use_mem handicap use_tmout first_run fault c s);
     s \<leftarrow> cal_finish q c s;
     Some (fault, s) }"

section \<open>Invariant\<close>

text \<open>All maps have \<open>map_size\<close> bytes, and the bytes that \<open>has_new_bits\<close> and \<open>count_bytes\<close> read are among them. A variable byte is fully
  discovered.\<close>

definition map_fits :: "'z afl_cov_scheme \<Rightarrow> bool" where
  "map_fits s \<longleftrightarrow> unat (real_map_size s) + 7 < 2 ^ 32 \<and> 8 * ((unat (real_map_size s) + 7) div 8) \<le> unat (map_size s)"

definition maps_ok :: "('e, 'z) afl_run_scheme \<Rightarrow> bool" where
  "maps_ok s \<longleftrightarrow> map_fits s \<and> count_class_lookup16 s = count_class16 \<and> unat (map_size s) \<le> length (virgin_bits s)
     \<and> unat (map_size s) \<le> length (virgin_tmout s) \<and> unat (map_size s) \<le> length (virgin_crash s)
     \<and> unat (map_size s) \<le> length (first_trace s) \<and> unat (map_size s) \<le> length (var_bytes s)
     \<and> (\<forall>i<unat (map_size s). var_bytes s ! i \<noteq> 0 \<longrightarrow> virgin_bits s ! i = 0)"

definition run_inv :: "('e, 'z) afl_run_scheme \<Rightarrow> bool" where
  "run_inv s \<longleftrightarrow> queue_inv s \<and> maps_ok s"

text \<open>What calibration leaves as it was, and in which direction it changes the maps.\<close>

definition shrinks :: "mem \<Rightarrow> mem \<Rightarrow> bool" where
  "shrinks v0 v \<longleftrightarrow> length v = length v0 \<and> (\<forall>i<length v. v ! i AND NOT (v0 ! i) = 0)"

definition same_setup :: "('e, 'z) afl_run_scheme \<Rightarrow> ('e, 'z) afl_run_scheme \<Rightarrow> bool" where
  "same_setup s0 s \<longleftrightarrow> map_size s = map_size s0 \<and> real_map_size s = real_map_size s0 \<and> virgin_tmout s = virgin_tmout s0
     \<and> virgin_crash s = virgin_crash s0 \<and> schedule s = schedule s0 \<and> n_fuzz s = n_fuzz s0 \<and> fixed_seed s = fixed_seed s0
     \<and> non_instrumented_mode s = non_instrumented_mode s0 \<and> exec_tmout s = exec_tmout s0 \<and> crash_mode s = crash_mode s0
     \<and> cal_fast s = cal_fast s0 \<and> cmplog_mode s = cmplog_mode s0 \<and> min_length s = min_length s0 \<and> max_length s = max_length s0
     \<and> afl_run.more s = afl_run.more s0 \<and> length (queue_buf s) = length (queue_buf s0)
     \<and> map qe_len (queue_buf s) = map qe_len (queue_buf s0)"

definition cal_inv :: "('e, 'z) afl_run_scheme \<Rightarrow> ('e, 'z) afl_run_scheme \<Rightarrow> bool" where
  "cal_inv s0 s \<longleftrightarrow> run_inv s \<and> same_setup s0 s \<and> shrinks (virgin_bits s0) (virgin_bits s)
     \<and> (\<forall>i<unat (map_size s0). var_bytes s0 ! i \<noteq> 0 \<longrightarrow> var_bytes s ! i \<noteq> 0)"

definition full_traces :: "'e run_ops \<Rightarrow> nat \<Rightarrow> bool" where
  "full_traces ops k \<longleftrightarrow> (\<forall>tmout bs e. k \<le> length (fst (snd (snd (op_run ops tmout bs e)))))"

lemmas cal_defs = cal_inv_def run_inv_def maps_ok_def map_fits_def same_setup_def

lemma shrinks_refl [simp]: "shrinks v v"
  by (simp add: shrinks_def)

lemma and_not_trans: "c AND NOT b = 0 \<Longrightarrow> b AND NOT a = 0 \<Longrightarrow> c AND NOT a = (0 :: 'a::len word)"
  by (simp add: bit_eq_iff bit_simps)

lemma shrinks_trans: "shrinks a b \<Longrightarrow> shrinks b c \<Longrightarrow> shrinks a c"
  unfolding shrinks_def by (metis and_not_trans)

lemma cal_inv_refl: "run_inv s \<Longrightarrow> cal_inv s s"
  by (simp add: cal_inv_def same_setup_def)

lemma queue_inv_cong:
  assumes "queue_inv s" and "map_size s' = map_size s" and "top_rated s' = top_rated s" and "queue_buf s' = queue_buf s"
    and "schedule s' = schedule s" and "n_fuzz s' = n_fuzz s" and "unat (map_size s) \<le> length (trace_bits s')"
  shows "queue_inv s'"
  using assms by (simp add: queue_inv_def shape_ok_def entries_ok_def entry_ok_def wins_of_def)

lemma queue_inv_trace: "queue_inv s \<Longrightarrow> unat (map_size s) \<le> length (trace_bits s)"
  by (simp add: queue_inv_def shape_ok_def)

lemma shrinks_zero: "shrinks v w \<Longrightarrow> i < length v \<Longrightarrow> v ! i = 0 \<Longrightarrow> w ! i = 0"
  by (metis and.right_neutral bit.compl_zero shrinks_def)

lemma same_setup_trans: "same_setup a b \<Longrightarrow> same_setup b c \<Longrightarrow> same_setup a c"
  by (simp add: same_setup_def)

text \<open>Changes of the state that keep the invariant.\<close>

lemma cal_inv_cong:
  assumes "cal_inv s0 s" and "same_setup s s'" and "queue_inv s'" and "count_class_lookup16 s' = count_class_lookup16 s"
    and "shrinks (virgin_bits s) (virgin_bits s')" and "length (first_trace s') = length (first_trace s)"
    and "length (var_bytes s') = length (var_bytes s)"
    and "\<And>i. i < unat (map_size s) \<Longrightarrow> var_bytes s ! i \<noteq> 0 \<Longrightarrow> var_bytes s' ! i \<noteq> 0"
    and "\<And>i. i < unat (map_size s) \<Longrightarrow> var_bytes s ! i = 0 \<Longrightarrow> var_bytes s' ! i \<noteq> 0 \<Longrightarrow> virgin_bits s' ! i = 0"
  shows "cal_inv s0 s'"
proof -
  have inv: "maps_ok s" "same_setup s0 s" "shrinks (virgin_bits s0) (virgin_bits s)"
    "\<And>i. i < unat (map_size s0) \<Longrightarrow> var_bytes s0 ! i \<noteq> 0 \<Longrightarrow> var_bytes s ! i \<noteq> 0"
    using assms(1) by (simp_all add: cal_inv_def run_inv_def)
  have sizes: "map_size s' = map_size s" "real_map_size s' = real_map_size s" "virgin_tmout s' = virgin_tmout s" "virgin_crash s' = virgin_crash s"
    "map_size s = map_size s0" using assms(2) inv(2) by (simp_all add: same_setup_def)
  have "virgin_bits s' ! i = 0" if "i < unat (map_size s)" "var_bytes s' ! i \<noteq> 0" for i
  proof (cases "var_bytes s ! i = 0")
    case False
    then show ?thesis using that inv(1) by (intro shrinks_zero [OF assms(5)]) (simp_all add: maps_ok_def)
  qed (use that assms(9) in simp)
  then have "maps_ok s'" using inv(1) assms(4-7) sizes by (simp add: maps_ok_def map_fits_def shrinks_def)
  moreover have "var_bytes s' ! i \<noteq> 0" if "i < unat (map_size s0)" "var_bytes s0 ! i \<noteq> 0" for i
    using that inv(4) assms(8) sizes(5) by simp
  ultimately show ?thesis using same_setup_trans [OF inv(2) assms(2)] shrinks_trans [OF inv(3) assms(5)] assms(3)
    by (simp add: cal_inv_def run_inv_def)
qed

lemma cal_inv_run:
  assumes "cal_inv s0 s" and "full_traces ops (unat (map_size s0))"
  shows "cal_inv s0 (snd (fuzz_run_target ops tmout bs s))"
proof -
  obtain f st t e where r: "op_run ops tmout bs (run_env s) = (f, st, t, e)" by (cases "op_run ops tmout bs (run_env s)") auto
  have "unat (map_size s0) \<le> length t" using assms(2) r unfolding full_traces_def by (metis fst_conv snd_conv)
  moreover have "queue_inv (s\<lparr>trace_bits := t, stop_soon := st, total_execs := total_execs s + 1, run_env := e\<rparr>)" if "unat (map_size s) \<le> length t"
    by (rule queue_inv_cong [of s]) (use assms(1) that in \<open>simp_all add: cal_inv_def run_inv_def\<close>)
  ultimately have "cal_inv s0 (s\<lparr>trace_bits := t, stop_soon := st, total_execs := total_execs s + 1, run_env := e\<rparr>)"
    using assms(1) by (intro cal_inv_cong [OF assms(1)]) (simp_all add: same_setup_def cal_inv_def)
  then show ?thesis by (simp add: fuzz_run_target_def r)
qed

lemma cal_inv_stats:
  "cal_inv s0 (s\<lparr>run_env := e\<rparr>) = cal_inv s0 s"
  "cal_inv s0 (s\<lparr>total_cal_us := x, total_cal_cycles := y\<rparr>) = cal_inv s0 s"
  "cal_inv s0 (s\<lparr>total_bitmap_size := x, total_bitmap_entries := y\<rparr>) = cal_inv s0 s"
  "cal_inv s0 (s\<lparr>queued_with_cov := a\<rparr>) = cal_inv s0 s"
  "cal_inv s0 (s\<lparr>var_byte_count := a, queued_variable := b\<rparr>) = cal_inv s0 s"
  by (simp_all add: cal_defs queue_inv_def shape_ok_def entries_ok_def entry_ok_def
    wins_of_def)

lemma div_le_steps: "4 * ((n + 3) div 4) \<le> 8 * ((n + 7) div (8 :: nat))"
  by presburger

lemma map_fits_words:
  assumes "map_fits s"
  shows "8 * unat (drop_bit 3 (real_map_size s + 7)) \<le> unat (map_size s)"
    and "4 * unat (drop_bit 2 (real_map_size s + 3)) \<le> unat (map_size s)"
proof -
  have "unat (real_map_size s + 7) = unat (real_map_size s) + 7" "unat (real_map_size s + 3) = unat (real_map_size s) + 3"
    using assms by (simp_all add: map_fits_def unat_word_ariths)
  then show "8 * unat (drop_bit 3 (real_map_size s + 7)) \<le> unat (map_size s)"
    "4 * unat (drop_bit 2 (real_map_size s + 3)) \<le> unat (map_size s)"
    using assms div_le_steps [of "unat (real_map_size s)"] by (simp_all add: map_fits_def drop_bit_eq_div unat_div)
qed

lemma and_not_self: "(a AND NOT b) AND NOT a = (0 :: 'a::len word)"
  by (simp add: bit_eq_iff bit_simps)

lemma shrinks_clear_hits: "length c = n \<Longrightarrow> n \<le> length v \<Longrightarrow> shrinks v (clear_hits (take n v) c @ drop n v)"
  by (auto simp: shrinks_def clear_hits_def nth_append min_absorb2 and_not_self)

lemma cal_inv_virgin:
  assumes "cal_inv s0 s" and "shrinks (virgin_bits s) v"
  shows "cal_inv s0 (s\<lparr>virgin_bits := v, bitmap_changed := b\<rparr>)"
proof -
  have "queue_inv (s\<lparr>virgin_bits := v, bitmap_changed := b\<rparr>)"
    by (rule queue_inv_cong [of s]) (use assms(1) in \<open>simp_all add: cal_inv_def run_inv_def queue_inv_trace\<close>)
  then show ?thesis using assms(2) by (intro cal_inv_cong [OF assms(1)]) (simp_all add: same_setup_def)
qed

lemma has_new_bits_bits:
  assumes "run_inv s"
  shows "\<exists>r v b. has_new_bits_64 s Virgin_Bits = Some (r, s\<lparr>virgin_bits := v, bitmap_changed := b\<rparr>) \<and> shrinks (virgin_bits s) v \<and> r \<le> 2"
proof -
  let ?n = "8 * unat (drop_bit 3 (real_map_size s + 7))"
  have n: "?n \<le> length (trace_bits s)" "?n \<le> length (virgin_bits s)" "cov_ready ?n s"
    using assms map_fits_words(1) [of s] queue_inv_trace [of s] by (auto simp: run_inv_def maps_ok_def cov_ready_def)
  let ?v = "clear_hits (take ?n (virgin_bits s)) (take ?n (trace_bits s)) @ drop ?n (virgin_bits s)"
  have "shrinks (virgin_bits s) ?v" using n by (intro shrinks_clear_hits) auto
  moreover have "novelty a b \<le> 2" for a b by (simp add: novelty_def)
  moreover have "s\<lparr>virgin_bits := v\<rparr> = s\<lparr>virgin_bits := v, bitmap_changed := bitmap_changed s\<rparr>" for v by simp
  ultimately show ?thesis unfolding has_new_bits_64_spec [OF n(3)] has_new_bits_spec_def Let_def
    by (intro exI [of _ "novelty (take ?n (trace_bits s)) (take ?n (virgin_bits s))"] exI [of _ ?v]
        exI [of _ "if novelty (take ?n (trace_bits s)) (take ?n (virgin_bits s)) \<noteq> 0 then 1 else bitmap_changed s"]) simp
qed

lemma wp_note_bits_exact:
  assumes "cal_inv s0 s" and "\<And>v b n. cal_inv s0 (s\<lparr>virgin_bits := v, bitmap_changed := b\<rparr>)
      \<Longrightarrow> Q (c\<lparr>cal_new_bits := n\<rparr>, s\<lparr>virgin_bits := v, bitmap_changed := b\<rparr>)"
  shows "wp (note_bits s c) Q"
proof -
  obtain r v b where r: "has_new_bits_64 s Virgin_Bits = Some (r, s\<lparr>virgin_bits := v, bitmap_changed := b\<rparr>)" "shrinks (virgin_bits s) v"
    using has_new_bits_bits [of s] assms(1) by (auto simp: cal_inv_def)
  have c: "c = c\<lparr>cal_new_bits := cal_new_bits c\<rparr>" by simp
  have "Q (c\<lparr>cal_new_bits := n\<rparr>, s\<lparr>virgin_bits := v, bitmap_changed := b\<rparr>)" for n
    by (rule assms(2) [OF cal_inv_virgin [OF assms(1) r(2)]])
  then show ?thesis by (simp add: note_bits_def r) (metis c)
qed

lemma wp_note_bits:
  assumes "cal_inv s0 s" and "\<And>s' n. cal_inv s0 s' \<Longrightarrow> queue_buf s' = queue_buf s \<Longrightarrow> trace_bits s' = trace_bits s \<Longrightarrow> total_execs s' = total_execs s \<Longrightarrow> Q (c\<lparr>cal_new_bits := n\<rparr>, s')"
  shows "wp (note_bits s c) Q"
  by (rule wp_note_bits_exact [OF assms(1)]) (auto intro: assms(2))

lemma map_update_same: "i < length xs \<Longrightarrow> g (f (xs ! i)) = g (xs ! i) \<Longrightarrow> map g (xs[i := f (xs ! i)]) = map g xs"
  by (metis list_update_id map_update nth_map)

text \<open>Assignments to fields of an entry that are not part of the contest.\<close>

definition keeps_score :: "(queue_entry \<Rightarrow> queue_entry) \<Rightarrow> bool" where
  "keeps_score f \<longleftrightarrow> (\<forall>e. qe_tc_ref (f e) = qe_tc_ref e \<and> qe_trace_mini (f e) = qe_trace_mini e
     \<and> qe_n_fuzz_entry (f e) = qe_n_fuzz_entry e \<and> qe_len (f e) = qe_len e)"

lemma queue_inv_entry:
  assumes "queue_inv s" and "keeps_score f" and "q < length (queue_buf s)"
  shows "queue_inv (s\<lparr>queue_buf := (queue_buf s)[q := f (queue_buf s ! q)]\<rparr>)"
  using assms by (auto simp: queue_inv_def shape_ok_def entries_ok_def entry_ok_def wins_of_def keeps_score_def nth_list_update)

lemma wp_set_entry:
  assumes "cal_inv s0 s" and "keeps_score f" and "q < length (queue_buf s0)"
    and "cal_inv s0 (s\<lparr>queue_buf := (queue_buf s)[q := f (queue_buf s ! q)]\<rparr>) \<Longrightarrow> Q (s\<lparr>queue_buf := (queue_buf s)[q := f (queue_buf s ! q)]\<rparr>)"
  shows "wp (set_entry s q f) Q"
proof -
  have q: "q < length (queue_buf s)" using assms(1,3) by (simp add: cal_inv_def same_setup_def)
  have "map qe_len ((queue_buf s)[q := f (queue_buf s ! q)]) = map qe_len (queue_buf s)"
    using q assms(2) by (intro map_update_same) (simp_all add: keeps_score_def)
  moreover have "queue_inv (s\<lparr>queue_buf := (queue_buf s)[q := f (queue_buf s ! q)]\<rparr>)"
    using assms(1) by (intro queue_inv_entry [OF _ assms(2) q]) (simp add: cal_inv_def run_inv_def)
  ultimately have "cal_inv s0 (s\<lparr>queue_buf := (queue_buf s)[q := f (queue_buf s ! q)]\<rparr>)"
    by (intro cal_inv_cong [OF assms(1)]) (simp_all add: same_setup_def)
  then show ?thesis using assms(4) q by (simp add: set_entry_def)
qed

lemma cal_inv_sizes:
  assumes "cal_inv s0 s"
  shows "unat (map_size s0) \<le> length (trace_bits s)" "unat (map_size s0) \<le> length (first_trace s)" "unat (map_size s0) \<le> length (var_bytes s)"
    "unat (map_size s0) \<le> length (virgin_bits s)" "map_size s = map_size s0" "length (queue_buf s) = length (queue_buf s0)"
  using assms queue_inv_trace [of s] by (auto simp: cal_inv_def run_inv_def maps_ok_def same_setup_def)

lemma cal_inv_setup:
  assumes "cal_inv s0 s"
  shows "cal_fast s = cal_fast s0" "crash_mode s = crash_mode s0" "cmplog_mode s = cmplog_mode s0" "max_length s = max_length s0"
    "min_length s = min_length s0" "non_instrumented_mode s = non_instrumented_mode s0" "real_map_size s = real_map_size s0"
    "map_fits s" "queue_inv s" "q < length (queue_buf s0) \<Longrightarrow> qe_len (queue_buf s ! q) = qe_len (queue_buf s0 ! q)"
proof -
  have len: "length (queue_buf s) = length (queue_buf s0)" "map qe_len (queue_buf s) = map qe_len (queue_buf s0)"
    using assms by (simp_all add: cal_inv_def same_setup_def)
  then show "q < length (queue_buf s0) \<Longrightarrow> qe_len (queue_buf s ! q) = qe_len (queue_buf s0 ! q)" by (metis nth_map)
qed (use assms in \<open>simp_all add: cal_inv_def run_inv_def maps_ok_def same_setup_def\<close>)

lemma cal_inv_first:
  assumes "cal_inv s0 s" and "length m = length (first_trace s)"
  shows "cal_inv s0 (s\<lparr>first_trace := m\<rparr>)"
proof -
  have "queue_inv (s\<lparr>first_trace := m\<rparr>)"
    by (rule queue_inv_cong [of s]) (use assms(1) in \<open>simp_all add: cal_inv_def run_inv_def queue_inv_trace\<close>)
  with assms(2) show ?thesis by (intro cal_inv_cong [OF assms(1)]) (simp_all add: same_setup_def)
qed

lemma wp_save_first:
  assumes "cal_inv s0 s" and "\<And>m. length m = length (first_trace s) \<Longrightarrow> take (unat (map_size s0)) m = take (unat (map_size s0)) (trace_bits s)
      \<Longrightarrow> cal_inv s0 (s\<lparr>first_trace := m\<rparr>) \<Longrightarrow> Q (s\<lparr>first_trace := m\<rparr>)"
  shows "wp (save_first s) Q"
  unfolding save_first_def wp_bind
  by (intro wp_read_block wp_memcpy_at)
     (use cal_inv_sizes [OF assms(1)] in \<open>auto simp: upd_at_def intro!: assms(2) cal_inv_first [OF assms(1)]\<close>)

lemma cal_inv_mark:
  assumes "cal_inv s0 s" and "i < unat (map_size s0)"
  shows "cal_inv s0 (s\<lparr>var_bytes := (var_bytes s)[i := 1], virgin_bits := (virgin_bits s)[i := 0]\<rparr>)"
proof -
  have "queue_inv (s\<lparr>var_bytes := (var_bytes s)[i := 1], virgin_bits := (virgin_bits s)[i := 0]\<rparr>)"
    by (rule queue_inv_cong [of s]) (use assms(1) in \<open>simp_all add: cal_inv_def run_inv_def queue_inv_trace\<close>)
  moreover have "shrinks (virgin_bits s) ((virgin_bits s)[i := 0])"
    using cal_inv_sizes(4) [OF assms(1)] assms(2) by (auto simp: shrinks_def nth_list_update)
  ultimately show ?thesis using cal_inv_sizes [OF assms(1)] assms(2)
    by (intro cal_inv_cong [OF assms(1)]) (auto simp: same_setup_def nth_list_update split: if_splits)
qed

text \<open>Marking variable bytes: a byte is new among them only if the traces differ there.\<close>

definition marked :: "('e, 'z) afl_run_scheme \<Rightarrow> nat \<Rightarrow> ('e, 'z) afl_run_scheme \<Rightarrow> bool" where
  "marked s n s' \<longleftrightarrow> queue_buf s' = queue_buf s \<and> trace_bits s' = trace_bits s \<and> first_trace s' = first_trace s
     \<and> total_execs s' = total_execs s \<and> length (var_bytes s') = length (var_bytes s)
     \<and> (\<forall>i<length (var_bytes s). var_bytes s' ! i =
          (if i < n \<and> var_bytes s ! i = 0 \<and> first_trace s ! i \<noteq> trace_bits s ! i then 1 else var_bytes s ! i))"

lemma wp_mark_variable:
  assumes "cal_inv s0 s'" and "marked s i s'" and "i < unat (map_size s0)"
  shows "wp (mark_variable i s') (\<lambda>s''. cal_inv s0 s'' \<and> marked s (Suc i) s'')"
proof -
  have i: "i < length (var_bytes s')" "i < length (first_trace s')" "i < length (trace_bits s')" "i < length (virgin_bits s')"
    using cal_inv_sizes [OF assms(1)] assms(3) by auto
  have v: "var_bytes s' ! i = var_bytes s ! i" using assms(2) i(1) by (simp add: marked_def)
  consider "var_bytes s ! i \<noteq> 0" | "var_bytes s ! i = 0" "first_trace s ! i = trace_bits s ! i"
    | "var_bytes s ! i = 0" "first_trace s ! i \<noteq> trace_bits s ! i" by blast
  then show ?thesis
  proof cases
    case 1
    then show ?thesis using assms i v by (auto simp: mark_variable_def marked_def less_Suc_eq)
  next
    case 2
    then show ?thesis using assms i v by (auto simp: mark_variable_def marked_def less_Suc_eq)
  next
    case 3
    then have "mark_variable i s' = Some (s'\<lparr>var_bytes := (var_bytes s')[i := 1], virgin_bits := (virgin_bits s')[i := 0]\<rparr>)"
      using assms(2) i v by (simp add: mark_variable_def marked_def)
    moreover have "marked s (Suc i) (s'\<lparr>var_bytes := (var_bytes s')[i := 1], virgin_bits := (virgin_bits s')[i := 0]\<rparr>)"
      using assms(2) i 3 by (auto simp: marked_def nth_list_update less_Suc_eq)
    ultimately show ?thesis using cal_inv_mark [OF assms(1,3)] by simp
  qed
qed

lemma wp_mark_all:
  assumes "cal_inv s0 s" and "\<And>s'. cal_inv s0 s' \<Longrightarrow> marked s (unat (map_size s0)) s' \<Longrightarrow> Q s'"
  shows "wp (for_range 0 (unat (map_size s)) mark_variable s) Q"
proof -
  have "cal_inv s0 s \<and> marked s 0 s" using assms(1) by (simp add: marked_def)
  from for_range_rule [of "\<lambda>i s'. cal_inv s0 s' \<and> marked s i s'", OF this, of "unat (map_size s)" mark_variable]
  show ?thesis using wp_mark_variable [of s0 _ s] cal_inv_sizes(5) [OF assms(1)] assms(2) by (auto simp: wp_iff)
qed

section \<open>A round\<close>

definition classed :: "nat \<Rightarrow> mem \<Rightarrow> mem" where
  "classed k t = map count_class_lookup8 (take (8 * (k div 8)) t) @ drop (8 * (k div 8)) t"

lemma length_classed [simp]: "length (classed k t) = length t"
  by (simp add: classed_def)

lemma wp_classify:
  assumes "cal_inv s0 s" and "cal_inv s0 (s\<lparr>trace_bits := classed (unat (map_size s0)) (trace_bits s)\<rparr>)
      \<Longrightarrow> Q (s\<lparr>trace_bits := classed (unat (map_size s0)) (trace_bits s)\<rparr>)"
  shows "wp (classify_counts_64 s) Q"
proof -
  let ?s = "s\<lparr>trace_bits := classed (unat (map_size s0)) (trace_bits s)\<rparr>"
  have k: "8 * unat (drop_bit 3 (map_size s)) = 8 * (unat (map_size s0) div 8)" using cal_inv_sizes(5) [OF assms(1)]
    by (simp add: drop_bit_eq_div unat_div)
  have "8 * unat (drop_bit 3 (map_size s)) \<le> length (trace_bits s)" unfolding k using cal_inv_sizes(1) [OF assms(1)] by linarith
  then have "classify_counts_64 s = Some ?s"
    using classify_counts_64_bytes [of s, unfolded k] assms(1) k by (simp add: cal_inv_def run_inv_def maps_ok_def classed_def)
  moreover have "queue_inv ?s"
    by (rule queue_inv_cong [of s]) (use assms(1) cal_inv_sizes [OF assms(1)] in \<open>simp_all add: cal_inv_def run_inv_def\<close>)
  then have "cal_inv s0 ?s" by (intro cal_inv_cong [OF assms(1)]) (simp_all add: same_setup_def)
  ultimately show ?thesis using assms(2) by simp
qed

lemma wp_hash_trace: "cal_inv s0 s \<Longrightarrow> Q (op_hash ops (take (unat (map_size s0)) (trace_bits s))) \<Longrightarrow> wp (hash_trace ops s) Q"
  unfolding hash_trace_def wp_map_option by (rule wp_read_block) (use cal_inv_sizes [of s0 s] in simp_all)

lemma keeps_score_cksum [simp]: "keeps_score (\<lambda>e. e\<lparr>qe_exec_cksum := x\<rparr>)"
  by (simp add: keeps_score_def)

text \<open>What a round does to the entry and to the locals.\<close>

definition rounds :: "nat \<Rightarrow> ('e, 'z) afl_run_scheme \<Rightarrow> cal \<Rightarrow> ('e, 'z) afl_run_scheme \<Rightarrow> cal \<Rightarrow> ('e, 'z) afl_run_scheme \<Rightarrow> bool" where
  "rounds q s0 c s c' s' \<longleftrightarrow> cal_inv s0 s' \<and> (\<exists>x. queue_buf s' ! q = (queue_buf s ! q)\<lparr>qe_exec_cksum := x\<rparr>)
     \<and> (cal_max c' = cal_max c \<or> cal_max c' = (if cal_fast s0 then CAL_CYCLES else CAL_CYCLES_LONG))"

lemma rounds_refl: "cal_inv s0 s \<Longrightarrow> rounds q s0 c s c s"
  by (auto simp: rounds_def intro!: exI [of _ "qe_exec_cksum (queue_buf s ! q)"])

lemma rounds_trans: "rounds q s0 c s c1 s1 \<Longrightarrow> rounds q s0 c1 s1 c2 s2 \<Longrightarrow> rounds q s0 c s c2 s2"
  by (auto simp: rounds_def)

lemma wp_cal_compare:
  assumes inv: "cal_inv s0 s" and q: "q < length (queue_buf s0)"
  shows "wp (cal_compare ops q c s) (\<lambda>(c', s'). rounds q s0 c s c' s' \<and> total_execs s' = total_execs s)"
proof -
  let ?t = "classed (unat (map_size s0)) (trace_bits s)"
  let ?s = "s\<lparr>trace_bits := ?t\<rparr>" and ?h = "op_hash ops (take (unat (map_size s0)) ?t)"
  let ?Q = "\<lambda>(c', s'). rounds q s0 c s c' s' \<and> total_execs s' = total_execs s"
  have ql: "q < length (queue_buf s)" using q cal_inv_sizes(6) [OF inv] by simp
  have entry: "\<exists>x. queue_buf s ! q = (queue_buf s ! q)\<lparr>qe_exec_cksum := x\<rparr>" by (rule exI [of _ "qe_exec_cksum (queue_buf s ! q)"]) simp
  have mark: "wp (for_range 0 (unat (map_size s')) mark_variable s')
      (\<lambda>s''. rounds q s0 c s (c\<lparr>cal_new_bits := n, cal_var := True, cal_max := (if cal_fast s'' then CAL_CYCLES else CAL_CYCLES_LONG)\<rparr>) s''
        \<and> total_execs s'' = total_execs s)"
    if "cal_inv s0 s'" "queue_buf s' = queue_buf s" "total_execs s' = total_execs s" for s' n
    by (rule wp_mark_all [OF that(1)]) (use that entry in \<open>simp add: rounds_def marked_def cal_inv_setup\<close>)
  have first: "wp (set_entry s' q (\<lambda>e. e\<lparr>qe_exec_cksum := ?h\<rparr>)) (\<lambda>s'. wp (save_first s')
      (\<lambda>s'. rounds q s0 c s (c\<lparr>cal_new_bits := n\<rparr>) s' \<and> total_execs s' = total_execs s))"
    if "cal_inv s0 s'" "queue_buf s' = queue_buf s" "total_execs s' = total_execs s" for s' n
    by (rule wp_set_entry [OF that(1) _ q], simp, rule wp_save_first) (use that ql in \<open>auto simp: rounds_def\<close>)
  show ?thesis unfolding cal_compare_def wp_bind
  proof (rule wp_classify [OF inv])
    assume s: "cal_inv s0 ?s"
    show "wp (hash_trace ops ?s) (\<lambda>cksum. wp (load8 (queue_buf ?s) q) (\<lambda>e. wp
        (if qe_exec_cksum e \<noteq> cksum then do {
           (c, s) \<leftarrow> note_bits ?s c;
           if qe_exec_cksum e \<noteq> 0 then do {
             s \<leftarrow> for_range 0 (unat (map_size s)) mark_variable s;
             Some (c\<lparr>cal_var := True, cal_max := (if cal_fast s then CAL_CYCLES else CAL_CYCLES_LONG)\<rparr>, s) }
           else do {
             s \<leftarrow> set_entry s q (\<lambda>e. e\<lparr>qe_exec_cksum := cksum\<rparr>);
             s \<leftarrow> save_first s;
             Some (c, s) } }
         else Some (c, ?s)) ?Q))"
      apply (rule wp_hash_trace [OF s], rule wp_load8, simp add: ql, rule wp_if, unfold wp_bind, rule wp_note_bits [OF s],
          unfold prod.case, rule wp_if, unfold wp_bind wp_Some prod.case)
      subgoal for s' n using mark [of s' n] by simp
      subgoal for s' n using first [of s' n] by simp
      subgoal using s entry unfolding rounds_def by simp
      done
  qed
qed

text \<open>Some run cannot be executed.\<close>

definition run_errors :: "'e run_ops \<Rightarrow> bool" where
  "run_errors ops \<longleftrightarrow> (\<exists>tmout bs e. fst (op_run ops tmout bs e) = FSRV_RUN_ERROR)"

definition input_fits :: "('e, 'z) afl_run_scheme \<Rightarrow> nat \<Rightarrow> mem \<Rightarrow> bool" where
  "input_fits s q m \<longleftrightarrow> q < length (queue_buf s) \<and> min (unat (qe_len (queue_buf s ! q))) (max_length s) \<le> length m"

lemma wp_count_bytes:
  assumes "map_fits s" and "unat (map_size s) \<le> length m" and "\<And>n. Q n"
  shows "wp (count_bytes s m) Q"
  using count_bytes_correct [of s m] map_fits_words(2) [OF assms(1)] assms(2,3) by simp

lemma wp_write_fix:
  assumes "cal_inv s0 s" and "input_fits s0 q m"
    and "\<And>bs. bs = take (min (unat (qe_len (queue_buf s0 ! q))) (max_length s0)) m \<Longrightarrow> Q (bs, length bs)"
  shows "wp (write_to_testcase s m (unat (qe_len (queue_buf s ! q))) True) Q"
proof -
  let ?n = "min (unat (qe_len (queue_buf s0 ! q))) (max_length s0)"
  have n: "?n \<le> length m" "(if unat (qe_len (queue_buf s ! q)) > max_length s then max_length s else unat (qe_len (queue_buf s ! q))) = ?n"
    using assms(2) cal_inv_setup(4,10) [OF assms(1)] by (auto simp: input_fits_def)
  have "write_to_testcase s m (unat (qe_len (queue_buf s ! q))) True = Some (take ?n m, ?n)"
    unfolding write_to_testcase_def Let_def using n by (simp add: read_block_def)
  moreover have "length (take ?n m) = ?n" using n(1) by simp
  ultimately show ?thesis using assms(3) [OF refl] by simp
qed

lemma wp_cal_run:
  assumes inv: "cal_inv s0 s" and ops: "full_traces ops (unat (map_size s0))" and m: "input_fits s0 q m"
  shows "wp (cal_run ops q m tmout first s) (\<lambda>(abort, fault, s'). cal_inv s0 s' \<and> queue_buf s' = queue_buf s \<and> total_execs s' = total_execs s + 1
     \<and> (abort = None \<longrightarrow> fault = crash_mode s0) \<and> (abort = Some FSRV_RUN_ERROR \<longrightarrow> run_errors ops))"
proof -
  have q: "q < length (queue_buf s)" using m cal_inv_sizes(6) [OF inv] by (simp add: input_fits_def)
  show ?thesis unfolding cal_run_def wp_bind
  proof (rule wp_load8 [OF q], rule wp_write_fix [OF inv m])
    fix bs
    obtain fault s' where r: "fuzz_run_target ops tmout bs s = (fault, s')" by (cases "fuzz_run_target ops tmout bs s")
    have s': "cal_inv s0 s'" using cal_inv_run [OF inv ops, of tmout bs] r by simp
    have same: "queue_buf s' = queue_buf s" "total_execs s' = total_execs s + 1"
      using r by (auto simp: fuzz_run_target_def split: prod.splits)
    have err: "fault = FSRV_RUN_ERROR \<longrightarrow> run_errors ops"
      using r by (auto simp: run_errors_def fuzz_run_target_def split: prod.splits intro!: exI [of _ tmout] exI [of _ bs] exI [of _ "run_env s"])
    have "wp (count_bytes s' (trace_bits s')) (\<lambda>n. True)"
      using cal_inv_setup(8) [OF s'] cal_inv_sizes(1,5) [OF s'] by (intro wp_count_bytes) simp_all
    then obtain n where "count_bytes s' (trace_bits s') = Some n" by (auto simp: wp_iff)
    then show "wp (case (bs, length bs) of (bs, _) \<Rightarrow> let (fault, s) = fuzz_run_target ops tmout bs s
        in if stop_soon s \<or> fault \<noteq> crash_mode s then Some (Some fault, fault, s)
          else if \<not> non_instrumented_mode s \<and> first then do {
            n \<leftarrow> count_bytes s (trace_bits s);
            Some (if n = 0 then Some FSRV_RUN_NOINST else None, fault, s) }
          else Some (None, fault, s))
        (\<lambda>(abort, fault, s'). cal_inv s0 s' \<and> queue_buf s' = queue_buf s \<and> total_execs s' = total_execs s + 1
          \<and> (abort = None \<longrightarrow> fault = crash_mode s0) \<and> (abort = Some FSRV_RUN_ERROR \<longrightarrow> run_errors ops))"
      using s' same cal_inv_setup(2) [OF s'] err by (simp add: r)
  qed
qed

lemma wp_cal_loop:
  assumes "cal_inv s0 s" and ops: "full_traces ops (unat (map_size s0))" and m: "input_fits s0 q m"
    and M: "M = (if cal_fast s0 then CAL_CYCLES else CAL_CYCLES_LONG)" and "cal_max c \<le> M" and "fault = crash_mode s0 \<or> cur < cal_max c"
  shows "wp (cal_loop ops q m tmout cur fault c s) (\<lambda>(abort, fault, c', s'). rounds q s0 c s c' s' \<and> cal_max c' \<le> M
     \<and> total_execs s' \<le> total_execs s + (M - cur) \<and> (abort = None \<longrightarrow> fault = crash_mode s0)
     \<and> (abort = Some FSRV_RUN_ERROR \<longrightarrow> run_errors ops))"
  using assms(1,5,6)
proof (induction "M - cur" arbitrary: cur s c fault)
  case 0
  then show ?case by (subst cal_loop.simps) (simp add: rounds_refl)
next
  case (Suc k)
  show ?case
  proof (cases "cur < cal_max c")
    case False
    then show ?thesis using Suc.prems by (subst cal_loop.simps) (simp add: rounds_refl)
  next
    case True
    then have "cur < M" using Suc.prems by simp
    let ?Q = "\<lambda>(abort, fault, c', s'). rounds q s0 c s c' s' \<and> cal_max c' \<le> M
      \<and> total_execs s' \<le> total_execs s + (M - cur) \<and> (abort = None \<longrightarrow> fault = crash_mode s0)
      \<and> (abort = Some FSRV_RUN_ERROR \<longrightarrow> run_errors ops)"
    have "wp (cal_run ops q m tmout (cur = 0) s) (\<lambda>(abort, fault, s1). wp (if abort \<noteq> None then Some (abort, fault, c, s1)
        else do { (c1, s2) \<leftarrow> cal_compare ops q c s1; cal_loop ops q m tmout (cur + 1) fault c1 s2 }) ?Q)"
    proof (rule wp_mono [OF wp_cal_run [OF Suc.prems(1) ops m]], clarify)
      fix abort :: "fault option" and fault and s1 :: "('a, 'b) afl_run_scheme"
      assume s1: "cal_inv s0 s1" "queue_buf s1 = queue_buf s" "total_execs s1 = total_execs s + 1" "abort = None \<longrightarrow> fault = crash_mode s0"
        "abort = Some FSRV_RUN_ERROR \<longrightarrow> run_errors ops"
      have r1: "rounds q s0 c s c s1" using rounds_refl [OF s1(1), of q c] s1(2) by (simp add: rounds_def)
      have "wp (cal_loop ops q m tmout (cur + 1) fault c1 s2) ?Q"
        if "abort = None" "rounds q s0 c s1 c1 s2" "total_execs s2 = total_execs s1" for c1 s2
      proof -
        have "cal_max c1 \<le> M" using that(2) Suc.prems(2) M by (auto simp: rounds_def)
        then have "wp (cal_loop ops q m tmout (cur + 1) fault c1 s2) (\<lambda>(abort, fault, c', s'). rounds q s0 c1 s2 c' s' \<and> cal_max c' \<le> M
          \<and> total_execs s' \<le> total_execs s2 + (M - (cur + 1)) \<and> (abort = None \<longrightarrow> fault = crash_mode s0)
          \<and> (abort = Some FSRV_RUN_ERROR \<longrightarrow> run_errors ops))"
          using that s1(4) Suc.hyps(2) by (intro Suc.hyps(1)) (auto simp: rounds_def)
        then show ?thesis
          by (rule wp_mono) (use rounds_trans [OF rounds_trans [OF r1 that(2)]] that(3) s1(3) \<open>cur < M\<close> in auto)
      qed
      then have "wp (cal_compare ops q c s1) (\<lambda>(c1, s2). wp (cal_loop ops q m tmout (cur + 1) fault c1 s2) ?Q)" if "abort = None"
        using that m by (intro wp_mono [OF wp_cal_compare [OF s1(1)]]) (auto simp: input_fits_def)
      then show "wp (if abort \<noteq> None then Some (abort, fault, c, s1)
          else do { (c1, s2) \<leftarrow> cal_compare ops q c s1; cal_loop ops q m tmout (cur + 1) fault c1 s2 }) ?Q"
        using r1 s1(3,4,5) Suc.prems(2) \<open>cur < M\<close> by auto
    qed
    then show ?thesis using True by (subst cal_loop.simps) (simp add: split_def)
  qed
qed

section \<open>The rest of a calibration\<close>

lemma scored_entry:
  assumes "scored q s s'" and "w < length (queue_buf s)"
  shows "\<exists>r m. queue_buf s' ! w = (queue_buf s ! w)\<lparr>qe_tc_ref := r, qe_trace_mini := m\<rparr>"
  using assms unfolding scored_def rescored_def by blast

lemma cal_inv_scored:
  assumes "cal_inv s0 s" and "queue_inv s'" and "scored q s s'"
  shows "cal_inv s0 s'"
proof -
  have eq: "s' = s\<lparr>queue_buf := queue_buf s', top_rated := top_rated s', score_changed := score_changed s'\<rparr>"
    and len: "length (queue_buf s') = length (queue_buf s)"
    using assms(3) unfolding scored_def by blast+
  have "qe_len (queue_buf s' ! w) = qe_len (queue_buf s ! w)" if "w < length (queue_buf s)" for w
    using scored_entry [OF assms(3) that] by auto
  then have "map qe_len (queue_buf s') = map qe_len (queue_buf s)" using len by (intro nth_equalityI) simp_all
  moreover obtain b t c where "s' = s\<lparr>queue_buf := b, top_rated := t, score_changed := c\<rparr>" using eq by blast
  ultimately show ?thesis using assms(2) len by (intro cal_inv_cong [OF assms(1)]) (simp_all add: same_setup_def)
qed

lemma wp_update_bitmap_score:
  assumes "cal_inv s0 s" and "q < length (queue_buf s0)"
    and "\<And>s' r m. cal_inv s0 s' \<Longrightarrow> queue_buf s' ! q = (queue_buf s ! q)\<lparr>qe_tc_ref := r, qe_trace_mini := m\<rparr> \<Longrightarrow> total_execs s' = total_execs s
      \<Longrightarrow> var_bytes s' = var_bytes s \<Longrightarrow> queued_variable s' = queued_variable s \<Longrightarrow> trace_bits s' = trace_bits s \<Longrightarrow> Q s'"
  shows "wp (update_bitmap_score s q True) Q"
proof -
  have q: "q < length (queue_buf s)" using assms(2) cal_inv_sizes(6) [OF assms(1)] by simp
  obtain s' where s': "update_bitmap_score s q True = Some s'" "queue_inv s'" "scored q s s'"
    using update_bitmap_score_spec [OF cal_inv_setup(9) [OF assms(1)] q] by blast
  obtain r m where "queue_buf s' ! q = (queue_buf s ! q)\<lparr>qe_tc_ref := r, qe_trace_mini := m\<rparr>" using scored_entry [OF s'(3) q] by blast
  moreover have "s' = s\<lparr>queue_buf := queue_buf s', top_rated := top_rated s', score_changed := score_changed s'\<rparr>"
    using s'(3) unfolding scored_def by blast
  then obtain b t c where "s' = s\<lparr>queue_buf := b, top_rated := t, score_changed := c\<rparr>" by blast
  then have "total_execs s' = total_execs s" "var_bytes s' = var_bytes s" "queued_variable s' = queued_variable s" "trace_bits s' = trace_bits s"
    by simp_all
  ultimately show ?thesis using s' assms(3) cal_inv_scored [OF assms(1) s'(2,3)] by simp
qed

lemma keeps_score_cal [simp]:
  "keeps_score (\<lambda>e. e\<lparr>qe_exec_us := a, qe_bitmap_size := b, qe_handicap := c, qe_cal_failed := d\<rparr>)"
  "keeps_score (\<lambda>e. e\<lparr>qe_has_new_cov := x\<rparr>)" "keeps_score (\<lambda>e. e\<lparr>qe_exec_cksum := g e, qe_cal_failed := qe_cal_failed e + 1\<rparr>)"
  by (simp_all add: keeps_score_def)

definition nonzero_bytes :: "'z afl_cov_scheme \<Rightarrow> mem \<Rightarrow> nat" where
  "nonzero_bytes s m = length (filter (\<lambda>b. b \<noteq> 0) (take (4 * unat (drop_bit 2 (real_map_size s + 3))) m))"

lemma wp_count_map:
  assumes "cal_inv s0 s" and "unat (map_size s0) \<le> length m"
    and "Q (of_nat (nonzero_bytes s0 m))"
  shows "wp (count_bytes s m) Q"
  unfolding nonzero_bytes_def
  using count_bytes_correct [of s m] map_fits_words(2) [OF cal_inv_setup(8) [OF assms(1)]] cal_inv_sizes(5) [OF assms(1)]
    cal_inv_setup(7) [OF assms(1)] assms(2) assms(3) [unfolded nonzero_bytes_def] by simp

text \<open>The entry after a good calibration.\<close>

definition calibrated :: "queue_entry \<Rightarrow> queue_entry \<Rightarrow> bool" where
  "calibrated e e' \<longleftrightarrow> qe_cal_failed e' = 0 \<and> qe_exec_us e' \<noteq> 0 \<and> qe_exec_cksum e' = qe_exec_cksum e
     \<and> qe_has_new_cov e' = qe_has_new_cov e \<and> qe_var_behavior e' = qe_var_behavior e"

lemma wp_cal_score:
  assumes inv: "cal_inv s0 s" and q: "q < length (queue_buf s0)"
  shows "wp (cal_score ops q handicap start_us c s) (\<lambda>s'. cal_inv s0 s' \<and> total_execs s' = total_execs s \<and> var_bytes s' = var_bytes s
     \<and> queued_variable s' = queued_variable s \<and> trace_bits s' = trace_bits s \<and> calibrated (queue_buf s ! q) (queue_buf s' ! q)
     \<and> qe_bitmap_size (queue_buf s' ! q) = of_nat (nonzero_bytes s0 (trace_bits s)))"
proof -
  let ?d = "(if fixed_seed s then (ucast (exec_tmout s - 1) * word_of_nat (cal_max c), s)
        else case get_time ops s of (stop_us, s) \<Rightarrow> (let d = stop_us - start_us in if d = 0 then 1 else d, s)) :: u64 \<times> ('a, 'b) afl_run_scheme"
  obtain us s1 where d: "?d = (us, s1)" by (cases ?d)
  have "s1 = s\<lparr>run_env := (if fixed_seed s then run_env s else snd (op_time ops (run_env s)))\<rparr>"
    using d by (simp add: get_time_def split_def split: if_splits)
  then have s1: "cal_inv s0 s1" "queue_buf s1 = queue_buf s" "total_execs s1 = total_execs s" "var_bytes s1 = var_bytes s"
    "queued_variable s1 = queued_variable s" "trace_bits s1 = trace_bits s"
    using inv by (simp_all add: cal_inv_stats)
  have ql: "q < length (queue_buf s)" using q cal_inv_sizes(6) [OF inv] by simp
  let ?s2 = "s1\<lparr>total_cal_us := total_cal_us s1 + us, total_cal_cycles := total_cal_cycles s1 + word_of_nat (cal_max c)\<rparr>"
  have s2: "cal_inv s0 ?s2" using s1 by (simp add: cal_inv_stats)
  show ?thesis unfolding cal_score_def Let_def d [unfolded Let_def] prod.case wp_bind
    apply (rule wp_count_map [OF s2], use cal_inv_sizes [OF s2] in simp)
    apply (rule wp_set_entry [OF s2 _ q], simp)
    apply (rule wp_update_bitmap_score [where ?s0.0 = s0 and q = q], subst cal_inv_stats, assumption, rule q)
    apply (use s1 ql in \<open>simp add: calibrated_def\<close>)
    done
qed

lemma wp_cal_finish:
  assumes inv: "cal_inv s0 s" and q: "q < length (queue_buf s0)"
  shows "wp (cal_finish q c s) (\<lambda>s'. cal_inv s0 s' \<and> total_execs s' = total_execs s \<and> var_bytes s' = var_bytes s \<and> trace_bits s' = trace_bits s
     \<and> queue_buf s' ! q = (queue_buf s ! q)\<lparr>qe_has_new_cov := (cal_new_bits c = 2 \<or> qe_has_new_cov (queue_buf s ! q))\<rparr>
     \<and> queued_with_cov s' = (if cal_new_bits c = 2 \<and> \<not> qe_has_new_cov (queue_buf s ! q) then queued_with_cov s + 1 else queued_with_cov s)
     \<and> queued_variable s' = (if cal_var c \<and> \<not> qe_var_behavior (queue_buf s ! q) then queued_variable s + 1 else queued_variable s))"
proof -
  have ql: "q < length (queue_buf s)" using q cal_inv_sizes(6) [OF inv] by simp
  have "wp (if cal_new_bits c = 2 \<and> \<not> qe_has_new_cov (queue_buf s ! q) then do {
         s \<leftarrow> set_entry s q (\<lambda>e. e\<lparr>qe_has_new_cov := True\<rparr>);
         Some (s\<lparr>queued_with_cov := queued_with_cov s + 1\<rparr>) }
       else Some s) (\<lambda>s'. cal_inv s0 s' \<and> total_execs s' = total_execs s \<and> var_bytes s' = var_bytes s \<and> trace_bits s' = trace_bits s
     \<and> queue_buf s' ! q = (queue_buf s ! q)\<lparr>qe_has_new_cov := (cal_new_bits c = 2 \<or> qe_has_new_cov (queue_buf s ! q))\<rparr>
     \<and> queued_with_cov s' = (if cal_new_bits c = 2 \<and> \<not> qe_has_new_cov (queue_buf s ! q) then queued_with_cov s + 1 else queued_with_cov s)
     \<and> queued_variable s' = queued_variable s)"
    unfolding wp_bind wp_Some
    apply (rule wp_if, unfold wp_bind wp_Some, rule wp_set_entry [OF inv _ q], simp)
    subgoal using ql by (simp add: cal_inv_stats)
    subgoal using inv by (cases "cal_new_bits c = 2") simp_all
    done
  then show ?thesis unfolding cal_finish_def wp_bind
    apply (intro wp_load8 [OF ql])
    apply (erule wp_mono)
    subgoal for s'
      apply (rule wp_if, unfold wp_bind wp_Some)
      subgoal by (rule wp_count_map [of s0 s']) (use cal_inv_sizes(3) [of s0 s'] in \<open>auto simp: cal_inv_stats\<close>)
      subgoal by simp
      done
    done
qed

definition kept_flags :: "queue_entry \<Rightarrow> queue_entry \<Rightarrow> bool" where
  "kept_flags e e' \<longleftrightarrow> qe_var_behavior e' = qe_var_behavior e \<and> (qe_has_new_cov e \<longrightarrow> qe_has_new_cov e')"

text \<open>The outcome of a calibration of entry \<open>q\<close> with at most \<open>n\<close> runs.\<close>

definition cal_post :: "'e run_ops \<Rightarrow> nat \<Rightarrow> nat \<Rightarrow> ('e, 'z) afl_run_scheme \<Rightarrow> fault \<Rightarrow> ('e, 'z) afl_run_scheme \<Rightarrow> bool" where
  "cal_post ops q n s0 fault s \<longleftrightarrow> (fault = FSRV_RUN_ERROR \<longrightarrow> run_errors ops \<or> crash_mode s0 = FSRV_RUN_ERROR) \<and> cal_inv s0 s \<and> total_execs s \<le> total_execs s0 + n
     \<and> kept_flags (queue_buf s0 ! q) (queue_buf s ! q)
     \<and> (qe_cal_failed (queue_buf s ! q) = qe_cal_failed (queue_buf s0 ! q) + 1
        \<or> qe_cal_failed (queue_buf s ! q) = 0 \<and> qe_exec_us (queue_buf s ! q) \<noteq> 0 \<and> fault \<in> {crash_mode s0, FSRV_RUN_NOBITS})"

definition cal_runs :: "('e, 'z) afl_run_scheme \<Rightarrow> nat" where
  "cal_runs s = (if cmplog_mode s then 1 else 0) + (if cal_fast s then CAL_CYCLES else CAL_CYCLES_LONG)"

lemma wp_cal_main:
  assumes inv: "cal_inv s0 s" and ops: "full_traces ops (unat (map_size s0))" and m: "input_fits s0 q m"
    and failed: "qe_cal_failed (queue_buf s ! q) = qe_cal_failed (queue_buf s0 ! q) + 1"
    and vb: "kept_flags (queue_buf s0 ! q) (queue_buf s ! q)" and x: "total_execs s \<le> total_execs s0 + x"
    and c: "cal_max c = (if cal_fast s0 then CAL_CYCLES_FAST else CAL_CYCLES)"
  shows "wp (cal_main ops q m handicap tmout first_run fault c s)
    (\<lambda>(fault, c, s). cal_post ops q (x + (if cal_fast s0 then CAL_CYCLES else CAL_CYCLES_LONG)) s0 fault s)"
proof -
  let ?M = "if cal_fast s0 then CAL_CYCLES else CAL_CYCLES_LONG"
  let ?Q = "\<lambda>(fault, c, s). cal_post ops q (x + ?M) s0 fault s"
  have q: "q < length (queue_buf s0)" "q < length (queue_buf s)" using m cal_inv_sizes(6) [OF inv] by (simp_all add: input_fits_def)
  have cM: "cal_max c \<le> ?M" "0 < cal_max c" using c by (simp_all add: CAL_CYCLES_FAST_def CAL_CYCLES_def CAL_CYCLES_LONG_def)
  let ?score = "\<lambda>start_us (abort, fault, c, s). case abort of
              Some fault \<Rightarrow> Some (fault, c, s)
            | None \<Rightarrow> do {
                s \<leftarrow> cal_score ops q handicap start_us c s;
                Some (if \<not> non_instrumented_mode s \<and> first_run \<and> fault = FSRV_RUN_OK \<and> cal_new_bits c = 0
                  then FSRV_RUN_NOBITS else fault, c, s) }"
  have score: "wp (?score start_us (abort, fault, c', s')) ?Q"
    if "cal_inv s0 s'" "qe_cal_failed (queue_buf s' ! q) = qe_cal_failed (queue_buf s0 ! q) + 1
      \<and> kept_flags (queue_buf s0 ! q) (queue_buf s' ! q)" "total_execs s' \<le> total_execs s0 + (x + ?M)"
      "abort = None \<longrightarrow> fault = crash_mode s0" "abort = Some FSRV_RUN_ERROR \<longrightarrow> run_errors ops" for start_us abort fault c' s'
  proof (cases abort)
    case None
    show ?thesis unfolding None prod.case option.case wp_bind
      by (rule wp_mono [OF wp_cal_score [OF that(1) q(1)]]) (use that None in \<open>auto simp: cal_post_def calibrated_def kept_flags_def\<close>)
  qed (use that in \<open>simp add: cal_post_def\<close>)
  have loop: "wp (case get_time ops s1 of (start_us, s) \<Rightarrow> Option.bind (cal_loop ops q m tmout 0 fault c1 s) (?score start_us)) ?Q"
    if s1: "cal_inv s0 s1" "queue_buf s1 = queue_buf s" "total_execs s1 = total_execs s" "cal_max c1 = cal_max c" for c1 s1
  proof -
    obtain t e where t: "get_time ops s1 = (t, s1\<lparr>run_env := e\<rparr>)" by (cases "op_time ops (run_env s1)") (simp add: get_time_def)
    have "wp (cal_loop ops q m tmout 0 fault c1 (s1\<lparr>run_env := e\<rparr>)) (\<lambda>x. wp (?score t x) ?Q)"
      apply (rule wp_mono [OF wp_cal_loop [OF _ ops m refl]])
      subgoal using s1 by (simp add: cal_inv_stats)
      subgoal using s1 cM by simp
      subgoal using s1 cM by simp
      subgoal for y using score [of "snd (snd (snd y))" "fst y" "fst (snd y)" t "fst (snd (snd y))"] s1 failed vb x
        by (auto simp: rounds_def kept_flags_def)
      done
    then show ?thesis unfolding t prod.case wp_bind .
  qed
  have noted: "wp (if qe_exec_cksum (queue_buf s ! q) \<noteq> 0 then do { s \<leftarrow> save_first s; note_bits s c } else Some (c, s))
      (\<lambda>(c1, s1). cal_inv s0 s1 \<and> queue_buf s1 = queue_buf s \<and> total_execs s1 = total_execs s \<and> cal_max c1 = cal_max c)"
    by (rule wp_if, unfold wp_bind, rule wp_save_first [OF inv], rule wp_note_bits) (use inv in auto)
  show ?thesis unfolding cal_main_def wp_bind
    by (rule wp_load8 [OF q(2)], rule wp_mono [OF noted]) (use loop in \<open>auto simp: Let_def split_def\<close>)
qed

lemma calibrate_case_spec:
  assumes inv: "run_inv s" and ops: "full_traces ops (unat (map_size s))" and m: "input_fits s q m"
  shows "wp (calibrate_case ops q m handicap from_queue s) (\<lambda>(fault, s'). cal_post ops q (cal_runs s) s fault s')"
proof -
  have q: "q < length (queue_buf s)" using m by (simp add: input_fits_def)
  have inv': "cal_inv s s" using inv by (rule cal_inv_refl)
  have finish: "wp (cal_finish q c s') (\<lambda>s''. wp (Some (fault, s'')) (\<lambda>(fault, s'). cal_post ops q (cal_runs s) s fault s'))"
    if "cal_post ops q (cal_runs s) s fault s'" for fault c s'
    using that by (intro wp_mono [OF wp_cal_finish [OF _ q]]) (auto simp: cal_post_def kept_flags_def)
  let ?s1 = "s\<lparr>queue_buf := (queue_buf s)[q := (queue_buf s ! q)\<lparr>qe_exec_cksum := (if cmplog_mode s then 0 else qe_exec_cksum (queue_buf s ! q)),
     qe_cal_failed := qe_cal_failed (queue_buf s ! q) + 1\<rparr>]\<rparr>"
  have dummy: "wp (if cmplog_mode ?s1 then cal_run ops q m (cal_tmout from_queue s) (stage_no ?s1 = 0) ?s1 else Some (None, FSRV_RUN_OK, ?s1))
      (\<lambda>(abort, fault, s'). (abort = Some FSRV_RUN_ERROR \<longrightarrow> run_errors ops) \<and> cal_inv s s' \<and> queue_buf s' = queue_buf ?s1 \<and> total_execs s' \<le> total_execs s + (if cmplog_mode s then 1 else 0))"
    if "cal_inv s ?s1"
    by (rule wp_if, rule wp_mono [OF wp_cal_run [OF that ops m]]) (use that in auto)
  have main: "wp (case abort of Some fault \<Rightarrow> Some (fault, c, s')
      | None \<Rightarrow> cal_main ops q m handicap (cal_tmout from_queue s) (qe_exec_cksum (queue_buf s ! q) = 0) fault c s')
      (\<lambda>(fault, c, s'). wp (cal_finish q c s') (\<lambda>s''. wp (Some (fault, s'')) (\<lambda>(fault, s'). cal_post ops q (cal_runs s) s fault s')))"
    if "cal_inv s s'" "queue_buf s' = queue_buf ?s1" "total_execs s' \<le> total_execs s + (if cmplog_mode s then 1 else 0)"
      "cal_max c = (if cal_fast s then CAL_CYCLES_FAST else CAL_CYCLES)" "abort = Some FSRV_RUN_ERROR \<longrightarrow> run_errors ops" for abort fault s' c
  proof (cases abort)
    case None
    have "qe_cal_failed (queue_buf s' ! q) = qe_cal_failed (queue_buf s ! q) + 1"
      "kept_flags (queue_buf s ! q) (queue_buf s' ! q)" using that(2) q by (simp_all add: kept_flags_def)
    from wp_cal_main [OF that(1) ops m this that(3,4)] show ?thesis unfolding None option.case
      by (rule wp_mono) (use finish in \<open>auto simp: cal_runs_def\<close>)
  next
    case (Some fault')
    have "cal_post ops q (cal_runs s) s fault' s'" using that(1-3,5) Some q by (auto simp: cal_post_def cal_runs_def kept_flags_def)
    then show ?thesis unfolding Some option.case wp_Some prod.case by (rule finish [unfolded wp_Some prod.case])
  qed
  show ?thesis unfolding calibrate_case_def wp_bind Let_def
    apply (rule wp_load8 [OF q])
    apply (rule wp_set_entry [OF inv' _ q], simp)
    apply (rule wp_mono [OF dummy], assumption)
    subgoal for x
      using main [where abort = "fst x" and fault = "fst (snd x)" and s' = "snd (snd x)"] by (auto simp: split_def)
    done
qed

section \<open>Targets that behave the same in every run\<close>

text \<open>Every run on the bytes \<open>bs\<close> ends as the mode of the fuzzer expects, with the trace \<open>t\<close>.\<close>

definition steady :: "'e run_ops \<Rightarrow> fault \<Rightarrow> mem \<Rightarrow> mem \<Rightarrow> bool" where
  "steady ops fault bs t \<longleftrightarrow> (\<forall>tmout e. \<exists>e'. op_run ops tmout bs e = (fault, False, t, e'))"

definition shown_input :: "('e, 'z) afl_run_scheme \<Rightarrow> nat \<Rightarrow> mem \<Rightarrow> mem" where
  "shown_input s q m = take (min (unat (qe_len (queue_buf s ! q))) (max_length s)) m"

definition cksum_of :: "'e run_ops \<Rightarrow> nat \<Rightarrow> mem \<Rightarrow> u64" where
  "cksum_of ops k t = op_hash ops (take k (classed k t))"

text \<open>No byte has been found variable and the entry has no other checksum than the one of the trace.\<close>

definition quiet :: "'e run_ops \<Rightarrow> nat \<Rightarrow> mem \<Rightarrow> ('e, 'z) afl_run_scheme \<Rightarrow> cal \<Rightarrow> ('e, 'z) afl_run_scheme \<Rightarrow> bool" where
  "quiet ops q t s0 c s \<longleftrightarrow> cal_inv s0 s \<and> var_bytes s = var_bytes s0 \<and> queued_variable s = queued_variable s0 \<and> \<not> cal_var c
     \<and> cal_max c = (if cal_fast s0 then CAL_CYCLES_FAST else CAL_CYCLES)
     \<and> qe_exec_cksum (queue_buf s ! q) \<in> {0, cksum_of ops (unat (map_size s0)) t}"

lemma wp_cal_run_steady:
  assumes inv: "cal_inv s0 s" and m: "input_fits s0 q m" and run: "steady ops (crash_mode s0) (shown_input s0 q m) t"
    and t: "unat (map_size s0) \<le> length t" and hit: "non_instrumented_mode s0 \<or> (of_nat (nonzero_bytes s0 t) :: u32) \<noteq> 0"
    and Q: "\<And>e. cal_inv s0 (s\<lparr>trace_bits := t, stop_soon := False, total_execs := total_execs s + 1, run_env := e\<rparr>) \<Longrightarrow>
      Q (None, crash_mode s0, s\<lparr>trace_bits := t, stop_soon := False, total_execs := total_execs s + 1, run_env := e\<rparr>)"
  shows "wp (cal_run ops q m tmout first s) Q"
proof -
  have q: "q < length (queue_buf s)" using m cal_inv_sizes(6) [OF inv] by (simp add: input_fits_def)
  obtain e where r: "op_run ops tmout (shown_input s0 q m) (run_env s) = (crash_mode s0, False, t, e)" using run unfolding steady_def by blast
  let ?s = "s\<lparr>trace_bits := t, stop_soon := False, total_execs := total_execs s + 1, run_env := e\<rparr>"
  have "queue_inv ?s"
    by (rule queue_inv_cong [of s]) (use cal_inv_setup(9) [OF inv] cal_inv_sizes(5) [OF inv] t in simp_all)
  then have s': "cal_inv s0 ?s" by (intro cal_inv_cong [OF inv]) (simp_all add: same_setup_def)
  have n: "count_bytes ?s (trace_bits ?s) = Some (of_nat (nonzero_bytes s0 t))"
    using wp_count_map [OF s', of t "\<lambda>n. n = of_nat (nonzero_bytes s0 t)"] t by (auto simp: wp_iff)
  show ?thesis unfolding cal_run_def wp_bind
  proof (rule wp_load8 [OF q], rule wp_write_fix [OF inv m], unfold prod.case)
    fix bs assume "bs = take (min (unat (qe_len (queue_buf s0 ! q))) (max_length s0)) m"
    then have "fuzz_run_target ops tmout bs s = (crash_mode s0, ?s)" using r by (simp add: fuzz_run_target_def shown_input_def)
    then show "wp (let (fault, s) = fuzz_run_target ops tmout bs s
        in if stop_soon s \<or> fault \<noteq> crash_mode s then Some (Some fault, fault, s)
          else if \<not> non_instrumented_mode s \<and> first then do {
            n \<leftarrow> count_bytes s (trace_bits s);
            Some (if n = 0 then Some FSRV_RUN_NOINST else None, fault, s) }
          else Some (None, fault, s)) Q"
      using Q [OF s'] n hit cal_inv_setup(2,6) [OF inv] by auto
  qed
qed

lemma wp_cal_compare_steady:
  assumes inv: "quiet ops q t s0 c s" and q: "q < length (queue_buf s0)" and t: "trace_bits s = t"
  shows "wp (cal_compare ops q c s) (\<lambda>(c', s'). quiet ops q t s0 c' s' \<and> qe_exec_cksum (queue_buf s' ! q) = cksum_of ops (unat (map_size s0)) t
     \<and> total_execs s' = total_execs s \<and> trace_bits s' = classed (unat (map_size s0)) t \<and> (\<exists>x. queue_buf s' ! q = (queue_buf s ! q)\<lparr>qe_exec_cksum := x\<rparr>))"
proof -
  have inv': "cal_inv s0 s" using inv by (simp add: quiet_def)
  have ql: "q < length (queue_buf s)" using q cal_inv_sizes(6) [OF inv'] by simp
  have h: "op_hash ops (take (unat (map_size s0)) (classed (unat (map_size s0)) t)) = cksum_of ops (unat (map_size s0)) t"
    by (simp add: cksum_of_def)
  have ex: "\<exists>x. queue_buf s ! q = (queue_buf s ! q)\<lparr>qe_exec_cksum := x\<rparr>" by (rule exI [of _ "qe_exec_cksum (queue_buf s ! q)"]) simp
  show ?thesis unfolding cal_compare_def wp_bind
    apply (rule wp_classify [OF inv'], rule wp_hash_trace, assumption, rule wp_load8, simp add: ql)
    apply (rule wp_if)
    subgoal
      apply (unfold wp_bind, rule wp_note_bits_exact, assumption, unfold prod.case, rule wp_if)
      subgoal using inv t h by (auto simp: quiet_def)
      subgoal
        apply (unfold wp_bind wp_Some prod.case)
        apply (rule wp_set_entry, assumption, simp, rule q, rule wp_save_first, assumption)
        subgoal using inv ql t h by (auto simp: quiet_def)
        done
      done
    subgoal using inv t h ex unfolding quiet_def by simp
    done
qed

text \<open>The state after at least one round.\<close>

definition settled :: "'e run_ops \<Rightarrow> nat \<Rightarrow> mem \<Rightarrow> ('e, 'z) afl_run_scheme \<Rightarrow> fault \<Rightarrow> cal \<Rightarrow> ('e, 'z) afl_run_scheme \<Rightarrow> bool" where
  "settled ops q t s0 fault c s \<longleftrightarrow> quiet ops q t s0 c s \<and> fault = crash_mode s0 \<and> trace_bits s = classed (unat (map_size s0)) t
     \<and> qe_exec_cksum (queue_buf s ! q) = cksum_of ops (unat (map_size s0)) t"

lemma wp_cal_loop_steady:
  assumes m: "input_fits s0 q m" and run: "steady ops (crash_mode s0) (shown_input s0 q m) t"
    and t: "unat (map_size s0) \<le> length t" and hit: "non_instrumented_mode s0 \<or> (of_nat (nonzero_bytes s0 t) :: u32) \<noteq> 0"
    and N: "N = (if cal_fast s0 then CAL_CYCLES_FAST else CAL_CYCLES)"
    and "quiet ops q t s0 c s" and "0 < cur \<longrightarrow> settled ops q t s0 fault c s" and "cur \<le> N"
  shows "wp (cal_loop ops q m tmout cur fault c s)
    (\<lambda>(abort, fault, c', s'). abort = None \<and> settled ops q t s0 fault c' s' \<and> total_execs s' = total_execs s + (N - cur))"
  using assms(6-8)
proof (induction "N - cur" arbitrary: cur s c fault)
  case 0
  have "0 < N" using N by (simp add: CAL_CYCLES_FAST_def CAL_CYCLES_def)
  then show ?case using 0 N by (subst cal_loop.simps) (simp add: quiet_def)
next
  case (Suc k)
  have q: "q < length (queue_buf s0)" using m by (simp add: input_fits_def)
  have cur: "cur < cal_max c" using Suc.hyps(2) Suc.prems(1) N by (simp add: quiet_def)
  have inv: "cal_inv s0 s" using Suc.prems(1) by (simp add: quiet_def)
  let ?Q = "\<lambda>(abort, fault, c', s'). abort = None \<and> settled ops q t s0 fault c' s' \<and> total_execs s' = total_execs s + (N - cur)"
  have "wp (cal_run ops q m tmout (cur = 0) s) (\<lambda>(abort, fault, s1). wp (if abort \<noteq> None then Some (abort, fault, c, s1)
      else do { (c1, s2) \<leftarrow> cal_compare ops q c s1; cal_loop ops q m tmout (cur + 1) fault c1 s2 }) ?Q)"
  proof (rule wp_cal_run_steady [OF inv m run t hit], unfold prod.case)
    fix e
    let ?s = "s\<lparr>trace_bits := t, stop_soon := False, total_execs := total_execs s + 1, run_env := e\<rparr>"
    assume "cal_inv s0 ?s"
    then have qs: "quiet ops q t s0 c ?s" using Suc.prems(1) by (simp add: quiet_def)
    have "wp (cal_compare ops q c ?s) (\<lambda>(c1, s2). wp (cal_loop ops q m tmout (cur + 1) (crash_mode s0) c1 s2) ?Q)"
    proof (rule wp_mono [OF wp_cal_compare_steady [OF qs q]], simp, clarify)
      fix c1 s2 x
      assume *: "quiet ops q t s0 c1 s2" "qe_exec_cksum (queue_buf s2 ! q) = cksum_of ops (unat (map_size s0)) t"
        "total_execs s2 = total_execs ?s" "trace_bits s2 = classed (unat (map_size s0)) t"
      show "wp (cal_loop ops q m tmout (cur + 1) (crash_mode s0) c1 s2) ?Q"
        by (rule wp_mono [OF Suc.hyps(1)]) (use * Suc.hyps(2) in \<open>auto simp: settled_def\<close>)
    qed
    then show "wp (if None \<noteq> None then Some (None, crash_mode s0, c, ?s)
      else do { (c1, s2) \<leftarrow> cal_compare ops q c ?s; cal_loop ops q m tmout (cur + 1) (crash_mode s0) c1 s2 }) ?Q" by simp
  qed
  then show ?case using cur by (subst cal_loop.simps) (simp add: split_def)
qed

definition steady_post :: "'e run_ops \<Rightarrow> nat \<Rightarrow> mem \<Rightarrow> ('e, 'z) afl_run_scheme \<Rightarrow> fault \<Rightarrow> ('e, 'z) afl_run_scheme \<Rightarrow> bool" where
  "steady_post ops q t s fault s' \<longleftrightarrow> fault \<in> {crash_mode s, FSRV_RUN_NOBITS} \<and> cal_inv s s'
     \<and> qe_exec_cksum (queue_buf s' ! q) = cksum_of ops (unat (map_size s)) t \<and> qe_cal_failed (queue_buf s' ! q) = 0
     \<and> qe_bitmap_size (queue_buf s' ! q) = of_nat (nonzero_bytes s (classed (unat (map_size s)) t))
     \<and> var_bytes s' = var_bytes s \<and> queued_variable s' = queued_variable s
     \<and> total_execs s' = total_execs s + (if cal_fast s then CAL_CYCLES_FAST else CAL_CYCLES)"

lemma wp_cal_score_steady:
  assumes "settled ops q t s0 fault c s" and "total_execs s = total_execs s0 + (if cal_fast s0 then CAL_CYCLES_FAST else CAL_CYCLES)"
    and "q < length (queue_buf s0)"
  shows "wp (cal_score ops q handicap start_us c s) (\<lambda>s'. steady_post ops q t s0 fault s' \<and> steady_post ops q t s0 FSRV_RUN_NOBITS s')"
  using assms by (intro wp_mono [OF wp_cal_score [OF _ assms(3)]]) (auto simp: settled_def quiet_def calibrated_def steady_post_def)

lemma wp_cal_main_steady:
  assumes m: "input_fits s0 q m" and run: "steady ops (crash_mode s0) (shown_input s0 q m) t"
    and t: "unat (map_size s0) \<le> length t" and hit: "non_instrumented_mode s0 \<or> (of_nat (nonzero_bytes s0 t) :: u32) \<noteq> 0"
    and qs: "quiet ops q t s0 c s" and x: "total_execs s = total_execs s0"
  shows "wp (cal_main ops q m handicap tmout first_run fault c s) (\<lambda>(fault, c, s'). steady_post ops q t s0 fault s' \<and> \<not> cal_var c)"
proof -
  let ?N = "if cal_fast s0 then CAL_CYCLES_FAST else CAL_CYCLES"
  have s: "cal_inv s0 s" "q < length (queue_buf s0)" "q < length (queue_buf s)"
    using qs m cal_inv_sizes(6) [of s0 s] by (auto simp: quiet_def input_fits_def)
  have noted: "wp (if qe_exec_cksum (queue_buf s ! q) \<noteq> 0 then do { s \<leftarrow> save_first s; note_bits s c } else Some (c, s))
      (\<lambda>(c1, s1). quiet ops q t s0 c1 s1 \<and> total_execs s1 = total_execs s0)"
    by (rule wp_if, unfold wp_bind, rule wp_save_first [OF s(1)], rule wp_note_bits_exact, assumption) (use qs x in \<open>auto simp: quiet_def\<close>)
  let ?score = "\<lambda>start_us (abort, fault, c, s). case abort of
              Some fault \<Rightarrow> Some (fault, c, s)
            | None \<Rightarrow> do {
                s \<leftarrow> cal_score ops q handicap start_us c s;
                Some (if \<not> non_instrumented_mode s \<and> first_run \<and> fault = FSRV_RUN_OK \<and> cal_new_bits c = 0
                  then FSRV_RUN_NOBITS else fault, c, s) }"
  let ?Q = "\<lambda>(fault, c, s'). steady_post ops q t s0 fault s' \<and> \<not> cal_var c"
  have score: "wp (?score u (None, fault, c', s')) ?Q"
    if "settled ops q t s0 fault c' s'" "total_execs s' = total_execs s0 + ?N" for u fault c' s'
    unfolding prod.case option.case wp_bind
    by (rule wp_mono [OF wp_cal_score_steady [OF that s(2)]]) (use that in \<open>auto simp: settled_def quiet_def\<close>)
  have loop: "wp (case get_time ops s1 of (start_us, s) \<Rightarrow> Option.bind (cal_loop ops q m tmout 0 fault c1 s) (?score start_us)) ?Q"
    if s1: "quiet ops q t s0 c1 s1" "total_execs s1 = total_execs s0" for c1 s1
  proof -
    obtain u e where u: "get_time ops s1 = (u, s1\<lparr>run_env := e\<rparr>)" by (cases "op_time ops (run_env s1)") (simp add: get_time_def)
    have "quiet ops q t s0 c1 (s1\<lparr>run_env := e\<rparr>)" using s1(1) by (simp add: quiet_def cal_inv_stats)
    then have "wp (cal_loop ops q m tmout 0 fault c1 (s1\<lparr>run_env := e\<rparr>)) (\<lambda>(abort, fault, c', s'). abort = None
        \<and> settled ops q t s0 fault c' s' \<and> total_execs s' = total_execs s0 + ?N)"
      using wp_cal_loop_steady [OF m run t hit refl, of c1 "s1\<lparr>run_env := e\<rparr>" 0] s1(2) by simp
    then have "wp (cal_loop ops q m tmout 0 fault c1 (s1\<lparr>run_env := e\<rparr>)) (\<lambda>x. wp (?score u x) ?Q)"
      by (rule wp_mono) (use score in auto)
    then show ?thesis unfolding u prod.case wp_bind .
  qed
  show ?thesis unfolding cal_main_def wp_bind
    by (rule wp_load8 [OF s(3)], rule wp_mono [OF noted]) (use loop in \<open>auto simp: Let_def split_def\<close>)
qed

lemma calibrate_steady_spec:
  assumes inv: "run_inv s" and m: "input_fits s q m" and run: "steady ops (crash_mode s) (shown_input s q m) t"
    and t: "unat (map_size s) \<le> length t" and hit: "non_instrumented_mode s \<or> (of_nat (nonzero_bytes s t) :: u32) \<noteq> 0"
    and mode: "\<not> cmplog_mode s" and ck: "qe_exec_cksum (queue_buf s ! q) \<in> {0, cksum_of ops (unat (map_size s)) t}"
  shows "wp (calibrate_case ops q m handicap from_queue s) (\<lambda>(fault, s'). steady_post ops q t s fault s')"
proof -
  have q: "q < length (queue_buf s)" using m by (simp add: input_fits_def)
  have finish: "wp (cal_finish q c s') (\<lambda>s''. steady_post ops q t s fault s'')"
    if "steady_post ops q t s fault s'" "\<not> cal_var c" for fault c s'
    using that by (intro wp_mono [OF wp_cal_finish [OF _ q]]) (auto simp: steady_post_def)
  have main: "wp (cal_main ops q m handicap tmout first_run fault c s') (\<lambda>(fault, c, s'). wp (cal_finish q c s') (\<lambda>s''. steady_post ops q t s fault s''))"
    if "quiet ops q t s c s'" "total_execs s' = total_execs s" for tmout first_run fault c s'
    by (rule wp_mono [OF wp_cal_main_steady [OF m run t hit that]]) (auto intro: finish)
  show ?thesis unfolding calibrate_case_def wp_bind Let_def
    apply (rule wp_load8 [OF q], rule wp_set_entry [OF cal_inv_refl [OF inv] _ q], simp)
    apply (simp add: mode, intro conjI impI; rule main)
    using ck q mode by (simp_all add: quiet_def)
qed

section \<open>Properties\<close>

text \<open>C22. Calibration always ends, after at most 12 runs of the target (7 in fast mode, one more with cmplog), whatever the
  target does, and never accesses a map, the queue or the input out of bounds. It keeps the invariant of the queue and of the maps:
  a byte found variable is marked as fully discovered, bits are only removed from the map of undiscovered bits, and a variable byte
  stays variable. The failure count of the entry is either increased by one, or reset with an execution time recorded and a result
  other than a failed run. The flag \<open>var_behavior\<close> of the entry keeps its value even when variable bytes are
  found.\<close>

theorem calibrate_case_correct:
  assumes "run_inv s" and "full_traces ops (unat (map_size s))" and "input_fits s q m"
  shows "\<exists>fault s'. calibrate_case ops q m handicap from_queue s = Some (fault, s') \<and> run_inv s' \<and> same_setup s s'
      \<and> total_execs s' \<le> total_execs s + cal_runs s \<and> shrinks (virgin_bits s) (virgin_bits s')
      \<and> (\<forall>i<unat (map_size s). var_bytes s ! i \<noteq> 0 \<longrightarrow> var_bytes s' ! i \<noteq> 0)
      \<and> qe_var_behavior (queue_buf s' ! q) = qe_var_behavior (queue_buf s ! q)
      \<and> (qe_cal_failed (queue_buf s' ! q) = qe_cal_failed (queue_buf s ! q) + 1
        \<or> qe_cal_failed (queue_buf s' ! q) = 0 \<and> qe_exec_us (queue_buf s' ! q) \<noteq> 0 \<and> fault \<in> {crash_mode s, FSRV_RUN_NOBITS})"
  using calibrate_case_spec [OF assms, of handicap from_queue] by (auto simp: wp_iff cal_post_def cal_inv_def kept_flags_def)

text \<open>C23. Calibration of an input on which the target is steady: every run on it ends as expected
  (\<open>crash_mode\<close>), does not ask to stop, and gives the same full trace, which has a non-zero byte unless the target is
  not instrumented; there is no cmplog run, and the entry has no checksum yet or that of this trace. Then calibration takes exactly
  7 runs (3 in fast mode), finds no variable byte, and leaves the checksum of the classified trace and its number of non-zero bytes
  in the entry.\<close>

theorem calibrate_steady:
  assumes "run_inv s" and "input_fits s q m" and "steady ops (crash_mode s) (shown_input s q m) t" and "unat (map_size s) \<le> length t"
    and "non_instrumented_mode s \<or> (of_nat (nonzero_bytes s t) :: u32) \<noteq> 0" and "\<not> cmplog_mode s"
    and "qe_exec_cksum (queue_buf s ! q) \<in> {0, cksum_of ops (unat (map_size s)) t}"
  shows "\<exists>fault s'. calibrate_case ops q m handicap from_queue s = Some (fault, s') \<and> fault \<in> {crash_mode s, FSRV_RUN_NOBITS}
      \<and> qe_exec_cksum (queue_buf s' ! q) = cksum_of ops (unat (map_size s)) t \<and> qe_cal_failed (queue_buf s' ! q) = 0
      \<and> qe_bitmap_size (queue_buf s' ! q) = of_nat (nonzero_bytes s (classed (unat (map_size s)) t))
      \<and> var_bytes s' = var_bytes s \<and> queued_variable s' = queued_variable s
      \<and> total_execs s' = total_execs s + (if cal_fast s then CAL_CYCLES_FAST else CAL_CYCLES)"
  using calibrate_steady_spec [OF assms, of handicap from_queue] by (auto simp: wp_iff steady_post_def)

section \<open>Examples\<close>

text \<open>A target with a map of eight bytes, the second of which alternates between two values when \<open>flaky\<close>.\<close>

definition cal_ops :: "bool \<Rightarrow> nat run_ops" where
  "cal_ops flaky = \<lparr>op_run = (\<lambda>tmout bs e. (FSRV_RUN_OK, False, [1, if flaky \<and> odd e then 4 else 1, 0, 0, 0, 0, 0, 0], Suc e)),
     op_hash = le_word, op_time = (\<lambda>e. (word_of_nat e, e))\<rparr>"

definition cal_example :: "nat afl_run" where
  "cal_example = \<lparr>trace_bits = replicate 8 0, map_size = 8, real_map_size = 8, virgin_bits = replicate 8 255, virgin_tmout = replicate 8 255,
     virgin_crash = replicate 8 255, bitmap_changed = 0, count_class_lookup16 = count_class16,
     queue_buf = [example_entry 0 3], queued_items = 1, queued_favored = 0, pending_favored = 0, smallest_favored = - 1,
     schedule = EXPLORE, fixed_seed = False, non_instrumented_mode = False, afl_disable_redundant = False, n_fuzz = [],
     top_rated = replicate 8 None, map_tmp_buf = replicate 8 0, top_rated_candidates = replicate 8 None, last_scored_idx = - 1,
     score_changed = False, reinit_table = False, exec_tmout = 1000, total_execs = 0, stop_soon = False, min_length = 1, max_length = 1048576,
     crash_mode = FSRV_RUN_OK, cmplog_mode = False, resuming_fuzz = False, cal_fast = False, stage_no = 0, first_trace = replicate 8 0,
     var_bytes = replicate 8 0, var_byte_count = 0, queued_with_cov = 0, queued_variable = 0, total_cal_us = 0, total_cal_cycles = 0,
     total_bitmap_size = 0, total_bitmap_entries = 0, run_env = 0\<rparr>"

lemma run_inv_example: "run_inv cal_example"
  by (simp add: run_inv_def queue_inv_def shape_ok_def entries_ok_def entry_ok_def wins_of_def maps_ok_def map_fits_def cal_example_def
    example_entry_def)

lemma cal_ops_ok: "full_traces (cal_ops flaky) 8" "steady (cal_ops False) FSRV_RUN_OK bs [1, 1, 0, 0, 0, 0, 0, 0]"
  by (simp_all add: full_traces_def steady_def cal_ops_def)

lemma input_fits_example: "input_fits cal_example 0 [1, 2, 3]"
  by (simp add: input_fits_def cal_example_def example_entry_def)

theorem calibrate_case_witness:
  "\<exists>fault s'. calibrate_case (cal_ops True) 0 [1, 2, 3] 0 False cal_example = Some (fault, s') \<and> run_inv s' \<and> total_execs s' \<le> 12"
proof -
  have "total_execs cal_example = 0" "cal_runs cal_example = 12" "unat (map_size cal_example) = 8"
    by (simp_all add: cal_runs_def cal_example_def CAL_CYCLES_LONG_def)
  with calibrate_case_correct [OF run_inv_example, of "cal_ops True" 0 "[1, 2, 3]" 0 False] cal_ops_ok(1) input_fits_example
  show ?thesis by auto
qed

theorem calibrate_steady_witness:
  "\<exists>fault s'. calibrate_case (cal_ops False) 0 [1, 2, 3] 0 False cal_example = Some (fault, s') \<and> fault \<in> {FSRV_RUN_OK, FSRV_RUN_NOBITS}
     \<and> total_execs s' = 7 \<and> qe_exec_cksum (queue_buf s' ! 0) = 257 \<and> var_bytes s' = replicate 8 0"
proof -
  let ?t = "[1, 1, 0, 0, 0, 0, 0, 0] :: mem"
  have s: "total_execs cal_example = 0" "unat (map_size cal_example) = 8" "crash_mode cal_example = FSRV_RUN_OK" "\<not> cmplog_mode cal_example"
    "\<not> cal_fast cal_example" "var_bytes cal_example = replicate 8 0" "qe_exec_cksum (queue_buf cal_example ! 0) = 0"
    by (simp_all add: cal_example_def example_entry_def)
  have "nonzero_bytes cal_example ?t = 2" by (simp add: nonzero_bytes_def cal_example_def)
  moreover have "cksum_of (cal_ops False) 8 ?t = 257" by code_simp
  ultimately show ?thesis
    using calibrate_steady [OF run_inv_example input_fits_example, of "cal_ops False" ?t 0 False] s cal_ops_ok(2)
    by (auto simp: CAL_CYCLES_def)
qed

end
