(* ===== verification/Save.thy ===== *)
theory Save
  imports Stage Calibrate
begin

text \<open>
  What happens to an input after a run of the target (\<open>save_if_interesting\<close> of \<^verbatim>\<open>src/afl-fuzz-bitmap.c\<close>, \<open>add_to_queue\<close> of
  \<^verbatim>\<open>src/afl-fuzz-queue.c\<close>, \<open>common_fuzz_stuff\<close> of \<^verbatim>\<open>src/afl-fuzz-run.c\<close>): inputs with new coverage join the queue and are calibrated,
  crashes and hangs with a new simplified trace are saved. The extra binaries with sanitizers are part of the model. The files are
  lists of contents, without names; \<open>None\<close> is an access outside a buffer, a loop that does not end or a call of \<open>FATAL\<close>. There are
  no custom mutators, and \<open>INTROSPECTION\<close> and Nyx code is left out.
\<close>

section \<open>State\<close>

definition KEEP_UNIQUE_HANG :: u64 where "KEEP_UNIQUE_HANG = 512"
definition KEEP_UNIQUE_CRASH :: u64 where "KEEP_UNIQUE_CRASH = 25600"
definition TMOUT_LIMIT :: u32 where "TMOUT_LIMIT = 250"
definition N_FUZZ_SIZE :: nat where "N_FUZZ_SIZE = 2 ^ 21"
definition N_FUZZ_SIZE_BITMAP :: nat where "N_FUZZ_SIZE_BITMAP = 2 ^ 29"
definition SAN_CRASH_ONLY :: u32 where "SAN_CRASH_ONLY = 16"
definition NON_COV_INCREASE_BUG :: u32 where "NON_COV_INCREASE_BUG = 32"

datatype abstraction = SIMPLIFY_TRACE | UNIQUE_TRACE | COVERAGE_INCREASE

record 'e afl_save = "'e afl_run" +
  ignore_timeouts :: bool
  keep_timeouts :: bool
  san_binary_length :: nat
  san_abstraction :: abstraction
  san_case_status :: u32
  simplified_n_fuzz :: mem
  n_fuzz_dup :: mem
  hang_tmout :: u32
  total_crashes :: u64
  saved_crashes :: u64
  total_tmouts :: u64
  saved_tmouts :: u64
  saved_hangs :: u64
  fuzz_mode :: bool
  switch_fuzz_mode :: bool
  queue_cycle :: u64
  queued_discovered :: u32
  subseq_tmouts :: u32
  cur_skipped_items :: u32
  skip_requested :: bool
  cur_depth :: u32
  max_depth :: u32
  active_items :: u32
  pending_not_fuzzed :: u32
  ready_for_splicing_count :: u32
  cycles_wo_finds :: u64
  start_time :: u64
  last_find_time :: u64
  longest_find_time :: u64
  last_hang_time :: u64
  last_crash_time :: u64
  last_crash_execs :: nat
  queue_files :: "mem option list"
  hang_files :: "mem option list"
  crash_files :: "mem option list"

text \<open>\<open>op_base\<close> are the operations of calibration, \<open>op_san\<close> the run of an extra binary (its outcome and \<open>stop_soon\<close>), \<open>op_ms\<close> is
  \<open>get_cur_time\<close>, \<open>op_create\<close> tells if \<open>permissive_create\<close> could create a file, and \<open>op_store\<close> is \<open>queue_testcase_store_mem\<close>.\<close>

record 'e save_ops =
  op_base :: "'e run_ops"
  op_san :: "nat \<Rightarrow> mem \<Rightarrow> 'e \<Rightarrow> fault \<times> bool \<times> 'e"
  op_ms :: "'e \<Rightarrow> u64 \<times> 'e"
  op_create :: "'e \<Rightarrow> bool \<times> 'e"
  op_store :: "nat \<Rightarrow> mem \<Rightarrow> 'e \<Rightarrow> 'e"

text \<open>The local variables \<open>len\<close>, \<open>new_bits\<close>, \<open>cksum\<close>, \<open>need_hash\<close>, \<open>classified\<close> and \<open>keeping\<close> of \<open>save_if_interesting\<close>.\<close>

record saving =
  sl_len :: nat
  sl_new_bits :: u8
  sl_cksum :: u64
  sl_need_hash :: bool
  sl_classified :: bool
  sl_keeping :: bool

definition fast_schedule :: "'e afl_save \<Rightarrow> bool" where
  "fast_schedule s \<longleftrightarrow> FAST \<le> schedule s \<and> schedule s \<le> RARE"

text \<open>\<open>if (n_fuzz[cksum % N_FUZZ_SIZE] < 0xFFFFFFFF) n_fuzz[cksum % N_FUZZ_SIZE]++\<close>\<close>

definition count_path :: "'e save_ops \<Rightarrow> 'e afl_save \<Rightarrow> (u64 \<times> 'e afl_save) option" where
  "count_path ops s = do {
     s \<leftarrow> classify_counts_64 s;
     cksum \<leftarrow> hash_trace (op_base ops) s;
     let i = unat cksum mod N_FUZZ_SIZE;
     v \<leftarrow> load8 (n_fuzz s) i;
     fs \<leftarrow> (if v < 0xFFFFFFFF then store8 (n_fuzz s) i (v + 1) else Some (n_fuzz s));
     Some (cksum, s\<lparr>n_fuzz := fs\<rparr>) }"

section \<open>Sanitizers\<close>

text \<open>Whether the input goes to the extra binaries.\<close>

definition feed_simplified :: "'e save_ops \<Rightarrow> 'e afl_save \<Rightarrow> (bool \<times> 'e afl_save) option" where
  "feed_simplified ops s = do {
     bs \<leftarrow> read_block (trace_bits s) 0 (unat (map_size s));
     bs \<leftarrow> simplify_trace_64 s bs;
     let cksum_simplified = unat (ucast (op_hash (op_base ops) (take (unat (map_size s)) bs)) :: u32);
     seen \<leftarrow> bitmap_read (simplified_n_fuzz s) cksum_simplified;
     if \<not> seen then do {
       m \<leftarrow> bitmap_set (simplified_n_fuzz s) cksum_simplified;
       Some (True, s\<lparr>simplified_n_fuzz := m\<rparr>) }
     else Some (False, s) }"

text \<open>\<open>has_new_bits\<close> or \<open>has_new_bits_unclassified\<close>, after which \<open>classified\<close> is set.\<close>

definition check_bits :: "saving \<Rightarrow> 'e afl_save \<Rightarrow> (saving \<times> 'e afl_save) option" where
  "check_bits l s = do {
     (r, s) \<leftarrow> (if sl_classified l then has_new_bits_64 s Virgin_Bits else has_new_bits_unclassified_64 s Virgin_Bits);
     Some (l\<lparr>sl_new_bits := r, sl_classified := True\<rparr>, s) }"

definition feed_unique :: "'e save_ops \<Rightarrow> saving \<Rightarrow> 'e afl_save \<Rightarrow> (bool \<times> saving \<times> 'e afl_save) option" where
  "feed_unique ops l s = do {
     s \<leftarrow> (if sl_classified l then Some s else classify_counts_64 s);
     let l = l\<lparr>sl_classified := True\<rparr>;
     h \<leftarrow> hash_trace (op_base ops) s;
     let cksum_unique = unat (ucast h :: u32);
     seen \<leftarrow> bitmap_read (n_fuzz_dup s) (unat (ucast (sl_cksum l) :: u32));
     if \<not> seen then do {
       m \<leftarrow> bitmap_set (n_fuzz_dup s) cksum_unique;
       Some (True, l, s\<lparr>n_fuzz_dup := m\<rparr>) }
     else Some (False, l, s) }"

definition decide_feed :: "'e save_ops \<Rightarrow> saving \<Rightarrow> 'e afl_save \<Rightarrow> (bool \<times> saving \<times> 'e afl_save) option" where
  "decide_feed ops l s =
     (if san_binary_length s = 0 then Some (False, l, s)
      else case san_abstraction s of
        SIMPLIFY_TRACE \<Rightarrow> do { (feed, s) \<leftarrow> feed_simplified ops s; Some (feed, l, s) }
      | COVERAGE_INCREASE \<Rightarrow> do { (l, s) \<leftarrow> check_bits l s; Some (sl_new_bits l \<noteq> 0, l, s) }
      | UNIQUE_TRACE \<Rightarrow> feed_unique ops l s)"

text \<open>The runs of the extra binaries from number \<open>i\<close> on, \<open>n\<close> of which are left: the outcome, and the length and the state after them.\<close>

fun run_sans :: "'e save_ops \<Rightarrow> mem \<Rightarrow> nat \<Rightarrow> nat \<Rightarrow> nat \<Rightarrow> 'e afl_save \<Rightarrow> (fault \<times> nat \<times> 'e afl_save) option" where
  "run_sans ops mem i 0 len s = Some (FSRV_RUN_OK, len, s)"
| "run_sans ops mem i (Suc n) len s = do {
     (bs, len) \<leftarrow> write_to_testcase s mem len False;
     let (san_fault, stop, e) = op_san ops i bs (run_env s);
     let s = s\<lparr>stop_soon := stop, run_env := e,
       san_case_status := (if san_fault \<noteq> FSRV_RUN_OK then san_case_status s OR SAN_CRASH_ONLY else san_case_status s)\<rparr>;
     if san_fault = FSRV_RUN_CRASH then Some (san_fault, len, s) else run_sans ops mem (i + 1) n len s }"

text \<open>For an input that ended as expected: whether it has new bits and the verdict of the sanitizers.\<close>

definition judge :: "'e save_ops \<Rightarrow> mem \<Rightarrow> saving \<Rightarrow> 'e afl_save \<Rightarrow> (fault \<times> saving \<times> 'e afl_save) option" where
  "judge ops mem l s = do {
     (feed_san, l, s) \<leftarrow> decide_feed ops l s;
     (san_fault, len, s) \<leftarrow> (if feed_san then run_sans ops mem 0 (san_binary_length s) (sl_len l) s else Some (FSRV_RUN_OK, sl_len l, s));
     let l = l\<lparr>sl_len := len\<rparr>;
     (l, s) \<leftarrow> (if \<not> (san_abstraction s = COVERAGE_INCREASE \<and> feed_san) then check_bits l s else Some (l, s));
     Some (san_fault, l, s) }"

section \<open>New entries\<close>

definition fresh_entry :: "u32 \<Rightarrow> u32 \<Rightarrow> u64 \<Rightarrow> queue_entry" where
  "fresh_entry id_no len depth = \<lparr>qe_len = len, qe_id = id_no, qe_was_fuzzed = False, qe_favored = False, qe_fs_redundant = False,
     qe_disabled = False, qe_fuzz_level = 0, qe_n_fuzz_entry = 0, qe_exec_us = 0, qe_tc_ref = 0, qe_trace_mini = None,
     qe_cal_failed = 0, qe_has_new_cov = False, qe_var_behavior = False, qe_bitmap_size = 0, qe_handicap = 0, qe_depth = depth,
     qe_exec_cksum = 0\<rparr>"

text \<open>The depth of the fuzzer is a 32-bit number, that of an entry a 64-bit one. The fields \<open>passed_det\<close> (0 here), \<open>mother\<close>,
  \<open>weight\<close>, \<open>perf_score\<close> and \<open>is_ascii\<close>, which nothing here reads, are left out, and there are no custom mutators.\<close>

definition add_to_queue :: "'e save_ops \<Rightarrow> nat \<Rightarrow> 'e afl_save \<Rightarrow> 'e afl_save" where
  "add_to_queue ops len s =
     (let e = fresh_entry (queued_items s) (word_of_nat len) (ucast (cur_depth s + 1));
          (cur_time, env) = op_ms ops (run_env s);
          longest = (if start_time s \<noteq> 0 \<and> longest_find_time s < cur_time - last_find_time s
                     then (if last_find_time s = 0 then cur_time - start_time s else cur_time - last_find_time s) else longest_find_time s)
      in s\<lparr>queue_buf := queue_buf s @ [e], queued_items := queued_items s + 1, active_items := active_items s + 1,
           pending_not_fuzzed := pending_not_fuzzed s + 1, cycles_wo_finds := 0,
           max_depth := (if qe_depth e > ucast (max_depth s) then ucast (qe_depth e) else max_depth s),
           ready_for_splicing_count := ready_for_splicing_count s + (if qe_len e > 4 then 1 else 0),
           longest_find_time := longest, last_find_time := cur_time, run_env := env\<rparr>)"

text \<open>A file with the first \<open>len\<close> bytes of the input, if it can be created.\<close>

definition write_file :: "'e save_ops \<Rightarrow> mem \<Rightarrow> nat \<Rightarrow> 'e afl_save \<Rightarrow> (mem option \<times> 'e afl_save) option" where
  "write_file ops mem len s = (case op_create ops (run_env s) of (ok, e) \<Rightarrow>
     do {
       bs \<leftarrow> (if ok then map_option Some (read_block mem 0 len) else Some None);
       Some (bs, s\<lparr>run_env := e\<rparr>) })"

text \<open>The fields of the new entry \<open>q\<close>, and its calibration.\<close>

definition finish_entry :: "'e save_ops \<Rightarrow> mem \<Rightarrow> nat \<Rightarrow> saving \<Rightarrow> 'e afl_save \<Rightarrow> (saving \<times> 'e afl_save) option" where
  "finish_entry ops mem q l s = do {
     s \<leftarrow> (if sl_new_bits l = 2 then do {
         s \<leftarrow> set_entry s q (\<lambda>e. e\<lparr>qe_has_new_cov := True\<rparr>);
         Some (s\<lparr>queued_with_cov := queued_with_cov s + 1\<rparr>) }
       else Some s);
     (l, s) \<leftarrow> (if sl_need_hash l \<and> sl_new_bits l \<noteq> 0 then do {
         h \<leftarrow> hash_trace (op_base ops) s;
         s \<leftarrow> set_entry s q (\<lambda>e. e\<lparr>qe_exec_cksum := h\<rparr>);
         Some (l\<lparr>sl_need_hash := False\<rparr>, s) }
       else Some (l, s));
     s \<leftarrow> (if sl_cksum l \<noteq> 0 then do {
         let i = unat (sl_cksum l) mod N_FUZZ_SIZE;
         s \<leftarrow> set_entry s q (\<lambda>e. e\<lparr>qe_n_fuzz_entry := word_of_nat i\<rparr>);
         fs \<leftarrow> store8 (n_fuzz s) i 1;
         Some (s\<lparr>n_fuzz := fs\<rparr>) }
       else Some s);
     (res, s) \<leftarrow> calibrate_case (op_base ops) q mem (ucast (queue_cycle s - 1)) False s;
     if res = FSRV_RUN_ERROR then None
     else Some (l\<lparr>sl_keeping := True\<rparr>, s\<lparr>run_env := op_store ops q mem (run_env s)\<rparr>) }"

text \<open>The block at the label \<open>save_to_queue\<close>.\<close>

definition save_to_queue :: "'e save_ops \<Rightarrow> mem \<Rightarrow> saving \<Rightarrow> 'e afl_save \<Rightarrow> (saving \<times> 'e afl_save) option" where
  "save_to_queue ops mem l s = do {
     (file, s) \<leftarrow> write_file ops mem (sl_len l) s;
     let q = length (queue_buf s);
     let s = add_to_queue ops (sl_len l) (s\<lparr>queue_files := queue_files s @ [file]\<rparr>);
     let s = (if fuzz_mode s \<and> switch_fuzz_mode s \<and> \<not> non_instrumented_mode s then s\<lparr>fuzz_mode := False\<rparr> else s);
     finish_entry ops mem q l s }"

section \<open>Crashes and hangs\<close>

text \<open>The simplified trace has bits that are not in the map yet; without instrumentation everything is new.\<close>

definition unique_fault :: "virgin_map \<Rightarrow> 'e afl_save \<Rightarrow> (bool \<times> 'e afl_save) option" where
  "unique_fault vm s =
     (if non_instrumented_mode s then Some (True, s)
      else do {
        m \<leftarrow> simplify_trace_64 s (trace_bits s);
        (r, s) \<leftarrow> has_new_bits_64 (s\<lparr>trace_bits := m\<rparr>) vm;
        Some (r \<noteq> 0, s) })"

text \<open>The label \<open>keep_as_crash\<close>.\<close>

definition keep_as_crash :: "'e save_ops \<Rightarrow> mem \<Rightarrow> saving \<Rightarrow> 'e afl_save \<Rightarrow> (bool \<times> 'e afl_save) option" where
  "keep_as_crash ops mem l s = do {
     let s = s\<lparr>total_crashes := total_crashes s + 1\<rparr>;
     if saved_crashes s \<ge> KEEP_UNIQUE_CRASH then Some (sl_keeping l, s)
     else do {
       (fresh, s) \<leftarrow> unique_fault Virgin_Crash s;
       if \<not> fresh then Some (sl_keeping l, s)
       else do {
         let (t, e) = op_ms ops (run_env s);
         let s = s\<lparr>saved_crashes := saved_crashes s + 1, last_crash_time := t, run_env := e, last_crash_execs := total_execs s\<rparr>;
         (file, s) \<leftarrow> write_file ops mem (sl_len l) s;
         Some (sl_keeping l, s\<lparr>crash_files := crash_files s @ [file]\<rparr>) } } }"

definition keep_as_hang :: "'e save_ops \<Rightarrow> mem \<Rightarrow> saving \<Rightarrow> 'e afl_save \<Rightarrow> (bool \<times> 'e afl_save) option" where
  "keep_as_hang ops mem l s = do {
     let (t, e) = op_ms ops (run_env s);
     let s = s\<lparr>saved_hangs := saved_hangs s + 1, last_hang_time := t, run_env := e\<rparr>;
     (file, s) \<leftarrow> write_file ops mem (sl_len l) s;
     Some (sl_keeping l, s\<lparr>hang_files := hang_files s @ [file]\<rparr>) }"

text \<open>The input is run again with the longer timeout.\<close>

definition rerun_hang :: "'e save_ops \<Rightarrow> mem \<Rightarrow> saving \<Rightarrow> 'e afl_save \<Rightarrow> (fault \<times> saving \<times> 'e afl_save) option" where
  "rerun_hang ops mem l s = do {
     (bs, tmp_len) \<leftarrow> write_to_testcase s mem (sl_len l) False;
     (bs, len) \<leftarrow> (if tmp_len \<noteq> 0 then Some (bs, tmp_len) else write_to_testcase s mem (sl_len l) True);
     let (new_fault, s) = fuzz_run_target (op_base ops) (hang_tmout s) bs s;
     s \<leftarrow> (if sl_classified l then Some s else classify_counts_64 s);
     Some (new_fault, l\<lparr>sl_len := len, sl_classified := True\<rparr>, s) }"

text \<open>The switch at the label \<open>may_save_fault\<close>, with the jump back to \<open>save_to_queue\<close>.\<close>

partial_function (option) may_save_fault :: "'e save_ops \<Rightarrow> mem \<Rightarrow> fault \<Rightarrow> saving \<Rightarrow> 'e afl_save \<Rightarrow> (bool \<times> 'e afl_save) option" where
  "may_save_fault ops mem fault l s =
     (if fault = FSRV_RUN_TMOUT then do {
        let s = s\<lparr>total_tmouts := total_tmouts s + 1\<rparr>;
        if saved_hangs s \<ge> KEEP_UNIQUE_HANG then Some (sl_keeping l, s)
        else do {
          (fresh, s) \<leftarrow> unique_fault Virgin_Tmout s;
          if \<not> fresh then Some (sl_keeping l, s)
          else if exec_tmout s < hang_tmout s then do {
            (new_fault, l, s) \<leftarrow> rerun_hang ops mem l s;
            if \<not> stop_soon s \<and> new_fault = FSRV_RUN_CRASH then keep_as_crash ops mem l s
            else if stop_soon s \<or> new_fault \<noteq> FSRV_RUN_TMOUT then
              (if keep_timeouts s then do {
                 (l, s) \<leftarrow> save_to_queue ops mem l (s\<lparr>saved_tmouts := saved_tmouts s + 1\<rparr>);
                 may_save_fault ops mem fault l s }
               else Some (sl_keeping l, s))
            else keep_as_hang ops mem l s }
          else keep_as_hang ops mem l s } }
      else if fault = FSRV_RUN_CRASH then keep_as_crash ops mem l s
      else if fault = FSRV_RUN_ERROR then None
      else Some (sl_keeping l, s))"

declare may_save_fault.simps [code]

definition save_if_interesting :: "'e save_ops \<Rightarrow> mem \<Rightarrow> nat \<Rightarrow> fault \<Rightarrow> 'e afl_save \<Rightarrow> (bool \<times> 'e afl_save) option" where
  "save_if_interesting ops mem len fault s =
     (if len = 0 then Some (False, s)
      else if fault = FSRV_RUN_TMOUT \<and> ignore_timeouts s then
        (if fast_schedule s then do { (_, s) \<leftarrow> count_path ops s; Some (False, s) } else Some (False, s))
      else do {
        let s = s\<lparr>san_case_status := 0\<rparr>;
        let l = \<lparr>sl_len = len, sl_new_bits = 0, sl_cksum = 0, sl_need_hash = True, sl_classified = False, sl_keeping = False\<rparr>;
        (l, s) \<leftarrow> (if fast_schedule s then do {
            (cksum, s) \<leftarrow> count_path ops s;
            Some (l\<lparr>sl_cksum := cksum, sl_need_hash := False, sl_classified := True\<rparr>, s) }
          else Some (l, s));
        if fault \<noteq> crash_mode s then may_save_fault ops mem fault l s
        else do {
          (san_fault, l, s) \<leftarrow> judge ops mem l s;
          if sl_new_bits l = 0 then
            (if san_fault = FSRV_RUN_OK
             then Some (False, if crash_mode s \<noteq> FSRV_RUN_OK then s\<lparr>total_crashes := total_crashes s + 1\<rparr> else s)
             else may_save_fault ops mem san_fault l (s\<lparr>san_case_status := san_case_status s OR NON_COV_INCREASE_BUG\<rparr>))
          else do {
            (l, s) \<leftarrow> save_to_queue ops mem l s;
            may_save_fault ops mem san_fault l s } } })"

text \<open>The caller; the first component of the result tells whether the entry is abandoned.\<close>

definition common_fuzz_stuff_full :: "'e save_ops \<Rightarrow> mem \<Rightarrow> nat \<Rightarrow> 'e afl_save \<Rightarrow> (bool \<times> 'e afl_save) option" where
  "common_fuzz_stuff_full ops buf len s = do {
     (bs, len) \<leftarrow> write_to_testcase s buf len False;
     if len = 0 then Some (False, s)
     else do {
       let (fault, s) = fuzz_run_target (op_base ops) (exec_tmout s) bs s;
       if stop_soon s then Some (True, s)
       else do {
         let t = subseq_tmouts s;
         let s = s\<lparr>subseq_tmouts := (if fault = FSRV_RUN_TMOUT then t + 1 else 0)\<rparr>;
         if fault = FSRV_RUN_TMOUT \<and> t > TMOUT_LIMIT then Some (True, s\<lparr>cur_skipped_items := cur_skipped_items s + 1\<rparr>)
         else if skip_requested s then Some (True, s\<lparr>skip_requested := False, cur_skipped_items := cur_skipped_items s + 1\<rparr>)
         else do {
           (saved, s) \<leftarrow> save_if_interesting ops buf len fault s;
           Some (False, s\<lparr>queued_discovered := queued_discovered s + (if saved then 1 else 0)\<rparr>) } } } }"

section \<open>Invariant\<close>

definition save_inv :: "'e afl_save \<Rightarrow> bool" where
  "save_inv s \<longleftrightarrow> run_inv s \<and> (fast_schedule s \<longrightarrow> length (n_fuzz s) = N_FUZZ_SIZE)
     \<and> (san_binary_length s \<noteq> 0 \<and> san_abstraction s = SIMPLIFY_TRACE \<longrightarrow> N_FUZZ_SIZE_BITMAP \<le> length (simplified_n_fuzz s))
     \<and> (san_binary_length s \<noteq> 0 \<and> san_abstraction s = UNIQUE_TRACE \<longrightarrow> N_FUZZ_SIZE_BITMAP \<le> length (n_fuzz_dup s))
     \<and> 32 dvd unat (map_size s) \<and> length (queue_files s) = length (queue_buf s)
     \<and> saved_crashes s = of_nat (length (crash_files s)) \<and> length (crash_files s) \<le> 25600
     \<and> saved_hangs s = of_nat (length (hang_files s)) \<and> length (hang_files s) \<le> 512"

text \<open>The configuration and a counter that saving leaves alone.\<close>

definition config_of :: "'e afl_save \<Rightarrow> _" where
  "config_of s = ((map_size s, real_map_size s, schedule s, non_instrumented_mode s, exec_tmout s, min_length s, max_length s, crash_mode s),
     (san_binary_length s, san_abstraction s, hang_tmout s, keep_timeouts s, ignore_timeouts s, queued_discovered s))"

text \<open>Only files with a prefix of the input are added, and the maps only lose bits.\<close>

definition file_of :: "mem \<Rightarrow> mem option \<Rightarrow> bool" where
  "file_of mem f \<longleftrightarrow> f = None \<or> (\<exists>n\<le>length mem. f = Some (take n mem))"

definition added :: "mem \<Rightarrow> mem option list \<Rightarrow> mem option list \<Rightarrow> bool" where
  "added mem fs0 fs \<longleftrightarrow> (\<exists>a. fs = fs0 @ a \<and> list_all (file_of mem) a)"

definition grows :: "mem \<Rightarrow> 'e afl_save \<Rightarrow> 'e afl_save \<Rightarrow> bool" where
  "grows mem s0 s \<longleftrightarrow> save_inv s \<and> config_of s = config_of s0 \<and> shrinks (virgin_bits s0) (virgin_bits s) \<and> shrinks (virgin_tmout s0) (virgin_tmout s)
     \<and> shrinks (virgin_crash s0) (virgin_crash s) \<and> added mem (queue_files s0) (queue_files s) \<and> added mem (crash_files s0) (crash_files s)
     \<and> added mem (hang_files s0) (hang_files s)"

lemma added_refl [simp]: "added mem fs fs"
  by (simp add: added_def)

lemma added_trans: "added mem a b \<Longrightarrow> added mem b c \<Longrightarrow> added mem a c"
  by (auto simp: added_def)

lemma added_snoc [simp]: "added mem fs (fs @ [f]) \<longleftrightarrow> file_of mem f"
  by (auto simp: added_def)

lemma grows_refl: "save_inv s \<Longrightarrow> grows mem s s"
  by (simp add: grows_def)

lemma grows_trans: "grows mem a b \<Longrightarrow> grows mem b c \<Longrightarrow> grows mem a c"
  using added_trans [of mem "queue_files a" "queue_files b" "queue_files c"] added_trans [of mem "crash_files a" "crash_files b" "crash_files c"]
    added_trans [of mem "hang_files a" "hang_files b" "hang_files c"] shrinks_trans [of "virgin_bits a" "virgin_bits b" "virgin_bits c"]
    shrinks_trans [of "virgin_tmout a" "virgin_tmout b" "virgin_tmout c"] shrinks_trans [of "virgin_crash a" "virgin_crash b" "virgin_crash c"]
  by (simp add: grows_def)

text \<open>An update of the state that keeps the configuration and the files.\<close>

lemma run_inv_cong:
  assumes "run_inv s" and "queue_inv s'" and "map_size s' = map_size s" and "real_map_size s' = real_map_size s"
    and "count_class_lookup16 s' = count_class_lookup16 s" and "shrinks (virgin_bits s) (virgin_bits s')" and "var_bytes s' = var_bytes s"
    and "length (virgin_tmout s') = length (virgin_tmout s)" and "length (virgin_crash s') = length (virgin_crash s)"
    and "first_trace s' = first_trace s"
  shows "run_inv s'"
  using assms shrinks_zero [OF assms(6)] by (auto simp: run_inv_def maps_ok_def map_fits_def shrinks_def)

lemma grows_same:
  assumes "grows mem s0 s" and "run_inv s'" and "config_of s' = config_of s" and "shrinks (virgin_bits s) (virgin_bits s')"
    and "shrinks (virgin_tmout s) (virgin_tmout s')" and "shrinks (virgin_crash s) (virgin_crash s')"
    and "length (n_fuzz s') = length (n_fuzz s)" and "length (simplified_n_fuzz s') = length (simplified_n_fuzz s)"
    and "length (n_fuzz_dup s') = length (n_fuzz_dup s)" and "queue_files s' = queue_files s" and "length (queue_buf s') = length (queue_buf s)"
    and "crash_files s' = crash_files s" and "hang_files s' = hang_files s" and "saved_crashes s' = saved_crashes s"
    and "saved_hangs s' = saved_hangs s"
  shows "grows mem s0 s'"
proof -
  have "san_binary_length s' = san_binary_length s" "san_abstraction s' = san_abstraction s" "fast_schedule s' = fast_schedule s" using assms(3) by (simp_all add: config_of_def fast_schedule_def)
  moreover have "map_size s' = map_size s" using assms(3) by (simp add: config_of_def)
  ultimately have "save_inv s'" using assms unfolding grows_def save_inv_def by simp
  then have "grows mem s s'" using assms by (simp add: grows_def)
  then show ?thesis using assms(1) grows_trans by blast
qed

lemma grows_run_inv: "grows mem s0 s \<Longrightarrow> run_inv s" "grows mem s0 s \<Longrightarrow> queue_inv s" "grows mem s0 s \<Longrightarrow> save_inv s"
  by (simp_all add: grows_def save_inv_def run_inv_def)

text \<open>An update of counters, the environment and the trace.\<close>

lemma grows_trace:
  assumes "grows mem s0 s" and "unat (map_size s) \<le> length t"
  shows "grows mem s0 (s\<lparr>trace_bits := t\<rparr>)"
proof -
  have "queue_inv (s\<lparr>trace_bits := t\<rparr>)"
    by (rule queue_inv_cong [OF grows_run_inv(2) [OF assms(1)]]) (use assms(2) in simp_all)
  then have "run_inv (s\<lparr>trace_bits := t\<rparr>)" by (intro run_inv_cong [OF grows_run_inv(1) [OF assms(1)]]) simp_all
  then show ?thesis by (intro grows_same [OF assms(1)]) (simp_all add: config_of_def)
qed

lemmas grows_defs = grows_def save_inv_def config_of_def fast_schedule_def run_inv_def maps_ok_def map_fits_def queue_inv_def shape_ok_def
  entries_ok_def entry_ok_def wins_of_def

lemma grows_fields [simp]:
  "grows mem s0 (s\<lparr>run_env := e\<rparr>) = grows mem s0 s"
  "grows mem s0 (s\<lparr>stop_soon := b\<rparr>) = grows mem s0 s"
  "grows mem s0 (s\<lparr>total_execs := n\<rparr>) = grows mem s0 s"
  "grows mem s0 (s\<lparr>san_case_status := w\<rparr>) = grows mem s0 s"
  "grows mem s0 (s\<lparr>total_crashes := c\<rparr>) = grows mem s0 s"
  "grows mem s0 (s\<lparr>total_tmouts := c\<rparr>) = grows mem s0 s"
  "grows mem s0 (s\<lparr>saved_tmouts := c\<rparr>) = grows mem s0 s"
  "grows mem s0 (s\<lparr>fuzz_mode := b\<rparr>) = grows mem s0 s"
  "grows mem s0 (s\<lparr>subseq_tmouts := d\<rparr>) = grows mem s0 s"
  "grows mem s0 (s\<lparr>cur_skipped_items := d\<rparr>) = grows mem s0 s"
  "grows mem s0 (s\<lparr>skip_requested := b\<rparr>) = grows mem s0 s"
  "grows mem s0 (s\<lparr>queued_with_cov := d\<rparr>) = grows mem s0 s"
  by (simp_all add: grows_defs)

section \<open>Reading and updating the maps\<close>

lemma grows_cal_inv: "grows mem s0 s \<Longrightarrow> cal_inv s s"
  by (rule cal_inv_refl) (rule grows_run_inv)

lemma grows_map_size: "grows mem s0 s \<Longrightarrow> map_size s = map_size s0" "grows mem s0 s \<Longrightarrow> san_binary_length s = san_binary_length s0"
  "grows mem s0 s \<Longrightarrow> fast_schedule s = fast_schedule s0" "grows mem s0 s \<Longrightarrow> min_length s = min_length s0" "grows mem s0 s \<Longrightarrow> max_length s = max_length s0"
  "grows mem s0 s \<Longrightarrow> crash_mode s = crash_mode s0" "grows mem s0 s \<Longrightarrow> non_instrumented_mode s = non_instrumented_mode s0"
  "grows mem s0 s \<Longrightarrow> keep_timeouts s = keep_timeouts s0" "grows mem s0 s \<Longrightarrow> exec_tmout s = exec_tmout s0" "grows mem s0 s \<Longrightarrow> hang_tmout s = hang_tmout s0"
  "grows mem s0 s \<Longrightarrow> san_abstraction s = san_abstraction s0" "grows mem s0 s \<Longrightarrow> real_map_size s = real_map_size s0"
  by (simp_all add: grows_def config_of_def fast_schedule_def)

lemma grows_trace_len: "grows mem s0 s \<Longrightarrow> unat (map_size s) \<le> length (trace_bits s)"
  by (rule queue_inv_trace) (rule grows_run_inv)

lemma wp_classify_save:
  assumes "grows mem s0 s" and "grows mem s0 (s\<lparr>trace_bits := classed (unat (map_size s)) (trace_bits s)\<rparr>)
      \<Longrightarrow> Q (s\<lparr>trace_bits := classed (unat (map_size s)) (trace_bits s)\<rparr>)"
  shows "wp (classify_counts_64 s) Q"
  by (rule wp_classify [OF grows_cal_inv [OF assms(1)]], rule assms(2), rule grows_trace [OF assms(1)])
     (use grows_trace_len [OF assms(1)] in simp)

lemma wp_hash_save:
  assumes "grows mem s0 s" and "Q (op_hash ops (take (unat (map_size s)) (trace_bits s)))"
  shows "wp (hash_trace ops s) Q"
  using wp_hash_trace [OF grows_cal_inv [OF assms(1)], of Q ops] assms(2) by simp

lemma grows_n_fuzz:
  assumes "grows mem s0 s" and "length fs = length (n_fuzz s)"
  shows "grows mem s0 (s\<lparr>n_fuzz := fs\<rparr>)"
proof -
  have "queue_inv (s\<lparr>n_fuzz := fs\<rparr>)"
    using grows_run_inv(2) [OF assms(1)] assms(2) by (simp add: queue_inv_def shape_ok_def entries_ok_def entry_ok_def wins_of_def)
  then have "run_inv (s\<lparr>n_fuzz := fs\<rparr>)" by (intro run_inv_cong [OF grows_run_inv(1) [OF assms(1)]]) simp_all
  then show ?thesis using assms(2) by (intro grows_same [OF assms(1)]) (simp_all add: config_of_def)
qed

lemma wp_store8: "i < length m \<Longrightarrow> Q (m[i := v]) \<Longrightarrow> wp (store8 m i v) Q"
  by simp

lemma wp_count_path:
  assumes "grows mem s0 s" and "fast_schedule s"
    and "\<And>cksum t fs. grows mem s0 (s\<lparr>trace_bits := t, n_fuzz := fs\<rparr>) \<Longrightarrow> t = classed (unat (map_size s)) (trace_bits s)
      \<Longrightarrow> Q (cksum, s\<lparr>trace_bits := t, n_fuzz := fs\<rparr>)"
  shows "wp (count_path ops s) Q"
proof -
  let ?t = "classed (unat (map_size s)) (trace_bits s)"
  have len: "length (n_fuzz s) = N_FUZZ_SIZE" using assms(1,2) by (simp add: grows_def save_inv_def)
  have i: "n mod N_FUZZ_SIZE < N_FUZZ_SIZE" for n by (simp add: N_FUZZ_SIZE_def)
  have Q: "Q (c, s\<lparr>trace_bits := ?t, n_fuzz := fs\<rparr>)" if "length fs = N_FUZZ_SIZE" "grows mem s0 (s\<lparr>trace_bits := ?t\<rparr>)" for c fs
    using grows_n_fuzz [OF that(2), of fs] that(1) len by (intro assms(3)) simp_all
  have Q': "Q (c, s\<lparr>trace_bits := ?t\<rparr>)" if "grows mem s0 (s\<lparr>trace_bits := ?t\<rparr>)" for c
    using Q [OF len that, of c] by simp
  show ?thesis unfolding count_path_def wp_bind Let_def
    by (rule wp_classify_save [OF assms(1)], rule wp_hash_save, assumption, rule wp_load8, simp add: len i, rule wp_if)
       (use Q Q' len i in \<open>auto intro!: wp_store8\<close>)
qed

lemma grows_bits:
  assumes "grows mem s0 s" and "shrinks (virgin_bits s) v"
  shows "grows mem s0 (s\<lparr>virgin_bits := v, bitmap_changed := b\<rparr>)"
proof -
  have "cal_inv s (s\<lparr>virgin_bits := v, bitmap_changed := b\<rparr>)" by (rule cal_inv_virgin [OF grows_cal_inv [OF assms(1)] assms(2)])
  then have "run_inv (s\<lparr>virgin_bits := v, bitmap_changed := b\<rparr>)" by (simp add: cal_inv_def)
  then show ?thesis using assms(2) by (intro grows_same [OF assms(1)]) (simp_all add: config_of_def)
qed

definition counted_len :: "'z afl_cov_scheme \<Rightarrow> nat" where
  "counted_len s = 8 * unat (drop_bit 3 (real_map_size s + 7))"

text \<open>How new the trace \<open>t\<close> is for a map of undiscovered bits.\<close>

definition new_level :: "'z afl_cov_scheme \<Rightarrow> mem \<Rightarrow> mem \<Rightarrow> u8" where
  "new_level s t v = novelty (take (counted_len s) t) (take (counted_len s) v)"

lemma grows_ready:
  assumes "grows mem s0 s"
  shows "counted_len s \<le> unat (map_size s)" "cov_ready (counted_len s) s" "cov_ready (unat (map_size s)) s"
proof -
  have m: "maps_ok s" using grows_run_inv(1) [OF assms] by (simp add: run_inv_def)
  then show "counted_len s \<le> unat (map_size s)" unfolding counted_len_def by (intro map_fits_words(1)) (simp add: maps_ok_def)
  moreover show "cov_ready (unat (map_size s)) s" using m grows_trace_len [OF assms] by (simp add: cov_ready_def maps_ok_def)
  ultimately show "cov_ready (counted_len s) s" by (simp add: cov_ready_def)
qed

lemma wp_has_new_bits:
  assumes "grows mem s0 s"
    and "\<And>v b. grows mem s0 (s\<lparr>virgin_bits := v, bitmap_changed := b\<rparr>)
      \<Longrightarrow> Q (new_level s (trace_bits s) (virgin_bits s), s\<lparr>virgin_bits := v, bitmap_changed := b\<rparr>)"
  shows "wp (has_new_bits_64 s Virgin_Bits) Q"
proof -
  obtain r v b where r: "has_new_bits_64 s Virgin_Bits = Some (r, s\<lparr>virgin_bits := v, bitmap_changed := b\<rparr>)" "shrinks (virgin_bits s) v"
    using has_new_bits_bits [OF grows_run_inv(1) [OF assms(1)]] by blast
  have "r = new_level s (trace_bits s) (virgin_bits s)"
    using has_new_bits_64_spec [of s Virgin_Bits] grows_ready(2) [OF assms(1)] r(1)
    by (simp add: counted_len_def new_level_def has_new_bits_spec_def Let_def)
  then show ?thesis using assms(2) [OF grows_bits [OF assms(1) r(2)]] r(1) by simp
qed

lemma wp_check_bits:
  assumes "grows mem s0 s"
    and Q: "\<And>r v b t. grows mem s0 (s\<lparr>trace_bits := t, virgin_bits := v, bitmap_changed := b\<rparr>) \<Longrightarrow>
       r = new_level s (if sl_classified l then trace_bits s else classed (unat (map_size s)) (trace_bits s)) (virgin_bits s) \<Longrightarrow>
       r \<noteq> 0 \<longrightarrow> t = (if sl_classified l then trace_bits s else classed (unat (map_size s)) (trace_bits s)) \<Longrightarrow>
       Q (l\<lparr>sl_new_bits := r, sl_classified := True\<rparr>, s\<lparr>trace_bits := t, virgin_bits := v, bitmap_changed := b\<rparr>)"
  shows "wp (check_bits l s) Q"
proof (cases "sl_classified l")
  case True
  have "wp (has_new_bits_64 s Virgin_Bits) (\<lambda>(r, s). Q (l\<lparr>sl_new_bits := r, sl_classified := True\<rparr>, s))"
    by (rule wp_has_new_bits [OF assms(1)]) (use Q [where t = "trace_bits s"] True in simp)
  then show ?thesis using True by (simp add: check_bits_def)
next
  case False
  let ?t = "classed (unat (map_size s)) (trace_bits s)"
  obtain n where n: "unat (map_size s) = 32 * n" using grows_run_inv(3) [OF assms(1)] by (auto simp: save_inv_def dvd_def)
  have k: "8 * unat (drop_bit 3 (map_size s)) = 8 * (unat (map_size s) div 8)" by (simp add: drop_bit_eq_div unat_div)
  have "classify_counts_64 s = Some (s\<lparr>trace_bits := ?t\<rparr>)"
    using wp_classify_save [OF assms(1), of "\<lambda>s'. s' = s\<lparr>trace_bits := ?t\<rparr>"] by (auto simp: wp_iff)
  moreover have "\<exists>c r t u. classify_counts_64 s = Some c \<and> has_new_bits_64 c Virgin_Bits = Some (r, t)
     \<and> has_new_bits_unclassified_64 s Virgin_Bits = Some (r, u) \<and> (if r = 0 \<and> u \<noteq> t then u = s \<and> t = c else u = t)"
    by (rule unclassified_64_aux [where ?tab0.0 = "\<lambda>_. 0" and n = n])
       (use grows_ready(1,3) [OF assms(1)] n grows_run_inv(1) [OF assms(1)] in
         \<open>simp_all add: init_count_class16 run_inv_def maps_ok_def counted_len_def\<close>)
  ultimately obtain r t u where u: "has_new_bits_64 (s\<lparr>trace_bits := ?t\<rparr>) Virgin_Bits = Some (r, t)"
    "has_new_bits_unclassified_64 s Virgin_Bits = Some (r, u)" "if r = 0 \<and> u \<noteq> t then u = s \<and> t = s\<lparr>trace_bits := ?t\<rparr> else u = t"
    by auto
  have g: "grows mem s0 (s\<lparr>trace_bits := ?t\<rparr>)" using grows_trace_len [OF assms(1)] by (intro grows_trace [OF assms(1)]) simp
  have "wp (has_new_bits_64 (s\<lparr>trace_bits := ?t\<rparr>) Virgin_Bits) (\<lambda>(r, t). r = new_level s ?t (virgin_bits s)
      \<and> Q (l\<lparr>sl_new_bits := r, sl_classified := True\<rparr>, t))"
    by (rule wp_has_new_bits [OF g]) (use Q [where t = ?t] False in \<open>simp add: new_level_def counted_len_def\<close>)
  then have r: "r = new_level s ?t (virgin_bits s)" "Q (l\<lparr>sl_new_bits := r, sl_classified := True\<rparr>, t)" unfolding u(1) by auto
  have "Q (l\<lparr>sl_new_bits := r, sl_classified := True\<rparr>, s)" if "r = 0"
    using Q [where t = "trace_bits s" and v = "virgin_bits s" and b = "bitmap_changed s" and r = r] assms(1) r(1) that False by simp
  then show ?thesis using False u(2,3) r(2) by (auto simp: check_bits_def split: if_splits)
qed

section \<open>Sanitizers\<close>

text \<open>The input is in the buffer, also when it is padded to the smallest length.\<close>

definition buffered :: "'e afl_save \<Rightarrow> mem \<Rightarrow> nat \<Rightarrow> bool" where
  "buffered s mem len \<longleftrightarrow> len \<le> length mem \<and> min_length s \<le> length mem"

lemma wp_write_save:
  assumes "buffered s mem len"
    and "\<And>bs n. buffered s mem n \<Longrightarrow> Q (bs, n)"
  shows "wp (write_to_testcase s mem len fix) Q"
  using assms by (auto simp: write_to_testcase_def Let_def buffered_def intro!: wp_read_block)

lemma buffered_grows: "grows mem s0 s \<Longrightarrow> buffered s m n = buffered s0 m n"
  by (simp add: buffered_def grows_map_size)

lemma wp_run_sans:
  assumes "grows mem s0 s" and "buffered s0 mem len"
  shows "wp (run_sans ops mem i n len s) (\<lambda>(fault, len', s'). fault \<in> {FSRV_RUN_OK, FSRV_RUN_CRASH} \<and> buffered s0 mem len' \<and> grows mem s0 s'
     \<and> trace_bits s' = trace_bits s \<and> virgin_bits s' = virgin_bits s \<and> queue_buf s' = queue_buf s \<and> virgin_tmout s' = virgin_tmout s)"
  using assms
proof (induction n arbitrary: i len s)
  case (Suc n)
  have b: "buffered s mem len" using Suc.prems buffered_grows by blast
  show ?case unfolding run_sans.simps wp_bind
  proof (rule wp_write_save [OF b], unfold prod.case)
    fix bs len'
    assume b': "buffered s mem len'"
    obtain f st e where r: "op_san ops i bs (run_env s) = (f, st, e)" by (cases "op_san ops i bs (run_env s)")
    let ?s = "s\<lparr>stop_soon := st, run_env := e, san_case_status := (if f \<noteq> FSRV_RUN_OK then san_case_status s OR SAN_CRASH_ONLY else san_case_status s)\<rparr>"
    have g: "grows mem s0 ?s" using Suc.prems(1) by simp
    have b0: "buffered s0 mem len'" using b' buffered_grows [OF Suc.prems(1)] by simp
    show "wp (let (san_fault, stop, e) = op_san ops i bs (run_env s);
         s = s\<lparr>stop_soon := stop, run_env := e,
           san_case_status := (if san_fault \<noteq> FSRV_RUN_OK then san_case_status s OR SAN_CRASH_ONLY else san_case_status s)\<rparr>
       in if san_fault = FSRV_RUN_CRASH then Some (san_fault, len', s) else run_sans ops mem (i + 1) n len' s)
      (\<lambda>(fault, len', s'). fault \<in> {FSRV_RUN_OK, FSRV_RUN_CRASH} \<and> buffered s0 mem len' \<and> grows mem s0 s'
        \<and> trace_bits s' = trace_bits s \<and> virgin_bits s' = virgin_bits s \<and> queue_buf s' = queue_buf s \<and> virgin_tmout s' = virgin_tmout s)"
      using Suc.IH [OF g b0, of "i + 1"] g b0 unfolding r Let_def prod.case by (auto intro: wp_if simp del: grows_fields)
  qed
qed simp

lemma ucast_index: "unat (ucast h :: u32) div 8 < N_FUZZ_SIZE_BITMAP"
proof -
  have "unat (ucast h :: u32) < 2 ^ LENGTH(32)" by (rule unsigned_less)
  then show ?thesis by (simp add: N_FUZZ_SIZE_BITMAP_def less_mult_imp_div_less)
qed

lemma wp_bitmap_read: "index div 8 < length m \<Longrightarrow> (\<And>b. Q b) \<Longrightarrow> wp (bitmap_read m index) Q"
  by (simp add: bitmap_read_def)

lemma wp_bitmap_set: "index div 8 < length m \<Longrightarrow> (\<And>m'. length m' = length m \<Longrightarrow> Q m') \<Longrightarrow> wp (bitmap_set m index) Q"
  by (simp add: bitmap_set_def)

lemma wp_simplify:
  assumes "8 * unat (drop_bit 3 (map_size s)) \<le> length m" and "\<And>m'. length m' = length m \<Longrightarrow> Q m'"
  shows "wp (simplify_trace_64 s m) Q"
  unfolding simplify_trace_64_def cov64.simplify_loop [OF assms(1)] wp_Some by (rule assms(2)) (use assms(1) in simp)

lemma map_words: "8 * unat (drop_bit 3 (map_size s)) \<le> unat (map_size s)"
  by (simp add: drop_bit_eq_div unat_div)

lemma grows_bitmaps:
  assumes "grows mem s0 s"
  shows "length m = length (simplified_n_fuzz s) \<Longrightarrow> grows mem s0 (s\<lparr>simplified_n_fuzz := m\<rparr>)"
    and "length m = length (n_fuzz_dup s) \<Longrightarrow> grows mem s0 (s\<lparr>n_fuzz_dup := m\<rparr>)"
proof -
  have "run_inv (s\<lparr>simplified_n_fuzz := m\<rparr>)" "run_inv (s\<lparr>n_fuzz_dup := m\<rparr>)"
    using grows_run_inv(1) [OF assms] by (simp_all add: run_inv_def maps_ok_def map_fits_def queue_inv_def shape_ok_def entries_ok_def
      entry_ok_def wins_of_def)
  then show "length m = length (simplified_n_fuzz s) \<Longrightarrow> grows mem s0 (s\<lparr>simplified_n_fuzz := m\<rparr>)"
    "length m = length (n_fuzz_dup s) \<Longrightarrow> grows mem s0 (s\<lparr>n_fuzz_dup := m\<rparr>)"
    by (simp_all add: grows_same [OF assms] config_of_def)
qed

lemma wp_feed_simplified:
  assumes "grows mem s0 s" and "san_binary_length s \<noteq> 0 \<and> san_abstraction s = SIMPLIFY_TRACE"
    and "\<And>b m. grows mem s0 (s\<lparr>simplified_n_fuzz := m\<rparr>) \<Longrightarrow> Q (b, s\<lparr>simplified_n_fuzz := m\<rparr>)"
  shows "wp (feed_simplified ops s) Q"
proof -
  have len: "N_FUZZ_SIZE_BITMAP \<le> length (simplified_n_fuzz s)" using grows_run_inv(3) [OF assms(1)] assms(2) by (simp add: save_inv_def)
  have i: "unat (ucast h :: u32) div 8 < length (simplified_n_fuzz s)" for h :: u64 using ucast_index [of h] len by linarith
  have same: "Q (False, s)" using assms(3) [of "simplified_n_fuzz s" False] assms(1) by simp
  show ?thesis unfolding feed_simplified_def wp_bind Let_def
    by (rule wp_read_block, use grows_trace_len [OF assms(1)] in simp, rule wp_simplify, use map_words [of s] grows_trace_len [OF assms(1)] in simp,
        rule wp_bitmap_read [OF i], rule wp_if, unfold wp_bind wp_Some, rule wp_bitmap_set [OF i])
       (use assms(3) grows_bitmaps(1) [OF assms(1)] same in simp_all)
qed

lemma wp_feed_unique:
  assumes "grows mem s0 s" and "san_binary_length s \<noteq> 0 \<and> san_abstraction s = UNIQUE_TRACE"
    and Q: "\<And>b t m. grows mem s0 (s\<lparr>trace_bits := t, n_fuzz_dup := m\<rparr>) \<Longrightarrow>
       t = (if sl_classified l then trace_bits s else classed (unat (map_size s)) (trace_bits s)) \<Longrightarrow>
       Q (b, l\<lparr>sl_classified := True\<rparr>, s\<lparr>trace_bits := t, n_fuzz_dup := m\<rparr>)"
  shows "wp (feed_unique ops l s) Q"
proof -
  have len: "N_FUZZ_SIZE_BITMAP \<le> length (n_fuzz_dup s)" using grows_run_inv(3) [OF assms(1)] assms(2) by (simp add: save_inv_def)
  have i: "unat (ucast h :: u32) div 8 < length (n_fuzz_dup s)" for h :: u64 using ucast_index [of h] len by linarith
  let ?t = "if sl_classified l then trace_bits s else classed (unat (map_size s)) (trace_bits s)"
  have g: "grows mem s0 (s\<lparr>trace_bits := ?t\<rparr>)" using grows_trace_len [OF assms(1)] by (intro grows_trace [OF assms(1)]) simp
  have c: "(if sl_classified l then Some s else classify_counts_64 s) = Some (s\<lparr>trace_bits := ?t\<rparr>)"
    using wp_classify_save [OF assms(1), of "\<lambda>s'. s' = s\<lparr>trace_bits := classed (unat (map_size s)) (trace_bits s)\<rparr>"] by (auto simp: wp_iff)
  have same: "Q (False, l\<lparr>sl_classified := True\<rparr>, s\<lparr>trace_bits := ?t\<rparr>)"
    using Q [where t = ?t and m = "n_fuzz_dup s" and b = False] g by simp
  have set: "Q (True, l\<lparr>sl_classified := True\<rparr>, s\<lparr>trace_bits := ?t, n_fuzz_dup := m\<rparr>)" if "length m = length (n_fuzz_dup s)" for m
    using Q [where t = ?t and m = m and b = True] grows_bitmaps(2) [OF g, of m] that by simp
  show ?thesis unfolding feed_unique_def wp_bind Let_def c wp_Some
    by (rule wp_hash_save [OF g], rule wp_bitmap_read, simp add: i, rule wp_if, unfold wp_bind wp_Some, rule wp_bitmap_set, simp add: i)
       (use same set in simp_all)
qed

text \<open>The trace after \<open>decide_feed\<close>.\<close>

lemma wp_decide_feed:
  assumes "grows mem s0 s"
  shows "wp (decide_feed ops l s) (\<lambda>(feed, l', s'). grows mem s0 s' \<and> sl_len l' = sl_len l \<and> queue_buf s' = queue_buf s \<and> virgin_tmout s' = virgin_tmout s
     \<and> sl_keeping l' = sl_keeping l \<and> sl_cksum l' = sl_cksum l \<and> (\<not> feed \<longrightarrow> san_binary_length s = 0 \<longrightarrow> l' = l \<and> s' = s) \<and> (san_binary_length s = 0 \<longrightarrow> \<not> feed))"
proof (cases "san_binary_length s = 0")
  case False
  show ?thesis
  proof (cases "san_abstraction s")
    case SIMPLIFY_TRACE
    then show ?thesis using False by (simp add: decide_feed_def) (rule wp_feed_simplified [OF assms], simp_all)
  next
    case UNIQUE_TRACE
    then show ?thesis using False by (simp add: decide_feed_def) (rule wp_feed_unique [OF assms], simp_all)
  next
    case COVERAGE_INCREASE
    then show ?thesis using False by (simp add: decide_feed_def) (rule wp_check_bits [OF assms], simp)
  qed
qed (use assms in \<open>simp add: decide_feed_def\<close>)

lemma wp_judge:
  assumes "grows mem s0 s" and "buffered s0 mem (sl_len l)"
  shows "wp (judge ops mem l s) (\<lambda>(fault, l', s'). fault \<in> {FSRV_RUN_OK, FSRV_RUN_CRASH} \<and> grows mem s0 s' \<and> buffered s0 mem (sl_len l')
     \<and> queue_buf s' = queue_buf s \<and> sl_keeping l' = sl_keeping l \<and> sl_cksum l' = sl_cksum l)"
proof -
  have bits: "wp (if \<not> (san_abstraction s' = COVERAGE_INCREASE \<and> feed) then check_bits l' s' else Some (l', s'))
      (\<lambda>(l'', s''). grows mem s0 s'' \<and> sl_len l'' = sl_len l' \<and> queue_buf s'' = queue_buf s' \<and> sl_keeping l'' = sl_keeping l' \<and> sl_cksum l'' = sl_cksum l')"
    if "grows mem s0 s'" for feed l' s'
    by (rule wp_if, rule wp_check_bits [OF that]) (use that in simp_all)
  have sans: "wp (if feed then run_sans ops mem 0 (san_binary_length s') (sl_len l') s' else Some (FSRV_RUN_OK, sl_len l', s'))
      (\<lambda>(fault, len, s''). fault \<in> {FSRV_RUN_OK, FSRV_RUN_CRASH} \<and> buffered s0 mem len \<and> grows mem s0 s'' \<and> queue_buf s'' = queue_buf s')"
    if "grows mem s0 s'" "buffered s0 mem (sl_len l')" for feed l' s'
    by (rule wp_if, rule wp_mono [OF wp_run_sans [OF that]]) (use that in auto)
  show ?thesis unfolding judge_def wp_bind Let_def
    apply (rule wp_mono [OF wp_decide_feed [OF assms(1)]])
    apply clarify
    subgoal for feed l1 s1
      apply (unfold wp_bind, rule wp_mono [OF sans [of s1 l1]], assumption, use assms(2) in simp)
      apply clarify
      subgoal for fault len s2
        by (unfold wp_bind, rule wp_mono [OF bits [of s2]], assumption) auto
      done
    done
qed

lemma judge_no_sans:
  assumes "grows mem s0 s" and "san_binary_length s = 0"
    and "\<And>r v b t. grows mem s0 (s\<lparr>trace_bits := t, virgin_bits := v, bitmap_changed := b\<rparr>) \<Longrightarrow>
       r = new_level s (if sl_classified l then trace_bits s else classed (unat (map_size s)) (trace_bits s)) (virgin_bits s) \<Longrightarrow>
       r \<noteq> 0 \<longrightarrow> t = (if sl_classified l then trace_bits s else classed (unat (map_size s)) (trace_bits s)) \<Longrightarrow>
       Q (FSRV_RUN_OK, l\<lparr>sl_new_bits := r, sl_classified := True\<rparr>, s\<lparr>trace_bits := t, virgin_bits := v, bitmap_changed := b\<rparr>)"
  shows "wp (judge ops mem l s) Q"
proof -
  have l: "l\<lparr>sl_len := sl_len l\<rparr> = l" by simp
  show ?thesis unfolding judge_def decide_feed_def using assms(2)
    by (simp add: l) (rule wp_check_bits [OF assms(1)], rule assms(3))
qed

section \<open>New entries\<close>

lemma queue_inv_append:
  assumes "queue_inv s" and "qe_tc_ref e = 0" and "qe_trace_mini e = None" and "schedule s = RARE \<longrightarrow> unat (qe_n_fuzz_entry e) < length (n_fuzz s)"
  shows "queue_inv (s\<lparr>queue_buf := queue_buf s @ [e]\<rparr>)"
proof -
  have "Some (length (queue_buf s)) \<notin> set (top_rated s)" using assms(1) by (auto simp: queue_inv_def shape_ok_def)
  then have "count_list (top_rated s) (Some (length (queue_buf s))) = 0" by (simp add: count_list_0_iff)
  then show ?thesis using assms
    by (auto simp: queue_inv_def shape_ok_def entries_ok_def entry_ok_def wins_of_def nth_append less_Suc_eq split: if_splits)
qed

lemma grows_entry:
  assumes "grows mem s0 s" and "file_of mem f" and "run_inv s'" and "config_of s' = config_of s" and "virgin_bits s' = virgin_bits s"
    and "virgin_tmout s' = virgin_tmout s" and "virgin_crash s' = virgin_crash s" and "n_fuzz s' = n_fuzz s"
    and "simplified_n_fuzz s' = simplified_n_fuzz s" and "n_fuzz_dup s' = n_fuzz_dup s"
    and "queue_files s' = queue_files s @ [f]" and "length (queue_buf s') = length (queue_buf s) + 1"
    and "crash_files s' = crash_files s" and "hang_files s' = hang_files s" and "saved_crashes s' = saved_crashes s"
    and "saved_hangs s' = saved_hangs s"
  shows "grows mem s0 s'"
proof -
  have "san_binary_length s' = san_binary_length s" "san_abstraction s' = san_abstraction s" "fast_schedule s' = fast_schedule s" "map_size s' = map_size s"
    using assms(4) by (simp_all add: config_of_def fast_schedule_def)
  then have "save_inv s'" using assms unfolding grows_def save_inv_def by simp
  then have "grows mem s s'" using assms by (simp add: grows_def)
  then show ?thesis using assms(1) grows_trans by blast
qed

lemma grows_add:
  assumes "grows mem s0 s" and "file_of mem f"
  shows "grows mem s0 (add_to_queue ops len (s\<lparr>queue_files := queue_files s @ [f]\<rparr>))"
proof -
  let ?e = "fresh_entry (queued_items s) (word_of_nat len) (ucast (cur_depth s + 1))"
  let ?s = "add_to_queue ops len (s\<lparr>queue_files := queue_files s @ [f]\<rparr>)"
  have "schedule s = RARE \<longrightarrow> fast_schedule s" by (simp add: fast_schedule_def less_eq_schedule_def)
  then have "queue_inv (s\<lparr>queue_buf := queue_buf s @ [?e]\<rparr>)"
    using grows_run_inv(2,3) [OF assms(1)] by (intro queue_inv_append) (auto simp: fresh_entry_def save_inv_def N_FUZZ_SIZE_def)
  then have "queue_inv ?s" by (rule queue_inv_cong) (simp_all add: add_to_queue_def Let_def split_def queue_inv_trace grows_trace_len [OF assms(1)])
  then have "run_inv ?s" by (rule run_inv_cong [OF grows_run_inv(1) [OF assms(1)]]) (simp_all add: add_to_queue_def Let_def split_def)
  then show ?thesis using assms(2)
    by (intro grows_entry [OF assms]) (simp_all add: add_to_queue_def Let_def split_def config_of_def)
qed

lemma wp_write_file:
  assumes "grows mem s0 s" and "len \<le> length mem"
    and "\<And>f e. file_of mem f \<Longrightarrow> f = None \<or> f = Some (take len mem) \<Longrightarrow> grows mem s0 (s\<lparr>run_env := e\<rparr>) \<Longrightarrow> Q (f, s\<lparr>run_env := e\<rparr>)"
  shows "wp (write_file ops mem len s) Q"
proof -
  obtain ok e where c: "op_create ops (run_env s) = (ok, e)" by (cases "op_create ops (run_env s)")
  have "file_of mem (Some (take len mem))" "file_of mem None" using assms(2) by (auto simp: file_of_def)
  then show ?thesis using assms(1,2) by (auto simp: write_file_def c intro!: wp_read_block assms(3))
qed

definition entry_update :: "'e afl_save \<Rightarrow> (queue_entry \<Rightarrow> queue_entry) \<Rightarrow> bool" where
  "entry_update s f \<longleftrightarrow> (\<forall>e. qe_tc_ref (f e) = qe_tc_ref e \<and> qe_trace_mini (f e) = qe_trace_mini e
     \<and> (qe_n_fuzz_entry (f e) = qe_n_fuzz_entry e \<or> unat (qe_n_fuzz_entry (f e)) < length (n_fuzz s)))"

lemma wp_set_entry_save:
  assumes "grows mem s0 s" and "entry_update s f" and "q < length (queue_buf s)"
    and "grows mem s0 (s\<lparr>queue_buf := (queue_buf s)[q := f (queue_buf s ! q)]\<rparr>) \<Longrightarrow> Q (s\<lparr>queue_buf := (queue_buf s)[q := f (queue_buf s ! q)]\<rparr>)"
  shows "wp (set_entry s q f) Q"
proof -
  let ?s = "s\<lparr>queue_buf := (queue_buf s)[q := f (queue_buf s ! q)]\<rparr>"
  have "entry_ok s n (f e)" if "entry_ok s n e" for n e
    using that assms(2) unfolding entry_ok_def entry_update_def by metis
  moreover have "entry_ok ?s = entry_ok s" by (intro ext) (simp add: entry_ok_def)
  ultimately have "queue_inv ?s" using grows_run_inv(2) [OF assms(1)] assms(3)
    by (simp add: queue_inv_def shape_ok_def entries_ok_def wins_of_def nth_list_update)
  then have "run_inv ?s" by (intro run_inv_cong [OF grows_run_inv(1) [OF assms(1)]]) simp_all
  then have "grows mem s0 ?s" by (intro grows_same [OF assms(1)]) (simp_all add: config_of_def)
  then show ?thesis using assms(3,4) by (simp add: set_entry_def)
qed

lemma more_fields:
  assumes "afl_run.more s' = afl_run.more (s :: 'e afl_save)"
  shows "san_binary_length s' = san_binary_length s" "san_abstraction s' = san_abstraction s" "hang_tmout s' = hang_tmout s"
    "keep_timeouts s' = keep_timeouts s" "ignore_timeouts s' = ignore_timeouts s" "simplified_n_fuzz s' = simplified_n_fuzz s"
    "n_fuzz_dup s' = n_fuzz_dup s" "queue_files s' = queue_files s" "crash_files s' = crash_files s" "hang_files s' = hang_files s"
    "saved_crashes s' = saved_crashes s" "saved_hangs s' = saved_hangs s" "queued_discovered s' = queued_discovered s"
  using assms by (cases s; cases s'; simp)+

lemma grows_cal:
  assumes "grows mem s0 s" and "cal_inv s s'"
  shows "grows mem s0 s'"
  using assms(2) more_fields [of s' s]
  by (intro grows_same [OF assms(1)]) (simp_all add: cal_inv_def same_setup_def config_of_def)

lemma wp_calibrate:
  assumes "grows mem s0 s" and "full_traces ops (unat (map_size s0))" and "\<not> run_errors ops" and "crash_mode s0 \<noteq> FSRV_RUN_ERROR"
    and "q < length (queue_buf s)" and "unat (qe_len (queue_buf s ! q)) \<le> length mem"
    and "\<And>fault s'. fault \<noteq> FSRV_RUN_ERROR \<Longrightarrow> grows mem s0 s' \<Longrightarrow> virgin_tmout s' = virgin_tmout s \<Longrightarrow> length (queue_buf s') = length (queue_buf s)
      \<Longrightarrow> queue_files s' = queue_files s \<Longrightarrow> hang_files s' = hang_files s \<Longrightarrow> kept_flags (queue_buf s ! q) (queue_buf s' ! q) \<Longrightarrow> qe_len (queue_buf s' ! q) = qe_len (queue_buf s ! q)
      \<Longrightarrow> Q (fault, s')"
  shows "wp (calibrate_case ops q mem handicap from_queue s) Q"
proof -
  have "input_fits s q mem" using assms(5,6) by (simp add: input_fits_def)
  moreover have "full_traces ops (unat (map_size s))" using assms(2) grows_map_size(1) [OF assms(1)] by simp
  ultimately have "wp (calibrate_case ops q mem handicap from_queue s) (\<lambda>(fault, s'). cal_post ops q (cal_runs s) s fault s')"
    by (intro calibrate_case_spec [OF grows_run_inv(1) [OF assms(1)]])
  then show ?thesis
  proof (rule wp_mono, clarify)
    fix fault s' assume p: "cal_post ops q (cal_runs s) s fault s'"
    then have c: "cal_inv s s'" by (simp add: cal_post_def)
    have more: "afl_run.more s' = afl_run.more s" "virgin_tmout s' = virgin_tmout s" using c by (simp_all add: cal_inv_def same_setup_def)
    have "fault \<noteq> FSRV_RUN_ERROR" using p assms(3,4) grows_map_size(6) [OF assms(1)] by (auto simp: cal_post_def)
    then show "Q (fault, s')"
      by (rule assms(7)) (use grows_cal [OF assms(1) c] more more_fields(8,10) [OF more(1)] cal_inv_sizes(6) [OF c] p
        cal_inv_setup(10) [OF c assms(5)] in \<open>simp_all add: cal_post_def\<close>)
  qed
qed

text \<open>What the operations rely on: whole traces, a target that can be executed, and the input in its buffer.\<close>

definition save_pre :: "'e save_ops \<Rightarrow> mem \<Rightarrow> 'e afl_save \<Rightarrow> saving \<Rightarrow> bool" where
  "save_pre ops mem s0 l \<longleftrightarrow> full_traces (op_base ops) (unat (map_size s0)) \<and> \<not> run_errors (op_base ops) \<and> crash_mode s0 \<noteq> FSRV_RUN_ERROR
     \<and> buffered s0 mem (sl_len l) \<and> (sl_cksum l \<noteq> 0 \<longrightarrow> fast_schedule s0)"

definition entry_saved :: "mem \<Rightarrow> saving \<Rightarrow> 'e afl_save \<Rightarrow> 'e afl_save \<Rightarrow> bool" where
  "entry_saved mem l s s' \<longleftrightarrow> length (queue_buf s') = length (queue_buf s) + 1
     \<and> qe_len (queue_buf s' ! length (queue_buf s)) = word_of_nat (sl_len l)
     \<and> (sl_new_bits l = 2 \<longrightarrow> qe_has_new_cov (queue_buf s' ! length (queue_buf s)))
     \<and> hang_files s' = hang_files s
     \<and> (\<exists>f. queue_files s' = queue_files s @ [f] \<and> (f = None \<or> f = Some (take (sl_len l) mem)))"

lemma wp_save_to_queue:
  assumes g: "grows mem s0 s" and pre: "save_pre ops mem s0 l"
  shows "wp (save_to_queue ops mem l s) (\<lambda>(l', s'). grows mem s0 s' \<and> virgin_tmout s' = virgin_tmout s \<and> entry_saved mem l s s'
     \<and> sl_keeping l' \<and> sl_len l' = sl_len l \<and> sl_cksum l' = sl_cksum l)"
proof -
  let ?q = "length (queue_buf s)"
  have len: "sl_len l \<le> length mem" using pre by (simp add: save_pre_def buffered_def)
  have ops: "full_traces (op_base ops) (unat (map_size s0))" "\<not> run_errors (op_base ops)" "crash_mode s0 \<noteq> FSRV_RUN_ERROR"
    using pre by (simp_all add: save_pre_def)
  let ?P = "\<lambda>s'. grows mem s0 s' \<and> length (queue_buf s') = ?q + 1 \<and> qe_len (queue_buf s' ! ?q) = word_of_nat (sl_len l)
     \<and> virgin_tmout s' = virgin_tmout s \<and> hang_files s' = hang_files s
     \<and> (\<exists>f. queue_files s' = queue_files s @ [f] \<and> (f = None \<or> f = Some (take (sl_len l) mem)))"
  have cov: "wp (if sl_new_bits l = 2 then do {
         s \<leftarrow> set_entry s1 ?q (\<lambda>e. e\<lparr>qe_has_new_cov := True\<rparr>);
         Some (s\<lparr>queued_with_cov := queued_with_cov s + 1\<rparr>) }
       else Some s1) (\<lambda>s'. ?P s' \<and> (sl_new_bits l = 2 \<longrightarrow> qe_has_new_cov (queue_buf s' ! ?q)))" if "?P s1" for s1
    by (rule wp_if, unfold wp_bind wp_Some, rule wp_set_entry_save [where ?s0.0 = s0 and mem = mem])
       (use that in \<open>auto simp: entry_update_def\<close>)
  have hash: "wp (if sl_need_hash l \<and> sl_new_bits l \<noteq> 0 then do {
         h \<leftarrow> hash_trace (op_base ops) s1;
         s \<leftarrow> set_entry s1 ?q (\<lambda>e. e\<lparr>qe_exec_cksum := h\<rparr>);
         Some (l\<lparr>sl_need_hash := False\<rparr>, s) }
       else Some (l, s1)) (\<lambda>(l', s'). ?P s' \<and> (c \<longrightarrow> qe_has_new_cov (queue_buf s' ! ?q)) \<and> sl_len l' = sl_len l \<and> sl_cksum l' = sl_cksum l)"
    if "?P s1" "c \<longrightarrow> qe_has_new_cov (queue_buf s1 ! ?q)" for s1 c
    by (rule wp_if, unfold wp_bind wp_Some, rule wp_hash_save [where ?s0.0 = s0 and mem = mem], use that in simp,
        rule wp_set_entry_save [where ?s0.0 = s0 and mem = mem])
       (use that in \<open>auto simp: entry_update_def\<close>)
  have path: "wp (if sl_cksum l1 \<noteq> 0 then do {
         let i = unat (sl_cksum l1) mod N_FUZZ_SIZE;
         s \<leftarrow> set_entry s1 ?q (\<lambda>e. e\<lparr>qe_n_fuzz_entry := word_of_nat i\<rparr>);
         fs \<leftarrow> store8 (n_fuzz s) i 1;
         Some (s\<lparr>n_fuzz := fs\<rparr>) }
       else Some s1) (\<lambda>s'. ?P s' \<and> (c \<longrightarrow> qe_has_new_cov (queue_buf s' ! ?q)))"
    if "?P s1" "c \<longrightarrow> qe_has_new_cov (queue_buf s1 ! ?q)" "sl_cksum l1 = sl_cksum l" for s1 c l1
  proof (rule wp_if)
    let ?i = "unat (sl_cksum l1) mod N_FUZZ_SIZE"
    assume "sl_cksum l1 \<noteq> 0"
    then have n: "length (n_fuzz s1) = N_FUZZ_SIZE" using pre that(1,3) grows_map_size(3) [of mem s0 s1] by (auto simp: save_pre_def grows_def save_inv_def)
    have i: "?i < N_FUZZ_SIZE" "unat (word_of_nat ?i :: u32) = ?i"
      by (simp_all add: N_FUZZ_SIZE_def unsigned_of_nat take_bit_nat_eq_self_iff less_trans [of _ 2097152])
    show "wp (let i = ?i in do {
         s \<leftarrow> set_entry s1 ?q (\<lambda>e. e\<lparr>qe_n_fuzz_entry := word_of_nat i\<rparr>);
         fs \<leftarrow> store8 (n_fuzz s) i 1;
         Some (s\<lparr>n_fuzz := fs\<rparr>) }) (\<lambda>s'. ?P s' \<and> (c \<longrightarrow> qe_has_new_cov (queue_buf s' ! ?q)))"
      unfolding Let_def wp_bind wp_Some
      apply (rule wp_set_entry_save [where ?s0.0 = s0 and mem = mem], use that in simp, use i n in \<open>simp add: entry_update_def\<close>, use that in simp)
      apply (rule wp_store8, simp add: i n)
      apply (frule grows_n_fuzz [where fs = "(n_fuzz s1)[?i := 1]"], use that in auto)
      done
  qed (use that in simp)
  have cal: "wp (calibrate_case (op_base ops) ?q mem handicap False s1) (\<lambda>(res, s'). res \<noteq> FSRV_RUN_ERROR \<and> ?P s' \<and> (c \<longrightarrow> qe_has_new_cov (queue_buf s' ! ?q)))"
    if "?P s1" "c \<longrightarrow> qe_has_new_cov (queue_buf s1 ! ?q)" for handicap s1 c
    by (rule wp_calibrate [OF _ ops]) (use that len in \<open>auto simp: kept_flags_def unsigned_of_nat intro: order_trans [OF take_bit_nat_less_eq_self]\<close>)
  let ?cov = "\<lambda>s'. sl_new_bits l = 2 \<longrightarrow> qe_has_new_cov (queue_buf s' ! ?q)"
  have finish: "wp (finish_entry ops mem ?q l s1) (\<lambda>(l', s'). grows mem s0 s' \<and> virgin_tmout s' = virgin_tmout s \<and> entry_saved mem l s s'
     \<and> sl_keeping l' \<and> sl_len l' = sl_len l \<and> sl_cksum l' = sl_cksum l)" if "?P s1" for s1
    unfolding finish_entry_def wp_bind
  proof (rule wp_mono [OF cov [OF that]])
    fix s2 assume s2: "?P s2 \<and> ?cov s2"
    show "wp (if sl_need_hash l \<and> sl_new_bits l \<noteq> 0 then do {
         h \<leftarrow> hash_trace (op_base ops) s2;
         s \<leftarrow> set_entry s2 ?q (\<lambda>e. e\<lparr>qe_exec_cksum := h\<rparr>);
         Some (l\<lparr>sl_need_hash := False\<rparr>, s) }
       else Some (l, s2)) (\<lambda>x. wp (case x of (l, s) \<Rightarrow> Option.bind
          (if sl_cksum l \<noteq> 0 then do {
             let i = unat (sl_cksum l) mod N_FUZZ_SIZE;
             s \<leftarrow> set_entry s ?q (\<lambda>e. e\<lparr>qe_n_fuzz_entry := word_of_nat i\<rparr>);
             fs \<leftarrow> store8 (n_fuzz s) i 1;
             Some (s\<lparr>n_fuzz := fs\<rparr>) }
           else Some s) (\<lambda>s. do {
             (res, s) \<leftarrow> calibrate_case (op_base ops) ?q mem (ucast (queue_cycle s - 1)) False s;
             if res = FSRV_RUN_ERROR then None
             else Some (l\<lparr>sl_keeping := True\<rparr>, s\<lparr>run_env := op_store ops ?q mem (run_env s)\<rparr>) }))
       (\<lambda>(l', s'). grows mem s0 s' \<and> virgin_tmout s' = virgin_tmout s \<and> entry_saved mem l s s'
         \<and> sl_keeping l' \<and> sl_len l' = sl_len l \<and> sl_cksum l' = sl_cksum l))"
    proof (rule wp_mono [OF hash [of s2 "sl_new_bits l = 2"]], use s2 in simp, use s2 in simp, clarify, unfold wp_bind)
      fix l1 s3 f
      assume s3: "grows mem s0 s3" "length (queue_buf s3) = ?q + 1" "qe_len (queue_buf s3 ! ?q) = word_of_nat (sl_len l)"
        "virgin_tmout s3 = virgin_tmout s" "hang_files s3 = hang_files s" "?cov s3" "sl_len l1 = sl_len l" "sl_cksum l1 = sl_cksum l"
        "queue_files s3 = queue_files s @ [f]" "f = None \<or> f = Some (take (sl_len l) mem)"
      show "wp (if sl_cksum l1 \<noteq> 0 then do {
             let i = unat (sl_cksum l1) mod N_FUZZ_SIZE;
             s \<leftarrow> set_entry s3 ?q (\<lambda>e. e\<lparr>qe_n_fuzz_entry := word_of_nat i\<rparr>);
             fs \<leftarrow> store8 (n_fuzz s) i 1;
             Some (s\<lparr>n_fuzz := fs\<rparr>) }
           else Some s3) (\<lambda>s4. wp (calibrate_case (op_base ops) ?q mem (ucast (queue_cycle s4 - 1)) False s4) (\<lambda>x. wp (case x of (res, s) \<Rightarrow>
             if res = FSRV_RUN_ERROR then None
             else Some (l1\<lparr>sl_keeping := True\<rparr>, s\<lparr>run_env := op_store ops ?q mem (run_env s)\<rparr>))
         (\<lambda>(l', s'). grows mem s0 s' \<and> virgin_tmout s' = virgin_tmout s \<and> entry_saved mem l s s'
           \<and> sl_keeping l' \<and> sl_len l' = sl_len l \<and> sl_cksum l' = sl_cksum l)))"
        apply (rule wp_mono [OF path [of s3 "sl_new_bits l = 2" l1]], use s3 in simp, use s3 in simp, use s3 in simp)
        subgoal for s4
          apply (rule wp_mono [OF cal [of s4 "sl_new_bits l = 2"]], simp, simp)
          using s3(7,8) by (auto simp: entry_saved_def)
        done
    qed
  qed
  let ?add = "\<lambda>f e. add_to_queue ops (sl_len l) (s\<lparr>run_env := e, queue_files := queue_files s @ [f]\<rparr>)"
  have start: "?P (?add f e)" "?P (?add f e\<lparr>fuzz_mode := False\<rparr>)" if "f = None \<or> f = Some (take (sl_len l) mem)" "file_of mem f" for f e
  proof -
    have "grows mem s0 (add_to_queue ops (sl_len l) ((s\<lparr>run_env := e\<rparr>)\<lparr>queue_files := queue_files (s\<lparr>run_env := e\<rparr>) @ [f]\<rparr>))"
      using g that(2) by (intro grows_add) simp_all
    then have "grows mem s0 (?add f e)" by simp
    then show "?P (?add f e)" "?P (?add f e\<lparr>fuzz_mode := False\<rparr>)"
      using that(1) by (simp_all add: add_to_queue_def Let_def split_def fresh_entry_def)
  qed
  show ?thesis unfolding save_to_queue_def wp_bind Let_def
    apply (rule wp_write_file [OF g len], unfold prod.case)
    subgoal for f e using finish [OF start(1) [of f e]] finish [OF start(2) [of f e]] by simp
    done
qed

section \<open>Crashes and hangs\<close>

definition simplified :: "nat \<Rightarrow> mem \<Rightarrow> mem" where
  "simplified k t = map simplify_lookup (take (8 * (k div 8)) t) @ drop (8 * (k div 8)) t"

definition cleared :: "'z afl_cov_scheme \<Rightarrow> mem \<Rightarrow> mem \<Rightarrow> mem" where
  "cleared s t v = clear_hits (take (counted_len s) v) (take (counted_len s) t) @ drop (counted_len s) v"

definition bits_of :: "mem \<Rightarrow> (nat \<times> nat) set" where
  "bits_of m = {(i, b). i < length m \<and> b < 8 \<and> bit (m ! i) b}"

lemma length_simplified [simp]: "length (simplified k t) = length t"
  by (simp add: simplified_def)

lemma finite_bits_of [simp]: "finite (bits_of m)"
  by (rule finite_subset [of _ "{..<length m} \<times> {..<8}"]) (auto simp: bits_of_def)

lemma and_not_bit: "w AND NOT v = (0 :: u8) \<Longrightarrow> bit w b \<Longrightarrow> bit v b"
  using bit_imp_le_length [of w b] by (auto simp: bit_eq_iff bit_simps)

lemma bits_of_shrinks: "shrinks v w \<Longrightarrow> bits_of w \<subseteq> bits_of v"
  using and_not_bit by (fastforce simp: bits_of_def shrinks_def)

lemma shrinks_cleared: "counted_len s \<le> length t \<Longrightarrow> counted_len s \<le> length v \<Longrightarrow> shrinks v (cleared s t v)"
  unfolding cleared_def by (rule shrinks_clear_hits) simp_all

lemma cleared_fewer:
  assumes "counted_len s \<le> length t" and "counted_len s \<le> length v" and "new_level s t v \<noteq> 0"
  shows "card (bits_of (cleared s t v)) < card (bits_of v)"
proof -
  have "any_hit (take (counted_len s) t) (take (counted_len s) v)"
    using assms(3) novelty_not_any_hit unfolding new_level_def by blast
  then obtain i where i: "i < counted_len s" "t ! i AND v ! i \<noteq> 0" using assms(1,2) by (auto simp: any_hit_def list_ex_length)
  then obtain b where b: "b < 8" "bit (t ! i) b" "bit (v ! i) b" by (auto simp: bit_eq_iff bit_simps)
  have "cleared s t v ! i = v ! i AND NOT (t ! i)" using i(1) assms(1,2) by (simp add: cleared_def clear_hits_def nth_append)
  then have "(i, b) \<in> bits_of v - bits_of (cleared s t v)" using i(1) assms(2) b by (auto simp: bits_of_def bit_simps)
  moreover have "bits_of (cleared s t v) \<subseteq> bits_of v" by (rule bits_of_shrinks [OF shrinks_cleared [OF assms(1,2)]])
  ultimately show ?thesis by (intro psubset_card_mono) auto
qed

lemma grows_virgin:
  assumes "grows mem s0 s" and "vm \<noteq> Virgin_Bits" and "shrinks (get_virgin s vm) v"
  shows "grows mem s0 (set_virgin vm v s)"
proof -
  have "queue_inv (set_virgin vm v s)" by (rule queue_inv_cong [OF grows_run_inv(2) [OF assms(1)]])
    (use grows_trace_len [OF assms(1)] in \<open>(cases vm; simp)+\<close>)
  then have "run_inv (set_virgin vm v s)"
    by (rule run_inv_cong [OF grows_run_inv(1) [OF assms(1)]]) (use assms(2,3) in \<open>(cases vm; simp add: shrinks_def)+\<close>)
  then show ?thesis using assms(2,3) by (cases vm) (auto intro!: grows_same [OF assms(1)] simp: config_of_def)
qed

lemma level_fields [simp]:
  "new_level (s\<lparr>total_tmouts := x\<rparr>) = new_level s" "new_level (s\<lparr>total_crashes := x\<rparr>) = new_level s"
  "cleared (s\<lparr>total_tmouts := x\<rparr>) = cleared s" "cleared (s\<lparr>total_crashes := x\<rparr>) = cleared s"
  by (intro ext; simp add: new_level_def cleared_def counted_len_def)+

lemma wp_unique_fault:
  assumes g: "grows mem s0 s" and vm: "vm \<noteq> Virgin_Bits"
  defines "t \<equiv> simplified (unat (map_size s)) (trace_bits s)"
  assumes plain: "non_instrumented_mode s \<Longrightarrow> Q (True, s)"
    and maps: "\<not> non_instrumented_mode s \<Longrightarrow> grows mem s0 (set_virgin vm (cleared s t (get_virgin s vm)) (s\<lparr>trace_bits := t\<rparr>)) \<Longrightarrow>
      Q (new_level s t (get_virgin s vm) \<noteq> 0, set_virgin vm (cleared s t (get_virgin s vm)) (s\<lparr>trace_bits := t\<rparr>))"
  shows "wp (unique_fault vm s) Q"
proof (cases "non_instrumented_mode s")
  case False
  have k: "8 * unat (drop_bit 3 (map_size s)) = 8 * (unat (map_size s) div 8)" by (simp add: drop_bit_eq_div unat_div)
  have "simplify_trace_64 s (trace_bits s) = Some t"
    unfolding simplify_trace_64_def t_def simplified_def k [symmetric]
    by (rule cov64.simplify_loop) (use map_words [of s] grows_trace_len [OF g] in simp)
  moreover have g': "grows mem s0 (s\<lparr>trace_bits := t\<rparr>)" using grows_trace_len [OF g] by (intro grows_trace [OF g]) (simp add: t_def)
  have "has_new_bits_64 (s\<lparr>trace_bits := t\<rparr>) vm = Some (new_level s t (get_virgin s vm), set_virgin vm (cleared s t (get_virgin s vm)) (s\<lparr>trace_bits := t\<rparr>))"
    using has_new_bits_64_spec [of "s\<lparr>trace_bits := t\<rparr>" vm] grows_ready(2) [OF g'] vm
    by (cases vm) (simp_all add: counted_len_def has_new_bits_spec_def Let_def new_level_def cleared_def)
  moreover have "counted_len s \<le> length t" "counted_len s \<le> length (get_virgin s vm)"
    using grows_ready(2) [OF g'] cov_ready_virgin [OF grows_ready(2) [OF g], of vm] by (simp_all add: cov_ready_def counted_len_def)
  then have "shrinks (get_virgin (s\<lparr>trace_bits := t\<rparr>) vm) (cleared s t (get_virgin s vm))" using shrinks_cleared by (cases vm) auto
  from maps [OF False grows_virgin [OF g' vm this]] have "Q (new_level s t (get_virgin s vm) \<noteq> 0, set_virgin vm (cleared s t (get_virgin s vm)) (s\<lparr>trace_bits := t\<rparr>))" .
  ultimately show ?thesis using False by (simp add: unique_fault_def)
qed (use plain in \<open>simp add: unique_fault_def\<close>)

lemma less_counter: "(of_nat n :: u64) < of_nat k \<Longrightarrow> n \<le> k \<Longrightarrow> k < 2 ^ 64 \<Longrightarrow> n < k"
  by (cases "n = k") auto

lemma grows_crash_file:
  assumes "grows mem s0 s" and "saved_crashes s < KEEP_UNIQUE_CRASH" and "file_of mem f"
  shows "grows mem s0 (s\<lparr>saved_crashes := saved_crashes s + 1, last_crash_time := t, last_crash_execs := n, run_env := e, crash_files := crash_files s @ [f]\<rparr>)"
    (is "grows mem s0 ?s")
proof -
  have len: "length (crash_files s) \<le> 25600" "saved_crashes s = of_nat (length (crash_files s))"
    using grows_run_inv(3) [OF assms(1)] by (simp_all add: save_inv_def)
  then have "length (crash_files s) < 25600" using assms(2) less_counter [of "length (crash_files s)" 25600] by (simp add: KEEP_UNIQUE_CRASH_def)
  moreover have "run_inv ?s" using grows_run_inv(1) [OF assms(1)]
    by (simp add: run_inv_def maps_ok_def map_fits_def queue_inv_def shape_ok_def entries_ok_def entry_ok_def wins_of_def)
  moreover have "save_inv s" by (rule grows_run_inv(3) [OF assms(1)])
  ultimately have "save_inv ?s" by (simp add: save_inv_def fast_schedule_def)
  then have "grows mem s ?s" using assms(3) by (simp add: grows_def config_of_def)
  then show ?thesis by (rule grows_trans [OF assms(1)])
qed

lemma grows_hang_file:
  assumes "grows mem s0 s" and "saved_hangs s < KEEP_UNIQUE_HANG" and "file_of mem f"
  shows "grows mem s0 (s\<lparr>saved_hangs := saved_hangs s + 1, last_hang_time := t, run_env := e, hang_files := hang_files s @ [f]\<rparr>)"
    (is "grows mem s0 ?s")
proof -
  have len: "length (hang_files s) \<le> 512" "saved_hangs s = of_nat (length (hang_files s))"
    using grows_run_inv(3) [OF assms(1)] by (simp_all add: save_inv_def)
  then have "length (hang_files s) < 512" using assms(2) less_counter [of "length (hang_files s)" 512] by (simp add: KEEP_UNIQUE_HANG_def)
  moreover have "run_inv ?s" using grows_run_inv(1) [OF assms(1)]
    by (simp add: run_inv_def maps_ok_def map_fits_def queue_inv_def shape_ok_def entries_ok_def entry_ok_def wins_of_def)
  moreover have "save_inv s" by (rule grows_run_inv(3) [OF assms(1)])
  ultimately have "save_inv ?s" by (simp add: save_inv_def fast_schedule_def)
  then have "grows mem s ?s" using assms(3) by (simp add: grows_def config_of_def)
  then show ?thesis by (rule grows_trans [OF assms(1)])
qed

text \<open>A crash is counted; it is saved if there is room and its simplified trace is new.\<close>

definition crash_saved :: "mem \<Rightarrow> saving \<Rightarrow> 'e afl_save \<Rightarrow> 'e afl_save \<Rightarrow> bool" where
  "crash_saved mem l s s' \<longleftrightarrow> (let t = simplified (unat (map_size s)) (trace_bits s) in
     total_crashes s' = total_crashes s + 1 \<and> queue_buf s' = queue_buf s
     \<and> (if saved_crashes s < KEEP_UNIQUE_CRASH \<and> (non_instrumented_mode s \<or> new_level s t (virgin_crash s) \<noteq> 0)
        then (\<exists>f. crash_files s' = crash_files s @ [f] \<and> (f = None \<or> f = Some (take (sl_len l) mem)))
        else crash_files s' = crash_files s)
     \<and> (saved_crashes s < KEEP_UNIQUE_CRASH \<and> \<not> non_instrumented_mode s \<longrightarrow> virgin_crash s' = cleared s t (virgin_crash s)))"

lemma wp_write_file_env:
  assumes "len \<le> length mem" and "\<And>f e. file_of mem f \<Longrightarrow> f = None \<or> f = Some (take len mem) \<Longrightarrow> Q (f, s\<lparr>run_env := e\<rparr>)"
  shows "wp (write_file ops mem len s) Q"
proof -
  obtain ok e where c: "op_create ops (run_env s) = (ok, e)" by (cases "op_create ops (run_env s)")
  have "file_of mem (Some (take len mem))" "file_of mem None" using assms(1) by (auto simp: file_of_def)
  then show ?thesis using assms(1) by (auto simp: write_file_def c intro!: wp_read_block assms(2))
qed

lemma wp_keep_as_crash:
  assumes g: "grows mem s0 s" and b: "buffered s0 mem (sl_len l)"
  shows "wp (keep_as_crash ops mem l s) (\<lambda>(r, s'). r = sl_keeping l \<and> grows mem s0 s' \<and> crash_saved mem l s s')"
proof -
  let ?s = "s\<lparr>total_crashes := total_crashes s + 1\<rparr>"
  let ?t = "simplified (unat (map_size s)) (trace_bits s)"
  have g1: "grows mem s0 ?s" using g by simp
  have len: "sl_len l \<le> length mem" using b by (simp add: buffered_def)
  let ?Q = "\<lambda>(r, s'). r = sl_keeping l \<and> grows mem s0 s' \<and> crash_saved mem l s s'"
  have new: "wp (let (t, e) = op_ms ops (run_env s1);
         s = s1\<lparr>saved_crashes := saved_crashes s1 + 1, last_crash_time := t, run_env := e, last_crash_execs := total_execs s1\<rparr>
       in do { (file, s) \<leftarrow> write_file ops mem (sl_len l) s; Some (sl_keeping l, s\<lparr>crash_files := crash_files s @ [file]\<rparr>) }) ?Q"
    if s1: "grows mem s0 s1" "saved_crashes s1 < KEEP_UNIQUE_CRASH" "total_crashes s1 = total_crashes s + 1" "queue_buf s1 = queue_buf s"
      "crash_files s1 = crash_files s" "saved_crashes s < KEEP_UNIQUE_CRASH" "non_instrumented_mode s \<or> new_level s ?t (virgin_crash s) \<noteq> 0"
      "\<not> non_instrumented_mode s \<longrightarrow> virgin_crash s1 = cleared s ?t (virgin_crash s)" for s1
    unfolding Let_def split_def wp_bind
    by (rule wp_write_file_env [OF len])
       (use s1 grows_crash_file [OF s1(1,2)] in \<open>auto simp: crash_saved_def Let_def\<close>)
  show ?thesis
  proof (cases "saved_crashes s < KEEP_UNIQUE_CRASH")
    case True
    have "wp (unique_fault Virgin_Crash ?s) (\<lambda>(fresh, s1). wp (if \<not> fresh then Some (sl_keeping l, s1)
       else let (t, e) = op_ms ops (run_env s1);
         s = s1\<lparr>saved_crashes := saved_crashes s1 + 1, last_crash_time := t, run_env := e, last_crash_execs := total_execs s1\<rparr>
       in do { (file, s) \<leftarrow> write_file ops mem (sl_len l) s; Some (sl_keeping l, s\<lparr>crash_files := crash_files s @ [file]\<rparr>) }) ?Q)"
      apply (rule wp_unique_fault [OF g1], simp)
      subgoal unfolding prod.case using new [of ?s] g1 True by simp
      subgoal
        unfolding prod.case
        apply (rule wp_if)
        subgoal using True by (simp add: crash_saved_def Let_def new_level_def counted_len_def cleared_def)
        subgoal by (rule new) (use True in \<open>simp_all add: new_level_def counted_len_def cleared_def\<close>)
        done
      done
    moreover have "\<not> KEEP_UNIQUE_CRASH \<le> saved_crashes s" using True by (simp add: not_le)
    ultimately show ?thesis by (simp add: keep_as_crash_def Let_def split_def)
  next
    case False
    then have "KEEP_UNIQUE_CRASH \<le> saved_crashes s" by (simp add: not_less)
    then show ?thesis using False g1 by (simp add: keep_as_crash_def crash_saved_def Let_def)
  qed
qed

lemma wp_keep_as_hang:
  assumes g: "grows mem s0 s" and b: "buffered s0 mem (sl_len l)" and "saved_hangs s < KEEP_UNIQUE_HANG"
  shows "wp (keep_as_hang ops mem l s) (\<lambda>(r, s'). r = sl_keeping l \<and> grows mem s0 s' \<and> queue_buf s' = queue_buf s)"
proof -
  have len: "sl_len l \<le> length mem" using b by (simp add: buffered_def)
  show ?thesis unfolding keep_as_hang_def Let_def split_def wp_bind
    by (rule wp_write_file_env [OF len]) (use grows_hang_file [OF g assms(3)] in auto)
qed

lemma wp_rerun_hang:
  assumes g: "grows mem s0 s" and pre: "save_pre ops mem s0 l"
  shows "wp (rerun_hang ops mem l s) (\<lambda>(f, l', s'). grows mem s0 s' \<and> save_pre ops mem s0 l' \<and> sl_keeping l' = sl_keeping l
     \<and> queue_buf s' = queue_buf s \<and> virgin_tmout s' = virgin_tmout s \<and> saved_hangs s' = saved_hangs s)"
proof -
  have ops: "full_traces (op_base ops) (unat (map_size s))" using pre grows_map_size(1) [OF g] by (simp add: save_pre_def)
  have b: "buffered s mem (sl_len l)" using pre buffered_grows [OF g] by (simp add: save_pre_def)
  have run: "wp (let (new_fault, s) = fuzz_run_target (op_base ops) (hang_tmout s) bs s in do {
         s \<leftarrow> (if sl_classified l then Some s else classify_counts_64 s);
         Some (new_fault, l\<lparr>sl_len := len, sl_classified := True\<rparr>, s) })
      (\<lambda>(f, l', s'). grows mem s0 s' \<and> save_pre ops mem s0 l' \<and> sl_keeping l' = sl_keeping l
     \<and> queue_buf s' = queue_buf s \<and> virgin_tmout s' = virgin_tmout s \<and> saved_hangs s' = saved_hangs s)"
    if "buffered s mem len" for bs len
  proof -
    obtain f st t e where r: "op_run (op_base ops) (hang_tmout s) bs (run_env s) = (f, st, t, e)"
      by (cases "op_run (op_base ops) (hang_tmout s) bs (run_env s)") auto
    have "unat (map_size s) \<le> length t" using ops r unfolding full_traces_def by (metis fst_conv snd_conv)
    then have g1: "grows mem s0 (s\<lparr>trace_bits := t, stop_soon := st, total_execs := total_execs s + 1, run_env := e\<rparr>)"
      using grows_trace [OF g] by simp
    have l: "save_pre ops mem s0 (l\<lparr>sl_len := len, sl_classified := True\<rparr>)"
      using pre that buffered_grows [OF g] by (simp add: save_pre_def)
    show ?thesis unfolding fuzz_run_target_def r prod.case Let_def wp_bind
      by (rule wp_if, use g1 l in simp, rule wp_classify_save [OF g1]) (use l in simp)
  qed
  show ?thesis unfolding rerun_hang_def wp_bind
    apply (rule wp_write_save [OF b], unfold prod.case wp_bind, rule wp_if, unfold wp_Some prod.case)
    subgoal by (rule run)
    subgoal by (rule wp_write_save [OF b], unfold prod.case, rule run)
    done
qed

text \<open>Without instrumentation nothing limits the repetition of the switch.\<close>

definition no_rerun_loop :: "'e afl_save \<Rightarrow> bool" where
  "no_rerun_loop s \<longleftrightarrow> non_instrumented_mode s \<longrightarrow> \<not> keep_timeouts s \<or> hang_tmout s \<le> exec_tmout s"

lemma grows_len:
  assumes "save_inv s0" and "grows mem s0 s"
  shows "length (queue_buf s0) \<le> length (queue_buf s)"
proof -
  have "length (queue_files s0) = length (queue_buf s0)" using assms(1) unfolding save_inv_def by blast
  moreover have "length (queue_files s) = length (queue_buf s)" using assms(2) unfolding grows_def save_inv_def by blast
  moreover have "added mem (queue_files s0) (queue_files s)" using assms(2) unfolding grows_def by blast
  ultimately show ?thesis by (auto simp: added_def)
qed

lemma wp_may_save_fault:
  assumes inv: "save_inv s0" and "grows mem s0 s" and "save_pre ops mem s0 l" and loop: "no_rerun_loop s0" and fault: "fault \<noteq> FSRV_RUN_ERROR"
    and "sl_keeping l \<longleftrightarrow> length (queue_buf s) > length (queue_buf s0)"
  shows "wp (may_save_fault ops mem fault l s) (\<lambda>(r, s'). grows mem s0 s' \<and> (r \<longleftrightarrow> length (queue_buf s') > length (queue_buf s0)))"
  using assms(2,3,6)
proof (induction "card (bits_of (virgin_tmout s))" arbitrary: s l rule: less_induct)
  case less
  let ?Q = "\<lambda>(r, s'). grows mem s0 s' \<and> (r \<longleftrightarrow> length (queue_buf s') > length (queue_buf s0))"
  have b: "buffered s0 mem (sl_len l)" using less.prems(2) by (simp add: save_pre_def)
  have crash: "wp (keep_as_crash ops mem l' s') ?Q"
    if "grows mem s0 s'" "save_pre ops mem s0 l'" "sl_keeping l' \<longleftrightarrow> length (queue_buf s') > length (queue_buf s0)" for l' s'
    by (rule wp_mono [OF wp_keep_as_crash [OF that(1)]]) (use that in \<open>auto simp: save_pre_def crash_saved_def Let_def\<close>)
  have hang: "wp (keep_as_hang ops mem l' s') ?Q"
    if "grows mem s0 s'" "save_pre ops mem s0 l'" "saved_hangs s' < KEEP_UNIQUE_HANG" "sl_keeping l' \<longleftrightarrow> length (queue_buf s') > length (queue_buf s0)" for l' s'
    by (rule wp_mono [OF wp_keep_as_hang [OF that(1) _ that(3)]]) (use that in \<open>auto simp: save_pre_def\<close>)
  have tmout: "wp (if exec_tmout s1 < hang_tmout s1 then do {
            (new_fault, l, s) \<leftarrow> rerun_hang ops mem l s1;
            if \<not> stop_soon s \<and> new_fault = FSRV_RUN_CRASH then keep_as_crash ops mem l s
            else if stop_soon s \<or> new_fault \<noteq> FSRV_RUN_TMOUT then
              (if keep_timeouts s then do {
                 (l, s) \<leftarrow> save_to_queue ops mem l (s\<lparr>saved_tmouts := saved_tmouts s + 1\<rparr>);
                 may_save_fault ops mem fault l s }
               else Some (sl_keeping l, s))
            else keep_as_hang ops mem l s }
          else keep_as_hang ops mem l s1) ?Q"
    if s1: "grows mem s0 s1" "saved_hangs s1 < KEEP_UNIQUE_HANG" "length (queue_buf s1) = length (queue_buf s)"
      "\<not> non_instrumented_mode s0 \<longrightarrow> card (bits_of (virgin_tmout s1)) < card (bits_of (virgin_tmout s))" for s1
  proof (rule wp_if)
    assume lt: "exec_tmout s1 < hang_tmout s1"
    have queue: "wp (save_to_queue ops mem l2 (s2\<lparr>saved_tmouts := saved_tmouts s2 + 1\<rparr>)) (\<lambda>(l, s). wp (may_save_fault ops mem fault l s) ?Q)"
      if "grows mem s0 s2" "save_pre ops mem s0 l2" "virgin_tmout s2 = virgin_tmout s1" "length (queue_buf s2) = length (queue_buf s)" "keep_timeouts s2" for l2 s2
    proof -
      have "\<not> non_instrumented_mode s0"
        using loop lt that(1,5) grows_map_size(8) [OF that(1)] grows_map_size(9,10) [OF s1(1)] by (auto simp: no_rerun_loop_def)
      then have fewer: "card (bits_of (virgin_tmout s2)) < card (bits_of (virgin_tmout s))" using s1(4) that(3) by simp
      have old: "length (queue_buf s0) \<le> length (queue_buf s)" by (rule grows_len [OF inv less.prems(1)])
      have g: "grows mem s0 (s2\<lparr>saved_tmouts := saved_tmouts s2 + 1\<rparr>)" using that(1) by simp
      show ?thesis
        by (rule wp_mono [OF wp_save_to_queue [OF g that(2)]], clarify, rule less.hyps)
           (use fewer old that(2,4) in \<open>auto simp: entry_saved_def save_pre_def\<close>)
    qed
    show "wp (do {
            (new_fault, l, s) \<leftarrow> rerun_hang ops mem l s1;
            if \<not> stop_soon s \<and> new_fault = FSRV_RUN_CRASH then keep_as_crash ops mem l s
            else if stop_soon s \<or> new_fault \<noteq> FSRV_RUN_TMOUT then
              (if keep_timeouts s then do {
                 (l, s) \<leftarrow> save_to_queue ops mem l (s\<lparr>saved_tmouts := saved_tmouts s + 1\<rparr>);
                 may_save_fault ops mem fault l s }
               else Some (sl_keeping l, s))
            else keep_as_hang ops mem l s }) ?Q"
      unfolding wp_bind
    proof (rule wp_mono [OF wp_rerun_hang [OF s1(1) less.prems(2)]], clarify)
      fix f l2 s2
      assume s2: "grows mem s0 s2" "save_pre ops mem s0 l2" "sl_keeping l2 = sl_keeping l" "queue_buf s2 = queue_buf s1"
        "virgin_tmout s2 = virgin_tmout s1" "saved_hangs s2 = saved_hangs s1"
      have keep: "sl_keeping l2 \<longleftrightarrow> length (queue_buf s2) > length (queue_buf s0)" using s2(3,4) s1(3) less.prems(3) by simp
      show "wp (if \<not> stop_soon s2 \<and> f = FSRV_RUN_CRASH then keep_as_crash ops mem l2 s2
            else if stop_soon s2 \<or> f \<noteq> FSRV_RUN_TMOUT then
              (if keep_timeouts s2 then do {
                 (l, s) \<leftarrow> save_to_queue ops mem l2 (s2\<lparr>saved_tmouts := saved_tmouts s2 + 1\<rparr>);
                 may_save_fault ops mem fault l s }
               else Some (sl_keeping l2, s2))
            else keep_as_hang ops mem l2 s2) ?Q"
        apply (rule wp_if, rule crash [OF s2(1,2) keep], rule wp_if, rule wp_if, unfold wp_bind)
        subgoal using queue [OF s2(1,2,5)] s2(4) s1(3) by (simp add: split_def)
        subgoal using s2(1) keep by simp
        subgoal by (rule hang [OF s2(1,2) _ keep]) (use s2(6) s1(2) in simp)
        done
    qed
  qed (use s1 less.prems(2,3) in \<open>simp add: hang\<close>)
  show ?case
  proof (cases "fault = FSRV_RUN_TMOUT")
    case True
    let ?s = "s\<lparr>total_tmouts := total_tmouts s + 1\<rparr>"
    have g: "grows mem s0 ?s" using less.prems(1) by simp
    show ?thesis
    proof (cases "KEEP_UNIQUE_HANG \<le> saved_hangs s")
      case True
      then show ?thesis using \<open>fault = _\<close> less.prems by (subst may_save_fault.simps) simp
    next
      case False
      have "wp (unique_fault Virgin_Tmout ?s) (\<lambda>(fresh, s1). wp (if \<not> fresh then Some (sl_keeping l, s1)
          else if exec_tmout s1 < hang_tmout s1 then do {
            (new_fault, l, s) \<leftarrow> rerun_hang ops mem l s1;
            if \<not> stop_soon s \<and> new_fault = FSRV_RUN_CRASH then keep_as_crash ops mem l s
            else if stop_soon s \<or> new_fault \<noteq> FSRV_RUN_TMOUT then
              (if keep_timeouts s then do {
                 (l, s) \<leftarrow> save_to_queue ops mem l (s\<lparr>saved_tmouts := saved_tmouts s + 1\<rparr>);
                 may_save_fault ops mem fault l s }
               else Some (sl_keeping l, s))
            else keep_as_hang ops mem l s }
          else keep_as_hang ops mem l s1) ?Q)"
        apply (rule wp_unique_fault [OF g], simp)
        subgoal unfolding prod.case
          by (rule wp_if, simp, rule tmout) (use g False grows_map_size(7) [OF less.prems(1)] in \<open>simp_all add: not_le\<close>)
        subgoal unfolding prod.case
          apply (rule wp_if)
          subgoal using less.prems(3) by simp
          subgoal
            by (rule tmout) (use False less.prems(1) grows_ready(2) [OF less.prems(1)] in \<open>simp_all add: not_le cov_ready_def cleared_fewer\<close>)
          done
        done
      then show ?thesis using False \<open>fault = _\<close> by (subst may_save_fault.simps) (simp add: Let_def split_def)
    qed
  next
    case False
    then show ?thesis using less.prems fault crash [OF less.prems] by (subst may_save_fault.simps) simp
  qed
qed

section \<open>The whole decision\<close>

definition save_ready :: "'e save_ops \<Rightarrow> mem \<Rightarrow> nat \<Rightarrow> 'e afl_save \<Rightarrow> bool" where
  "save_ready ops mem len s \<longleftrightarrow> save_inv s \<and> full_traces (op_base ops) (unat (map_size s)) \<and> \<not> run_errors (op_base ops)
     \<and> crash_mode s \<noteq> FSRV_RUN_ERROR \<and> buffered s mem len \<and> no_rerun_loop s"

definition first_locals :: "nat \<Rightarrow> saving" where
  "first_locals len = \<lparr>sl_len = len, sl_new_bits = 0, sl_cksum = 0, sl_need_hash = True, sl_classified = False, sl_keeping = False\<rparr>"

lemma wp_path_frequency:
  assumes "grows mem s0 s" and "save_pre ops mem s0 l"
    and "\<And>c t fs. grows mem s0 (s\<lparr>trace_bits := t, n_fuzz := fs\<rparr>) \<Longrightarrow> save_pre ops mem s0 (l\<lparr>sl_cksum := c, sl_need_hash := False, sl_classified := True\<rparr>)
      \<Longrightarrow> t = classed (unat (map_size s)) (trace_bits s) \<Longrightarrow> fast_schedule s
      \<Longrightarrow> Q (l\<lparr>sl_cksum := c, sl_need_hash := False, sl_classified := True\<rparr>, s\<lparr>trace_bits := t, n_fuzz := fs\<rparr>)"
    and "\<not> fast_schedule s \<Longrightarrow> Q (l, s)"
  shows "wp (if fast_schedule s then do {
            (cksum, s) \<leftarrow> count_path ops s;
            Some (l\<lparr>sl_cksum := cksum, sl_need_hash := False, sl_classified := True\<rparr>, s) }
          else Some (l, s)) Q"
proof (rule wp_if, unfold wp_bind wp_Some)
  assume f: "fast_schedule s"
  then have "save_pre ops mem s0 (l\<lparr>sl_cksum := c, sl_need_hash := False, sl_classified := True\<rparr>)" for c
    using assms(2) grows_map_size(3) [OF assms(1)] by (simp add: save_pre_def)
  then show "wp (count_path ops s) (\<lambda>x. wp (case x of (cksum, s) \<Rightarrow> Some (l\<lparr>sl_cksum := cksum, sl_need_hash := False, sl_classified := True\<rparr>, s)) Q)"
    by (intro wp_count_path [OF assms(1) f]) (use assms(3) f in simp)
qed (use assms(4) in simp)

lemma wp_save_if_interesting:
  assumes ready: "save_ready ops mem len s" and fault: "fault \<noteq> FSRV_RUN_ERROR"
  shows "wp (save_if_interesting ops mem len fault s) (\<lambda>(r, s'). grows mem s s' \<and> (r \<longleftrightarrow> length (queue_buf s') > length (queue_buf s)))"
proof -
  let ?Q = "\<lambda>(r, s'). grows mem s s' \<and> (r \<longleftrightarrow> length (queue_buf s') > length (queue_buf s))"
  have inv: "save_inv s" "no_rerun_loop s" using ready by (simp_all add: save_ready_def)
  have g: "grows mem s s" by (rule grows_refl [OF inv(1)])
  have pre: "save_pre ops mem s (first_locals len)" using ready by (simp add: save_ready_def save_pre_def first_locals_def)
  note may = wp_may_save_fault [OF inv(1) _ _ inv(2)]
  have good: "wp (judge ops mem l s1) (\<lambda>(san_fault, l, s1). wp (if sl_new_bits l = 0 then
            (if san_fault = FSRV_RUN_OK
             then Some (False, if crash_mode s1 \<noteq> FSRV_RUN_OK then s1\<lparr>total_crashes := total_crashes s1 + 1\<rparr> else s1)
             else may_save_fault ops mem san_fault l (s1\<lparr>san_case_status := san_case_status s1 OR NON_COV_INCREASE_BUG\<rparr>))
          else do {
            (l, s1) \<leftarrow> save_to_queue ops mem l s1;
            may_save_fault ops mem san_fault l s1 }) ?Q)"
    if s1: "grows mem s s1" "save_pre ops mem s l" "queue_buf s1 = queue_buf s" "\<not> sl_keeping l" for l s1
  proof (rule wp_mono [OF wp_judge [OF s1(1)]], use s1(2) in \<open>simp add: save_pre_def\<close>, clarify)
    fix f and l2 :: saving and s2
    assume s2: "f \<in> {FSRV_RUN_OK, FSRV_RUN_CRASH}" "grows mem s s2" "buffered s mem (sl_len l2)" "queue_buf s2 = queue_buf s1"
      "sl_keeping l2 = sl_keeping l" "sl_cksum l2 = sl_cksum l"
    have l2: "save_pre ops mem s l2" using s1(2) s2(3,6) by (simp add: save_pre_def)
    have f: "f \<noteq> FSRV_RUN_ERROR" using s2(1) by auto
    have queue: "wp (save_to_queue ops mem l2 s2) (\<lambda>(l, s1). wp (may_save_fault ops mem f l s1) ?Q)"
      by (rule wp_mono [OF wp_save_to_queue [OF s2(2) l2]], clarify, rule may)
         (use f l2 s1(3) s2(4) in \<open>auto simp: entry_saved_def save_pre_def\<close>)
    have old: "wp (may_save_fault ops mem f l2 (s2\<lparr>san_case_status := san_case_status s2 OR NON_COV_INCREASE_BUG\<rparr>)) ?Q"
      by (rule may) (use f l2 s1(3,4) s2 in simp_all)
    show "wp (if sl_new_bits l2 = 0 then
            (if f = FSRV_RUN_OK
             then Some (False, if crash_mode s2 \<noteq> FSRV_RUN_OK then s2\<lparr>total_crashes := total_crashes s2 + 1\<rparr> else s2)
             else may_save_fault ops mem f l2 (s2\<lparr>san_case_status := san_case_status s2 OR NON_COV_INCREASE_BUG\<rparr>))
          else do { (l, s1) \<leftarrow> save_to_queue ops mem l2 s2; may_save_fault ops mem f l s1 }) ?Q"
      by (rule wp_if, rule wp_if, use s1(3) s2(2,4) in simp, rule old, unfold wp_bind, use queue in \<open>simp add: split_def\<close>)
  qed
  have rest: "wp (if fault \<noteq> crash_mode s1 then may_save_fault ops mem fault l s1
        else do {
          (san_fault, l, s1) \<leftarrow> judge ops mem l s1;
          if sl_new_bits l = 0 then
            (if san_fault = FSRV_RUN_OK
             then Some (False, if crash_mode s1 \<noteq> FSRV_RUN_OK then s1\<lparr>total_crashes := total_crashes s1 + 1\<rparr> else s1)
             else may_save_fault ops mem san_fault l (s1\<lparr>san_case_status := san_case_status s1 OR NON_COV_INCREASE_BUG\<rparr>))
          else do {
            (l, s1) \<leftarrow> save_to_queue ops mem l s1;
            may_save_fault ops mem san_fault l s1 } }) ?Q"
    if s1: "grows mem s s1" "save_pre ops mem s l" "queue_buf s1 = queue_buf s" "\<not> sl_keeping l" for l s1
    by (rule wp_if, rule may) (use s1 fault good [OF s1] in \<open>simp_all add: split_def\<close>)
  have count: "wp (count_path ops s) (\<lambda>x. wp (case x of (_, s') \<Rightarrow> Some (False, s')) ?Q)" if "fast_schedule s"
    by (rule wp_count_path [OF g that]) simp
  have g0: "grows mem s (s\<lparr>san_case_status := 0\<rparr>)" using g by simp
  show ?thesis unfolding save_if_interesting_def Let_def first_locals_def [symmetric] wp_bind
    apply (rule wp_if, use g in simp, rule wp_if, rule wp_if, unfold wp_bind, rule count, assumption, use g in simp)
    apply (rule wp_path_frequency [OF g0 pre]; unfold prod.case; rule rest)
    using pre g0 by (simp_all add: first_locals_def)
qed

section \<open>Which inputs are kept\<close>

lemma may_save_ok: "may_save_fault ops mem FSRV_RUN_OK l s = Some (sl_keeping l, s)"
  by (subst may_save_fault.simps) simp

lemma new_level_trace [simp]: "new_level (s\<lparr>trace_bits := t\<rparr>) = new_level s" "new_level (s\<lparr>n_fuzz := fs\<rparr>) = new_level s"
  "new_level (s\<lparr>san_case_status := x\<rparr>) = new_level s" "cleared (s\<lparr>trace_bits := t\<rparr>) = cleared s" "cleared (s\<lparr>n_fuzz := fs\<rparr>) = cleared s"
  "cleared (s\<lparr>san_case_status := x\<rparr>) = cleared s"
  by (intro ext; simp add: new_level_def cleared_def counted_len_def)+

text \<open>The level of novelty of the trace of the last run.\<close>

definition coverage_level :: "'e afl_save \<Rightarrow> u8" where
  "coverage_level s = new_level s (classed (unat (map_size s)) (trace_bits s)) (virgin_bits s)"

definition queued :: "mem \<Rightarrow> nat \<Rightarrow> u8 \<Rightarrow> 'e afl_save \<Rightarrow> 'e afl_save \<Rightarrow> bool" where
  "queued mem len lev s s' \<longleftrightarrow> length (queue_buf s') = length (queue_buf s) + 1
     \<and> qe_len (queue_buf s' ! length (queue_buf s)) = word_of_nat len
     \<and> (lev = 2 \<longrightarrow> qe_has_new_cov (queue_buf s' ! length (queue_buf s)))
     \<and> (\<exists>f. queue_files s' = queue_files s @ [f] \<and> (f = None \<or> f = Some (take len mem)))"

text \<open>The rest of \<open>save_if_interesting\<close> once the verdict is that the new bits are \<open>lev\<close> and the sanitizers found nothing.\<close>

lemma wp_judged:
  assumes pre: "save_pre ops mem s0 l" and same: "queue_buf s1 = queue_buf s" "queue_files s1 = queue_files s"
    and judge: "\<And>Q. (\<And>v b t. grows mem s0 (s1\<lparr>trace_bits := t, virgin_bits := v, bitmap_changed := b\<rparr>) \<Longrightarrow>
       Q (FSRV_RUN_OK, l\<lparr>sl_new_bits := lev, sl_classified := True\<rparr>, s1\<lparr>trace_bits := t, virgin_bits := v, bitmap_changed := b\<rparr>))
       \<Longrightarrow> wp (judge ops mem l s1) Q"
  shows "wp (do {
          (san_fault, l, s) \<leftarrow> judge ops mem l s1;
          if sl_new_bits l = 0 then
            (if san_fault = FSRV_RUN_OK
             then Some (False, if crash_mode s \<noteq> FSRV_RUN_OK then s\<lparr>total_crashes := total_crashes s + 1\<rparr> else s)
             else may_save_fault ops mem san_fault l (s\<lparr>san_case_status := san_case_status s OR NON_COV_INCREASE_BUG\<rparr>))
          else do {
            (l, s) \<leftarrow> save_to_queue ops mem l s;
            may_save_fault ops mem san_fault l s } })
      (\<lambda>(r, s'). r = (lev \<noteq> 0) \<and> (if lev = 0 then queue_buf s' = queue_buf s else queued mem (sl_len l) lev s s'))"
  unfolding wp_bind
proof (rule judge, unfold prod.case)
  fix v b t
  let ?l = "l\<lparr>sl_new_bits := lev, sl_classified := True\<rparr>" and ?s = "s1\<lparr>trace_bits := t, virgin_bits := v, bitmap_changed := b\<rparr>"
  let ?Q = "\<lambda>(x, s'). x = (lev \<noteq> 0) \<and> (if lev = 0 then queue_buf s' = queue_buf s else queued mem (sl_len l) lev s s')"
  assume g: "grows mem s0 ?s"
  have "save_pre ops mem s0 ?l" using pre by (simp add: save_pre_def)
  then have "wp (save_to_queue ops mem ?l ?s) (\<lambda>(l, s1). wp (may_save_fault ops mem FSRV_RUN_OK l s1) ?Q)" if "lev \<noteq> 0"
    by (intro wp_mono [OF wp_save_to_queue [OF g]]) (use that same in \<open>auto simp: may_save_ok entry_saved_def queued_def\<close>)
  then show "wp (if sl_new_bits ?l = 0 then
            (if FSRV_RUN_OK = FSRV_RUN_OK
             then Some (False, if crash_mode ?s \<noteq> FSRV_RUN_OK then ?s\<lparr>total_crashes := total_crashes ?s + 1\<rparr> else ?s)
             else may_save_fault ops mem FSRV_RUN_OK ?l (?s\<lparr>san_case_status := san_case_status ?s OR NON_COV_INCREASE_BUG\<rparr>))
          else do { (l, s1) \<leftarrow> save_to_queue ops mem ?l ?s; may_save_fault ops mem FSRV_RUN_OK l s1 }) ?Q"
    using same(1) by (simp add: split_def)
qed

text \<open>Without sanitizers the level is that of the classified trace.\<close>

lemma judge_level:
  assumes "grows mem s0 s1" and "san_binary_length s1 = 0"
    and "new_level s1 (if sl_classified l then trace_bits s1 else classed (unat (map_size s1)) (trace_bits s1)) (virgin_bits s1) = lev"
    and "\<And>v b t. grows mem s0 (s1\<lparr>trace_bits := t, virgin_bits := v, bitmap_changed := b\<rparr>) \<Longrightarrow>
       Q (FSRV_RUN_OK, l\<lparr>sl_new_bits := lev, sl_classified := True\<rparr>, s1\<lparr>trace_bits := t, virgin_bits := v, bitmap_changed := b\<rparr>)"
  shows "wp (judge ops mem l s1) Q"
  by (rule judge_no_sans [OF assms(1,2)]) (use assms(3,4) in simp)

text \<open>With \<open>COVERAGE_INCREASE\<close>, a first check that finds nothing leaves the counts unclassified but sets \<open>classified\<close>.\<close>

lemma judge_raw:
  assumes g: "grows mem s0 s1" and sans: "san_binary_length s1 \<noteq> 0" "san_abstraction s1 = COVERAGE_INCREASE" and l: "\<not> sl_classified l"
    and skim: "skim_64 (count_class_lookup16 s1) (virgin_bits s1) (trace_bits s1) (unat (map_size s1)) = Some 0"
    and Q: "\<And>v b t. grows mem s0 (s1\<lparr>trace_bits := t, virgin_bits := v, bitmap_changed := b\<rparr>) \<Longrightarrow>
       Q (FSRV_RUN_OK, l\<lparr>sl_new_bits := new_level s1 (trace_bits s1) (virgin_bits s1), sl_classified := True\<rparr>,
         s1\<lparr>trace_bits := t, virgin_bits := v, bitmap_changed := b\<rparr>)"
  shows "wp (judge ops mem l s1) Q"
proof -
  let ?l = "l\<lparr>sl_new_bits := 0, sl_classified := True\<rparr>"
  have "check_bits l s1 = Some (?l, s1)" using skim l by (simp add: check_bits_def has_new_bits_unclassified_64_def)
  then have feed: "decide_feed ops l s1 = Some (False, ?l, s1)" using sans by (simp add: decide_feed_def)
  have "wp (check_bits ?l s1) (\<lambda>(l, s). Q (FSRV_RUN_OK, l, s))"
    by (rule wp_check_bits [OF g]) (use Q in simp)
  then show ?thesis by (simp add: judge_def feed split_def)
qed

lemma save_expected_spec:
  assumes ready: "save_ready ops mem len s" and "len \<noteq> 0" and sans: "san_binary_length s = 0" and fault: "fault = crash_mode s" "fault \<noteq> FSRV_RUN_TMOUT"
  shows "wp (save_if_interesting ops mem len fault s)
    (\<lambda>(r, s'). r = (coverage_level s \<noteq> 0) \<and> (if coverage_level s = 0 then queue_buf s' = queue_buf s else queued mem len (coverage_level s) s s'))"
proof -
  have inv: "save_inv s" using ready by (simp add: save_ready_def)
  have g0: "grows mem s (s\<lparr>san_case_status := 0\<rparr>)" using grows_refl [OF inv] by simp
  have pre: "save_pre ops mem s (first_locals len)" using ready by (simp add: save_ready_def save_pre_def first_locals_def)
  have l: "sl_len (first_locals len) = len" "sl_len ((first_locals len)\<lparr>sl_cksum := c, sl_need_hash := False, sl_classified := True\<rparr>) = len" for c
    by (simp_all add: first_locals_def)
  have cl: "\<not> sl_classified (first_locals len)" by (simp add: first_locals_def)
  show ?thesis unfolding save_if_interesting_def Let_def first_locals_def [symmetric] wp_bind
    apply (rule wp_if, use assms(2) in simp, rule wp_if, use fault in simp)
    apply (unfold wp_bind, rule wp_path_frequency [OF g0 pre]; unfold prod.case; rule wp_if)
    subgoal using fault by simp
    subgoal premises p for c t fs
      by (rule wp_judged [OF p(4), where s = s, unfolded l, OF _ _ judge_level [OF p(3)]]) (use p sans in \<open>simp_all add: coverage_level_def\<close>)
    subgoal using fault by simp
    subgoal by (rule wp_judged [OF pre, where s = s, unfolded l, OF _ _ judge_level [OF g0]]) (use sans cl in \<open>simp_all add: coverage_level_def\<close>)
    done
qed

lemma save_raw_spec:
  assumes ready: "save_ready ops mem len s" and "len \<noteq> 0" and sans: "san_binary_length s \<noteq> 0" "san_abstraction s = COVERAGE_INCREASE"
    and fast: "\<not> fast_schedule s" and fault: "fault = crash_mode s" "fault \<noteq> FSRV_RUN_TMOUT"
    and skim: "skim_64 (count_class_lookup16 s) (virgin_bits s) (trace_bits s) (unat (map_size s)) = Some 0"
  defines "raw \<equiv> new_level s (trace_bits s) (virgin_bits s)"
  shows "wp (save_if_interesting ops mem len fault s)
    (\<lambda>(r, s'). r = (raw \<noteq> 0) \<and> (if raw = 0 then queue_buf s' = queue_buf s else queued mem len raw s s'))"
proof -
  have inv: "save_inv s" using ready by (simp add: save_ready_def)
  have g0: "grows mem s (s\<lparr>san_case_status := 0\<rparr>)" using grows_refl [OF inv] by simp
  have pre: "save_pre ops mem s (first_locals len)" using ready by (simp add: save_ready_def save_pre_def first_locals_def)
  have l: "sl_len (first_locals len) = len" "\<not> sl_classified (first_locals len)" by (simp_all add: first_locals_def)
  have f: "fast_schedule (s\<lparr>san_case_status := 0\<rparr>) = False" using fast by (simp add: fast_schedule_def)
  show ?thesis unfolding save_if_interesting_def Let_def first_locals_def [symmetric] wp_bind f if_False wp_Some prod.case
    apply (rule wp_if, use assms(2) in simp, rule wp_if, use fault in simp, unfold wp_bind wp_Some prod.case, rule wp_if, use fault in simp)
    apply (rule wp_judged [OF pre, where s = s, unfolded l(1), OF _ _ judge_raw [OF g0]])
    using sans skim l(2) by (simp_all add: raw_def)
qed

lemma simplify_class: "simplify_lookup (count_class_lookup8 b) = simplify_lookup b"
  by (simp add: simplify_lookup_def count_class_lookup8_def)

lemma simplified_classed [simp]: "simplified k (classed k t) = simplified k t"
  by (cases "8 * (k div 8) \<le> length t") (simp_all add: simplified_def classed_def simplify_class min_absorb2)

text \<open>A trace is not new again for a map its bits were cleared in.\<close>

lemma new_level_cleared:
  assumes "counted_len s \<le> length t" and "counted_len s \<le> length v"
  shows "new_level s t (cleared s t v) = 0"
proof -
  have "take (counted_len s) (cleared s t v) = clear_hits (take (counted_len s) v) (take (counted_len s) t)"
    using assms by (simp add: cleared_def)
  then show ?thesis using not_any_hit_clear [of "take (counted_len s) v" "take (counted_len s) t"] assms
    by (simp add: new_level_def novelty_not_any_hit)
qed

lemma save_crash_spec:
  assumes ready: "save_ready ops mem len s" and "len \<noteq> 0" and mode: "crash_mode s \<noteq> FSRV_RUN_CRASH"
  defines "t \<equiv> simplified (unat (map_size s)) (trace_bits s)"
  shows "wp (save_if_interesting ops mem len FSRV_RUN_CRASH s) (\<lambda>(r, s'). \<not> r \<and> queue_buf s' = queue_buf s \<and> total_crashes s' = total_crashes s + 1
     \<and> (if saved_crashes s < KEEP_UNIQUE_CRASH \<and> (non_instrumented_mode s \<or> new_level s t (virgin_crash s) \<noteq> 0)
        then (\<exists>f. crash_files s' = crash_files s @ [f] \<and> (f = None \<or> f = Some (take len mem)))
        else crash_files s' = crash_files s)
     \<and> (saved_crashes s < KEEP_UNIQUE_CRASH \<and> \<not> non_instrumented_mode s \<longrightarrow> new_level s t (virgin_crash s') = 0))"
proof -
  have inv: "save_inv s" using ready by (simp add: save_ready_def)
  have g: "grows mem s s" by (rule grows_refl [OF inv])
  have g0: "grows mem s (s\<lparr>san_case_status := 0\<rparr>)" using g by simp
  have pre: "save_pre ops mem s (first_locals len)" using ready by (simp add: save_ready_def save_pre_def first_locals_def)
  have len: "counted_len s \<le> length t" "counted_len s \<le> length (virgin_crash s)"
    using grows_ready(2) [OF g] by (simp_all add: cov_ready_def t_def)
  have crash: "wp (may_save_fault ops mem FSRV_RUN_CRASH l s1) (\<lambda>(r, s'). \<not> r \<and> queue_buf s' = queue_buf s \<and> total_crashes s' = total_crashes s + 1
     \<and> (if saved_crashes s < KEEP_UNIQUE_CRASH \<and> (non_instrumented_mode s \<or> new_level s t (virgin_crash s) \<noteq> 0)
        then (\<exists>f. crash_files s' = crash_files s @ [f] \<and> (f = None \<or> f = Some (take len mem)))
        else crash_files s' = crash_files s)
     \<and> (saved_crashes s < KEEP_UNIQUE_CRASH \<and> \<not> non_instrumented_mode s \<longrightarrow> new_level s t (virgin_crash s') = 0))"
    if "grows mem s s1" "save_pre ops mem s l" "simplified (unat (map_size s1)) (trace_bits s1) = t" "sl_len l = len" "\<not> sl_keeping l"
      "queue_buf s1 = queue_buf s" "total_crashes s1 = total_crashes s" "saved_crashes s1 = saved_crashes s" "crash_files s1 = crash_files s"
      "virgin_crash s1 = virgin_crash s" "non_instrumented_mode s1 = non_instrumented_mode s" "new_level s1 = new_level s" "cleared s1 = cleared s" for l s1
  proof -
    have "wp (keep_as_crash ops mem l s1) (\<lambda>(r, s'). r = sl_keeping l \<and> grows mem s s' \<and> crash_saved mem l s1 s')"
      by (rule wp_keep_as_crash [OF that(1)]) (use that(2) in \<open>simp add: save_pre_def\<close>)
    then show ?thesis using new_level_cleared [OF len] that(3-)
      by (subst may_save_fault.simps) (auto elim!: wp_mono simp: crash_saved_def Let_def)
  qed
  show ?thesis unfolding save_if_interesting_def Let_def first_locals_def [symmetric] wp_bind
    apply (rule wp_if, use assms(2) in simp, rule wp_if, simp)
    apply (unfold wp_bind, rule wp_path_frequency [OF g0 pre]; unfold prod.case; rule wp_if)
    subgoal by (rule crash) (simp_all add: first_locals_def t_def)
    subgoal using mode by simp
    subgoal by (rule crash) (use g0 pre in \<open>simp_all add: first_locals_def t_def\<close>)
    subgoal using mode by simp
    done
qed

section \<open>A hang that ends on the second run\<close>

lemma rerun_fault:
  assumes "rerun_hang ops mem l s = Some (f, l', s')"
  shows "\<exists>bs e. f = fst (op_run (op_base ops) (hang_tmout s) bs e)"
  using assms by (auto simp: rerun_hang_def fuzz_run_target_def Let_def split_def bind_eq_Some_conv)

text \<open>The target ends on the second run and hangs on the first.\<close>

definition rerun_loops :: "'e save_ops \<Rightarrow> mem \<Rightarrow> saving \<Rightarrow> 'e afl_save \<Rightarrow> bool" where
  "rerun_loops ops mem l s \<longleftrightarrow> save_inv s \<and> save_pre ops mem s l \<and> non_instrumented_mode s \<and> keep_timeouts s \<and> exec_tmout s < hang_tmout s
     \<and> saved_hangs s < KEEP_UNIQUE_HANG \<and> (\<forall>bs e. fst (op_run (op_base ops) (hang_tmout s) bs e) \<notin> {FSRV_RUN_CRASH, FSRV_RUN_TMOUT})"

lemma rerun_loops_grows:
  assumes "rerun_loops ops mem l s" and g: "grows mem s s'" and "save_pre ops mem s l'" and "saved_hangs s' = saved_hangs s"
  shows "rerun_loops ops mem l' s'"
  using assms grows_map_size [OF g] grows_run_inv(3) [OF g] by (simp add: rerun_loops_def save_pre_def buffered_def)

lemma wp_elim: "wp x P \<Longrightarrow> x = Some y \<Longrightarrow> P y"
  by simp

lemma rerun_loops_step:
  assumes r: "rerun_loops ops mem l s" and "rerun_hang ops mem l s = Some (f, l1, s1)"
    and "save_to_queue ops mem l1 (s1\<lparr>saved_tmouts := c\<rparr>) = Some (l2, s2)"
  shows "rerun_loops ops mem l2 s2"
proof -
  have inv: "save_inv s" "save_pre ops mem s l" using r by (simp_all add: rerun_loops_def)
  have s1: "grows mem s s1" "save_pre ops mem s l1" "saved_hangs s1 = saved_hangs s"
    using wp_elim [OF wp_rerun_hang [OF grows_refl [OF inv(1)] inv(2)] assms(2)] by simp_all
  have "grows mem s (s1\<lparr>saved_tmouts := c\<rparr>)" using s1(1) by simp
  then have s2: "grows mem s s2" "entry_saved mem l1 (s1\<lparr>saved_tmouts := c\<rparr>) s2" "sl_len l2 = sl_len l1" "sl_cksum l2 = sl_cksum l1"
    using wp_elim [OF wp_save_to_queue [OF _ s1(2)] assms(3)] by auto
  have "save_pre ops mem s l2" using s1(2) s2(3,4) by (simp add: save_pre_def)
  moreover have "saved_hangs s2 = saved_hangs s"
    using s1(1,3) s2(1,2) by (simp add: entry_saved_def grows_def save_inv_def)
  ultimately show ?thesis using rerun_loops_grows [OF r s2(1)] by blast
qed

lemma may_save_diverges_aux:
  assumes "may_save_fault ops mem fault l s = Some y"
  shows "\<not> (fault = FSRV_RUN_TMOUT \<and> rerun_loops ops mem l s)"
proof (rule may_save_fault.raw_induct [where P = "\<lambda>ops mem fault l s y. \<not> (fault = FSRV_RUN_TMOUT \<and> rerun_loops ops mem l s)", OF _ assms])
  fix f ops mem fault l s y
  assume IH: "\<And>ops mem fault l s y. f ops mem fault l s = Some y \<Longrightarrow> \<not> (fault = FSRV_RUN_TMOUT \<and> rerun_loops ops mem l s)"
    and body: "(if fault = FSRV_RUN_TMOUT then do {
        let s = s\<lparr>total_tmouts := total_tmouts s + 1\<rparr>;
        if saved_hangs s \<ge> KEEP_UNIQUE_HANG then Some (sl_keeping l, s)
        else do {
          (fresh, s) \<leftarrow> unique_fault Virgin_Tmout s;
          if \<not> fresh then Some (sl_keeping l, s)
          else if exec_tmout s < hang_tmout s then do {
            (new_fault, l, s) \<leftarrow> rerun_hang ops mem l s;
            if \<not> stop_soon s \<and> new_fault = FSRV_RUN_CRASH then keep_as_crash ops mem l s
            else if stop_soon s \<or> new_fault \<noteq> FSRV_RUN_TMOUT then
              (if keep_timeouts s then do {
                 (l, s) \<leftarrow> save_to_queue ops mem l (s\<lparr>saved_tmouts := saved_tmouts s + 1\<rparr>);
                 f ops mem fault l s }
               else Some (sl_keeping l, s))
            else keep_as_hang ops mem l s }
          else keep_as_hang ops mem l s } }
      else if fault = FSRV_RUN_CRASH then keep_as_crash ops mem l s
      else if fault = FSRV_RUN_ERROR then None
      else Some (sl_keeping l, s)) = Some y"
  show "\<not> (fault = FSRV_RUN_TMOUT \<and> rerun_loops ops mem l s)"
  proof
    assume t: "fault = FSRV_RUN_TMOUT \<and> rerun_loops ops mem l s"
    let ?s = "s\<lparr>total_tmouts := total_tmouts s + 1\<rparr>"
    have c: "non_instrumented_mode s" "keep_timeouts s" "exec_tmout s < hang_tmout s" "\<not> KEEP_UNIQUE_HANG \<le> saved_hangs s"
      using t by (simp_all add: rerun_loops_def not_le)
    have r: "rerun_loops ops mem l ?s"
      using t by (intro rerun_loops_grows [where s = s and s' = ?s]) (auto simp: rerun_loops_def grows_refl)
    obtain g l1 s1 where s1: "rerun_hang ops mem l ?s = Some (g, l1, s1)"
      using body t c by (auto simp: unique_fault_def bind_eq_Some_conv Let_def)
    have g: "g \<noteq> FSRV_RUN_CRASH" "g \<noteq> FSRV_RUN_TMOUT" using rerun_fault [OF s1] r by (auto simp: rerun_loops_def)
    have s1': "grows mem ?s s1" using r wp_elim [OF wp_rerun_hang [OF grows_refl] s1] by (simp add: rerun_loops_def)
    have "keep_timeouts s1" using grows_map_size(8) [OF s1'] c by simp
    then obtain l2 s2 where s2: "save_to_queue ops mem l1 (s1\<lparr>saved_tmouts := saved_tmouts s1 + 1\<rparr>) = Some (l2, s2)"
      "f ops mem fault l2 s2 = Some y"
      using body t c s1 g by (auto simp: unique_fault_def bind_eq_Some_conv Let_def)
    show False using IH [OF s2(2)] rerun_loops_step [OF r s1 s2(1)] t by blast
  qed
qed


lemma may_save_diverges: "rerun_loops ops mem l s \<Longrightarrow> may_save_fault ops mem FSRV_RUN_TMOUT l s = None"
  using may_save_diverges_aux [of ops mem FSRV_RUN_TMOUT l s] by (cases "may_save_fault ops mem FSRV_RUN_TMOUT l s") auto

lemma save_diverges_spec:
  assumes inv: "save_inv s" and len: "len \<noteq> 0" "buffered s mem len" and ops: "full_traces (op_base ops) (unat (map_size s))" "\<not> run_errors (op_base ops)"
    and modes: "crash_mode s = FSRV_RUN_OK" "\<not> ignore_timeouts s" "non_instrumented_mode s" "keep_timeouts s"
    and tmout: "exec_tmout s < hang_tmout s" "saved_hangs s < KEEP_UNIQUE_HANG"
    and ends: "\<And>bs e. fst (op_run (op_base ops) (hang_tmout s) bs e) = FSRV_RUN_OK"
  shows "save_if_interesting ops mem len FSRV_RUN_TMOUT s = None"
proof -
  have g0: "grows mem s (s\<lparr>san_case_status := 0\<rparr>)" using grows_refl [OF inv] by simp
  have pre: "save_pre ops mem s (first_locals len)" using len ops modes by (simp add: save_pre_def first_locals_def)
  have loops: "rerun_loops ops mem l s'" if "grows mem s s'" "save_pre ops mem s l" "saved_hangs s' = saved_hangs s" for l s'
    using that grows_map_size [OF that(1)] grows_run_inv(3) [OF that(1)] modes tmout ends
    by (simp add: rerun_loops_def save_pre_def buffered_def)
  have "wp (if fast_schedule (s\<lparr>san_case_status := 0\<rparr>) then do {
            (cksum, s) \<leftarrow> count_path ops (s\<lparr>san_case_status := 0\<rparr>);
            Some ((first_locals len)\<lparr>sl_cksum := cksum, sl_need_hash := False, sl_classified := True\<rparr>, s) }
          else Some (first_locals len, s\<lparr>san_case_status := 0\<rparr>)) (\<lambda>(l, s'). crash_mode s' = FSRV_RUN_OK \<and> may_save_fault ops mem FSRV_RUN_TMOUT l s' = None)"
    by (rule wp_path_frequency [OF g0 pre]) (use modes g0 pre in \<open>auto intro!: may_save_diverges loops simp del: grows_fields\<close>)
  then show ?thesis using len modes unfolding save_if_interesting_def Let_def first_locals_def [symmetric]
    by (auto simp: wp_iff simp del: Option.bind_assoc)
qed

section \<open>After a run\<close>

lemma wp_fuzz_run:
  assumes "grows mem s0 s" and "full_traces (op_base ops) (unat (map_size s))" and "\<not> run_errors (op_base ops)"
  shows "case fuzz_run_target (op_base ops) tmout bs s of (fault, s') \<Rightarrow> fault \<noteq> FSRV_RUN_ERROR \<and> grows mem s0 s' \<and> queue_buf s' = queue_buf s"
proof -
  obtain f st t e where r: "op_run (op_base ops) tmout bs (run_env s) = (f, st, t, e)"
    by (cases "op_run (op_base ops) tmout bs (run_env s)") auto
  have "unat (map_size s) \<le> length t" using assms(2) r unfolding full_traces_def by (metis fst_conv snd_conv)
  then have "grows mem s0 (s\<lparr>trace_bits := t, stop_soon := st, total_execs := total_execs s + 1, run_env := e\<rparr>)"
    using grows_trace [OF assms(1)] by simp
  moreover have "f \<noteq> FSRV_RUN_ERROR" using assms(3) r unfolding run_errors_def by (metis fst_conv)
  ultimately show ?thesis by (simp add: fuzz_run_target_def r)
qed

lemma save_ready_grows: "save_ready ops mem len s \<Longrightarrow> grows mem s s' \<Longrightarrow> buffered s mem n \<Longrightarrow> save_ready ops mem n s'"
  using grows_map_size [of mem s s'] grows_run_inv(3) [of mem s s'] by (simp add: save_ready_def buffered_def no_rerun_loop_def)

lemma wp_common_fuzz_stuff:
  assumes ready: "save_ready ops mem len s"
  shows "wp (common_fuzz_stuff_full ops mem len s) (\<lambda>(abandon, s'). save_inv s' \<and> added mem (queue_files s) (queue_files s')
     \<and> queued_discovered s' = queued_discovered s + (if length (queue_buf s') > length (queue_buf s) then 1 else 0)
     \<and> (abandon \<longrightarrow> queue_buf s' = queue_buf s))"
proof -
  let ?Q = "\<lambda>(abandon, s'). save_inv s' \<and> added mem (queue_files s) (queue_files s')
     \<and> queued_discovered s' = queued_discovered s + (if length (queue_buf s') > length (queue_buf s) then 1 else 0)
     \<and> (abandon \<longrightarrow> queue_buf s' = queue_buf s)"
  have r: "save_inv s" "full_traces (op_base ops) (unat (map_size s))" "\<not> run_errors (op_base ops)" "buffered s mem len"
    using ready by (simp_all add: save_ready_def)
  have Q: "?Q (b, s')" if "grows mem s s'" "queue_buf s' = queue_buf s" for b s'
    using that by (simp add: grows_def config_of_def)
  have saved: "wp (save_if_interesting ops mem n fault s1) (\<lambda>x. wp (case x of (saved, s) \<Rightarrow>
       Some (False, s\<lparr>queued_discovered := queued_discovered s + (if saved then 1 else 0)\<rparr>)) ?Q)"
    if s1: "grows mem s s1" "queue_buf s1 = queue_buf s" "fault \<noteq> FSRV_RUN_ERROR" "buffered s mem n" for n fault s1
  proof -
    have Q': "?Q (False, s2\<lparr>queued_discovered := queued_discovered s2 + (if r then 1 else 0)\<rparr>)"
      if s2: "grows mem s1 s2 \<and> r = (length (queue_buf s1) < length (queue_buf s2))" for r s2
    proof -
      have g: "grows mem s s2" using grows_trans s1(1) s2 by blast
      have "save_inv (s2\<lparr>queued_discovered := x\<rparr>)" for x using grows_run_inv(3) [OF g]
        by (simp add: save_inv_def fast_schedule_def run_inv_def maps_ok_def map_fits_def queue_inv_def shape_ok_def entries_ok_def entry_ok_def wins_of_def)
      then show ?thesis using g s2 s1(2) by (simp add: grows_def config_of_def)
    qed
    show ?thesis
      by (rule wp_mono [OF wp_save_if_interesting [OF save_ready_grows [OF ready s1(1,4)] s1(3)]])
         (simp only: split_paired_all prod.case wp_Some, rule Q' [unfolded prod.case], simp only: prod.case)
  qed
  show ?thesis unfolding common_fuzz_stuff_full_def wp_bind
    apply (rule wp_write_save [OF r(4)], unfold prod.case)
    subgoal premises n for bs n
    proof -
      obtain fault s1 where run: "fuzz_run_target (op_base ops) (exec_tmout s) bs s = (fault, s1)"
        by (cases "fuzz_run_target (op_base ops) (exec_tmout s) bs s")
      have s1: "fault \<noteq> FSRV_RUN_ERROR" "grows mem s s1" "queue_buf s1 = queue_buf s"
        using wp_fuzz_run [OF grows_refl [OF r(1)] r(2,3), of mem "exec_tmout s" bs] unfolding run by auto
      show ?thesis unfolding run Let_def prod.case
        by (rule wp_if, unfold wp_Some, rule Q [OF grows_refl [OF r(1)] refl], rule wp_if, unfold wp_Some, rule Q [OF s1(2,3)],
            rule wp_if, unfold wp_Some, rule Q, use s1 in simp, use s1 in simp, rule wp_if, unfold wp_Some, rule Q, use s1 in simp,
            use s1 in simp, unfold wp_bind, rule saved)
           (use s1 n in simp_all)
    qed
    done
qed

section \<open>Examples\<close>

definition save_example :: "nat afl_save" where
  "save_example = \<lparr>trace_bits = 5 # replicate 31 0, map_size = 32, real_map_size = 32, virgin_bits = 0xF7 # replicate 31 255,
     virgin_tmout = replicate 32 255, virgin_crash = replicate 32 255, bitmap_changed = 0, count_class_lookup16 = count_class16,
     queue_buf = [example_entry 0 3], queued_items = 1, queued_favored = 0, pending_favored = 0, smallest_favored = - 1,
     schedule = EXPLORE, fixed_seed = False, non_instrumented_mode = False, afl_disable_redundant = False, n_fuzz = [],
     top_rated = replicate 32 None, map_tmp_buf = replicate 32 0, top_rated_candidates = replicate 32 None, last_scored_idx = - 1,
     score_changed = False, reinit_table = False, exec_tmout = 1000, total_execs = 0, stop_soon = False, min_length = 1, max_length = 1048576,
     crash_mode = FSRV_RUN_OK, cmplog_mode = False, resuming_fuzz = False, cal_fast = False, stage_no = 0, first_trace = replicate 32 0,
     var_bytes = replicate 32 0, var_byte_count = 0, queued_with_cov = 0, queued_variable = 0, total_cal_us = 0, total_cal_cycles = 0,
     total_bitmap_size = 0, total_bitmap_entries = 0, run_env = 0,
     ignore_timeouts = False, keep_timeouts = False, san_binary_length = 0, san_abstraction = COVERAGE_INCREASE, san_case_status = 0,
     simplified_n_fuzz = [], n_fuzz_dup = [], hang_tmout = 1000, total_crashes = 0, saved_crashes = 0, total_tmouts = 0, saved_tmouts = 0,
     saved_hangs = 0, fuzz_mode = False, switch_fuzz_mode = False, queue_cycle = 1, queued_discovered = 0, subseq_tmouts = 0,
     cur_skipped_items = 0, skip_requested = False, cur_depth = 0, max_depth = 0, active_items = 1, pending_not_fuzzed = 1,
     ready_for_splicing_count = 0, cycles_wo_finds = 0, start_time = 0, last_find_time = 0, longest_find_time = 0, last_hang_time = 0,
     last_crash_time = 0, last_crash_execs = 0, queue_files = [Some [1, 2, 3]], hang_files = [], crash_files = []\<rparr>"

definition save_ops_example :: "nat save_ops" where
  "save_ops_example = \<lparr>op_base = \<lparr>op_run = (\<lambda>tmout bs e. (FSRV_RUN_OK, False, 1 # replicate 31 0, Suc e)), op_hash = le_word, op_time = (\<lambda>e. (0, e))\<rparr>,
     op_san = (\<lambda>i bs e. (FSRV_RUN_OK, False, e)), op_ms = (\<lambda>e. (0, e)), op_create = (\<lambda>e. (True, e)), op_store = (\<lambda>q m e. e)\<rparr>"

section \<open>Properties\<close>

text \<open>C24. After a run that ended in some way, \<open>save_if_interesting\<close> returns and keeps the invariant of the
  fuzzer's state, under the conditions of \<open>save_ready\<close>: the input lies in its buffer, the target can always be executed
  again and writes full traces, and it is not the case that the target is not instrumented, timeouts are kept
  (\<open>AFL_KEEP_TIMEOUTS\<close>) and \<open>exec_tmout < hang_tmout\<close>, all at once, which is the case in which the
  function need not return. With instrumentation it returns also when a suspected hang is run again and again because its timeouts
  are kept, since every round clears bits of the map of hangs. It only adds files that hold a prefix of the input, it only takes
  bits out of the three maps, and it returns 1 just when the queue has grown.\<close>

theorem save_if_interesting_correct:
  assumes "save_ready ops mem len s" and "fault \<noteq> FSRV_RUN_ERROR"
  shows "\<exists>r s'. save_if_interesting ops mem len fault s = Some (r, s') \<and> save_inv s'
     \<and> (r \<longleftrightarrow> length (queue_buf s') > length (queue_buf s))
     \<and> shrinks (virgin_bits s) (virgin_bits s') \<and> shrinks (virgin_tmout s) (virgin_tmout s') \<and> shrinks (virgin_crash s) (virgin_crash s')
     \<and> added mem (queue_files s) (queue_files s') \<and> added mem (crash_files s) (crash_files s') \<and> added mem (hang_files s) (hang_files s')"
  using wp_save_if_interesting [OF assms] by (auto simp: wp_iff grows_def)

text \<open>C25. Without extra binaries, and under the same conditions (\<open>save_ready\<close>), a non-empty input that ends as
  expected is kept just when its classified trace has undiscovered bits; then the queue gets one entry of its length, marked as new
  coverage when a byte was undiscovered before, and one file.\<close>

theorem save_new_coverage:
  assumes "save_ready ops mem len s" and "len \<noteq> 0" and "san_binary_length s = 0" and "fault = crash_mode s" and "fault \<noteq> FSRV_RUN_TMOUT"
  shows "\<exists>s'. save_if_interesting ops mem len fault s = Some (coverage_level s \<noteq> 0, s')
     \<and> (if coverage_level s = 0 then queue_buf s' = queue_buf s else queued mem len (coverage_level s) s s')"
  using save_expected_spec [OF assms] by (auto simp: wp_iff)

text \<open>C26. Unless crashes are what is being explored (\<open>crash_mode\<close>), a crash on a non-empty input is, under the
  same conditions (\<open>save_ready\<close>), always counted and never put into the queue. It is saved just when there is room and
  its simplified trace, which forgets the hit counts, has bits that no earlier crash had (or there is no instrumentation); after
  that the same trace is not new any more.\<close>

theorem save_unique_crash:
  assumes "save_ready ops mem len s" and "len \<noteq> 0" and "crash_mode s \<noteq> FSRV_RUN_CRASH"
  shows "\<exists>s'. save_if_interesting ops mem len FSRV_RUN_CRASH s = Some (False, s') \<and> queue_buf s' = queue_buf s \<and> total_crashes s' = total_crashes s + 1
     \<and> (if saved_crashes s < KEEP_UNIQUE_CRASH
           \<and> (non_instrumented_mode s \<or> new_level s (simplified (unat (map_size s)) (trace_bits s)) (virgin_crash s) \<noteq> 0)
        then (\<exists>f. crash_files s' = crash_files s @ [f] \<and> (f = None \<or> f = Some (take len mem)))
        else crash_files s' = crash_files s)
     \<and> (saved_crashes s < KEEP_UNIQUE_CRASH \<and> \<not> non_instrumented_mode s
          \<longrightarrow> new_level s (simplified (unat (map_size s)) (trace_bits s)) (virgin_crash s') = 0)"
  using save_crash_spec [OF assms] by (auto simp: wp_iff)

text \<open>C29. Under the same conditions (\<open>save_ready\<close>), running one mutated input keeps the invariant and counts a
  discovery just when the queue grows; an abandoned entry has found nothing.\<close>

theorem common_fuzz_stuff_correct:
  assumes "save_ready ops mem len s"
  shows "\<exists>abandon s'. common_fuzz_stuff_full ops mem len s = Some (abandon, s') \<and> save_inv s' \<and> added mem (queue_files s) (queue_files s')
     \<and> queued_discovered s' = queued_discovered s + (if length (queue_buf s') > length (queue_buf s) then 1 else 0)
     \<and> (abandon \<longrightarrow> queue_buf s' = queue_buf s)"
  using wp_common_fuzz_stuff [OF assms] by (auto simp: wp_iff)

text \<open>C27. With extra binaries that get the inputs with new coverage, and a schedule that does not count paths, an input
  that \<open>has_new_bits_unclassified\<close> finds nothing new in is judged a second time, on hit counts that were never
  classified: it is kept when a raw count has a bit that is still undiscovered.\<close>

theorem save_raw_counts:
  assumes "save_ready ops mem len s" and "len \<noteq> 0" and "san_binary_length s \<noteq> 0" and "san_abstraction s = COVERAGE_INCREASE"
    and "\<not> fast_schedule s" and "fault = crash_mode s" and "fault \<noteq> FSRV_RUN_TMOUT"
    and "skim_64 (count_class_lookup16 s) (virgin_bits s) (trace_bits s) (unat (map_size s)) = Some 0"
  shows "\<exists>s'. save_if_interesting ops mem len fault s = Some (new_level s (trace_bits s) (virgin_bits s) \<noteq> 0, s')
     \<and> (new_level s (trace_bits s) (virgin_bits s) \<noteq> 0 \<longrightarrow> queued mem len (new_level s (trace_bits s) (virgin_bits s)) s s')"
  using save_raw_spec [OF assms] by (auto simp: wp_iff)

text \<open>C28. Without instrumentation, with \<open>AFL_KEEP_TIMEOUTS\<close> and \<open>exec_tmout < hang_tmout\<close>, and
  while there is room for hangs, a timeout whose runs with the longer limit end normally never leaves
  \<open>save_if_interesting\<close>: the jump to \<open>save_to_queue\<close> falls through to the same case again, and nothing but
  the map of hangs would stop it.\<close>

theorem save_hang_diverges:
  assumes "save_inv s" and "len \<noteq> 0" and "buffered s mem len" and "full_traces (op_base ops) (unat (map_size s))" and "\<not> run_errors (op_base ops)"
    and "crash_mode s = FSRV_RUN_OK" and "\<not> ignore_timeouts s" and "non_instrumented_mode s" and "keep_timeouts s"
    and "exec_tmout s < hang_tmout s" and "saved_hangs s < KEEP_UNIQUE_HANG"
    and "\<And>bs e. fst (op_run (op_base ops) (hang_tmout s) bs e) = FSRV_RUN_OK"
  shows "save_if_interesting ops mem len FSRV_RUN_TMOUT s = None"
  using save_diverges_spec [OF assms] .

section \<open>Witnesses\<close>

lemma save_inv_example:
  "save_inv save_example" "length v = 32 \<Longrightarrow> save_inv (save_example\<lparr>virgin_bits := v\<rparr>)"
  "save_inv (save_example\<lparr>non_instrumented_mode := b, keep_timeouts := c, hang_tmout := w\<rparr>)"
  "save_inv (save_example\<lparr>san_binary_length := n\<rparr>)"
  by (simp_all add: save_inv_def fast_schedule_def run_inv_def queue_inv_def shape_ok_def entries_ok_def entry_ok_def wins_of_def maps_ok_def map_fits_def
    save_example_def example_entry_def less_eq_schedule_def)

lemma save_ops_example_ok: "full_traces (op_base save_ops_example) 32" "\<not> run_errors (op_base save_ops_example)"
  by (simp_all add: full_traces_def run_errors_def save_ops_example_def)

lemma save_ready_example:
  "save_ready save_ops_example [1, 2, 3] 3 save_example" "length v = 32 \<Longrightarrow> save_ready save_ops_example [1, 2, 3] 3 (save_example\<lparr>virgin_bits := v\<rparr>)"
  "save_ready save_ops_example [1, 2, 3] 3 (save_example\<lparr>san_binary_length := n\<rparr>)"
  using save_inv_example save_ops_example_ok
  by (simp_all add: save_ready_def no_rerun_loop_def buffered_def) (simp_all add: save_example_def)

lemma example_level [simp]: "new_level (save_example\<lparr>virgin_bits := v\<rparr>) = new_level save_example"
  "new_level (save_example\<lparr>san_binary_length := n\<rparr>) = new_level save_example"
  "new_level save_example t v = novelty (take 32 t) (take 32 v)"
  by (auto simp: new_level_def counted_len_def save_example_def intro!: ext)

theorem save_if_interesting_witness:
  "\<exists>r s'. save_if_interesting save_ops_example [1, 2, 3] 3 FSRV_RUN_TMOUT save_example = Some (r, s') \<and> save_inv s'"
  using save_if_interesting_correct [OF save_ready_example(1), of FSRV_RUN_TMOUT] by auto

theorem save_new_coverage_witness:
  "\<exists>s'. save_if_interesting save_ops_example [1, 2, 3] 3 FSRV_RUN_OK (save_example\<lparr>virgin_bits := replicate 32 255\<rparr>) = Some (True, s')
     \<and> length (queue_buf s') = 2 \<and> qe_has_new_cov (queue_buf s' ! 1)"
proof -
  let ?s = "save_example\<lparr>virgin_bits := replicate 32 255\<rparr>"
  have s: "san_binary_length ?s = 0" "crash_mode ?s = FSRV_RUN_OK" "trace_bits ?s = 5 # replicate 31 0" "unat (map_size ?s) = 32" "length (queue_buf ?s) = 1"
    by (simp_all add: save_example_def)
  have "classed 32 (5 # replicate 31 0) = 8 # replicate 31 0" by code_simp
  then have "coverage_level ?s = novelty (8 # replicate 31 0) (replicate 32 255)" unfolding coverage_level_def s by simp
  also have "\<dots> = 2" by code_simp
  finally show ?thesis using save_new_coverage [OF save_ready_example(2), of "replicate 32 255" FSRV_RUN_OK] s by (auto simp: queued_def)
qed

theorem save_unique_crash_witness:
  "\<exists>s'. save_if_interesting save_ops_example [1, 2, 3] 3 FSRV_RUN_CRASH save_example = Some (False, s') \<and> total_crashes s' = 1
     \<and> length (crash_files s') = 1 \<and> novelty (128 # replicate 31 1) (take 32 (virgin_crash s')) = 0"
proof -
  let ?s = save_example
  have s: "crash_mode ?s \<noteq> FSRV_RUN_CRASH" "trace_bits ?s = 5 # replicate 31 0" "unat (map_size ?s) = 32" "saved_crashes ?s = 0" "total_crashes ?s = 0"
    "virgin_crash ?s = replicate 32 255" "\<not> non_instrumented_mode ?s" "crash_files ?s = []"
    by (simp_all add: save_example_def)
  have "simplified 32 (5 # replicate 31 0) = 128 # replicate 31 1" by code_simp
  moreover have "novelty (128 # replicate 31 1) (replicate 32 255) = 2" by code_simp
  ultimately show ?thesis using save_unique_crash [OF save_ready_example(1) _ s(1)] s by (auto simp: KEEP_UNIQUE_CRASH_def)
qed

theorem common_fuzz_stuff_witness:
  "\<exists>abandon s'. common_fuzz_stuff_full save_ops_example [1, 2, 3] 3 save_example = Some (abandon, s') \<and> save_inv s'
     \<and> queued_discovered s' = (if length (queue_buf s') > 1 then 1 else 0)"
proof -
  have s: "queued_discovered save_example = 0" "length (queue_buf save_example) = 1" by (simp_all add: save_example_def)
  show ?thesis using common_fuzz_stuff_correct [OF save_ready_example(1)] unfolding s add_0 by blast
qed

theorem save_raw_counts_witness:
  "let s = save_example\<lparr>san_binary_length := 1\<rparr>
   in coverage_level s = 0 \<and> (\<exists>s'. save_if_interesting save_ops_example [1, 2, 3] 3 FSRV_RUN_OK s = Some (True, s') \<and> length (queue_buf s') = 2)"
proof -
  let ?s = "save_example\<lparr>san_binary_length := 1\<rparr>"
  have s: "san_binary_length ?s \<noteq> 0" "san_abstraction ?s = COVERAGE_INCREASE" "\<not> fast_schedule ?s" "crash_mode ?s = FSRV_RUN_OK"
    "trace_bits ?s = 5 # replicate 31 0" "virgin_bits ?s = 0xF7 # replicate 31 255" "unat (map_size ?s) = 32" "length (queue_buf ?s) = 1"
    "count_class_lookup16 ?s = count_class16"
    by (simp_all add: save_example_def fast_schedule_def less_eq_schedule_def)
  have skim: "skim_64 count_class16 (0xF7 # replicate 31 255) (5 # replicate 31 0) 32 = Some 0"
  proof -
    have "skim_64 count_class16 (0xF7 # replicate 31 255) (5 # replicate 31 0) (32 * 1)
        = Some (of_bool (window_hit (5 # replicate 31 0) (0xF7 # replicate 31 255) 0 (32 * 1)))" by (rule skim_64_bytes) simp_all
    moreover have "window_hit (5 # replicate 31 0) (0xF7 # replicate 31 255) 0 32 = False" by code_simp
    ultimately show ?thesis by simp
  qed
  have "classed 32 (5 # replicate 31 0) = 8 # replicate 31 0" by code_simp
  moreover have "novelty (8 # replicate 31 0) (0xF7 # replicate 31 255) = 0" "novelty (5 # replicate 31 0) (0xF7 # replicate 31 255) = 1" by code_simp+
  moreover have "\<exists>s'. save_if_interesting save_ops_example [1, 2, 3] 3 FSRV_RUN_OK ?s
        = Some (new_level ?s (trace_bits ?s) (virgin_bits ?s) \<noteq> 0, s')
     \<and> (new_level ?s (trace_bits ?s) (virgin_bits ?s) \<noteq> 0 \<longrightarrow> queued [1, 2, 3] 3 (new_level ?s (trace_bits ?s) (virgin_bits ?s)) ?s s')"
    by (rule save_raw_counts [OF save_ready_example(3)]) (use s skim in simp_all)
  ultimately show ?thesis using s unfolding coverage_level_def Let_def by (auto simp: queued_def)
qed

theorem save_hang_diverges_witness:
  "save_if_interesting save_ops_example [1, 2, 3] 3 FSRV_RUN_TMOUT
     (save_example\<lparr>non_instrumented_mode := True, keep_timeouts := True, hang_tmout := 2000\<rparr>) = None"
  by (rule save_hang_diverges) (use save_inv_example(3) save_ops_example_ok in
    \<open>simp_all add: buffered_def\<close>, simp_all add: save_example_def save_ops_example_def KEEP_UNIQUE_HANG_def)

end
