(* ===== verification/Text.thy ===== *)
theory Text
  imports Prelude
begin

text \<open>
  Which inputs and comparison operands are text (\<open>check_if_text_buf\<close> and \<open>check_if_text\<close> of \<^verbatim>\<open>src/afl-fuzz-queue.c\<close>), against a reference
  encoder of UTF-8. The suffix \<open>bs\<close> stands for \<open>buf + offset\<close> with \<open>len - offset\<close> bytes left; every access is behind a test
  of that length. \<open>isprint\<close> is the one of the C locale.
\<close>

section \<open>Model\<close>

definition AFL_TXT_MIN_LEN :: u32 where "AFL_TXT_MIN_LEN = 12"
definition AFL_TXT_MAX_LEN :: u32 where "AFL_TXT_MAX_LEN = 65535"
definition AFL_TXT_MIN_PERCENT :: nat where "AFL_TXT_MIN_PERCENT = 99"

definition plain_text :: "u8 \<Rightarrow> bool" where
  "plain_text b \<longleftrightarrow> b = 0x09 \<or> b = 0x0A \<or> b = 0x0D \<or> 0x20 \<le> b \<and> b \<le> 0x7E"

definition isascii_or_print :: "u8 \<Rightarrow> bool" where
  "isascii_or_print b \<longleftrightarrow> b \<le> 0x7F \<or> 0x20 \<le> b \<and> b \<le> 0x7E"

definition is_cont :: "u8 \<Rightarrow> bool" where
  "is_cont b \<longleftrightarrow> 0x80 \<le> b \<and> b \<le> 0xBF"

definition seq2 :: "u8 \<Rightarrow> u8 \<Rightarrow> bool" where
  "seq2 b0 b1 \<longleftrightarrow> (0xC2 \<le> b0 \<and> b0 \<le> 0xDF) \<and> is_cont b1"

definition seq3 :: "u8 \<Rightarrow> u8 \<Rightarrow> u8 \<Rightarrow> bool" where
  "seq3 b0 b1 b2 \<longleftrightarrow> b0 = 0xE0 \<and> (0xA0 \<le> b1 \<and> b1 \<le> 0xBF) \<and> is_cont b2
     \<or> ((0xE1 \<le> b0 \<and> b0 \<le> 0xEC) \<or> b0 = 0xEE \<or> b0 = 0xEF) \<and> is_cont b1 \<and> is_cont b2
     \<or> b0 = 0xED \<and> (0x80 \<le> b1 \<and> b1 \<le> 0x9F) \<and> is_cont b2"

definition seq4 :: "u8 \<Rightarrow> u8 \<Rightarrow> u8 \<Rightarrow> u8 \<Rightarrow> bool" where
  "seq4 b0 b1 b2 b3 \<longleftrightarrow> b0 = 0xF0 \<and> (0x90 \<le> b1 \<and> b1 \<le> 0xBF) \<and> is_cont b2 \<and> is_cont b3
     \<or> (0xF1 \<le> b0 \<and> b0 \<le> 0xF3) \<and> is_cont b1 \<and> is_cont b2 \<and> is_cont b3
     \<or> b0 = 0xF4 \<and> (0x80 \<le> b1 \<and> b1 \<le> 0x8F) \<and> is_cont b2 \<and> is_cont b3"

text \<open>The length of the multi-byte character in front, or 0.\<close>

definition utf8_len :: "u8 list \<Rightarrow> nat" where
  "utf8_len bs = (if length bs > 1 \<and> seq2 (bs ! 0) (bs ! 1) then 2
     else if length bs > 2 \<and> seq3 (bs ! 0) (bs ! 1) (bs ! 2) then 3
     else if length bs > 3 \<and> seq4 (bs ! 0) (bs ! 1) (bs ! 2) (bs ! 3) then 4
     else 0)"

text \<open>The loop of both functions with the counters \<open>ascii\<close>, \<open>utf8\<close> and, in the second function, \<open>comp\<close>.\<close>

function text_loop :: "u8 list \<Rightarrow> u32 \<Rightarrow> u32 \<Rightarrow> int \<Rightarrow> u32 \<times> u32 \<times> int" where
  "text_loop bs ascii utf8 chars =
     (if bs = [] then (ascii, utf8, chars)
      else if plain_text (hd bs) then text_loop (tl bs) (ascii + 1) (utf8 + 1) chars
      else
        let ascii = (if isascii_or_print (hd bs) then ascii + 1 else ascii);
            n = utf8_len bs
        in if n \<noteq> 0 then text_loop (drop n bs) ascii (utf8 + 1) (chars - (int n - 1))
           else text_loop (tl bs) ascii utf8 chars)"
  by auto
termination
  by (relation "measure (\<lambda>(bs, _). length bs)") auto

declare text_loop.simps [simp del]

definition check_if_text_buf :: "u8 list \<Rightarrow> u8" where
  "check_if_text_buf buf = (let (ascii, utf8, _) = text_loop buf 0 0 0 in ucast (if utf8 > ascii then utf8 else ascii))"

text \<open>The file of the queue entry is \<open>None\<close> when it cannot be opened; \<open>read\<close> returns what is there of the bytes asked for.\<close>

definition check_if_text :: "u32 \<Rightarrow> mem option \<Rightarrow> u8" where
  "check_if_text q_len file =
     (if q_len < AFL_TXT_MIN_LEN \<or> q_len < AFL_TXT_MAX_LEN then 0
      else let len = (if unat q_len \<ge> MAX_FILE then word_of_nat (MAX_FILE - 1) else q_len)
      in case file of None \<Rightarrow> 0 | Some content \<Rightarrow>
        let buf = take (unat len) content; chars = int (length buf)
        in if chars \<noteq> int (unat len) then 0
           else
             let (ascii, utf8, chars) = text_loop buf 0 0 chars;
                 percent_utf8 = nat (int (unat (utf8 * 100)) div chars);
                 percent_ascii = unat (ascii * 100) div unat len
             in if percent_utf8 \<ge> percent_ascii \<and> percent_utf8 \<ge> AFL_TXT_MIN_PERCENT then 2
                else if percent_ascii \<ge> AFL_TXT_MIN_PERCENT then 1
                else 0)"

section \<open>UTF-8\<close>

text \<open>The scalar values of Unicode and their encoding.\<close>

definition scalar :: "nat \<Rightarrow> bool" where
  "scalar c \<longleftrightarrow> c < 0xD800 \<or> 0xE000 \<le> c \<and> c < 0x110000"

definition byte :: "nat \<Rightarrow> u8" where
  "byte n = word_of_nat n"

definition encode :: "nat \<Rightarrow> u8 list" where
  "encode c = map byte (if c < 0x80 then [c]
     else if c < 0x800 then [0xC0 + c div 64, 0x80 + c mod 64]
     else if c < 0x10000 then [0xE0 + c div 4096, 0x80 + c div 64 mod 64, 0x80 + c mod 64]
     else [0xF0 + c div 262144, 0x80 + c div 4096 mod 64, 0x80 + c div 64 mod 64, 0x80 + c mod 64])"


lemma u8_between: "x \<le> (b :: u8) \<longleftrightarrow> unat x \<le> unat b" "b = x \<longleftrightarrow> unat b = unat x"
  by (simp_all add: word_le_nat_alt word_unat_eq_iff)

lemma unat_byte [simp]: "n < 256 \<Longrightarrow> unat (byte n) = n"
  by (simp add: byte_def take_bit_nat_eq_self unsigned_of_nat)

lemma byte_unat [simp]: "byte (unat b) = b"
  by (simp add: byte_def)

lemmas text_bytes = seq2_def seq3_def seq4_def is_cont_def plain_text_def isascii_or_print_def u8_between

text \<open>Numbers in base 64.\<close>

lemma base64: "d < 64 \<Longrightarrow> (64 * n + d) div 64 = n" "d < 64 \<Longrightarrow> (64 * n + d) mod 64 = d" for d n :: nat
  by simp_all

lemma div_64: "c div 4096 = c div 64 div 64" "c div 262144 = c div 64 div 64 div 64" for c :: nat
  by (simp_all add: div_mult2_eq [symmetric])

lemma digits_64:
  fixes c :: nat
  obtains d where "c = 64 * (c div 64) + d" "c mod 64 = d" "d < 64"
  by (rule that [of "c mod 64"]) simp_all

lemma utf8_len_encode:
  assumes "scalar c" and "0x80 \<le> c"
  shows "utf8_len (encode c @ bs) = length (encode c)"
proof -
  have m: "n mod 64 < 64" for n :: nat by simp
  consider "c < 0x800" | "0x800 \<le> c" "c < 0x10000" | "0x10000 \<le> c" by linarith
  then show ?thesis
  proof cases
    case 1
    then have "2 \<le> c div 64" "c div 64 < 32" using assms(2) by linarith+
    then show ?thesis using 1 assms(2) m [of c] by (simp add: encode_def utf8_len_def text_bytes)
  next
    case 2
    obtain z where z: "c = 64 * (c div 64) + z" "c mod 64 = z" "z < 64" by (rule digits_64)
    obtain y where y: "c div 64 = 64 * (c div 4096) + y" "c div 64 mod 64 = y" "y < 64" unfolding div_64 by (rule digits_64)
    define x where x: "x = c div 4096"
    have "c = 4096 * x + 64 * y + z" using z(1) y(1) x by simp
    then have "x < 16" "32 \<le> y \<or> 0 < x" "x \<noteq> 13 \<or> y < 32" using 2 assms(1) y(3) z(3) unfolding scalar_def by auto
    then show ?thesis using 2 y(3) z(3) unfolding encode_def utf8_len_def y(2) z(2) x [symmetric] by (auto simp: text_bytes)
  next
    case 3
    obtain w where w: "c = 64 * (c div 64) + w" "c mod 64 = w" "w < 64" by (rule digits_64)
    obtain z where z: "c div 64 = 64 * (c div 4096) + z" "c div 64 mod 64 = z" "z < 64" unfolding div_64 by (rule digits_64)
    obtain y where y: "c div 4096 = 64 * (c div 262144) + y" "c div 4096 mod 64 = y" "y < 64" unfolding div_64 by (rule digits_64)
    define x where x: "x = c div 262144"
    have "c = 262144 * x + 4096 * y + 64 * z + w" using w(1) z(1) y(1) x by simp
    then have "x < 5" "16 \<le> y \<or> 0 < x" "x \<noteq> 4 \<or> y < 16" using 3 assms(1) y(3) z(3) w(3) unfolding scalar_def by auto
    then show ?thesis using 3 y(3) z(3) w(3) unfolding encode_def utf8_len_def y(2) z(2) w(2) x [symmetric] by (auto simp: text_bytes)
  qed
qed

lemma utf8_len_sound:
  assumes "utf8_len bs \<noteq> 0"
  shows "\<exists>c. scalar c \<and> 0x80 \<le> c \<and> take (utf8_len bs) bs = encode c"
proof -
  consider (2) b0 b1 r where "bs = b0 # b1 # r" "seq2 b0 b1" "utf8_len bs = 2"
    | (3) b0 b1 b2 r where "bs = b0 # b1 # b2 # r" "seq3 b0 b1 b2" "utf8_len bs = 3"
    | (4) b0 b1 b2 b3 r where "bs = b0 # b1 # b2 # b3 # r" "seq4 b0 b1 b2 b3" "utf8_len bs = 4"
    using assms by (cases bs rule: remdups_adj.cases; cases "tl (tl bs)"; cases "tl (tl (tl bs))") (auto simp: utf8_len_def split: if_splits)
  then show ?thesis
  proof cases
    case 2
    define x y where xy: "x = unat b0 - 0xC0" "y = unat b1 - 0x80"
    have b: "2 \<le> x" "x < 32" "y < 64" "b0 = byte (0xC0 + x)" "b1 = byte (0x80 + y)"
      using 2(2) by (auto simp: text_bytes xy)
    have "(64 * x + y) div 64 = x" "(64 * x + y) mod 64 = y" using b by simp_all
    then have "encode (64 * x + y) = [b0, b1]" "scalar (64 * x + y)" using b unfolding encode_def scalar_def by simp_all
    then show ?thesis using 2 b by (intro exI [of _ "64 * x + y"]) simp
  next
    case 3
    define x y z where xyz: "x = unat b0 - 0xE0" "y = unat b1 - 0x80" "z = unat b2 - 0x80"
    have b: "x < 16" "y < 64" "z < 64" "b0 = byte (0xE0 + x)" "b1 = byte (0x80 + y)" "b2 = byte (0x80 + z)" "x = 0 \<longrightarrow> 32 \<le> y" "x = 13 \<longrightarrow> y < 32"
      using 3(2) by (auto simp: text_bytes xyz)
    let ?c = "64 * (64 * x + y) + z"
    have d: "?c div 4096 = x" "?c div 64 mod 64 = y" "?c mod 64 = z" using b(2,3) by (simp_all only: div_64 base64)
    moreover have "0x800 \<le> ?c" "?c < 0x10000" using b(1-3,7) by auto
    moreover have "?c < 0xD800 \<or> 0xE000 \<le> ?c"
    proof -
      consider "x = 13" | "x \<le> 12" | "14 \<le> x" by linarith
      then show ?thesis by cases (use b(2,3,8) in auto)
    qed
    ultimately have d: "?c div 4096 = x" "?c div 64 mod 64 = y" "?c mod 64 = z" "0x800 \<le> ?c" "?c < 0x10000" "?c < 0xD800 \<or> 0xE000 \<le> ?c" by blast+
    then have "encode ?c = [b0, b1, b2]" unfolding encode_def using b by simp
    then show ?thesis using 3 d by (intro exI [of _ ?c]) (simp add: scalar_def)
  next
    case 4
    define x y z w where xyz: "x = unat b0 - 0xF0" "y = unat b1 - 0x80" "z = unat b2 - 0x80" "w = unat b3 - 0x80"
    have b: "x < 5" "y < 64" "z < 64" "w < 64" "b0 = byte (0xF0 + x)" "b1 = byte (0x80 + y)" "b2 = byte (0x80 + z)" "b3 = byte (0x80 + w)"
      "x = 0 \<longrightarrow> 16 \<le> y" "x = 4 \<longrightarrow> y < 16"
      using 4(2) by (auto simp: text_bytes xyz)
    let ?c = "64 * (64 * (64 * x + y) + z) + w"
    have d: "?c div 262144 = x" "?c div 4096 mod 64 = y" "?c div 64 mod 64 = z" "?c mod 64 = w"
      using b(2-4) by (simp_all only: div_64 base64)
    moreover have "0x10000 \<le> ?c" "?c < 0x110000" using b(1-4,9,10) by auto
    ultimately have d: "?c div 262144 = x" "?c div 4096 mod 64 = y" "?c div 64 mod 64 = z" "?c mod 64 = w" "0x10000 \<le> ?c" "?c < 0x110000" by blast+
    then have "encode ?c = [b0, b1, b2, b3]" unfolding encode_def using b by simp
    then show ?thesis using 4 d by (intro exI [of _ ?c]) (simp add: scalar_def)
  qed
qed


section \<open>Counting characters\<close>

text \<open>A character that can be part of a text, and the extra bytes of its encoding.\<close>

definition textual :: "nat \<Rightarrow> bool" where
  "textual c \<longleftrightarrow> 0x80 \<le> c \<or> c \<in> {9, 10, 13} \<or> 0x20 \<le> c \<and> c \<le> 0x7E"

definition ascii_chars :: "nat list \<Rightarrow> nat" where
  "ascii_chars cs = length (filter (\<lambda>c. c < 0x80) cs)"

definition text_chars :: "nat list \<Rightarrow> nat" where
  "text_chars cs = length (filter textual cs)"

definition utf8_text :: "nat list \<Rightarrow> u8 list" where
  "utf8_text cs = concat (map encode cs)"

lemma utf8_text_simps [simp]: "utf8_text [] = []" "utf8_text (c # cs) = encode c @ utf8_text cs" "ascii_chars [] = 0" "text_chars [] = 0"
  "ascii_chars (c # cs) = (if c < 0x80 then 1 else 0) + ascii_chars cs" "text_chars (c # cs) = (if textual c then 1 else 0) + text_chars cs"
  by (simp_all add: utf8_text_def ascii_chars_def text_chars_def)

lemma encode_ascii: "c < 0x80 \<Longrightarrow> encode c = [byte c]"
  by (simp add: encode_def)

lemma encode_nonempty [simp]: "encode c \<noteq> []"
  by (simp add: encode_def)

lemma length_encode: "1 \<le> length (encode c)" "length (encode c) \<le> 4" "c < 0x80 \<longleftrightarrow> length (encode c) = 1"
  by (auto simp: encode_def)

lemma hd_encode: "scalar c \<Longrightarrow> 0x80 \<le> c \<Longrightarrow> 0x80 \<le> unat (hd (encode c))"
  by (auto simp: encode_def scalar_def)

lemma utf8_len_ascii: "c < 0x80 \<Longrightarrow> utf8_len (byte c # bs) = 0"
  by (simp add: utf8_len_def text_bytes)

lemma text_loop_encode:
  assumes "scalar c"
  shows "text_loop (encode c @ bs) a u n
    = text_loop bs (a + (if c < 0x80 then 1 else 0)) (u + (if textual c then 1 else 0)) (n - (int (length (encode c)) - 1))"
proof (cases "c < 0x80")
  case True
  then show ?thesis using utf8_len_ascii [OF True, of bs]
    by (subst text_loop.simps) (auto simp: encode_ascii text_bytes textual_def)
next
  case False
  let ?b = "hd (encode c)"
  have b: "hd (encode c @ bs) = ?b" by simp
  have h: "\<not> plain_text ?b" "\<not> isascii_or_print ?b" using hd_encode [OF assms] False by (auto simp: text_bytes)
  have "utf8_len (encode c @ bs) = length (encode c)" using utf8_len_encode [OF assms] False by simp
  then show ?thesis using False length_encode(1) [of c] h
    by (subst text_loop.simps) (simp add: textual_def Let_def b)
qed

text \<open>On valid UTF-8 the loop counts the characters, and \<open>comp\<close> ends as their number.\<close>

lemma text_loop_utf8:
  "list_all scalar cs \<Longrightarrow> text_loop (utf8_text cs) a u n
     = (a + of_nat (ascii_chars cs), u + of_nat (text_chars cs), n - (int (length (utf8_text cs)) - int (length cs)))"
proof (induction cs arbitrary: a u n)
  case Nil
  then show ?case by (simp add: text_loop.simps)
next
  case (Cons c cs)
  then show ?case using text_loop_encode [of c "utf8_text cs"] by (simp add: algebra_simps)
qed

lemma text_chars_le: "text_chars cs \<le> length cs" "ascii_chars cs \<le> length cs" "length cs \<le> length (utf8_text cs)"
proof -
  show "length cs \<le> length (utf8_text cs)" 
  proof (induction cs)
    case (Cons c cs)
    then show ?case using length_encode(1) [of c] by simp
  qed simp
qed (simp_all add: text_chars_def ascii_chars_def)

lemma ucast_of_nat_u8: "(ucast (of_nat n :: u32) :: u8) = of_nat n"
  by (rule bit_word_eqI) (simp add: bit_ucast_iff bit_of_nat_iff)

lemma check_if_text_buf_spec:
  assumes "list_all scalar cs" and "length (utf8_text cs) < 2 ^ 32"
  shows "check_if_text_buf (utf8_text cs) = of_nat (max (text_chars cs) (ascii_chars cs))"
proof -
  have "text_chars cs < 2 ^ 32" "ascii_chars cs < 2 ^ 32" using text_chars_le [of cs] assms(2) by linarith+
  then have "(of_nat (ascii_chars cs) :: u32) < of_nat (text_chars cs) \<longleftrightarrow> ascii_chars cs < text_chars cs"
    by (simp add: word_less_nat_alt unsigned_of_nat take_bit_nat_eq_self)
  then show ?thesis using assms(1) by (simp add: check_if_text_buf_def text_loop_utf8 max_def ucast_of_nat_u8)
qed


lemma utf8_len_iff: "utf8_len bs = n \<and> n \<noteq> 0 \<longleftrightarrow> (\<exists>c r. scalar c \<and> 0x80 \<le> c \<and> n = length (encode c) \<and> bs = encode c @ r)"
proof
  assume n: "utf8_len bs = n \<and> n \<noteq> 0"
  then obtain c where c: "scalar c" "0x80 \<le> c" "take n bs = encode c" using utf8_len_sound [of bs] by auto
  moreover have "n \<le> length bs" using n by (auto simp: utf8_len_def split: if_splits)
  moreover have "bs = encode c @ drop n bs" using append_take_drop_id [of n bs] c(3) by simp
  ultimately show "\<exists>c r. scalar c \<and> 0x80 \<le> c \<and> n = length (encode c) \<and> bs = encode c @ r"
    by (metis length_take min.absorb2)
qed (auto simp: utf8_len_encode)

lemma wide_char: "list_ex (\<lambda>c. 0x80 \<le> c) cs \<Longrightarrow> length cs < length (utf8_text cs)"
proof (induction cs)
  case (Cons c cs)
  then show ?case using length_encode [of c] text_chars_le(3) [of cs] by (cases "0x80 \<le> c") auto
qed simp

lemma ascii_text: "list_all (\<lambda>c. c < 0x80) cs \<Longrightarrow> ascii_chars cs = length (utf8_text cs) \<and> length (utf8_text cs) = length cs"
  by (induction cs) (auto simp: encode_ascii)

lemma percent_bound: "n \<le> k \<Longrightarrow> k < 2 ^ 20 \<Longrightarrow> unat (of_nat n * 100 :: u32) = n * 100"
proof -
  assume "n \<le> k" "k < 2 ^ 20"
  then have "n * 100 < 2 ^ 32" by simp
  then have "unat (of_nat (n * 100) :: u32) = n * 100" by (simp add: unsigned_of_nat take_bit_nat_eq_self del: of_nat_mult)
  then show ?thesis by simp
qed

section \<open>Properties\<close>

text \<open>C31. On valid UTF-8 of fewer than 256 bytes, \<open>check_if_text_buf\<close> returns the number of characters that can be part of a text or
  the number of ASCII characters, whichever is greater. So the comparison of the result with the number of bytes, by which the
  cmplog stage decides that an operand is text, succeeds for no text with a character outside ASCII.\<close>

theorem check_if_text_buf_utf8:
  assumes "list_all scalar cs" and "length (utf8_text cs) < 256"
  shows "unat (check_if_text_buf (utf8_text cs)) = max (text_chars cs) (ascii_chars cs)
    \<and> (unat (check_if_text_buf (utf8_text cs)) = length (utf8_text cs) \<longleftrightarrow> list_all (\<lambda>c. c < 0x80) cs)"
proof -
  have le: "max (text_chars cs) (ascii_chars cs) \<le> length cs" "length cs \<le> length (utf8_text cs)" using text_chars_le [of cs] by simp_all
  then have eq: "unat (check_if_text_buf (utf8_text cs)) = max (text_chars cs) (ascii_chars cs)"
    using assms check_if_text_buf_spec [OF assms(1)] by (simp add: unsigned_of_nat take_bit_nat_eq_self)
  moreover have "unat (check_if_text_buf (utf8_text cs)) = length (utf8_text cs) \<longleftrightarrow> list_all (\<lambda>c. c < 0x80) cs"
  proof (cases "list_all (\<lambda>c. c < 0x80) cs")
    case True
    then show ?thesis using ascii_text [OF True] le unfolding eq by simp
  next
    case False
    then have "length cs < length (utf8_text cs)" by (intro wide_char) (auto simp: list_all_iff list_ex_iff not_less)
    then have "max (text_chars cs) (ascii_chars cs) < length (utf8_text cs)" using le(1) by linarith
    then show ?thesis using False unfolding eq by (metis less_irrefl)
  qed
  ultimately show ?thesis by blast
qed

text \<open>C32. For an input file in UTF-8 below the size limit, \<open>check_if_text\<close> computes the share of text characters among the characters
  and of ASCII characters among the bytes and needs 99 percent; but no input shorter than 65535 bytes is ever text.\<close>

theorem check_if_text_utf8:
  assumes "list_all scalar cs" and "length (utf8_text cs) < 1024 * 1024"
  shows "check_if_text (of_nat (length (utf8_text cs))) (Some (utf8_text cs @ rest)) =
    (let u = 100 * text_chars cs div length cs; a = 100 * ascii_chars cs div length (utf8_text cs)
     in if length (utf8_text cs) < 65535 then 0 else if u \<ge> a \<and> u \<ge> 99 then 2 else if a \<ge> 99 then 1 else 0)"
proof -
  let ?n = "length (utf8_text cs)"
  have n: "unat (of_nat ?n :: u32) = ?n" using assms(2) by (simp add: unsigned_of_nat take_bit_nat_eq_self)
  have small: "(of_nat ?n :: u32) < AFL_TXT_MIN_LEN \<or> (of_nat ?n :: u32) < AFL_TXT_MAX_LEN \<longleftrightarrow> ?n < 65535"
    "\<not> MAX_FILE \<le> unat (of_nat ?n :: u32)"
    using assms(2) by (auto simp: word_less_nat_alt word_le_nat_alt n AFL_TXT_MIN_LEN_def AFL_TXT_MAX_LEN_def MAX_FILE_def)
  have p: "unat (of_nat (text_chars cs) * 100 :: u32) = text_chars cs * 100" "unat (of_nat (ascii_chars cs) * 100 :: u32) = ascii_chars cs * 100"
    using text_chars_le [of cs] assms(2) by (auto intro!: percent_bound [where k = ?n])
  have i: "uint (of_nat (text_chars cs) * 100 :: u32) = int (text_chars cs * 100)" "uint (of_nat ?n :: u32) = int ?n"
    using p(1) n by (metis uint_nat)+
  have d: "nat (int (text_chars cs) * 100 div int (length cs)) = text_chars cs * 100 div length cs"
    using nat_int [of "text_chars cs * 100 div length cs"] by (simp add: zdiv_int)
  show ?thesis using small n p i d
    by (simp add: check_if_text_def text_loop_utf8 [OF assms(1)] AFL_TXT_MIN_PERCENT_def Let_def mult.commute)
qed

theorem check_if_text_buf_witness:
  "check_if_text_buf [104, 195, 164] = 2 \<and> unat (check_if_text_buf [104, 195, 164]) \<noteq> 3"
proof -
  have u: "utf8_text [0x68, 0xE4] = [104, 195, 164]" by code_simp
  have "list_all scalar [0x68, 0xE4]" "text_chars [0x68, 0xE4] = 2" "ascii_chars [0x68, 0xE4] = 1" by (simp_all add: scalar_def textual_def)
  with check_if_text_buf_utf8 [of "[0x68, 0xE4]"] show ?thesis unfolding u by (simp add: word_unat_eq_iff)
qed

lemma utf8_text_replicate: "utf8_text (replicate n 0x41) = replicate n 65" "text_chars (replicate n 0x41) = n" "ascii_chars (replicate n 0x41) = n"
  by (induction n) (simp_all add: encode_ascii byte_def textual_def)

theorem check_if_text_witness: "check_if_text 70000 (Some (replicate 70000 65)) = 2 \<and> check_if_text 12 (Some (replicate 12 65)) = 0"
proof -
  have "list_all scalar (replicate n 0x41)" for n by (simp add: list_all_iff scalar_def)
  with check_if_text_utf8 [of "replicate 70000 0x41" "[]"] check_if_text_utf8 [of "replicate 12 0x41" "[]"] show ?thesis
    unfolding utf8_text_replicate by simp
qed

end
