(* ===== verification/Spec2Isabelle.thy ===== *)
theory Spec2Isabelle
  imports Base64 Colorize Hashmap Sha1 Det_Run Cull Cache Havoc_Run Trim Save Text
begin

text \<open>
  \<^bold>\<open>A verified model of the core of AFL++.\<close>

  AFL++ (\<^verbatim>\<open>src/AFLplusplus\<close>) is a coverage-guided fuzzer. It runs a target on mutated inputs; the target counts the edges it
  executes in a map of bytes. Inputs that reach something new join a queue, a small set of favored queue entries is
  computed from their traces, and each entry taken from the queue goes through deterministic stages (guided by a map of
  effective bytes and by dictionaries) and random stages. The development models this core in the order the data flows:

  \<^item> \<open>Prelude\<close>: machine integers as words, byte buffers whose accesses fail outside their bounds, little-endian word access,
    the interface \<open>c_qsort\<close> of C's \<open>qsort\<close>, shared lemmas.
  \<^item> \<open>Coverage\<close> (\<^verbatim>\<open>afl-fuzz-bitmap.c\<close>, \<^verbatim>\<open>coverage-64.h\<close>, \<^verbatim>\<open>coverage-32.h\<close>): hit-count classes, \<open>has_new_bits\<close> in all flavours against
    the virgin maps, the map counters, \<open>minimize_bits\<close>. The word-wise, vectorised and lazily classifying routines are
    shown equal to byte-level specifications.
  \<^item> \<open>Hashmap\<close> (\<^verbatim>\<open>hashmap.c\<close>): the table of comparison operands, refined to a set of typed keys.
  \<^item> \<open>Rand\<close>, \<open>Sha1\<close> (\<^verbatim>\<open>afl-performance.c\<close>, the inline functions of \<^verbatim>\<open>afl-fuzz.h\<close>): the generators, unbiased range reduction and the
    interface \<open>rng\<close> its clients rely on; SHA-1 and HMAC refined to their published definitions.
  \<^item> \<open>Alloc\<close> (\<^verbatim>\<open>alloc-inl.h\<close>): the growing buffers of \<open>afl_realloc\<close>.
  \<^item> \<open>Queue\<close>, \<open>Cull\<close> (\<^verbatim>\<open>afl-fuzz-queue.c\<close>): the contest of the entries for map bytes with exact reference counts, the favored
    entries and what they cover. \<open>Cache\<close> (same file): the cache of test cases, shown transparent, exact in its bookkeeping
    and never stuck.
  \<^item> \<open>Extras\<close> (\<^verbatim>\<open>afl-fuzz-extras.c\<close>): parsing, sorting, de-duplicating and extending dictionaries.
  \<^item> \<open>Stage\<close>, \<open>Skipdet\<close> (\<^verbatim>\<open>afl-fuzz-skipdet.c\<close>): a state monad with the jumps of the stages, which seeds are fuzzed
    deterministically and the inference of effective bytes.
  \<^item> \<open>Dedup\<close>, \<open>Det\<close>, \<open>Det_Safe\<close>, \<open>Det_Run\<close> (\<^verbatim>\<open>afl-fuzz-one.c\<close>): the redundancy checks and the deterministic stages of
    \<open>fuzz_one_original\<close>. \<open>Det_Safe\<close> has a total-correctness logic for stages in the locale \<open>stage_env\<close>, interpreted on the
    real dictionary code, and shows that every stage is memory safe and restores the input; \<open>Det_Run\<close> shows which inputs
    the target is run on.
  \<^item> \<open>Havoc\<close>, \<open>Havoc_Safe\<close>, \<open>Havoc_Run\<close> (\<^verbatim>\<open>afl-mutations.h\<close>, \<^verbatim>\<open>afl-fuzz-one.c\<close>): the random mutations, the havoc stage that stacks
    them and the splicing of queue entries. Every mutation refines an abstract edit of the input within the length limits, the
    stage is memory safe and starts each round from the same input, and its retries and those of splicing end. What this needs of
    the rest of the fuzzer is \<open>havoc_contract\<close>; the end of the retries is derived from the fairness of the generator.
  \<^item> \<open>Trim\<close>, \<open>Calibrate\<close> (\<^verbatim>\<open>afl-fuzz-run.c\<close>): trimming an entry while its trace keeps its hash, and calibrating an entry by
    repeated runs that mark the variable bytes of the map.
  \<^item> \<open>Save\<close> (\<open>save_if_interesting\<close> of \<^verbatim>\<open>afl-fuzz-bitmap.c\<close>, \<open>add_to_queue\<close> of \<^verbatim>\<open>afl-fuzz-queue.c\<close>, \<open>common_fuzz_stuff\<close> of
    \<^verbatim>\<open>afl-fuzz-run.c\<close>): what becomes of an input after its run. It builds on \<open>Coverage\<close>, \<open>Queue\<close> and \<open>Calibrate\<close>, whose
    invariants are part of its own.
  \<^item> \<open>Text\<close> (\<^verbatim>\<open>afl-fuzz-queue.c\<close>): the detection of text, against an encoder of UTF-8.
  \<^item> \<open>Colorize\<close>, \<open>Base64\<close> (\<^verbatim>\<open>afl-fuzz-redqueen.c\<close>): two parts of the input-to-state stage. Colorization replaces as many bytes as it can
    without leaving the path, within a bound on the runs, and its list of tainted positions is shown exact; the base64 decoder
    inverts the encoder.
  \<^item> This theory: a property that spans \<open>Coverage\<close>, \<open>Queue\<close>, \<open>Cull\<close> and \<open>Skipdet\<close>.

  \<^bold>\<open>State.\<close> The fields of \<open>afl_state_t\<close> a component uses are a record of its theory; a pointer to a queue entry is its index.
  Stateful code passes the record on. \<open>None\<close> stands for an access outside a buffer, a fatal error or a loop that does not
  end, so every theorem that concludes \<open>= Some\<close> is also a statement of memory safety and termination.

  \<^bold>\<open>Parameters.\<close> Running the target (\<open>stage_ops\<close>, \<open>run_ops\<close>, \<open>save_ops\<close>), the clock, the random numbers of a stage, the XXH3 hash, files,
  the success of \<open>malloc\<close> and the order \<open>qsort\<close> gives to equal elements are arguments of the definitions. The theorems either
  hold for all of them or name what they need: a draw below its limit (\<open>rng\<close>), a generator that draws every number at some time
  (\<open>fair_draw\<close>), also in pairs (\<open>fair_pairs\<close>) and in rounds with up to two draws in between (\<open>fair_rounds\<close>), a target that leaves the dictionary well-formed (\<open>dict_ok\<close>), traces of full length (\<open>full_traces\<close>), a target that
  can be executed (\<open>\<not> run_errors\<close>).

  \<^bold>\<open>Loops.\<close> Loops with a counter are recursive functions or \<open>for_range\<close>; the others are \<open>partial_function (option)\<close> with a
  proof that they return. No fuel is used.

  \<^bold>\<open>Simplifications.\<close> The records leave out fields no modelled operation reads. In the deterministic stages the contents of a
  dictionary are read once at the start of the stage that uses it, and the growth of the output buffer is modelled without
  the rounding of \<open>afl_realloc\<close>. The stages run the target through the operation \<open>common_fuzz_stuff\<close> of their environment, while
  \<open>common_fuzz_stuff_full\<close> of \<open>Save\<close> is the function itself. Files are lists of contents without names. Builds are the little-endian 64-bit ones unless a definition says otherwise;
  \<open>INTROSPECTION\<close> code is left out.

  \<^bold>\<open>Not modelled.\<close> The MOpt stage, the rest of cmplog (the replacement of operands in \<^verbatim>\<open>afl-fuzz-redqueen.c\<close>), queue selection by weights (floating point), the fork server, start-up, statistics and
  the command line tools (processes, files and terminal), plug-in mutators, instrumentation passes and the run time in the
  target, emulator back ends, vendored libraries and the bundled third-party mutators.

  \<^bold>\<open>Flaws shown.\<close> Several theorems and lemmas state behaviour the source does not intend: the ignored key of
  \<open>hashmap_search_and_add_ptr\<close>, built-in values that are missed by \<open>maybe_add_auto\<close>, empty dictionary tokens, stale bytes in
  the insertion stages, a map byte no favored entry covers, compact traces of the wrong entry after rescoring, the size of
  the test case cache after trimming, new coverage judged on unclassified counts and a hang that is queued without end in
  \<open>save_if_interesting\<close>, text with characters outside ASCII that is not taken for text, spliced inputs that restart the other input at the split point, and
  a base64 encoder that reads behind its input.
\<close>

section \<open>From a trace to the deterministic stages\<close>

text \<open>What the deterministic stages read of queue entry \<open>q\<close>.\<close>

definition det_view :: "afl_queue \<Rightarrow> nat \<Rightarrow> 'g skipdet \<Rightarrow> 'g skipdet" where
  "det_view s q d = d\<lparr>q_favored := qe_favored (queue_buf s ! q), trace_mini := qe_trace_mini (queue_buf s ! q)\<rparr>"

lemma det_view_simps [simp]:
  "det_map_size (det_view s q d) = det_map_size d" "det_virgin (det_view s q d) = det_virgin d"
  "q_favored (det_view s q d) = qe_favored (queue_buf s ! q)" "trace_mini (det_view s q d) = qe_trace_mini (queue_buf s ! q)"
  by (simp_all add: det_view_def det_virgin_def split: option.split)

lemma mini_bit_trace_bit: "i < 8 * length m \<Longrightarrow> mini_bit m i \<longleftrightarrow> trace_bit m i"
  unfolding mini_bit_def trace_bit_def by (subst bit_test) auto

text \<open>C40. Scoring, culling and the choice of seeds for the deterministic stages fit together: for a new entry (no compact
  trace yet) the three steps never fail, the entry is only accepted if the culling favored it, and accepting it marks in
  the bitmap of deterministically fuzzed bytes exactly the non-zero bytes of the trace the entry was scored with.\<close>

theorem new_entry_det_fuzz:
  assumes "queue_inv s" and "q < length (queue_buf s)" and "qe_trace_mini (queue_buf s ! q) = None"
    and "\<not> non_instrumented_mode s" and "unat (map_size s) = 8 * n" and "n \<le> length (map_tmp_buf s)"
    and "unat (Queue.queued_items s) = length (queue_buf s)"
    and "det_map_size d = unat (map_size s)" and "length (det_virgin d) = unat (map_size s)"
  shows "\<exists>s1 s2 r d'. update_bitmap_score s q True = Some s1 \<and> cull_queue s1 = Some s2
      \<and> should_det_fuzz ops (det_view s2 q d) = Some (r, d') \<and> (r \<longrightarrow> q \<in> favored_set s2)
      \<and> (\<forall>i<unat (map_size s). det_virgin d' ! i \<noteq> 0 \<longleftrightarrow> det_virgin d ! i \<noteq> 0 \<or> r \<and> trace_bits s ! i \<noteq> 0)"
proof -
  obtain s1 where s1: "update_bitmap_score s q True = Some s1" "queue_inv s1" "scored q s s1"
    using update_bitmap_score_spec [OF assms(1,2)] by blast
  have mini1: "\<forall>m. qe_trace_mini (queue_buf s1 ! q) = Some m \<longrightarrow> compact_trace s m"
    using s1(3) assms(2,3) by (auto simp: scored_def rescored_def)
  obtain buf tr sc where eq: "s1 = s\<lparr>queue_buf := buf, top_rated := tr, score_changed := sc\<rparr>" and len: "length buf = length (queue_buf s)"
    using s1(3) unfolding scored_def by fastforce
  obtain s2 where s2: "cull_queue s1 = Some s2" "length (queue_buf s2) = length (queue_buf s)"
    "qe_trace_mini (queue_buf s2 ! q) = qe_trace_mini (queue_buf s1 ! q) \<or> qe_trace_mini (queue_buf s2 ! q) = None"
    using cull_queue_traces [OF s1(2), of n] assms(2,4-7) len by (auto simp: eq)
  let ?d = "det_view s2 q d"
  have mini: "compact_trace s m" if "trace_mini ?d = Some m" for m
    using s2(3) mini1 that by auto
  have "det_maps_ok ?d"
    using mini assms(8,9) by (auto simp: det_maps_ok_def compact_trace_def)
  then obtain r d' where r: "should_det_fuzz ops ?d = Some (r, d')" "r \<Longrightarrow> q_favored ?d \<and> trace_mini ?d \<noteq> None"
    "\<forall>i<unat (map_size s). (det_virgin d' ! i \<noteq> 0)
       = (det_virgin d ! i \<noteq> 0 \<or> r \<and> (\<exists>m. trace_mini ?d = Some m \<and> mini_bit m i))"
    using should_det_fuzz_spec [of ?d ops] assms(8) by auto
  have "(\<exists>m. trace_mini ?d = Some m \<and> mini_bit m i) \<longleftrightarrow> trace_bits s ! i \<noteq> 0" if "r" "i < unat (map_size s)" for i
  proof -
    obtain m where m: "trace_mini ?d = Some m" "compact_trace s m" using r(2) \<open>r\<close> mini by blast
    then have "mini_bit m i \<longleftrightarrow> trace_bit m i" using that(2) by (intro mini_bit_trace_bit) (simp add: compact_trace_def)
    then show ?thesis using m that(2) by (simp add: compact_trace_def)
  qed
  moreover have "q \<in> favored_set s2" if r using r(2) [OF that] s2(2) assms(2) by (simp add: favored_set_def)
  ultimately show ?thesis using s1(1) s2(1) r(1,3) by (intro exI [of _ s1] exI [of _ s2] exI [of _ r] exI [of _ d']) auto
qed

theorem new_entry_det_fuzz_witness:
  "\<exists>s1 s2 r d'. update_bitmap_score queue_example 0 True = Some s1 \<and> cull_queue s1 = Some s2
      \<and> should_det_fuzz det_example_ops (det_view s2 0 skipdet_example) = Some (r, d')
      \<and> (det_virgin d' ! 1 \<noteq> 0 \<longleftrightarrow> det_virgin skipdet_example ! 1 \<noteq> 0 \<or> r)"
proof -
  have "0 < length (queue_buf queue_example)" "qe_trace_mini (queue_buf queue_example ! 0) = None"
    "\<not> non_instrumented_mode queue_example" "unat (map_size queue_example) = 8 * 1" "1 \<le> length (map_tmp_buf queue_example)"
    "unat (Queue.queued_items queue_example) = length (queue_buf queue_example)"
    "det_map_size skipdet_example = unat (map_size queue_example)"
    "length (det_virgin skipdet_example) = unat (map_size queue_example)"
    by (simp_all add: queue_example_def example_entry_def skipdet_example_def det_virgin_def)
  from new_entry_det_fuzz [OF queue_inv_example this, of det_example_ops] show ?thesis
    by (elim exE conjE, intro exI conjI) (assumption, assumption, assumption, simp)
qed

end
